(* ===== verification/Prelude.thy ===== *)
theory Prelude
  imports Main "HOL-Library.Word"
begin

text \<open>
  Shared vocabulary of the development: the machine integers of \<^verbatim>\<open>libs/defs.h\<close>, the
  error codes of \<^verbatim>\<open>libs/error.h\<close>, the result type of kernel code and the generic
  lemmas on words, lists and options that the component theories use.

  Kernel code can return, fail an \<^verbatim>\<open>assert\<close> (or call \<^verbatim>\<open>panic\<close>), or loop
  forever.  The type \<open>'a prog\<close> keeps the three apart: \<open>Some (Inr x)\<close> returns \<open>x\<close>,
  \<open>Some (Inl p)\<close> panics, and \<open>None\<close> does not return.
\<close>

unbundle bit_operations_syntax

section \<open>Collections of facts\<close>

named_theorems kdefs \<open>unfolding rules of the result type\<close>
named_theorems word_nat \<open>reading word arithmetic as arithmetic on natural numbers\<close>

section \<open>Machine integers and error codes\<close>

type_synonym u8 = "8 word"
type_synonym u16 = "16 word"
type_synonym u32 = "32 word"
type_synonym u64 = "64 word"

abbreviation (input) E_INVAL :: int where "E_INVAL \<equiv> 3"
abbreviation (input) E_NO_MEM :: int where "E_NO_MEM \<equiv> 4"
abbreviation (input) E_BUSY :: int where "E_BUSY \<equiv> 15"
abbreviation (input) E_NOENT :: int where "E_NOENT \<equiv> 16"
abbreviation (input) E_MAX_OPEN :: int where "E_MAX_OPEN \<equiv> 22"

section \<open>Results of kernel code\<close>

datatype panic = AssertFail | Panic string

type_synonym 'a prog = "(panic + 'a) option"

definition kret :: "'a \<Rightarrow> 'a prog" where
  "kret x = Some (Inr x)"

definition kpanic :: "panic \<Rightarrow> 'a prog" where
  "kpanic p = Some (Inl p)"

definition kbind :: "'a prog \<Rightarrow> ('a \<Rightarrow> 'b prog) \<Rightarrow> 'b prog" where
  "kbind m f = Option.bind m (\<lambda>r. case r of Inl p \<Rightarrow> Some (Inl p) | Inr x \<Rightarrow> f x)"

definition kassert :: "bool \<Rightarrow> 'a prog \<Rightarrow> 'a prog" where
  "kassert b m = (if b then m else kpanic AssertFail)"

lemma kbind_kret [simp]: "kbind (kret x) f = f x"
  by (simp add: kbind_def kret_def)

lemma kbind_kpanic [simp]: "kbind (kpanic p) f = kpanic p"
  by (simp add: kbind_def kpanic_def)

lemma kbind_None [simp]: "kbind None f = None"
  by (simp add: kbind_def)

lemma kassert_True [simp]: "kassert True m = m"
  and kassert_False [simp]: "kassert False m = kpanic AssertFail"
  by (simp_all add: kassert_def)

lemma kret_inject [simp]: "kret x = kret y \<longleftrightarrow> x = y"
  by (simp add: kret_def)

lemma kret_neq [simp]: "kret x \<noteq> kpanic p" "kpanic p \<noteq> kret x" "kret x \<noteq> None" "None \<noteq> kret x"
  by (simp_all add: kret_def kpanic_def)

lemma kpanic_inject [simp]: "kpanic p = kpanic q \<longleftrightarrow> p = q"
  by (simp add: kpanic_def)

lemma kbind_eq_kret: "kbind m f = kret y \<longleftrightarrow> (\<exists>x. m = kret x \<and> f x = kret y)"
  by (cases m) (auto simp: kbind_def kret_def split: sum.splits)

lemma kassert_eq_kret [simp]: "kassert b m = kret y \<longleftrightarrow> b \<and> m = kret y"
  by (simp add: kassert_def)

lemma kbind_mono [partial_function_mono]:
  assumes "mono_option B" and "\<And>y. mono_option (\<lambda>f. C y f)"
  shows "mono_option (\<lambda>f. kbind (B f) (\<lambda>y. C y f))"
  unfolding kbind_def
proof (rule bind_mono [OF assms(1)])
  fix r
  show "mono_option (\<lambda>f. case r of Inl p \<Rightarrow> Some (Inl p) | Inr x \<Rightarrow> C x f)"
    by (cases r) (auto intro: assms(2) option.const_mono)
qed

lemma kassert_mono [partial_function_mono]:
  assumes "mono_option B"
  shows "mono_option (\<lambda>f. kassert b (B f))"
  using assms by (cases b) (auto intro: option.const_mono)

text \<open>A read through a null pointer does not happen in a correct run; it is a panic here.\<close>

definition null_deref :: "'a prog" where
  "null_deref = kpanic (Panic ''null pointer'')"

definition deref :: "'p option \<Rightarrow> ('p \<Rightarrow> 'a prog) \<Rightarrow> 'a prog" where
  "deref p f = (case p of None \<Rightarrow> null_deref | Some x \<Rightarrow> f x)"

lemma deref_simps [simp]: "deref (Some x) f = f x" "deref None f = null_deref"
  by (simp_all add: deref_def)

lemma deref_mono [partial_function_mono]:
  assumes "\<And>y. mono_option (\<lambda>f. C y f)"
  shows "mono_option (\<lambda>f. deref p (\<lambda>y. C y f))"
  using assms by (cases p) (auto intro: option.const_mono)

section \<open>Words as natural numbers\<close>

lemma unat_add_noov [word_nat]:
  fixes a b :: "'w::len word"
  shows "unat a + unat b < 2 ^ LENGTH('w) \<Longrightarrow> unat (a + b) = unat a + unat b"
  by (simp add: unat_word_ariths)

lemma unat_diff_le [word_nat]:
  fixes a b :: "'w::len word"
  shows "unat b \<le> unat a \<Longrightarrow> unat (a - b) = unat a - unat b"
  by (simp add: unat_sub word_le_nat_alt)

lemma unat_u32 [simp]: "unat (w :: u32) < 2 ^ 32" "unat (w :: u32) < 4294967296"
  using unsigned_less [of w] by simp_all

lemma unat_inc [word_nat]:
  fixes x y :: "'w::len word"
  assumes "x < y"
  shows "unat (x + 1) = unat x + 1"
proof -
  have "unat x + 1 \<le> unat y" using assms by (simp add: word_less_nat_alt)
  also have "\<dots> < 2 ^ LENGTH('w)" by (rule unsigned_less)
  finally show ?thesis using unat_add_noov [of x 1] by simp
qed

lemma bit_two_pow [simp]: "bit (2 ^ k :: u32) n \<longleftrightarrow> n = k \<and> k < 32"
  by (auto simp: bit_exp_iff)

lemmas word_cmp_nat = word_le_nat_alt word_less_nat_alt

section \<open>Rounding (\<^verbatim>\<open>libs/defs.h\<close>)\<close>

definition ROUNDDOWN :: "u32 \<Rightarrow> u32 \<Rightarrow> u32" where
  "ROUNDDOWN a n = a - a mod n"

definition ROUNDUP :: "u32 \<Rightarrow> u32 \<Rightarrow> u32" where
  "ROUNDUP a n = ROUNDDOWN (a + n - 1) n"

definition ROUNDUP_DIV :: "u32 \<Rightarrow> u32 \<Rightarrow> u32" where
  "ROUNDUP_DIV a n = (a + n - 1) div n"

lemma unat_ROUNDDOWN: "unat (ROUNDDOWN a n) = unat a - unat a mod unat n"
  unfolding ROUNDDOWN_def
  by (metis mod_less_eq_dividend unat_diff_le unat_mod)

lemma ROUNDDOWN_le: "unat (ROUNDDOWN a n) \<le> unat a"
  by (simp add: unat_ROUNDDOWN)

lemma ROUNDDOWN_dvd: "unat n dvd unat (ROUNDDOWN a n)"
  by (simp add: unat_ROUNDDOWN dvd_minus_mod)

lemma ROUNDDOWN_gt:
  assumes "n \<noteq> 0"
  shows "unat a < unat (ROUNDDOWN a n) + unat n"
proof -
  have "unat a mod unat n < unat n"
    using assms by (simp add: unat_gt_0)
  then show ?thesis by (simp add: unat_ROUNDDOWN)
qed

lemma unat_ROUNDUP:
  assumes "n \<noteq> 0" and "unat a + unat n \<le> 2 ^ 32"
  shows "unat (ROUNDUP a n) = ((unat a + unat n - 1) div unat n) * unat n"
proof -
  have n: "1 \<le> unat n" using assms(1) by (simp add: Suc_leI unat_gt_0)
  then have n1: "unat (n - 1) = unat n - 1" by (simp add: unat_diff_le)
  have "unat (a + (n - 1)) = unat a + unat (n - 1)"
    using assms(2) n by (intro unat_add_noov) (simp add: n1)
  then have "unat (a + n - 1) = unat a + unat n - 1"
    using n by (simp only: add_diff_eq n1)
  then show ?thesis using n
    by (simp add: ROUNDUP_def unat_ROUNDDOWN minus_mod_eq_div_mult)
qed

end
