(* ===== verification/Rbtree_Proof.thy ===== *)
theory Rbtree_Proof
  imports Rbtree
begin

text \<open>
  Correctness of the red-black tree operations.  A tree in memory is described by a value of
  type \<open>rbt\<close>; \<open>focus T p t k\<close> says that the memory of \<open>T\<close> holds the subtree \<open>t\<close> at the
  pointer \<open>p\<close>, and around it the path \<open>k\<close> up to the root.  Moving the focus costs
  nothing (\<open>focus_up\<close>), so each pointer operation is described once, at the node it changes.
\<close>

section \<open>Trees, paths and their representation\<close>

datatype rbt = Lf | Nd rb_colour rbt nat rbt

definition mk :: "rb_dir \<Rightarrow> rb_colour \<Rightarrow> rbt \<Rightarrow> nat \<Rightarrow> rbt \<Rightarrow> rbt" where
  "mk d c a x b = (case d of DirL \<Rightarrow> Nd c a x b | DirR \<Rightarrow> Nd c b x a)"

lemma mk_simps: "mk DirL c a x b = Nd c a x b" "mk DirR c a x b = Nd c b x a"
  by (simp_all add: mk_def)

lemma flip_flip [simp]: "flip (flip d) = d"
  by (cases d) simp_all

lemma flip_neq [simp]: "flip d \<noteq> d" "d \<noteq> flip d"
  by (cases d; simp)+

lemma dir_cases: "e = d \<or> e = flip d"
  by (cases d; cases e) simp_all

lemma mk_flip: "mk (flip d) c a x b = mk d c b x a"
  by (cases d) (simp_all add: mk_def)

primrec tset :: "rbt \<Rightarrow> nat set" where
  "tset Lf = {}"
| "tset (Nd c l x r) = insert x (tset l \<union> tset r)"

primrec tok :: "rbt \<Rightarrow> bool" where
  "tok Lf = True"
| "tok (Nd c l x r) =
     (x \<notin> tset l \<and> x \<notin> tset r \<and> tset l \<inter> tset r = {} \<and> tok l \<and> tok r)"

primrec inorder :: "rbt \<Rightarrow> nat list" where
  "inorder Lf = []"
| "inorder (Nd c l x r) = inorder l @ x # inorder r"

lemma set_inorder [simp]: "set (inorder t) = tset t"
  by (induction t) auto

lemma distinct_inorder [simp]: "distinct (inorder t) = tok t"
  by (induction t) auto

lemma tset_mk [simp]: "tset (mk d c a x b) = insert x (tset a \<union> tset b)"
  by (cases d) (auto simp: mk_def)

lemma tok_mk [simp]: "tok (mk d c a x b) \<longleftrightarrow>
    x \<notin> tset a \<and> x \<notin> tset b \<and> tset a \<inter> tset b = {} \<and> tok a \<and> tok b"
  by (cases d) (auto simp: mk_def)

definition join :: "rb_dir \<Rightarrow> 'a list \<Rightarrow> 'a list \<Rightarrow> 'a list" where
  "join d xs ys = (case d of DirL \<Rightarrow> xs @ ys | DirR \<Rightarrow> ys @ xs)"

lemma join_assoc: "join d xs (join d ys zs) = join d (join d xs ys) zs"
  by (cases d) (simp_all add: join_def)

lemma inorder_mk: "inorder (mk d c a x b) = join d (inorder a) (join d [x] (inorder b))"
  by (cases d) (simp_all add: mk_def join_def)

primrec repr :: "(nat \<Rightarrow> rb_node) \<Rightarrow> nat option \<Rightarrow> nat option \<Rightarrow> rbt \<Rightarrow> bool" where
  "repr h par p Lf \<longleftrightarrow> p = None"
| "repr h par p (Nd c l x r) \<longleftrightarrow>
     p = Some x \<and> rb_parent (h x) = par \<and> rb_color (h x) = c \<and>
     repr h (Some x) (rb_left (h x)) l \<and> repr h (Some x) (rb_right (h x)) r"

lemma repr_mk: "repr h par p (mk d c a x b) \<longleftrightarrow>
    p = Some x \<and> rb_parent (h x) = par \<and> rb_color (h x) = c \<and>
    repr h (Some x) (rb_child d (h x)) a \<and> repr h (Some x) (rb_child (flip d) (h x)) b"
  by (cases d) (auto simp: mk_def rb_child_def)

lemma repr_cong: "(\<And>n. n \<in> tset t \<Longrightarrow> h' n = h n) \<Longrightarrow> repr h' par p t = repr h par p t"
  by (induction t arbitrary: par p) auto

lemma repr_frame:
  "repr h par p t \<Longrightarrow> (\<And>n. n \<in> tset t \<Longrightarrow> h' n = h n) \<Longrightarrow> repr h' par p t"
  using repr_cong by blast

lemma repr_ptr: "repr h par p t \<Longrightarrow> p = (case t of Lf \<Rightarrow> None | Nd c l x r \<Rightarrow> Some x)"
  by (cases t) auto

lemma repr_ptr_in: "repr h par (Some x) t \<Longrightarrow> x \<in> tset t"
  by (cases t) auto

lemma repr_ptr_neq: "repr h par p t \<Longrightarrow> x \<notin> tset t \<Longrightarrow> p \<noteq> Some x"
  by (cases t) auto

lemma repr_det: "repr h par p t \<Longrightarrow> repr h par p t' \<Longrightarrow> t = t'"
proof (induction t arbitrary: par p t')
  case Lf
  then show ?case by (cases t') auto
next
  case (Nd c l x r)
  then show ?case by (cases t') auto
qed

text \<open>Changing the parent of the root of a subtree.\<close>

definition reparent :: "nat option \<Rightarrow> nat option \<Rightarrow> (nat \<Rightarrow> rb_node) \<Rightarrow> nat \<Rightarrow> rb_node" where
  "reparent q p h = (case q of None \<Rightarrow> h | Some n \<Rightarrow> h(n := (h n)\<lparr>rb_parent := p\<rparr>))"

lemma repr_reparent:
  assumes "repr h par p t" and "tok t"
  shows "repr (reparent p par' h) par' p t"
proof (cases t)
  case Lf
  with assms show ?thesis by simp
next
  case (Nd c l x r)
  let ?h = "h(x := (h x)\<lparr>rb_parent := par'\<rparr>)"
  have "repr ?h (Some x) q l = repr h (Some x) q l" "repr ?h (Some x) q r = repr h (Some x) q r"
    for q using assms(2) Nd by (auto intro!: repr_cong)
  with assms(1) Nd show ?thesis by (auto simp: reparent_def)
qed

lemma reparent_same [simp]: "q \<noteq> Some n \<Longrightarrow> reparent q p h n = h n"
  by (auto simp: reparent_def split: option.splits)

lemma reparent_Some: "reparent (Some n) p h = h(n := (h n)\<lparr>rb_parent := p\<rparr>)"
  and reparent_None: "reparent None p h = h"
  by (simp_all add: reparent_def)

lemma reparent_cong: "h z = h' z \<Longrightarrow> reparent q p h z = reparent q p h' z"
  by (auto simp: reparent_def split: option.splits)

lemma reparent_swap:
  "q \<noteq> Some y \<Longrightarrow> reparent q a (reparent (Some y) b h) = reparent (Some y) b (reparent q a h)"
  by (cases q) (auto simp: reparent_Some reparent_None)

datatype step = Step (sdir: rb_dir) (scol: rb_colour) (snode: nat) (ssib: rbt)

type_synonym path = "step list"

definition kpar :: "path \<Rightarrow> nat option" where
  "kpar k = (case k of [] \<Rightarrow> None | s # _ \<Rightarrow> Some (snode s))"

lemma kpar_simps [simp]: "kpar [] = None" "kpar (s # k) = Some (snode s)"
  by (simp_all add: kpar_def)

primrec kset :: "path \<Rightarrow> nat set" where
  "kset [] = {}"
| "kset (s # k) = insert (snode s) (tset (ssib s) \<union> kset k)"

primrec kok :: "path \<Rightarrow> bool" where
  "kok [] = True"
| "kok (s # k) =
     (snode s \<notin> tset (ssib s) \<and> snode s \<notin> kset k \<and> tset (ssib s) \<inter> kset k = {} \<and>
      tok (ssib s) \<and> kok k)"

primrec kctx :: "(nat \<Rightarrow> rb_node) \<Rightarrow> nat option \<Rightarrow> nat option \<Rightarrow> path \<Rightarrow> bool" where
  "kctx h rt p [] \<longleftrightarrow> rt = p"
| "kctx h rt p (s # k) \<longleftrightarrow>
     rb_child (sdir s) (h (snode s)) = p \<and> rb_color (h (snode s)) = scol s \<and>
     rb_parent (h (snode s)) = kpar k \<and>
     repr h (Some (snode s)) (rb_child (flip (sdir s)) (h (snode s))) (ssib s) \<and>
     kctx h rt (Some (snode s)) k"

primrec plug :: "path \<Rightarrow> rbt \<Rightarrow> rbt" where
  "plug [] t = t"
| "plug (s # k) t = plug k (mk (sdir s) (scol s) t (snode s) (ssib s))"

lemma plug_append [simp]: "plug (k @ k') t = plug k' (plug k t)"
  by (induction k arbitrary: t) auto

lemma kctx_cong: "(\<And>n. n \<in> kset k \<Longrightarrow> h' n = h n) \<Longrightarrow> kctx h' rt p k = kctx h rt p k"
proof (induction k arbitrary: p)
  case Nil
  then show ?case by simp
next
  case (Cons s k)
  have "repr h' q p (ssib s) = repr h q p (ssib s)" for q p
    using Cons.prems by (intro repr_cong) auto
  with Cons show ?case by simp
qed

lemma kctx_frame:
  "kctx h rt p k \<Longrightarrow> (\<And>n. n \<in> kset k \<Longrightarrow> h' n = h n) \<Longrightarrow> kctx h' rt p k"
  using kctx_cong by blast

primrec kleft :: "path \<Rightarrow> nat list" where
  "kleft [] = []"
| "kleft (s # k) = kleft k @ (case sdir s of DirL \<Rightarrow> [] | DirR \<Rightarrow> inorder (ssib s) @ [snode s])"

primrec kright :: "path \<Rightarrow> nat list" where
  "kright [] = []"
| "kright (s # k) = (case sdir s of DirL \<Rightarrow> snode s # inorder (ssib s) | DirR \<Rightarrow> []) @ kright k"

lemma inorder_plug: "inorder (plug k t) = kleft k @ inorder t @ kright k"
  by (induction k arbitrary: t) (auto simp: inorder_mk join_def split: rb_dir.splits)

definition focus :: "rb_tree \<Rightarrow> nat option \<Rightarrow> rbt \<Rightarrow> path \<Rightarrow> bool" where
  "focus T p t k \<longleftrightarrow>
     repr (rb_nodes T) (kpar k) p t \<and> kctx (rb_nodes T) (rb_root T) p k \<and>
     tok t \<and> kok k \<and> tset t \<inter> kset k = {}"

lemma focus_up:
  "focus T (rb_child d (rb_nodes T x)) t (Step d c x s # k) \<longleftrightarrow>
     focus T (Some x) (mk d c t x s) k"
  by (auto simp: focus_def repr_mk)

lemma focus_up_ptr:
  "focus T p t (Step d c x s # k) \<Longrightarrow>
     p = rb_child d (rb_nodes T x) \<and> focus T (Some x) (mk d c t x s) k"
  by (auto simp: focus_def repr_mk)

lemma focus_down:
  "focus T p (mk d c t x s) k \<Longrightarrow>
     p = Some x \<and> focus T (rb_child d (rb_nodes T x)) t (Step d c x s # k)"
  by (auto simp: focus_def repr_mk)

text \<open>What a focus says of the node in focus.\<close>

lemma focus_node:
  assumes "focus T p (mk d c a x b) k"
  shows "p = Some x" and "rb_parent (rb_nodes T x) = kpar k" and "rb_color (rb_nodes T x) = c"
  using assms by (auto simp: focus_def repr_mk)

section \<open>Pointer operations at the focus\<close>

lemma rb_child_simps [simp]:
  "rb_child d (rb_with_child d v n) = v"
  "rb_child (flip d) (rb_with_child d v n) = rb_child (flip d) n"
  "rb_child d (rb_with_child (flip d) v n) = rb_child d n"
  "rb_parent (rb_with_child e v n) = rb_parent n"
  "rb_color (rb_with_child e v n) = rb_color n"
  "rb_child e (n\<lparr>rb_parent := p\<rparr>) = rb_child e n"
  "rb_child e (n\<lparr>rb_color := c\<rparr>) = rb_child e n"
  by (cases d; cases e; simp add: rb_child_def rb_with_child_def)+

lemma rb_upd_simps [simp]:
  "rb_nodes (rb_upd n f T) = (rb_nodes T)(n := f (rb_nodes T n))"
  "rb_root (rb_upd n f T) = rb_root T"
  by (simp_all add: rb_upd_def)

lemma rb_set_simps [simp]:
  "rb_nodes (rb_set_parent n p T) = (rb_nodes T)(n := (rb_nodes T n)\<lparr>rb_parent := p\<rparr>)"
  "rb_nodes (rb_set_color n c T) = (rb_nodes T)(n := (rb_nodes T n)\<lparr>rb_color := c\<rparr>)"
  "rb_nodes (rb_set_child d n v T) = (rb_nodes T)(n := rb_with_child d v (rb_nodes T n))"
  "rb_root (rb_set_parent n p T) = rb_root T"
  "rb_root (rb_set_color n c T) = rb_root T"
  "rb_root (rb_set_child d n v T) = rb_root T"
  by (simp_all add: rb_set_parent_def rb_set_color_def rb_set_child_def)

lemma rb_set_parent_ptr_simps [simp]:
  "rb_nodes (rb_set_parent_ptr q p T) = reparent q p (rb_nodes T)"
  "rb_root (rb_set_parent_ptr q p T) = rb_root T"
  by (auto simp: rb_set_parent_ptr_def reparent_def split: option.splits)

lemma focus_color:
  assumes "focus T p (mk d c a x b) k"
  shows "focus (rb_set_color x c' T) p (mk d c' a x b) k"
proof -
  let ?h = "(rb_nodes T)(x := (rb_nodes T x)\<lparr>rb_color := c'\<rparr>)"
  have "repr ?h q r a = repr (rb_nodes T) q r a" "repr ?h q r b = repr (rb_nodes T) q r b"
    "kctx ?h rt r k = kctx (rb_nodes T) rt r k" for q r rt
    using assms by (auto simp: focus_def intro!: repr_cong kctx_cong)
  with assms show ?thesis by (auto simp: focus_def repr_mk)
qed

text \<open>Redirecting the pointer into the focus.\<close>

lemma rb_relink_root: "rb_nodes (rb_relink d None x new T) = rb_nodes T"
  "rb_root (rb_relink d None x new T) = new"
  by (simp_all add: rb_relink_def)

lemma rb_relink_child:
  assumes "kctx (rb_nodes T) (rb_root T) (Some x) (s # k)" and "x \<notin> kset (s # k)"
  shows "rb_nodes (rb_relink d (Some (snode s)) x new T) =
      (rb_nodes T)(snode s := rb_with_child (sdir s) new (rb_nodes T (snode s)))"
    and "rb_root (rb_relink d (Some (snode s)) x new T) = rb_root T"
proof -
  let ?p = "rb_nodes T (snode s)"
  have "rb_child (sdir s) ?p = Some x" using assms(1) by simp
  moreover have "rb_child (flip (sdir s)) ?p \<noteq> Some x"
    using assms repr_ptr_in by fastforce
  ultimately show "rb_nodes (rb_relink d (Some (snode s)) x new T) =
      (rb_nodes T)(snode s := rb_with_child (sdir s) new ?p)"
    and "rb_root (rb_relink d (Some (snode s)) x new T) = rb_root T"
    using dir_cases [of d "sdir s"] by (auto simp: rb_relink_def)
qed

lemma kctx_relink:
  assumes k: "kctx (rb_nodes T) (rb_root T) (Some x) k" and x: "x \<notin> kset k" and ok: "kok k"
  shows "kctx (rb_nodes (rb_relink d (kpar k) x new T)) (rb_root (rb_relink d (kpar k) x new T)) new k"
    and "\<And>n. n \<notin> kset k \<Longrightarrow> rb_nodes (rb_relink d (kpar k) x new T) n = rb_nodes T n"
proof -
  let ?T = "rb_relink d (kpar k) x new T"
  have "kctx (rb_nodes ?T) (rb_root ?T) new k \<and> (\<forall>n. n \<notin> kset k \<longrightarrow> rb_nodes ?T n = rb_nodes T n)"
  proof (cases k)
    case Nil
    then show ?thesis by (simp add: rb_relink_root)
  next
    case (Cons s k')
    note R = rb_relink_child [OF k [unfolded Cons] x [unfolded Cons], of d new]
    have "repr (rb_nodes ?T) q r (ssib s) = repr (rb_nodes T) q r (ssib s)" for q r
      unfolding Cons using ok Cons by (intro repr_cong) (auto simp: R)
    moreover have "kctx (rb_nodes ?T) rt r k' = kctx (rb_nodes T) rt r k'" for rt r
      unfolding Cons using ok Cons by (intro kctx_cong) (auto simp: R)
    ultimately show ?thesis using k Cons by (auto simp: R)
  qed
  then show "kctx (rb_nodes ?T) (rb_root ?T) new k"
    and "\<And>n. n \<notin> kset k \<Longrightarrow> rb_nodes ?T n = rb_nodes T n" by auto
qed

lemma focus_rotate:
  assumes "focus T p (mk d c a x (mk d e b y g)) k"
  shows "\<exists>T'. rb_rotate d x T = kret T' \<and> focus T' (Some y) (mk d e (mk d c a x b) y g) k"
proof -
  let ?h = "rb_nodes T"
  have ra: "repr ?h (Some x) (rb_child d (?h x)) a" and rb: "repr ?h (Some y) (rb_child d (?h y)) b"
    and rg: "repr ?h (Some y) (rb_child (flip d) (?h y)) g"
    and xy: "rb_child (flip d) (?h x) = Some y" and p: "p = Some x"
    and par: "rb_parent (?h x) = kpar k" "rb_color (?h x) = c" "rb_color (?h y) = e"
    and kc: "kctx ?h (rb_root T) (Some x) k" and ok: "kok k"
    using assms by (auto simp: focus_def repr_mk)
  have dj: "x \<noteq> y" "x \<notin> tset a \<union> tset b \<union> tset g \<union> kset k" "y \<notin> tset a \<union> tset b \<union> tset g \<union> kset k"
    "tset a \<inter> tset b = {}" "tset a \<inter> tset g = {}" "tset b \<inter> tset g = {}"
    "tset a \<inter> kset k = {}" "tset b \<inter> kset k = {}" "tset g \<inter> kset k = {}"
    and toks: "tok a" "tok b" "tok g"
    using assms by (auto simp: focus_def)
  let ?q = "rb_child d (?h y)"
  define T1 where "T1 = rb_set_parent y (kpar k) (rb_set_child d y (Some x)
    (rb_set_parent_ptr ?q (Some x) (rb_set_child (flip d) x ?q T)))"
  define T2 where "T2 = rb_relink d (kpar k) x (Some y) T1"
  define T3 where "T3 = rb_set_parent x (Some y) T2"
  have run: "rb_rotate d x T = kret T3"
    using xy par by (simp add: rb_rotate_def Let_def T1_def T2_def T3_def)
  have q: "\<And>n. n \<in> insert x (insert y (kset k \<union> tset a \<union> tset g)) \<Longrightarrow> ?q \<noteq> Some n"
    using rb dj by (auto dest!: repr_ptr_in)
  have T1: "rb_nodes T1 n = ?h n" if "n \<in> kset k \<union> tset a \<union> tset g" for n
    using that dj q [of n] by (auto simp: T1_def)
  have rt: "rb_root T1 = rb_root T" by (simp add: T1_def)
  have "kctx (rb_nodes T1) (rb_root T1) (Some x) k"
    unfolding rt by (rule kctx_frame [OF kc]) (use T1 in auto)
  note K = kctx_relink [OF this _ ok, where d = d and new = "Some y", folded T2_def]
  have T3: "rb_nodes T3 n = (if n = x then (rb_nodes T1 x)\<lparr>rb_parent := Some y\<rparr> else rb_nodes T1 n)"
    if "n \<notin> kset k" for n using that K(2) dj by (simp add: T3_def)
  have "kctx (rb_nodes T2) (rb_root T2) (Some y) k" using K(1) dj by simp
  then have "kctx (rb_nodes T3) (rb_root T2) (Some y) k"
    by (rule kctx_frame) (use dj in \<open>auto simp: T3_def\<close>)
  then have 1: "kctx (rb_nodes T3) (rb_root T3) (Some y) k" by (simp add: T3_def)
  have T31: "rb_nodes T3 n = rb_nodes T1 n" if "n \<in> tset a \<union> tset b \<union> tset g" for n
  proof -
    have "n \<notin> kset k" "n \<noteq> x" using that dj by blast+
    then show ?thesis by (simp add: T3)
  qed
  have 2: "repr (rb_nodes T3) (Some x) (rb_child d (?h x)) a"
    by (rule repr_frame [OF ra]) (simp add: T1 T31)
  have 3: "repr (rb_nodes T3) (Some y) (rb_child (flip d) (?h y)) g"
    by (rule repr_frame [OF rg]) (simp add: T1 T31)
  have 4: "repr (rb_nodes T3) (Some x) ?q b"
    by (rule repr_frame [OF repr_reparent [OF rb toks(2), of "Some x"]])
      (use dj in \<open>auto simp: T31 T1_def reparent_def split: option.splits\<close>)
  have "rb_nodes T3 x = (rb_with_child (flip d) ?q (?h x))\<lparr>rb_parent := Some y\<rparr>"
    using T3 [of x] dj q [of x] by (simp add: T1_def)
  moreover have "rb_nodes T3 y = (rb_with_child d (Some x) (?h y))\<lparr>rb_parent := kpar k\<rparr>"
    using T3 [of y] dj q [of y] by (simp add: T1_def)
  ultimately have "focus T3 (Some y) (mk d e (mk d c a x b) y g) k"
    using 1 2 3 4 dj toks ok par by (auto simp: focus_def repr_mk)
  with run show ?thesis by blast
qed

text \<open>Recolouring next to the focus, and the same for the other child by symmetry.\<close>

lemma focus_color_far:
  assumes "focus T q (mk d c A g (mk d' e a u b)) k"
  shows "focus (rb_set_color u e' T) q (mk d c A g (mk d' e' a u b)) k"
proof -
  let ?T = "rb_set_color u e' T"
  have f: "q = Some g" "focus T (rb_child (flip d) (rb_nodes T g)) (mk d' e a u b) (Step (flip d) c g A # k)"
    using focus_down [of T q "flip d" c "mk d' e a u b" g A k] assms by (simp_all add: mk_flip)
  have "u \<noteq> g" using assms by (auto simp: focus_def)
  then have "rb_child (flip d) (rb_nodes ?T g) = rb_child (flip d) (rb_nodes T g)" by simp
  with focus_color [OF f(2), of e']
  have "focus ?T (rb_child (flip d) (rb_nodes ?T g)) (mk d' e' a u b) (Step (flip d) c g A # k)"
    by simp
  then show ?thesis
    unfolding focus_up using f(1) by (simp add: mk_flip)
qed

lemma focus_color_near:
  assumes "focus T q (mk d c (mk d' e a u b) g A) k"
  shows "focus (rb_set_color u e' T) q (mk d c (mk d' e' a u b) g A) k"
  using focus_color_far [of T q "flip d" c A g d' e a u b k e'] assms by (simp add: mk_flip)

lemma focus_root: "focus T p t k \<Longrightarrow> focus T (rb_root T) (plug k t) []"
proof (induction k arbitrary: p t)
  case Nil
  then show ?case by (simp add: focus_def)
next
  case (Cons s k)
  obtain d c x u where s: "s = Step d c x u" by (cases s) auto
  from Cons.prems have "focus T (Some x) (mk d c t x u) k"
    unfolding s using focus_up_ptr by blast
  then show ?case using Cons.IH by (simp add: s)
qed

lemma focus_sibling:
  assumes "focus T (Some n) t (Step d c x s # k)"
  shows "rb_child d (rb_nodes T x) = Some n" and "rb_child (flip d) (rb_nodes T x) \<noteq> Some n"
    and "rb_left (rb_nodes T x) = Some n \<longleftrightarrow> d = DirL"
proof -
  show 1: "rb_child d (rb_nodes T x) = Some n" and 2: "rb_child (flip d) (rb_nodes T x) \<noteq> Some n"
    using assms by (auto simp: focus_def dest!: repr_ptr_in)
  show "rb_left (rb_nodes T x) = Some n \<longleftrightarrow> d = DirL"
    using 1 2 by (cases d) (auto simp: rb_child_def)
qed

section \<open>The red-black invariant\<close>

definition col :: "rbt \<Rightarrow> rb_colour" where
  "col t = (case t of Lf \<Rightarrow> RB_BLACK | Nd c l x r \<Rightarrow> c)"

lemma col_simps [simp]: "col Lf = RB_BLACK" "col (mk d c a x b) = c" "col (Nd c a x b) = c"
  by (simp_all add: col_def mk_def split: rb_dir.splits)

text \<open>\<open>rbh t h\<close>: no red node of \<open>t\<close> has a red child, and every path down \<open>t\<close> has \<open>h\<close> black
  nodes.\<close>

primrec rbh :: "rbt \<Rightarrow> nat \<Rightarrow> bool" where
  "rbh Lf h \<longleftrightarrow> h = 0"
| "rbh (Nd c l x r) h \<longleftrightarrow>
     (case c of
        RB_RED \<Rightarrow> col l = RB_BLACK \<and> col r = RB_BLACK \<and> rbh l h \<and> rbh r h
      | RB_BLACK \<Rightarrow> 0 < h \<and> rbh l (h - 1) \<and> rbh r (h - 1))"

lemma rbh_mk [simp]:
  "rbh (mk d RB_RED a x b) h \<longleftrightarrow> col a = RB_BLACK \<and> col b = RB_BLACK \<and> rbh a h \<and> rbh b h"
  "rbh (mk d RB_BLACK a x b) h \<longleftrightarrow> 0 < h \<and> rbh a (h - 1) \<and> rbh b (h - 1)"
  by (auto simp: mk_def split: rb_dir.splits)

definition kcol :: "path \<Rightarrow> rb_colour" where
  "kcol k = (case k of [] \<Rightarrow> RB_BLACK | s # _ \<Rightarrow> scol s)"

lemma kcol_simps [simp]: "kcol [] = RB_BLACK" "kcol (s # k) = scol s"
  by (simp_all add: kcol_def)

text \<open>\<open>kgood k h\<close>: the path completes a subtree of black height \<open>h\<close> to a red-black tree with a
  black root.\<close>

primrec kgood :: "path \<Rightarrow> nat \<Rightarrow> bool" where
  "kgood [] h \<longleftrightarrow> True"
| "kgood (s # k) h \<longleftrightarrow>
     rbh (ssib s) h \<and>
     (case scol s of
        RB_RED \<Rightarrow> col (ssib s) = RB_BLACK \<and> k \<noteq> [] \<and> kcol k = RB_BLACK \<and> kgood k h
      | RB_BLACK \<Rightarrow> kgood k (Suc h))"

lemma rbh_plug:
  "rbh t h \<Longrightarrow> kgood k h \<Longrightarrow> (col t = RB_RED \<Longrightarrow> kcol k = RB_BLACK) \<Longrightarrow> \<exists>h'. rbh (plug k t) h'"
proof (induction k arbitrary: t h)
  case Nil
  then show ?case by auto
next
  case (Cons s k)
  show ?case
  proof (cases "scol s")
    case RB_RED
    have "rbh (mk (sdir s) (scol s) t (snode s) (ssib s)) h"
      using Cons.prems RB_RED by (cases "col t") auto
    then show ?thesis using Cons.IH [of _ h] Cons.prems RB_RED by simp
  next
    case RB_BLACK
    have "rbh (mk (sdir s) (scol s) t (snode s) (ssib s)) (Suc h)"
      using Cons.prems RB_BLACK by simp
    moreover have "kgood k (Suc h)" using Cons.prems(2) RB_BLACK by simp
    ultimately show ?thesis using Cons.IH [of _ "Suc h"] RB_BLACK by fastforce
  qed
qed

text \<open>The whole memory holds a red-black tree with a black root and the nodes \<open>xs\<close> in order.\<close>

definition rb_ok :: "rb_tree \<Rightarrow> nat list \<Rightarrow> bool" where
  "rb_ok T xs \<longleftrightarrow> (\<exists>t h. focus T (rb_root T) t [] \<and> inorder t = xs \<and> rbh t h \<and> col t = RB_BLACK)"

lemma rb_ok_det: "rb_ok T xs \<Longrightarrow> rb_ok T ys \<Longrightarrow> xs = ys"
  by (auto simp: rb_ok_def focus_def dest: repr_det)

section \<open>Rebalancing after an insertion\<close>

lemma insert_rotate:
  assumes "focus T q (mk d RB_BLACK (mk d RB_RED A P B) g s) k"
  shows "\<exists>T'. rb_rotate (flip d) g (rb_set_color g RB_RED (rb_set_color P RB_BLACK T)) = kret T' \<and>
    focus T' (Some P) (mk d RB_BLACK A P (mk d RB_RED B g s)) k"
proof -
  let ?T = "rb_set_color g RB_RED (rb_set_color P RB_BLACK T)"
  have "focus ?T q (mk d RB_RED (mk d RB_BLACK A P B) g s) k"
    by (rule focus_color [OF focus_color_near [OF assms]])
  then have "focus ?T q (mk (flip d) RB_RED s g (mk (flip d) RB_BLACK B P A)) k"
    by (simp add: mk_flip)
  from focus_rotate [OF this] show ?thesis by (simp add: mk_flip)
qed

lemma rb_insert_side_red:
  assumes f: "focus T (Some x) t (Step d1 RB_RED p s1 # Step d RB_BLACK g s2 # k)"
    and s2: "s2 = mk d RB_RED ua u ub"
  shows "\<exists>T'. rb_insert_side d x p g T = kret (T', g) \<and>
    focus T' (Some g) (mk d RB_RED (mk d1 RB_BLACK t p s1) g (mk d RB_BLACK ua u ub)) k"
proof -
  have g: "focus T (Some g) (mk d RB_BLACK (mk d1 RB_RED t p s1) g (mk d RB_RED ua u ub)) k"
    using f focus_up_ptr unfolding s2 by blast
  then have u: "rb_child (flip d) (rb_nodes T g) = Some u" "rb_color (rb_nodes T u) = RB_RED"
    by (auto simp: focus_def repr_mk)
  let ?T = "rb_set_color g RB_RED (rb_set_color p RB_BLACK (rb_set_color u RB_BLACK T))"
  have "focus ?T (Some g) (mk d RB_RED (mk d1 RB_BLACK t p s1) g (mk d RB_BLACK ua u ub)) k"
    by (rule focus_color [OF focus_color_near [OF focus_color_far [OF g]]])
  then show ?thesis
    using u by (simp add: rb_insert_side_def Let_def rb_red_ptr_def rb_is_red_def)
qed

lemma red_ptr_col:
  "repr (rb_nodes T) par p t \<Longrightarrow> rb_red_ptr T p \<longleftrightarrow> col t = RB_RED"
  by (cases t) (auto simp: rb_red_ptr_def rb_is_red_def)

lemma rb_insert_side_black:
  assumes f: "focus T (Some x) (mk d RB_RED ta x tb) (Step d1 RB_RED p s1 # Step d RB_BLACK g s2 # k)"
    and s2: "col s2 = RB_BLACK"
  shows "\<exists>T' n P A B. rb_insert_side d x p g T = kret (T', n) \<and>
    focus T' (Some P) (mk d RB_BLACK A P (mk d RB_RED B g s2)) k \<and>
    (\<exists>Aa Ab. A = mk d RB_RED Aa n Ab) \<and>
    join d (inorder A) (join d [P] (inorder B)) = inorder (mk d1 RB_RED (mk d RB_RED ta x tb) p s1) \<and>
    (\<forall>h. rbh (mk d RB_RED ta x tb) h \<and> rbh s1 h \<and> col s1 = RB_BLACK \<longrightarrow>
      rbh A h \<and> rbh B h \<and> col B = RB_BLACK)"
proof -
  have p: "focus T (Some p) (mk d1 RB_RED (mk d RB_RED ta x tb) p s1) (Step d RB_BLACK g s2 # k)"
    using f focus_up_ptr by blast
  note ch = focus_sibling(1,2) [OF f]
  have gf: "focus T (Some g) (mk d RB_BLACK (mk d1 RB_RED (mk d RB_RED ta x tb) p s1) g s2) k"
    using p focus_up_ptr by blast
  then have "repr (rb_nodes T) (Some g) (rb_child (flip d) (rb_nodes T g)) s2"
    unfolding focus_def repr_mk by blast
  then have unc: "\<not> rb_red_ptr T (rb_child (flip d) (rb_nodes T g))"
    using s2 by (simp add: red_ptr_col)
  show ?thesis
  proof (cases "d1 = d")
    case True
    from insert_rotate [OF gf [unfolded True]] obtain T' where T':
      "rb_rotate (flip d) g (rb_set_color g RB_RED (rb_set_color p RB_BLACK T)) = kret T'"
      "focus T' (Some p) (mk d RB_BLACK (mk d RB_RED ta x tb) p (mk d RB_RED s1 g s2)) k"
      by blast
    show ?thesis
      by (rule exI [of _ T'], rule exI [of _ x], rule exI [of _ p],
          rule exI [of _ "mk d RB_RED ta x tb"], rule exI [of _ s1])
        (use unc ch True T' in \<open>auto simp: rb_insert_side_def Let_def inorder_mk\<close>)
  next
    case False
    then have d1: "d1 = flip d" using dir_cases by blast
    have "focus T (Some p) (mk d RB_RED s1 p (mk d RB_RED ta x tb)) (Step d RB_BLACK g s2 # k)"
      using p d1 by (simp add: mk_flip)
    from focus_rotate [OF this] obtain T1 where T1: "rb_rotate d p T = kret T1"
      "focus T1 (Some x) (mk d RB_RED (mk d RB_RED s1 p ta) x tb) (Step d RB_BLACK g s2 # k)"
      by blast
    from insert_rotate [of T1 "Some g" d "mk d RB_RED s1 p ta" x tb g s2 k] obtain T' where T':
      "rb_rotate (flip d) g (rb_set_color g RB_RED (rb_set_color x RB_BLACK T1)) = kret T'"
      "focus T' (Some x) (mk d RB_BLACK (mk d RB_RED s1 p ta) x (mk d RB_RED tb g s2)) k"
      using T1(2) focus_up_ptr by blast
    show ?thesis
      by (rule exI [of _ T'], rule exI [of _ p], rule exI [of _ x],
          rule exI [of _ "mk d RB_RED s1 p ta"], rule exI [of _ tb])
        (use unc ch d1 T1(1) T' in
          \<open>auto simp: rb_insert_side_def Let_def inorder_mk mk_flip join_assoc\<close>)
  qed
qed

lemma mk_any: "\<exists>a' b'. mk d c a x b = mk e c a' x b'"
  using dir_cases [of e d] mk_flip [of d c] by metis

lemma tree_mk: "t = Lf \<or> (\<exists>a x b. t = mk d (col t) a x b)"
  by (cases t; cases d) (auto simp: mk_def)

lemma inorder_plug_cong: "inorder t = inorder t' \<Longrightarrow> inorder (plug k t) = inorder (plug k t')"
  by (simp add: inorder_plug)

lemma rb_insert_loop_exit:
  assumes f: "focus T (Some x) (mk d c ta x tb) k" and "k = [] \<or> kcol k = RB_BLACK"
  shows "rb_insert_loop T x = kret T"
proof (cases k)
  case Nil
  then show ?thesis
    using focus_node(2) [OF f] by (simp add: rb_insert_loop.simps [of T x])
next
  case (Cons s k')
  then have "rb_parent (rb_nodes T x) = Some (snode s)" "rb_color (rb_nodes T (snode s)) = RB_BLACK"
    using f assms(2) focus_node(2) [OF f] by (auto simp: focus_def)
  then show ?thesis by (simp add: rb_insert_loop.simps [of T x] rb_is_red_def)
qed

lemma rb_insert_loop_step:
  assumes f: "focus T (Some x) (mk e c ta x tb) (Step d1 RB_RED p s1 # Step d c2 g s2 # k)"
  shows "rb_insert_loop T x =
    kbind (rb_insert_side d x p g T) (\<lambda>(T, node). rb_insert_loop T node)"
proof -
  have x: "rb_parent (rb_nodes T x) = Some p" using focus_node(2) [OF f] by simp
  have pf: "focus T (Some p) (mk d1 RB_RED (mk e c ta x tb) p s1) (Step d c2 g s2 # k)"
    using f focus_up_ptr by blast
  have p: "rb_parent (rb_nodes T p) = Some g" "rb_color (rb_nodes T p) = RB_RED"
    using focus_node(2,3) [OF pf] by simp_all
  have "(if rb_left (rb_nodes T g) = Some p then rb_insert_side DirL x p g T
         else rb_insert_side DirR x p g T) = rb_insert_side d x p g T"
    using focus_sibling(3) [OF pf] by (cases d) auto
  then show ?thesis
    using x p by (simp add: rb_insert_loop.simps [of T x] rb_is_red_def)
qed

lemma kgood_red:
  assumes "kgood k h" and "kcol k \<noteq> RB_BLACK"
  obtains d1 p s1 e g s2 k' where "k = Step d1 RB_RED p s1 # Step e RB_BLACK g s2 # k'"
    and "rbh s1 h" and "col s1 = RB_BLACK" and "rbh s2 h" and "kgood k' (Suc h)"
proof -
  have "kcol k = RB_RED" using assms(2) by (cases "kcol k") auto
  then obtain s ks where s: "k = s # ks" "scol s = RB_RED" by (cases k) auto
  with assms(1) have ks: "rbh (ssib s) h" "col (ssib s) = RB_BLACK" "ks \<noteq> []"
      "kcol ks = RB_BLACK" "kgood ks h" by auto
  then obtain s' ks' where s': "ks = s' # ks'" "scol s' = RB_BLACK" by (cases ks) auto
  have "k = Step (sdir s) RB_RED (snode s) (ssib s) # Step (sdir s') RB_BLACK (snode s') (ssib s') # ks'"
    using s s' step.collapse by metis
  then show thesis using that ks s' by auto
qed

lemma rb_insert_loop_ok:
  assumes "focus T (Some x) (mk d RB_RED ta x tb) k" and "rbh (mk d RB_RED ta x tb) h"
    and "kgood k h"
  shows "\<exists>T' t' h'. rb_insert_loop T x = kret T' \<and> focus T' (rb_root T') t' [] \<and>
    inorder t' = inorder (plug k (mk d RB_RED ta x tb)) \<and> rbh t' h'"
  using assms
proof (induction k arbitrary: T x d ta tb h rule: length_induct)
  case (1 k)
  note f = "1.prems"(1) and t = "1.prems"(2) and kg = "1.prems"(3)
  let ?t = "mk d RB_RED ta x tb"
  show ?case
  proof (cases "k = [] \<or> kcol k = RB_BLACK")
    case True
    then obtain h' where "rbh (plug k ?t) h'" using rbh_plug [OF t kg] by auto
    then show ?thesis using rb_insert_loop_exit [OF f True] focus_root [OF f] by blast
  next
    case False
    then obtain d1 p s1 e g s2 k' where k: "k = Step d1 RB_RED p s1 # Step e RB_BLACK g s2 # k'"
      and s1: "rbh s1 h" "col s1 = RB_BLACK" and s2: "rbh s2 h" and k': "kgood k' (Suc h)"
      using kgood_red [OF kg] by blast
    note step = rb_insert_loop_step [OF f [unfolded k]]
    show ?thesis
    proof (cases "col s2")
      case RB_RED
      then obtain ua u ub where u: "s2 = mk e RB_RED ua u ub"
        using tree_mk [of s2 e] by auto
      let ?t' = "mk e RB_RED (mk d1 RB_BLACK ?t p s1) g (mk e RB_BLACK ua u ub)"
      obtain T1 where T1: "rb_insert_side e x p g T = kret (T1, g)" "focus T1 (Some g) ?t' k'"
        using rb_insert_side_red [OF f [unfolded k] u] by blast
      have "rbh ?t' (Suc h)" using t s1 s2 u by simp
      from "1.IH" [rule_format, OF _ T1(2) this k'] obtain T' t' h' where
        "rb_insert_loop T1 g = kret T'" "focus T' (rb_root T') t' []"
        "inorder t' = inorder (plug k' ?t')" "rbh t' h'" using k by auto
      moreover have "inorder (plug k' ?t') = inorder (plug k ?t)"
        unfolding k by (simp add: inorder_plug_cong inorder_mk u)
      ultimately show ?thesis using step T1(1) by auto
    next
      case RB_BLACK
      obtain xa xb where x: "?t = mk e RB_RED xa x xb" using mk_any by blast
      obtain T1 n P A B where s: "rb_insert_side e x p g T = kret (T1, n)"
        "focus T1 (Some P) (mk e RB_BLACK A P (mk e RB_RED B g s2)) k'"
        "\<exists>Aa Ab. A = mk e RB_RED Aa n Ab"
        "join e (inorder A) (join e [P] (inorder B)) = inorder (mk d1 RB_RED ?t p s1)"
        "\<forall>h. rbh ?t h \<and> rbh s1 h \<and> col s1 = RB_BLACK \<longrightarrow> rbh A h \<and> rbh B h \<and> col B = RB_BLACK"
        using rb_insert_side_black [OF f [unfolded k x] RB_BLACK] unfolding x by blast
      have "rbh (mk e RB_BLACK A P (mk e RB_RED B g s2)) (Suc h)"
        using s(5) t s1 s2 RB_BLACK by auto
      then obtain h' where h': "rbh (plug k' (mk e RB_BLACK A P (mk e RB_RED B g s2))) h'"
        using rbh_plug [OF _ k'] by fastforce
      obtain Aa Ab where A: "A = mk e RB_RED Aa n Ab" using s(3) by blast
      have "focus T1 (rb_child e (rb_nodes T1 P)) A (Step e RB_BLACK P (mk e RB_RED B g s2) # k')"
        using focus_down [OF s(2)] by blast
      then have fn: "focus T1 (Some n) A (Step e RB_BLACK P (mk e RB_RED B g s2) # k')"
        using focus_node(1) unfolding A by metis
      have "rb_insert_loop T1 n = kret T1"
        using rb_insert_loop_exit [OF fn [unfolded A]] by simp
      moreover have "inorder (plug k' (mk e RB_BLACK A P (mk e RB_RED B g s2))) = inorder (plug k ?t)"
        unfolding k using s(4)
        by (simp add: inorder_plug inorder_mk join_assoc)
      ultimately show ?thesis using step s(1) h' focus_root [OF s(2)] by auto
    qed
  qed
qed

lemma rb_insert_color_ok:
  assumes "focus T (Some x) (mk d RB_RED ta x tb) k" and "rbh (mk d RB_RED ta x tb) h"
    and "kgood k h"
  shows "\<exists>T'. rb_insert_color x T = kret T' \<and> rb_ok T' (inorder (plug k (mk d RB_RED ta x tb)))"
proof -
  obtain T1 t h' where T1: "rb_insert_loop T x = kret T1" "focus T1 (rb_root T1) t []"
    "inorder t = inorder (plug k (mk d RB_RED ta x tb))" "rbh t h'"
    using rb_insert_loop_ok [OF assms] by blast
  have "t \<noteq> Lf"
  proof
    assume "t = Lf"
    with T1(3) show False by (simp add: inorder_plug inorder_mk join_def split: rb_dir.splits)
  qed
  then obtain c l r y where t: "t = mk DirL c l y r" by (cases t) (auto simp: mk_simps)
  have r: "rb_root T1 = Some y" using focus_node(1) [OF T1(2) [unfolded t]] .
  have "focus (rb_set_color y RB_BLACK T1) (Some y) (mk DirL RB_BLACK l y r) []"
    using focus_color [OF T1(2) [unfolded t]] r by simp
  moreover have "\<exists>h. rbh (mk DirL RB_BLACK l y r) h"
    using T1(4) t by (cases c) (auto intro: exI [of _ "Suc h'"])
  moreover have "inorder (mk DirL RB_BLACK l y r) = inorder t" by (simp add: t inorder_mk)
  ultimately have "rb_ok (rb_set_color y RB_BLACK T1) (inorder t)"
    unfolding rb_ok_def using r by (intro exI [of _ "mk DirL RB_BLACK l y r"]) auto
  then show ?thesis using T1 r by (simp add: rb_insert_color_def)
qed

section \<open>Rebalancing after a removal\<close>

lemma focus_far:
  assumes "focus T q (mk d c A g s) k"
  shows "q = Some g" and "focus T (rb_child (flip d) (rb_nodes T g)) s (Step (flip d) c g A # k)"
  using focus_down [of T q "flip d" c s g A k] assms by (simp_all add: mk_flip)

lemma focus_far_up:
  assumes "focus T p s (Step (flip d) c g A # k)"
  shows "focus T (Some g) (mk d c A g s) k" and "rb_child (flip d) (rb_nodes T g) = p"
  using focus_up_ptr [OF assms] by (simp_all add: mk_flip)

lemma focus_color_far2:
  assumes "focus T q (mk d c A g (mk d e B u (mk d' i a f b))) k"
  shows "focus (rb_set_color f i' T) q (mk d c A g (mk d e B u (mk d' i' a f b))) k"
proof -
  note F = focus_far [OF assms]
  from focus_far_up(1) [OF focus_color_far [OF F(2), of i']] F(1) show ?thesis by simp
qed

lemma erase_final_ok:
  assumes f: "focus T (Some p) (mk d c t p (mk d e A y (mk d RB_RED b1 f b2))) k"
  shows "\<exists>T'. rb_erase_final d p y T = kret (T', Inr (rb_root T')) \<and>
    focus T' (Some y) (mk d c (mk d RB_BLACK t p A) y (mk d RB_BLACK b1 f b2)) k"
proof -
  have n: "rb_color (rb_nodes T p) = c" "rb_child (flip d) (rb_nodes T y) = Some f"
    "p \<noteq> y" "p \<noteq> f" "y \<noteq> f"
    using f by (auto simp: focus_def repr_mk)
  let ?T = "rb_set_color f RB_BLACK (rb_set_color p RB_BLACK (rb_set_color y c T))"
  have "focus ?T (Some p) (mk d RB_BLACK t p (mk d c A y (mk d RB_BLACK b1 f b2))) k"
    by (rule focus_color_far2 [OF focus_color [OF focus_color_far [OF f]]])
  from focus_rotate [OF this] show ?thesis
    using n by (auto simp: rb_erase_final_def Let_def)
qed

lemma red_children:
  "(\<not> rb_red_ptr T (rb_left n) \<and> \<not> rb_red_ptr T (rb_right n)) \<longleftrightarrow>
     (\<not> rb_red_ptr T (rb_child d n) \<and> \<not> rb_red_ptr T (rb_child (flip d) n))"
  by (cases d) (auto simp: rb_child_def)

lemma erase_fix_recolour:
  assumes f: "focus T (Some p) (mk d c t p (mk d RB_BLACK a y b)) k"
    and "col a = RB_BLACK" and "col b = RB_BLACK"
  shows "\<exists>T'. rb_erase_fix d p y T = kret (T', Inl (Some p, kpar k)) \<and>
    focus T' (Some p) (mk d c t p (mk d RB_RED a y b)) k"
proof -
  have "p \<noteq> y" "rb_parent (rb_nodes T p) = kpar k"
    and "\<not> rb_red_ptr T (rb_child d (rb_nodes T y))"
    and "\<not> rb_red_ptr T (rb_child (flip d) (rb_nodes T y))"
    using f assms(2,3) by (auto simp: focus_def repr_mk red_ptr_col)
  then show ?thesis
    using focus_color_far [OF f, of RB_RED] red_children [of T "rb_nodes T y" d]
    by (auto simp: rb_erase_fix_def Let_def)
qed

lemma erase_fix_rotate:
  assumes f: "focus T (Some p) (mk d c t p (mk d RB_BLACK a y b)) k"
    and t: "rbh t h" and a: "rbh a h" and b: "rbh b h" and red: "\<not> (col a = RB_BLACK \<and> col b = RB_BLACK)"
  shows "\<exists>T' y' A B. rb_erase_fix d p y T = kret (T', Inr (rb_root T')) \<and>
    focus T' (Some y') (mk d c (mk d RB_BLACK t p A) y' B) k \<and>
    join d (inorder A) (join d [y'] (inorder B)) = inorder (mk d RB_BLACK a y b) \<and>
    rbh A h \<and> rbh B (Suc h) \<and> col B = RB_BLACK"
proof -
  have reds: "rb_red_ptr T (rb_child d (rb_nodes T y)) \<longleftrightarrow> col a = RB_RED"
    "rb_red_ptr T (rb_child (flip d) (rb_nodes T y)) \<longleftrightarrow> col b = RB_RED"
    using f by (auto simp: focus_def repr_mk red_ptr_col)
  show ?thesis
  proof (cases "col b")
    case RB_RED
    then obtain b1 f b2 where b': "b = mk d RB_RED b1 f b2" using tree_mk [of b d] by auto
    from erase_final_ok [OF f [unfolded b']] obtain T' where T':
      "rb_erase_final d p y T = kret (T', Inr (rb_root T'))"
      "focus T' (Some y) (mk d c (mk d RB_BLACK t p a) y (mk d RB_BLACK b1 f b2)) k" by blast
    show ?thesis
      by (rule exI [of _ T'], rule exI [of _ y], rule exI [of _ a],
          rule exI [of _ "mk d RB_BLACK b1 f b2"])
        (use T' reds RB_RED a b b' red_children [of T "rb_nodes T y" d] in
          \<open>auto simp: rb_erase_fix_def inorder_mk\<close>)
  next
    case RB_BLACK
    then have "col a = RB_RED" using red by (cases "col a") auto
    then obtain a1 n a2 where a': "a = mk d RB_RED a1 n a2" using tree_mk [of a d] by auto
    note F = focus_far [OF f [unfolded a']]
    let ?T1 = "rb_set_color y RB_RED (rb_set_color n RB_BLACK T)"
    have "focus ?T1 (rb_child (flip d) (rb_nodes T p)) (mk d RB_RED (mk d RB_BLACK a1 n a2) y b)
        (Step (flip d) c p t # k)"
      by (rule focus_color [OF focus_color_near [OF F(2)]])
    then have "focus ?T1 (rb_child (flip d) (rb_nodes T p))
        (mk (flip d) RB_RED b y (mk (flip d) RB_BLACK a2 n a1)) (Step (flip d) c p t # k)"
      by (simp add: mk_flip)
    from focus_rotate [OF this] obtain T2 where T2: "rb_rotate (flip d) y ?T1 = kret T2"
      "focus T2 (Some n) (mk d RB_BLACK a1 n (mk d RB_RED a2 y b)) (Step (flip d) c p t # k)"
      by (auto simp: mk_flip)
    note G = focus_far_up [OF T2(2)]
    from erase_final_ok [OF G(1)] obtain T' where T':
      "rb_erase_final d p n T2 = kret (T', Inr (rb_root T'))"
      "focus T' (Some n) (mk d c (mk d RB_BLACK t p a1) n (mk d RB_BLACK a2 y b)) k" by blast
    have near: "rb_child d (rb_nodes T y) = Some n"
      using F(2) by (auto simp: focus_def repr_mk)
    show ?thesis
      by (rule exI [of _ T'], rule exI [of _ n], rule exI [of _ a1],
          rule exI [of _ "mk d RB_BLACK a2 y b"])
        (use T' T2(1) G(2) near reds RB_BLACK a b a' red_children [of T "rb_nodes T y" d] in
          \<open>auto simp: rb_erase_fix_def inorder_mk join_assoc Let_def\<close>)
  qed
qed

definition blacken :: "rbt \<Rightarrow> rbt" where
  "blacken t = (case t of Lf \<Rightarrow> Lf | Nd c l x r \<Rightarrow> Nd RB_BLACK l x r)"

lemma blacken_mk [simp]: "blacken (mk d c a x b) = mk d RB_BLACK a x b"
  by (cases d) (simp_all add: blacken_def mk_def)

lemma blacken_Lf [simp]: "blacken Lf = Lf"
  by (simp add: blacken_def)

lemma blacken_black: "col t = RB_BLACK \<Longrightarrow> blacken t = t"
  by (cases t) (auto simp: blacken_def)

lemma inorder_blacken [simp]: "inorder (blacken t) = inorder t"
  by (cases t) (auto simp: blacken_def)

lemma col_plug: "kgood k h \<Longrightarrow> k \<noteq> [] \<or> col t = RB_BLACK \<Longrightarrow> col (plug k t) = RB_BLACK"
proof (induction k arbitrary: t h)
  case Nil
  then show ?case by simp
next
  case (Cons s k)
  then show ?case by (cases "scol s") auto
qed

text \<open>What \<^verbatim>\<open>__rb_erase_color\<close> needs when its loop ends: blackening the node in focus gives a
  red-black tree.\<close>

definition erase_post :: "rb_tree \<Rightarrow> nat option \<Rightarrow> nat list \<Rightarrow> bool" where
  "erase_post T node xs \<longleftrightarrow>
     (\<exists>t k h. focus T node t k \<and> inorder (plug k t) = xs \<and> rbh (blacken t) h \<and> kgood k h)"

lemma focus_blacken:
  assumes "focus T node t k"
  shows "focus (case node of None \<Rightarrow> T | Some n \<Rightarrow> rb_set_color n RB_BLACK T) node (blacken t) k"
proof -
  consider "t = Lf" | c a x b where "t = mk DirL c a x b" using tree_mk [of t DirL] by blast
  then show ?thesis
  proof cases
    case 1
    then have "node = None" using assms by (simp add: focus_def)
    with 1 assms show ?thesis by simp
  next
    case (2 c a x b)
    then have "node = Some x" using focus_node(1) assms by blast
    with 2 focus_color [OF assms [unfolded 2], of RB_BLACK] show ?thesis by simp
  qed
qed

lemma erase_post_done:
  assumes "erase_post T node xs"
  shows "rb_ok (case node of None \<Rightarrow> T | Some n \<Rightarrow> rb_set_color n RB_BLACK T) xs"
proof -
  obtain t k h where f: "focus T node t k" and xs: "inorder (plug k t) = xs"
    and h: "rbh (blacken t) h" "kgood k h"
    using assms by (auto simp: erase_post_def)
  have c: "col (blacken t) = RB_BLACK" by (cases t) (auto simp: blacken_def)
  obtain h' where "rbh (plug k (blacken t)) h'" using rbh_plug [OF h] c by auto
  moreover have "col (plug k (blacken t)) = RB_BLACK" using col_plug [OF h(2)] c by auto
  moreover have "inorder (plug k (blacken t)) = xs" using xs by (simp add: inorder_plug)
  ultimately show ?thesis
    using focus_root [OF focus_blacken [OF f]] unfolding rb_ok_def by blast
qed

lemma rb_erase_loop_red:
  assumes f: "focus T node t k" and "col t = RB_RED" and "rbh (blacken t) h" and "kgood k h"
  shows "rb_erase_loop T node par = kret (T, node) \<and> erase_post T node (inorder (plug k t))"
proof -
  have "rb_red_ptr T node" using f assms(2) by (auto simp: focus_def red_ptr_col)
  then show ?thesis
    using assms by (auto simp: rb_erase_loop.simps [of T node par] erase_post_def)
qed

definition erase_cont :: "rb_tree \<times> erase_next \<Rightarrow> (rb_tree \<times> nat option) prog" where
  "erase_cont = (\<lambda>(T, r). case r of
     Inl (node, parent) \<Rightarrow> rb_erase_loop T node parent
   | Inr node \<Rightarrow> kret (T, node))"

lemma erase_fix_cont:
  assumes f: "focus T (Some p) (mk d c t p (mk d RB_BLACK a y b)) k"
    and t: "rbh t h" "col t = RB_BLACK" and a: "rbh a h" and b: "rbh b h"
    and k: "kgood (Step d c p (mk d RB_BLACK a y b) # k) (Suc h)"
    and IH: "\<And>T t'. c = RB_BLACK \<Longrightarrow> focus T (Some p) t' k \<Longrightarrow> col t' = RB_BLACK \<Longrightarrow> rbh t' (Suc h) \<Longrightarrow>
      \<exists>T' node'. rb_erase_loop T (Some p) (kpar k) = kret (T', node') \<and>
        erase_post T' node' (inorder (plug k t'))"
  shows "\<exists>T' node'. kbind (rb_erase_fix d p y T) erase_cont = kret (T', node') \<and>
    erase_post T' node' (inorder (plug k (mk d c t p (mk d RB_BLACK a y b))))"
proof (cases "col a = RB_BLACK \<and> col b = RB_BLACK")
  case True
  let ?t = "mk d c t p (mk d RB_RED a y b)"
  from erase_fix_recolour [OF f] True obtain T1 where
    T1: "rb_erase_fix d p y T = kret (T1, Inl (Some p, kpar k))" "focus T1 (Some p) ?t k" by blast
  have "\<exists>T' node'. rb_erase_loop T1 (Some p) (kpar k) = kret (T', node') \<and>
      erase_post T' node' (inorder (plug k ?t))"
  proof (cases c)
    case RB_RED
    have "rbh (blacken ?t) (Suc h)" "kgood k (Suc h)" using t a b True k RB_RED by auto
    then show ?thesis using rb_erase_loop_red [OF T1(2), of "Suc h"] RB_RED by fastforce
  next
    case RB_BLACK
    then show ?thesis using IH [OF RB_BLACK T1(2)] t a b True by auto
  qed
  then show ?thesis
    using T1(1) by (simp add: erase_cont_def inorder_plug inorder_mk)
next
  case False
  from erase_fix_rotate [OF f t(1) a b False] obtain T1 y' A B where
    T1: "rb_erase_fix d p y T = kret (T1, Inr (rb_root T1))"
    "focus T1 (Some y') (mk d c (mk d RB_BLACK t p A) y' B) k"
    "join d (inorder A) (join d [y'] (inorder B)) = inorder (mk d RB_BLACK a y b)"
    "rbh A h" "rbh B (Suc h)" "col B = RB_BLACK" by blast
  let ?t = "mk d c (mk d RB_BLACK t p A) y' B"
  have "\<exists>h'. rbh ?t h' \<and> kgood k h' \<and> (c = RB_RED \<longrightarrow> kcol k = RB_BLACK \<and> k \<noteq> [])"
    using k t T1(4-6) by (cases c) auto
  then obtain h' where h': "rbh ?t h'" "kgood k h'" "c = RB_RED \<longrightarrow> kcol k = RB_BLACK \<and> k \<noteq> []"
    by blast
  then obtain h'' where "rbh (plug k ?t) h''" using rbh_plug [OF h'(1,2)] by auto
  moreover have "col (plug k ?t) = RB_BLACK"
    using col_plug [OF h'(2), of ?t] h'(3) by (cases c) auto
  ultimately have "erase_post T1 (rb_root T1) (inorder (plug k ?t))"
    using focus_root [OF T1(2)] blacken_black
    unfolding erase_post_def
    by (intro exI [of _ "plug k ?t"] exI [of _ "[]"] exI [of _ h'']) simp
  moreover have "inorder (plug k ?t) = inorder (plug k (mk d c t p (mk d RB_BLACK a y b)))"
    using T1(3) by (simp add: inorder_plug inorder_mk join_assoc [symmetric])
  ultimately show ?thesis using T1(1) by (simp add: erase_cont_def)
qed

lemma kctx_root: "kctx h rt q (s # k) \<Longrightarrow> \<exists>n \<in> kset (s # k). rt = Some n"
  by (induction k arbitrary: s q) auto

lemma focus_not_root:
  assumes "focus T p t (s # k)"
  shows "p \<noteq> rb_root T"
proof -
  have "kctx (rb_nodes T) (rb_root T) p (s # k)" "tset t \<inter> kset (s # k) = {}"
    and r: "repr (rb_nodes T) (kpar (s # k)) p t"
    using assms unfolding focus_def by blast+
  then obtain n where "rb_root T = Some n" "n \<notin> tset t"
    using kctx_root by blast
  with r show ?thesis using repr_ptr_in by metis
qed

lemma rbh_nonleaf: "rbh s (Suc h) \<Longrightarrow> s \<noteq> Lf"
  by auto

lemma rb_erase_loop_step:
  assumes f: "focus T node t (Step d c p s # k)" and "col t = RB_BLACK" and s: "s \<noteq> Lf"
  shows "rb_erase_loop T node (Some p) = kbind (rb_erase_side d p T) erase_cont"
proof -
  have "\<not> rb_red_ptr T node" using f assms(2) by (auto simp: focus_def red_ptr_col)
  moreover have "node \<noteq> rb_root T" using focus_not_root [OF f] .
  moreover have "rb_left (rb_nodes T p) = node \<longleftrightarrow> d = DirL"
  proof -
    have ch: "rb_child d (rb_nodes T p) = node"
      and sib: "repr (rb_nodes T) (Some p) (rb_child (flip d) (rb_nodes T p)) s"
      using f by (auto simp: focus_def)
    obtain y where y: "rb_child (flip d) (rb_nodes T p) = Some y" "y \<in> tset s"
      using sib s repr_ptr_in by (cases s) auto
    have "tset t \<inter> tset s = {}" "repr (rb_nodes T) (Some p) node t"
      using f by (auto simp: focus_def)
    then have "node \<noteq> Some y" using y(2) repr_ptr_in by blast
    then show ?thesis using ch y(1) by (cases d) (auto simp: rb_child_def)
  qed
  ultimately show ?thesis
    by (cases d) (auto simp: rb_erase_loop.simps [of T node "Some p"] erase_cont_def)
qed

lemma rb_erase_side_red:
  assumes f: "focus T (Some p) (mk d RB_BLACK t p (mk d RB_RED (mk d RB_BLACK a1 y b1) z b)) k"
  shows "\<exists>T'. rb_erase_side d p T = rb_erase_fix d p y T' \<and>
    focus T' (Some p) (mk d RB_RED t p (mk d RB_BLACK a1 y b1)) (Step d RB_BLACK z b # k)"
proof -
  let ?T = "rb_set_color p RB_RED (rb_set_color z RB_BLACK T)"
  have z: "rb_child (flip d) (rb_nodes T p) = Some z" "rb_color (rb_nodes T z) = RB_RED"
    using f by (auto simp: focus_def repr_mk)
  have "focus ?T (Some p) (mk d RB_RED t p (mk d RB_BLACK (mk d RB_BLACK a1 y b1) z b)) k"
    by (rule focus_color [OF focus_color_far [OF f]])
  from focus_rotate [OF this] obtain T1 where T1: "rb_rotate d p ?T = kret T1"
    "focus T1 (Some z) (mk d RB_BLACK (mk d RB_RED t p (mk d RB_BLACK a1 y b1)) z b) k" by blast
  have g: "focus T1 (rb_child d (rb_nodes T1 z)) (mk d RB_RED t p (mk d RB_BLACK a1 y b1))
      (Step d RB_BLACK z b # k)"
    using focus_down [OF T1(2)] by blast
  have c: "rb_child d (rb_nodes T1 z) = Some p" using focus_node(1) [OF g] .
  have "rb_child (flip d) (rb_nodes T1 p) = Some y"
    using g by (auto simp: focus_def repr_mk)
  then have "rb_erase_side d p T = rb_erase_fix d p y T1"
    using z T1(1) by (simp add: rb_erase_side_def rb_is_red_def Let_def)
  with g c show ?thesis by auto
qed

lemma rb_erase_side_black:
  assumes f: "focus T (Some p) (mk d c t p (mk d RB_BLACK a y b)) k"
  shows "rb_erase_side d p T = rb_erase_fix d p y T"
proof -
  have "rb_child (flip d) (rb_nodes T p) = Some y" "rb_color (rb_nodes T y) = RB_BLACK"
    using f by (auto simp: focus_def repr_mk)
  then show ?thesis by (simp add: rb_erase_side_def rb_is_red_def)
qed

lemma rb_erase_loop_ok:
  assumes "focus T node t k" and "col t = RB_BLACK" and "rbh t h" and "kgood k (Suc h)"
  shows "\<exists>T' node'. rb_erase_loop T node (kpar k) = kret (T', node') \<and>
    erase_post T' node' (inorder (plug k t))"
  using assms
proof (induction k arbitrary: T node t h)
  case Nil
  then have "node = rb_root T" by (simp add: focus_def)
  then have "rb_erase_loop T node None = kret (T, node)"
    by (subst rb_erase_loop.simps) simp
  moreover have "erase_post T node (inorder t)"
    using Nil unfolding erase_post_def
    by (intro exI [of _ t] exI [of _ "[]"] exI [of _ h]) (simp add: blacken_black)
  ultimately show ?case by simp
next
  case (Cons st k)
  obtain d c p s where st: "st = Step d c p s" by (cases st) auto
  note f = Cons.prems(1) [unfolded st] and t = Cons.prems(3,2)
  have k: "kgood (Step d c p s # k) (Suc h)" using Cons.prems(4) st by simp
  have up: "focus T (Some p) (mk d c t p s) k" using focus_up_ptr [OF f] by blast
  have sh: "rbh s (Suc h)" using k by simp
  have step: "rb_erase_loop T node (Some p) = kbind (rb_erase_side d p T) erase_cont"
    using rb_erase_loop_step [OF f t(2) rbh_nonleaf [OF sh]] .
  show ?case
  proof (cases "col s")
    case RB_BLACK
    then obtain a y b where s: "s = mk d RB_BLACK a y b" using tree_mk [of s d] sh by auto
    have ab: "rbh a h" "rbh b h" using sh s by auto
    have "\<exists>T' node'. kbind (rb_erase_fix d p y T) erase_cont = kret (T', node') \<and>
        erase_post T' node' (inorder (plug k (mk d c t p (mk d RB_BLACK a y b))))"
    proof (rule erase_fix_cont [OF up [unfolded s] t ab k [unfolded s]])
      fix T t'
      assume "c = RB_BLACK" "focus T (Some p) t' k" "col t' = RB_BLACK" "rbh t' (Suc h)"
      then show "\<exists>T' node'. rb_erase_loop T (Some p) (kpar k) = kret (T', node') \<and>
          erase_post T' node' (inorder (plug k t'))"
        using Cons.IH [of T "Some p" t' "Suc h"] k by simp
    qed
    then show ?thesis
      using step rb_erase_side_black [OF up [unfolded s]] by (simp add: st s)
  next
    case RB_RED
    then have c: "c = RB_BLACK" using k by (cases c) auto
    obtain a z b where s: "s = mk d RB_RED a z b" using RB_RED tree_mk [of s d] by auto
    have a: "rbh a (Suc h)" "col a = RB_BLACK" and b: "rbh b (Suc h)" using sh s by auto
    obtain a1 y b1 where a': "a = mk d RB_BLACK a1 y b1" using a tree_mk [of a d] by auto
    obtain T1 where T1: "rb_erase_side d p T = rb_erase_fix d p y T1"
      "focus T1 (Some p) (mk d RB_RED t p (mk d RB_BLACK a1 y b1)) (Step d RB_BLACK z b # k)"
      using rb_erase_side_red up unfolding s a' c by blast
    have k1: "kgood (Step d RB_RED p (mk d RB_BLACK a1 y b1) # Step d RB_BLACK z b # k) (Suc h)"
      using a b a' k c by auto
    have ab: "rbh a1 h" "rbh b1 h" using a a' by auto
    have "\<exists>T' node'. kbind (rb_erase_fix d p y T1) erase_cont = kret (T', node') \<and>
        erase_post T' node' (inorder (plug (Step d RB_BLACK z b # k)
          (mk d RB_RED t p (mk d RB_BLACK a1 y b1))))"
      by (rule erase_fix_cont [OF T1(2) t ab k1]) simp
    then show ?thesis
      using step T1(1) by (simp add: st s a' c inorder_plug inorder_mk join_assoc)
  qed
qed

lemma rb_erase_color_ok:
  assumes f: "focus T node t k" and t: "rbh t h" and k: "kgood k (Suc h)"
  shows "\<exists>T'. rb_erase_color node (kpar k) T = kret T' \<and> rb_ok T' (inorder (plug k t))"
proof -
  have "\<exists>T' node'. rb_erase_loop T node (kpar k) = kret (T', node') \<and>
      erase_post T' node' (inorder (plug k t))"
  proof (cases "col t")
    case RB_RED
    then have "rbh (blacken t) (Suc h)" using t tree_mk [of t DirL] by auto
    then show ?thesis using rb_erase_loop_red [OF f RB_RED _ k] by blast
  next
    case RB_BLACK
    then show ?thesis using rb_erase_loop_ok [OF f RB_BLACK t k] by blast
  qed
  then obtain T' node' where "rb_erase_loop T node (kpar k) = kret (T', node')"
    "erase_post T' node' (inorder (plug k t))" by blast
  then show ?thesis using erase_post_done by (auto simp: rb_erase_color_def)
qed

section \<open>Removing a node\<close>

lemma focus_frame:
  assumes "focus T p t k" and "\<And>x. x \<in> tset t \<union> kset k \<Longrightarrow> rb_nodes T' x = rb_nodes T x"
    and "rb_root T' = rb_root T"
  shows "focus T' p t k"
proof -
  have "repr (rb_nodes T') (kpar k) p t"
    by (rule repr_frame) (use assms in \<open>auto simp: focus_def\<close>)
  moreover have "kctx (rb_nodes T') (rb_root T') p k"
    unfolding assms(3) by (rule kctx_frame) (use assms in \<open>auto simp: focus_def\<close>)
  ultimately show ?thesis using assms(1) by (simp add: focus_def)
qed

lemma focus_plug: "focus T p t (kk @ k) \<Longrightarrow> \<exists>p'. focus T p' (plug kk t) k"
proof (induction kk arbitrary: p t)
  case Nil
  then show ?case by auto
next
  case (Cons s kk)
  obtain d c x u where s: "s = Step d c x u" by (cases s) auto
  have "focus T (Some x) (mk d c t x u) (kk @ k)"
    using focus_up_ptr [of T p t d c x u "kk @ k"] Cons.prems by (simp add: s)
  then show ?case using Cons.IH by (simp add: s)
qed

lemma focus_unplug: "focus T p (plug kk t) k \<Longrightarrow> \<exists>p'. focus T p' t (kk @ k)"
proof (induction kk arbitrary: t)
  case Nil
  then show ?case by auto
next
  case (Cons s kk)
  obtain d c x u where s: "s = Step d c x u" by (cases s) auto
  from Cons obtain p' where "focus T p' (mk d c t x u) (kk @ k)" by (auto simp: s)
  then show ?case using focus_down by (fastforce simp: s)
qed

text \<open>The memory after \<open>rb_relink\<close> at the focus.\<close>

definition relinked :: "path \<Rightarrow> nat option \<Rightarrow> (nat \<Rightarrow> rb_node) \<Rightarrow> nat \<Rightarrow> rb_node" where
  "relinked k new h y = (if kpar k = Some y then rb_with_child (sdir (hd k)) new (h y) else h y)"

lemma relink_eval:
  assumes "kctx (rb_nodes T) (rb_root T) (Some x) k" and "x \<notin> kset k"
  shows "rb_nodes (rb_relink d (kpar k) x new T) = relinked k new (rb_nodes T)"
    and "rb_root (rb_relink d (kpar k) x new T) = (if k = [] then new else rb_root T)"
proof -
  have "rb_nodes (rb_relink d (kpar k) x new T) = relinked k new (rb_nodes T) \<and>
    rb_root (rb_relink d (kpar k) x new T) = (if k = [] then new else rb_root T)"
  proof (cases k)
    case Nil
    then show ?thesis by (simp add: rb_relink_root relinked_def fun_eq_iff)
  next
    case (Cons s k')
    then show ?thesis
      using rb_relink_child [of T x s k' d new] assms by (auto simp: relinked_def fun_eq_iff)
  qed
  then show "rb_nodes (rb_relink d (kpar k) x new T) = relinked k new (rb_nodes T)"
    and "rb_root (rb_relink d (kpar k) x new T) = (if k = [] then new else rb_root T)" by auto
qed

text \<open>Replacing a node with at most one child by that child.\<close>

lemma focus_splice:
  assumes f: "focus T (Some n) (mk d c r n Lf) k"
  shows "focus (rb_relink DirL (kpar k) n (rb_child d (rb_nodes T n))
      (rb_set_parent_ptr (rb_child d (rb_nodes T n)) (kpar k) T))
    (rb_child d (rb_nodes T n)) r k"
proof -
  let ?q = "rb_child d (rb_nodes T n)"
  let ?T1 = "rb_set_parent_ptr ?q (kpar k) T"
  let ?T2 = "rb_relink DirL (kpar k) n ?q ?T1"
  have r: "repr (rb_nodes T) (Some n) ?q r" and kc: "kctx (rb_nodes T) (rb_root T) (Some n) k"
    and ok: "tok r" "kok k" "tset r \<inter> kset k = {}" "n \<notin> kset k"
    using f by (auto simp: focus_def repr_mk)
  have q: "?q \<noteq> Some x" if "x \<in> kset k" for x
    by (rule repr_ptr_neq [OF r]) (use that ok(3) in auto)
  have "kctx (rb_nodes ?T1) (rb_root T) (Some n) k"
    by (rule kctx_frame [OF kc]) (simp add: q)
  then have kc1: "kctx (rb_nodes ?T1) (rb_root ?T1) (Some n) k" by simp
  note K = kctx_relink [OF kc1 ok(4) ok(2), where d = DirL and new = ?q]
  have "repr (rb_nodes ?T1) (kpar k) ?q r" using repr_reparent [OF r ok(1)] by simp
  then have "repr (rb_nodes ?T2) (kpar k) ?q r"
    by (rule repr_frame) (use K(2) ok(3) in blast)
  then show ?thesis using K(1) ok by (simp add: focus_def)
qed

text \<open>Putting a node that is not in the tree in the place of another one.\<close>

lemma focus_replace:
  assumes f: "focus T (Some n) (mk d c A n B) k" and m: "m \<notin> insert n (tset A \<union> tset B \<union> kset k)"
  shows "focus (rb_replace_node n m T) (Some m) (mk d c A m B) k"
proof -
  let ?h = "rb_nodes T" and ?T = "rb_replace_node n m T"
  let ?L = "rb_left (?h n)" and ?R = "rb_right (?h n)"
  have kc: "kctx ?h (rb_root T) (Some n) k" and ok: "kok k"
    and A: "repr ?h (Some n) (rb_child d (?h n)) A" and B: "repr ?h (Some n) (rb_child (flip d) (?h n)) B"
    and n: "rb_parent (?h n) = kpar k" "rb_color (?h n) = c"
    and dj: "n \<notin> tset A" "n \<notin> tset B" "n \<notin> kset k" "tset A \<inter> tset B = {}"
      "tset A \<inter> kset k = {}" "tset B \<inter> kset k = {}" "tok A" "tok B"
    using f by (auto simp: focus_def repr_mk)
  have ch: "{?L, ?R} = {rb_child d (?h n), rb_child (flip d) (?h n)}"
    by (cases d) (auto simp: rb_child_def)
  have q: "rb_child d (?h n) \<noteq> Some x" if "x \<notin> tset A" for x
    by (rule repr_ptr_neq [OF A that])
  have q': "rb_child (flip d) (?h n) \<noteq> Some x" if "x \<notin> tset B" for x
    by (rule repr_ptr_neq [OF B that])
  have LR: "?L \<noteq> Some x" "?R \<noteq> Some x" if "x \<notin> tset A \<union> tset B" for x
    using q [of x] q' [of x] that ch by (auto simp: doubleton_eq_iff)
  define T1 where "T1 = rb_relink DirL (kpar k) n (Some m) T"
  note K = kctx_relink [OF kc dj(3) ok, where d = DirL and new = "Some m", folded T1_def]
  have n1: "rb_nodes T1 n = ?h n" using K(2) dj by simp
  have nodes: "rb_nodes ?T = (reparent ?R (Some m) (reparent ?L (Some m) (rb_nodes T1)))(m := ?h n)"
    using n n1 LR [of n] dj
    by (simp add: rb_replace_node_def Let_def T1_def [symmetric])
  have root: "rb_root ?T = rb_root T1"
    using n by (simp add: rb_replace_node_def Let_def T1_def [symmetric])
  have "kctx (rb_nodes ?T) (rb_root ?T) (Some m) k"
    unfolding root nodes
  proof (rule kctx_frame [OF K(1)])
    fix x assume x: "x \<in> kset k"
    then have "x \<notin> tset A \<union> tset B" "x \<noteq> m" using dj m by auto
    then show "((reparent ?R (Some m) (reparent ?L (Some m) (rb_nodes T1)))(m := ?h n)) x = rb_nodes T1 x"
      using LR [of x] by simp
  qed
  moreover have "repr (rb_nodes ?T) (Some m) (rb_child d (?h n)) A"
  proof (rule repr_frame [OF repr_reparent [OF A dj(7), of "Some m"]])
    fix x assume x: "x \<in> tset A"
    then have "x \<noteq> m" "x \<notin> kset k" "x \<notin> tset B" using dj m by auto
    then show "rb_nodes ?T x = reparent (rb_child d (?h n)) (Some m) ?h x"
      using K(2) [of x] q' [of x] by (cases d) (auto simp: nodes reparent_def rb_child_def split: option.splits)
  qed
  moreover have "repr (rb_nodes ?T) (Some m) (rb_child (flip d) (?h n)) B"
  proof (rule repr_frame [OF repr_reparent [OF B dj(8), of "Some m"]])
    fix x assume x: "x \<in> tset B"
    then have "x \<noteq> m" "x \<notin> kset k" "x \<notin> tset A" using dj m by auto
    then show "rb_nodes ?T x = reparent (rb_child (flip d) (?h n)) (Some m) ?h x"
      using K(2) [of x] q [of x] by (cases d) (auto simp: nodes reparent_def rb_child_def split: option.splits)
  qed
  moreover have "rb_nodes ?T m = ?h n" by (simp add: nodes)
  ultimately show ?thesis using n dj ok m by (auto simp: focus_def repr_mk)
qed

lemma focus_shape: "focus T (Some x) t k \<Longrightarrow> \<exists>e a b. t = mk d e a x b"
  by (cases t; cases d) (auto simp: focus_def mk_def)

lemma rb_walk_ok:
  assumes "focus T (Some x) t k"
  shows "\<exists>m e r kk. rb_walk d T x = kret m \<and> t = plug kk (mk d e Lf m r) \<and>
    (\<forall>s \<in> set kk. sdir s = d) \<and> focus T (Some m) (mk d e Lf m r) (kk @ k)"
  using assms
proof (induction t arbitrary: x k rule: measure_induct_rule [of size])
  case (less t)
  obtain e a b where t: "t = mk d e a x b"
    using focus_shape [OF less.prems] by blast
  note D = focus_down [OF less.prems [unfolded t]]
  show ?case
  proof (cases "rb_child d (rb_nodes T x)")
    case None
    then have "a = Lf" using D by (cases a) (auto simp: focus_def)
    moreover have "rb_walk d T x = kret x" using None by (simp add: rb_walk.simps [of d T x])
    ultimately show ?thesis
      using less.prems t by (intro exI [of _ x] exI [of _ e] exI [of _ b] exI [of _ "[]"]) auto
  next
    case (Some y)
    have "size a < size t" by (cases d) (simp_all add: t mk_def)
    then obtain m e' r kk where "rb_walk d T y = kret m" "a = plug kk (mk d e' Lf m r)"
      "\<forall>s \<in> set kk. sdir s = d" "focus T (Some m) (mk d e' Lf m r) (kk @ Step d e x b # k)"
      using less.IH [of a y "Step d e x b # k"] D Some by auto
    moreover have "rb_walk d T x = rb_walk d T y" using Some by (simp add: rb_walk.simps [of d T x])
    ultimately show ?thesis
      using t by (intro exI [of _ m] exI [of _ e'] exI [of _ r] exI [of _ "kk @ [Step d e x b]"]) auto
  qed
qed

definition kfits :: "rbt \<Rightarrow> path \<Rightarrow> nat \<Rightarrow> bool" where
  "kfits t k h \<longleftrightarrow> rbh t h \<and> kgood k h \<and> (col t = RB_RED \<longrightarrow> k \<noteq> [] \<and> kcol k = RB_BLACK)"

lemma kfits_down:
  assumes "kfits (mk d c a x b) k h"
  shows "\<exists>h'. kfits a (Step d c x b # k) h'"
proof (cases c)
  case RB_RED
  then show ?thesis using assms by (auto simp: kfits_def intro!: exI [of _ h])
next
  case RB_BLACK
  then show ?thesis using assms by (cases h) (auto simp: kfits_def)
qed

lemma kfits_plug: "kfits (plug kk t) k h \<Longrightarrow> \<exists>h'. kfits t (kk @ k) h'"
proof (induction kk arbitrary: t h)
  case Nil
  then show ?case by auto
next
  case (Cons s kk)
  obtain d c x u where s: "s = Step d c x u" by (cases s) auto
  then show ?case using Cons kfits_down [of d c t x u "kk @ k"] by fastforce
qed

lemma focus_find:
  assumes "focus T p t k" and "n \<in> tset t"
  shows "\<exists>c a b kk. focus T (Some n) (mk DirL c a n b) (kk @ k) \<and> plug kk (mk DirL c a n b) = t"
  using assms
proof (induction t arbitrary: p k)
  case Lf
  then show ?case by simp
next
  case (Nd c l x r)
  note L = focus_down [of T p DirL c l x r k] and R = focus_down [of T p DirR c r x l k]
  consider "n = x" | "n \<in> tset l" | "n \<in> tset r" using Nd.prems(2) by auto
  then show ?case
  proof cases
    case 1
    then show ?thesis
      using Nd.prems L by (intro exI [of _ c] exI [of _ l] exI [of _ r] exI [of _ "[]"]) (auto simp: mk_simps)
  next
    case 2
    obtain c' a b kk where "focus T (Some n) (mk DirL c' a n b) (kk @ Step DirL c x r # k)"
      "plug kk (mk DirL c' a n b) = l"
      using Nd.IH(1) [of "rb_child DirL (rb_nodes T x)" "Step DirL c x r # k"] L Nd.prems 2
      by (auto simp: mk_simps)
    then show ?thesis
      by (fastforce simp: mk_simps intro!: exI [of _ "kk @ [Step DirL c x r]"])
  next
    case 3
    obtain c' a b kk where "focus T (Some n) (mk DirL c' a n b) (kk @ Step DirR c x l # k)"
      "plug kk (mk DirL c' a n b) = r"
      using Nd.IH(2) [of "rb_child DirR (rb_nodes T x)" "Step DirR c x l # k"] R Nd.prems 3
      by (auto simp: mk_simps)
    then show ?thesis
      by (fastforce simp: mk_simps intro!: exI [of _ "kk @ [Step DirR c x l]"])
  qed
qed

lemma rb_finish:
  assumes f: "focus T q r k" and fit: "kfits (mk d c r n Lf) k h"
  shows "\<exists>T'. (if c = RB_BLACK then rb_erase_color q (kpar k) T else kret T) = kret T' \<and>
    rb_ok T' (inorder (plug k r))"
proof (cases c)
  case RB_BLACK
  then have "rbh r (h - 1)" "kgood k (Suc (h - 1))" using fit by (cases h; simp add: kfits_def)+
  then show ?thesis using rb_erase_color_ok [OF f] RB_BLACK by auto
next
  case RB_RED
  then have r: "rbh r h" "kgood k h" "col r = RB_BLACK" using fit by (auto simp: kfits_def)
  then obtain h' where "rbh (plug k r) h'" using rbh_plug [OF r(1,2)] by auto
  then have "rb_ok T (inorder (plug k r))"
    using col_plug [OF r(2)] r(3) focus_root [OF f] unfolding rb_ok_def by blast
  then show ?thesis using RB_RED by auto
qed

lemma rb_erase_one:
  assumes f: "focus T (Some n) (mk d c r n Lf) k" and fit: "kfits (mk d c r n Lf) k h"
  shows "\<exists>T'. rb_erase n T = kret T' \<and> rb_ok T' (inorder (plug k r))"
proof -
  have n: "rb_parent (rb_nodes T n) = kpar k" "rb_color (rb_nodes T n) = c"
    and "rb_child (flip d) (rb_nodes T n) = None"
    using f by (auto simp: focus_def repr_mk)
  then have "rb_erase n T =
      (let q = rb_child d (rb_nodes T n);
           T' = rb_relink DirL (kpar k) n q (rb_set_parent_ptr q (kpar k) T)
       in if c = RB_BLACK then rb_erase_color q (kpar k) T' else kret T')"
    by (cases d)
      (auto simp: rb_erase_def rb_erase_finish_def Let_def rb_child_def split: option.splits)
  then show ?thesis using rb_finish [OF focus_splice [OF f] fit] by (simp add: Let_def)
qed

lemma kset_append [simp]: "kset (kk @ k) = kset kk \<union> kset k"
  by (induction kk) auto

lemma tset_plug [simp]: "tset (plug kk t) = tset t \<union> kset kk"
  by (induction kk arbitrary: t) auto

lemma kok_append: "kok (kk @ k) \<longleftrightarrow> kok kk \<and> kok k \<and> kset kk \<inter> kset k = {}"
  by (induction kk) auto

lemma kgood_rename: "kgood (kk @ Step d c x s # k) h = kgood (kk @ Step d c y s # k) h"
proof (induction kk arbitrary: h)
  case Nil
  then show ?case by (cases c) simp_all
next
  case (Cons s kk)
  then show ?case by (cases kk) (auto split: rb_colour.splits)
qed

text \<open>The memory that \<^verbatim>\<open>rb_erase\<close> leaves for a node \<open>n\<close> with two children whose successor is
  \<open>m\<close>, before the colours are repaired.\<close>

definition erase_moved :: "nat \<Rightarrow> nat \<Rightarrow> rb_tree \<Rightarrow> rb_tree" where
  "erase_moved n m T =
     (let T = rb_relink DirL (rb_parent (rb_nodes T n)) n (Some m) T;
          child = rb_right (rb_nodes T m)
      in case rb_parent (rb_nodes T m) of
           None \<Rightarrow> T
         | Some p \<Rightarrow> rb_erase_copy n m (if p = n then T else rb_erase_unlink n m child p T))"

lemma rb_erase_copy_eval:
  assumes "rb_left (rb_nodes T n) \<noteq> Some n" and "rb_left (rb_nodes T n) \<noteq> Some m" and "n \<noteq> m"
  shows "rb_nodes (rb_erase_copy n m T) x = (if x = m
      then (rb_nodes T n)\<lparr>rb_right := rb_right (rb_nodes T m)\<rparr>
      else reparent (rb_left (rb_nodes T n)) (Some m) (rb_nodes T) x)"
    and "rb_root (rb_erase_copy n m T) = rb_root T"
  using assms
  by (cases "rb_left (rb_nodes T n)";
      auto simp: rb_erase_copy_def Let_def rb_with_child_def reparent_Some reparent_None)+

lemma rb_erase_unlink_eval:
  assumes "rb_right (rb_nodes T n) = Some y" and "distinct [n, m, p]" and "y \<noteq> n" and "y \<noteq> m"
    and "\<And>x. x \<in> {n, m, p, y} \<Longrightarrow> q \<noteq> Some x"
  shows "rb_nodes (rb_erase_unlink n m q p T) x =
      (if x = m then (rb_nodes T m)\<lparr>rb_right := Some y\<rparr>
       else reparent (Some y) (Some m)
         ((reparent q (Some p) (rb_nodes T))(p := (rb_nodes T p)\<lparr>rb_left := q\<rparr>)) x)"
    and "rb_root (rb_erase_unlink n m q p T) = rb_root T"
  using assms
  by (cases "x = m"; simp add: rb_erase_unlink_def Let_def rb_with_child_def reparent_Some)+

text \<open>The two conceptual steps: splice the successor out, then put it in the place of \<open>n\<close>.\<close>

definition erase_steps :: "nat \<Rightarrow> nat \<Rightarrow> nat option \<Rightarrow> path \<Rightarrow> rb_tree \<Rightarrow> rb_tree" where
  "erase_steps n m q K T =
     rb_replace_node n m (rb_relink DirL (kpar K) m q (rb_set_parent_ptr q (kpar K) T))"

lemma rb_node_eqI:
  fixes a b :: rb_node
  shows "rb_parent a = rb_parent b \<Longrightarrow> rb_color a = rb_color b \<Longrightarrow> rb_left a = rb_left b \<Longrightarrow>
    rb_right a = rb_right b \<Longrightarrow> a = b"
  by (cases a; cases b) simp

lemma rb_with_child_sel [simp]:
  "rb_left (rb_with_child DirL v r) = v" "rb_right (rb_with_child DirR v r) = v"
  "rb_left (rb_with_child DirR v r) = rb_left r" "rb_right (rb_with_child DirL v r) = rb_right r"
  by (simp_all add: rb_with_child_def)

lemma erase_moved_adjacent:
  assumes f: "focus T (Some n) (mk DirL c a n (mk DirR e r m Lf)) k"
  shows "x \<noteq> n \<Longrightarrow> rb_nodes (erase_moved n m T) x =
      rb_nodes (erase_steps n m (rb_right (rb_nodes T m)) (Step DirR c n a # k) T) x"
    and "rb_root (erase_moved n m T) =
      rb_root (erase_steps n m (rb_right (rb_nodes T m)) (Step DirR c n a # k) T)"
proof -
  let ?h = "rb_nodes T" and ?q = "rb_right (rb_nodes T m)" and ?L = "rb_left (rb_nodes T n)"
  have kc: "kctx ?h (rb_root T) (Some n) k" and n: "rb_parent (?h n) = kpar k"
    and m: "rb_parent (?h m) = Some n" "rb_right (?h n) = Some m" "n \<noteq> m" "n \<notin> kset k" "m \<notin> kset k"
    and r: "repr ?h (Some m) ?q r" and a: "repr ?h (Some n) ?L a"
    and dj: "n \<notin> tset r" "m \<notin> tset r" "n \<notin> tset a" "m \<notin> tset a" "tset a \<inter> tset r = {}"
      "tset r \<inter> kset k = {}" "tset a \<inter> kset k = {}"
    using f by (auto simp: focus_def repr_mk rb_child_def)
  have q: "?q \<noteq> Some n" "?q \<noteq> Some m" "?L \<noteq> Some n" "?L \<noteq> Some m"
    "kpar k \<noteq> Some n" "kpar k \<noteq> Some m"
    using repr_ptr_neq [OF r] repr_ptr_neq [OF a] dj m by (auto simp: kpar_def split: list.splits)
  have kq: "kpar k = Some y \<Longrightarrow> ?q \<noteq> Some y" "kpar k = Some y \<Longrightarrow> ?L \<noteq> Some y" for y
    using repr_ptr_neq [OF r] repr_ptr_neq [OF a] dj by (cases k; auto)+
  have qL: "?q = Some y \<Longrightarrow> ?L \<noteq> Some y" and qp: "?q = Some y \<Longrightarrow> rb_parent (?h y) = Some m" for y
    using r a dj by (cases r; cases a; auto)+
  note R = relink_eval [OF kc m(4), where d = DirL and new = "Some m"]
  let ?T0 = "rb_set_parent_ptr ?q (Some n) T"
  let ?T1 = "rb_relink DirL (Some n) m ?q ?T0"
  have h1: "rb_nodes ?T1 = (reparent ?q (Some n) ?h)(n := (?h n)\<lparr>rb_right := ?q\<rparr>)" "rb_root ?T1 = rb_root T"
    using q m by (auto simp: rb_relink_def rb_child_def rb_with_child_def fun_eq_iff)
  have "kctx (rb_nodes ?T1) (rb_root ?T1) (Some n) k"
    unfolding h1(2)
  proof (rule kctx_frame [OF kc])
    fix y assume "y \<in> kset k"
    then have "?q \<noteq> Some y" "y \<noteq> n" using repr_ptr_neq [OF r] dj m by auto
    then show "rb_nodes ?T1 y = ?h y" by (simp add: h1)
  qed
  note R1 = relink_eval [OF this m(4), where d = DirL and new = "Some m"]
  show "rb_root (erase_moved n m T) = rb_root (erase_steps n m ?q (Step DirR c n a # k) T)"
    using R R1 n m q h1
    by (auto simp: erase_moved_def rb_erase_copy_eval erase_steps_def rb_replace_node_def Let_def relinked_def)
  have M: "rb_nodes (erase_moved n m T) = reparent ?L (Some m) ((relinked k (Some m) ?h)
      (m := (?h m)\<lparr>rb_parent := kpar k, rb_color := rb_color (?h n), rb_left := ?L\<rparr>))"
    using R n m q rb_erase_copy_eval(1)
    by (auto simp: erase_moved_def Let_def relinked_def fun_eq_iff reparent_def
        intro!: rb_node_eqI split: option.splits)
  have S: "rb_nodes (erase_steps n m ?q (Step DirR c n a # k) T) =
      (reparent ?q (Some m) (reparent ?L (Some m) (relinked k (Some m) (rb_nodes ?T1))))
        (m := (?h n)\<lparr>rb_right := ?q\<rparr>)"
    using R1 n m q h1 by (simp add: erase_steps_def rb_replace_node_def Let_def relinked_def)
  assume x: "x \<noteq> n"
  consider "x = m" | "x \<noteq> m" "?q = Some x" | "x \<noteq> m" "?q \<noteq> Some x" by blast
  then show "rb_nodes (erase_moved n m T) x = rb_nodes (erase_steps n m ?q (Step DirR c n a # k) T) x"
  proof cases
    case 1
    then show ?thesis using n q by (auto simp: M S intro!: rb_node_eqI)
  next
    case 2
    then have "?L \<noteq> Some x" "kpar k \<noteq> Some x" "rb_parent (?h x) = Some m"
      using qL kq qp by auto
    then show ?thesis
      unfolding M S h1 using 2 x by (intro rb_node_eqI) (simp_all add: relinked_def reparent_Some)
  next
    case 3
    then show ?thesis
      unfolding M S h1 using x by (cases ?L) (auto simp: relinked_def reparent_Some reparent_None)
  qed
qed

lemma erase_moved_far:
  assumes f: "focus T (Some m) (mk DirR e r m Lf) (Step DirL c1 p s1 # kk @ Step DirR c n a # k)"
    and R: "rb_right (rb_nodes T n) = Some y" and y: "y \<in> insert p (kset kk)"
  shows "x \<noteq> n \<Longrightarrow> rb_nodes (erase_moved n m T) x = rb_nodes (erase_steps n m
      (rb_right (rb_nodes T m)) (Step DirL c1 p s1 # kk @ Step DirR c n a # k) T) x"
    and "rb_root (erase_moved n m T) = rb_root (erase_steps n m
      (rb_right (rb_nodes T m)) (Step DirL c1 p s1 # kk @ Step DirR c n a # k) T)"
proof -
  let ?K = "Step DirL c1 p s1 # kk @ Step DirR c n a # k"
  let ?h = "rb_nodes T" and ?q = "rb_right (rb_nodes T m)" and ?L = "rb_left (rb_nodes T n)"
  obtain t where fn: "focus T (Some n) (mk DirR c t n a) k" and tt: "tset t = insert p (insert m (tset r \<union> tset s1 \<union> kset kk))"
  proof -
    obtain p' where "focus T p' (plug (Step DirL c1 p s1 # kk) (mk DirR e r m Lf)) (Step DirR c n a # k)"
      using focus_plug [of T "Some m" "mk DirR e r m Lf" "Step DirL c1 p s1 # kk"] f by auto
    from focus_up_ptr [OF this] that show thesis by auto
  qed
  have kc: "kctx ?h (rb_root T) (Some n) k" and n: "rb_parent (?h n) = kpar k" "n \<notin> kset k"
    and a: "repr ?h (Some n) ?L a"
    using fn by (auto simp: focus_def repr_mk rb_child_def)
  have m: "rb_parent (?h m) = Some p" "rb_left (?h p) = Some m" "rb_left (?h m) = None"
    and r: "repr ?h (Some m) ?q r"
    using f by (auto simp: focus_def repr_mk rb_child_def)
  have dj: "distinct [m, n, p]" "m \<notin> tset r \<union> tset a \<union> kset k" "n \<notin> tset r \<union> tset a \<union> kset k"
      "p \<notin> tset r \<union> tset a \<union> kset k" "tset r \<inter> (tset a \<union> kset k) = {}" "tset a \<inter> kset k = {}"
      "y \<notin> tset r \<union> tset a \<union> kset k" "y \<noteq> m" "y \<noteq> n"
    using f y by (auto simp: focus_def kok_append)
  have q: "?q \<noteq> Some n" "?q \<noteq> Some m" "?q \<noteq> Some p" "?q \<noteq> Some y" "?L \<noteq> Some n" "?L \<noteq> Some m"
    "?L \<noteq> Some p" "?L \<noteq> Some y" "kpar k \<noteq> Some n" "kpar k \<noteq> Some m" "kpar k \<noteq> Some p" "kpar k \<noteq> Some y"
    using repr_ptr_neq [OF r] repr_ptr_neq [OF a] dj by (auto simp: kpar_def split: list.splits)
  have kq: "kpar k = Some z \<Longrightarrow> ?q \<noteq> Some z" "kpar k = Some z \<Longrightarrow> ?L \<noteq> Some z"
    and qL: "?q = Some z \<Longrightarrow> ?L \<noteq> Some z" for z
    using repr_ptr_neq [OF r] repr_ptr_neq [OF a] repr_ptr_in [of ?h "Some m" z r] r dj
    by (cases k; auto)+
  note Rk = relink_eval [OF kc n(2), where d = DirL and new = "Some m"]
  let ?T0 = "rb_set_parent_ptr ?q (Some p) T"
  let ?T1 = "rb_relink DirL (Some p) m ?q ?T0"
  have h1: "rb_nodes ?T1 = (reparent ?q (Some p) ?h)(p := (?h p)\<lparr>rb_left := ?q\<rparr>)" "rb_root ?T1 = rb_root T"
    using q m by (auto simp: rb_relink_def rb_child_def rb_with_child_def fun_eq_iff)
  have "kctx (rb_nodes ?T1) (rb_root ?T1) (Some n) k"
    unfolding h1(2)
  proof (rule kctx_frame [OF kc])
    fix z assume "z \<in> kset k"
    then have "?q \<noteq> Some z" "z \<noteq> p" using repr_ptr_neq [OF r] dj by auto
    then show "rb_nodes ?T1 z = ?h z" by (simp add: h1)
  qed
  note R1 = relink_eval [OF this n(2), where d = DirL and new = "Some m"]
  define Tr where "Tr = rb_relink DirL (kpar k) n (Some m) T"
  have tr: "rb_nodes Tr x = ?h x" if "x \<in> {n, m, p, y}" for x
    using that Rk(1) q by (auto simp: Tr_def relinked_def)
  define Tu where "Tu = rb_erase_unlink n m ?q p Tr"
  have mv: "erase_moved n m T = rb_erase_copy n m Tu"
    using n m tr dj by (simp add: erase_moved_def Let_def Tr_def [symmetric] Tu_def)
  have "rb_right (rb_nodes Tr n) = Some y" "distinct [n, m, p]"
    and "\<And>x. x \<in> {n, m, p, y} \<Longrightarrow> ?q \<noteq> Some x"
    using tr R dj(1) q(1-4) by auto
  note U = rb_erase_unlink_eval [OF this(1,2) dj(9,8) this(3), folded Tu_def]
  have tu: "rb_nodes Tu x = (if x = m then (?h m)\<lparr>rb_right := Some y\<rparr>
      else reparent (Some y) (Some m)
        ((reparent ?q (Some p) (rb_nodes Tr))(p := (?h p)\<lparr>rb_left := ?q\<rparr>)) x)"
    and tur: "rb_root Tu = rb_root Tr" for x
    using U tr [of m] tr [of p] by simp_all
  have un: "rb_nodes Tu n = ?h n"
    using tu [of n] tr [of n] dj(1,9) q(1) by (simp add: reparent_Some)
  have M: "rb_nodes (erase_moved n m T) z = (if z = m then ?h n
      else reparent ?L (Some m) (reparent (Some y) (Some m)
        ((reparent ?q (Some p) (rb_nodes Tr))(p := (?h p)\<lparr>rb_left := ?q\<rparr>))) z)" for z
  proof (cases "z = m")
    case True
    have "(?h n)\<lparr>rb_right := Some y\<rparr> = ?h n" using R by (intro rb_node_eqI) simp_all
    then show ?thesis
      using True rb_erase_copy_eval(1) [of Tu n m m] un tu [of m] q(5,6) dj(1) by (simp add: mv)
  next
    case False
    have "rb_nodes (erase_moved n m T) z = reparent ?L (Some m) (rb_nodes Tu) z"
      using False rb_erase_copy_eval(1) [of Tu n m z] un q(5,6) dj(1) by (simp add: mv)
    also have "\<dots> = reparent ?L (Some m) (reparent (Some y) (Some m)
        ((reparent ?q (Some p) (rb_nodes Tr))(p := (?h p)\<lparr>rb_left := ?q\<rparr>))) z"
      by (rule reparent_cong) (use tu [of z] False in simp)
    finally show ?thesis using False by simp
  qed
  have S: "rb_nodes (erase_steps n m ?q ?K T) =
      (reparent (Some y) (Some m) (reparent ?L (Some m) (relinked k (Some m) (rb_nodes ?T1))))(m := ?h n)"
    using R1 n m q h1 R dj by (simp add: erase_steps_def rb_replace_node_def Let_def relinked_def)
  show "rb_root (erase_moved n m T) = rb_root (erase_steps n m ?q ?K T)"
    using Rk R1 n m q h1 dj un
    by (simp add: mv rb_erase_copy_eval tur Tr_def erase_steps_def rb_replace_node_def Let_def relinked_def)
  assume x: "x \<noteq> n"
  show "rb_nodes (erase_moved n m T) x = rb_nodes (erase_steps n m ?q ?K T) x"
  proof (cases "x = m")
    case True
    then show ?thesis by (simp add: M S)
  next
    case False
    have "((reparent ?q (Some p) (rb_nodes Tr))(p := (?h p)\<lparr>rb_left := ?q\<rparr>)) x =
        relinked k (Some m) (rb_nodes ?T1) x"
      unfolding h1 Tr_def Rk(1) relinked_def
      using q(11) kq(1) [of x] by (cases "?q = Some x") (auto simp: reparent_Some)
    then show ?thesis
      unfolding M S using False q(8) by (simp add: reparent_swap cong: reparent_cong)
  qed
qed

lemma erase_moved_focus:
  assumes f: "focus T (Some m) (mk DirR e r m Lf) (kk @ Step DirR c n a # k)"
    and dirs: "\<forall>s \<in> set kk. sdir s = DirL"
  shows "focus (erase_moved n m T) (rb_right (rb_nodes T m)) r (kk @ Step DirR c m a # k)"
proof -
  let ?K = "kk @ Step DirR c n a # k" and ?q = "rb_right (rb_nodes T m)"
  let ?T1 = "rb_relink DirL (kpar ?K) m ?q (rb_set_parent_ptr ?q (kpar ?K) T)"
  let ?T2 = "erase_steps n m ?q ?K T"
  have s1: "focus ?T1 ?q r ?K"
    using focus_splice [OF f] by (simp add: rb_child_def)
  then obtain p1 where "focus ?T1 p1 (plug kk r) (Step DirR c n a # k)"
    using focus_plug by blast
  then have "focus ?T1 (Some n) (mk DirR c (plug kk r) n a) k" using focus_up_ptr by blast
  moreover have "m \<notin> insert n (tset (plug kk r) \<union> tset a \<union> kset k)"
    using f by (auto simp: focus_def)
  ultimately have "focus ?T2 (Some m) (mk DirR c (plug kk r) m a) k"
    unfolding erase_steps_def by (rule focus_replace)
  then obtain p2 where s2: "focus ?T2 p2 r (kk @ Step DirR c m a # k)"
    using focus_down focus_unplug by blast
  have "p2 = ?q"
    using s1 s2 repr_ptr unfolding focus_def by metis
  moreover have "(\<forall>x. x \<noteq> n \<longrightarrow> rb_nodes (erase_moved n m T) x = rb_nodes ?T2 x) \<and>
      rb_root (erase_moved n m T) = rb_root ?T2"
  proof (cases kk)
    case Nil
    then have "focus T (Some n) (mk DirR c (mk DirR e r m Lf) n a) k"
      using f focus_up_ptr by fastforce
    then have "focus T (Some n) (mk DirL c a n (mk DirR e r m Lf)) k"
      by (simp add: mk_simps)
    from erase_moved_adjacent [OF this] Nil show ?thesis by auto
  next
    case (Cons s kk')
    obtain c1 p s1 where s: "s = Step DirL c1 p s1" using dirs Cons by (cases s) auto
    obtain p1 where p1: "focus T p1 (plug kk (mk DirR e r m Lf)) (Step DirR c n a # k)"
      using f focus_plug by blast
    have "\<exists>y \<in> insert p (kset kk'). p1 = Some y"
    proof -
      have kc: "kctx (rb_nodes T) (rb_root T) (Some p) (kk' @ Step DirR c n a # k)"
        using f unfolding Cons s focus_def by simp
      have "rb_child DirR (rb_nodes T n) = p1" using focus_up_ptr [OF p1] by simp
      moreover have "\<exists>y \<in> insert z (kset kk'). rb_child DirR (rb_nodes T n) = Some y"
        if "kctx (rb_nodes T) (rb_root T) (Some z) (kk' @ Step DirR c n a # k)" for z
        using that by (induction kk' arbitrary: z) fastforce+
      ultimately show ?thesis using kc by blast
    qed
    then obtain y where y: "y \<in> insert p (kset kk')" "rb_right (rb_nodes T n) = Some y"
      using focus_up_ptr [OF p1] by (auto simp: rb_child_def)
    show ?thesis
      using erase_moved_far [OF f [unfolded Cons s append_Cons] y(2,1)] by (simp add: Cons s)
  qed
  moreover have "n \<notin> tset r \<union> kset (kk @ Step DirR c m a # k)"
    using f by (auto simp: focus_def kok_append)
  ultimately show ?thesis
    using focus_frame [OF s2, of "erase_moved n m T"] by metis
qed

lemma rb_erase_two:
  assumes f: "focus T (Some n) (mk DirL c a n b) k" and fit: "kfits (mk DirL c a n b) k h"
    and nl: "a \<noteq> Lf" "b \<noteq> Lf"
  shows "\<exists>T'. rb_erase n T = kret T' \<and> rb_ok T' (kleft k @ inorder a @ inorder b @ kright k)"
proof -
  note F = focus_far(2) [OF f, simplified]
  obtain l x where lx: "rb_left (rb_nodes T n) = Some l" "rb_right (rb_nodes T n) = Some x"
    using f nl by (cases a; cases b) (auto simp: focus_def mk_simps)
  obtain m e r kk where w: "rb_walk DirL T x = kret m" and b: "b = plug kk (mk DirL e Lf m r)"
    and dirs: "\<forall>s \<in> set kk. sdir s = DirL"
    and fm: "focus T (Some m) (mk DirL e Lf m r) (kk @ Step DirR c n a # k)"
    using rb_walk_ok [of T x b "Step DirR c n a # k" DirL] F lx by (auto simp: rb_child_def)
  have fm': "focus T (Some m) (mk DirR e r m Lf) (kk @ Step DirR c n a # k)"
    using fm by (simp add: mk_simps)
  let ?q = "rb_right (rb_nodes T m)" and ?K = "kk @ Step DirR c m a # k"
  note g = erase_moved_focus [OF fm' dirs]
  obtain h' where "kfits b (Step DirR c n a # k) h'"
    using kfits_down [of DirR c b n a k h] fit by (auto simp: mk_simps)
  then obtain h0 where h0: "kfits (mk DirL e Lf m r) (kk @ Step DirR c n a # k) h0"
    using kfits_plug unfolding b by blast
  have "kcol (kk @ Step DirR c n a # k) = kcol ?K" by (cases kk) auto
  then have fit': "kfits (mk DirR e r m Lf) ?K h0"
    using h0 kgood_rename [of kk DirR c n a k h0 m] by (auto simp: kfits_def mk_simps)
  obtain T' where T': "rb_erase_finish ?q (kpar ?K) e (erase_moved n m T) = kret T'"
    "rb_ok T' (inorder (plug ?K r))"
    using rb_finish [OF g fit'] by (auto simp: rb_erase_finish_def)
  have par: "rb_parent (rb_nodes T n) = kpar k" "n \<notin> kset k" "m \<notin> kset k" "n \<noteq> m"
    and kc: "kctx (rb_nodes T) (rb_root T) (Some n) k"
    using f fm by (auto simp: focus_def repr_mk)
  have tr: "rb_nodes (rb_relink DirL (kpar k) n (Some m) T) m = rb_nodes T m"
    using kctx_relink(2) [OF kc par(2)] f par(3) by (auto simp: focus_def)
  have m: "rb_parent (rb_nodes T m) = kpar (kk @ Step DirR c n a # k)" "rb_color (rb_nodes T m) = e"
    using focus_node [OF fm] by auto
  have "rb_erase n T = rb_erase_finish ?q (kpar ?K) e (erase_moved n m T)"
  proof (cases kk)
    case Nil
    then show ?thesis using w lx par tr m by (simp add: rb_erase_def erase_moved_def Let_def)
  next
    case (Cons s kk')
    then have "snode s \<noteq> n" using fm by (auto simp: focus_def kok_append)
    then show ?thesis using Cons w lx par tr m by (simp add: rb_erase_def erase_moved_def Let_def)
  qed
  moreover have "inorder (plug ?K r) = kleft k @ inorder a @ inorder b @ kright k"
  proof -
    have "kleft kk = []" using dirs by (induction kk) auto
    then show ?thesis by (simp add: b inorder_plug inorder_mk join_def)
  qed
  ultimately show ?thesis using T' by simp
qed

lemma rb_erase_ok:
  assumes ok: "rb_ok T xs" and n: "n \<in> set xs"
  shows "\<exists>T'. rb_erase n T = kret T' \<and> rb_ok T' (remove1 n xs)"
proof -
  obtain t h where t: "focus T (rb_root T) t []" "inorder t = xs" "rbh t h" "col t = RB_BLACK"
    using ok by (auto simp: rb_ok_def)
  obtain c a b k where f: "focus T (Some n) (mk DirL c a n b) k" and pl: "plug k (mk DirL c a n b) = t"
    using focus_find [OF t(1), of n] n t(2) by auto
  obtain h' where fit: "kfits (mk DirL c a n b) k h'"
    using kfits_plug [of k "mk DirL c a n b" "[]" h] t pl by (auto simp: kfits_def)
  have xs: "xs = kleft k @ inorder a @ n # inorder b @ kright k"
    using t(2) pl by (auto simp: inorder_plug inorder_mk join_def)
  have "distinct xs" using t by (auto simp: focus_def)
  then have rm: "remove1 n xs = kleft k @ inorder a @ inorder b @ kright k"
    by (simp add: xs remove1_append)
  consider "a = Lf" | "b = Lf" | "a \<noteq> Lf" "b \<noteq> Lf" by blast
  then show ?thesis
  proof cases
    case 1
    then have "focus T (Some n) (mk DirR c b n Lf) k" "kfits (mk DirR c b n Lf) k h'"
      using f fit by (simp_all add: mk_simps)
    then show ?thesis using rb_erase_one 1 by (fastforce simp: rm inorder_plug)
  next
    case 2
    then have "focus T (Some n) (mk DirL c a n Lf) k" "kfits (mk DirL c a n Lf) k h'"
      using f fit by simp_all
    then show ?thesis using rb_erase_one 2 by (fastforce simp: rm inorder_plug)
  next
    case 3
    then show ?thesis using rb_erase_two [OF f fit] by (simp add: rm)
  qed
qed

section \<open>Adding a node\<close>

definition klink :: "path \<Rightarrow> (nat \<times> rb_dir) option" where
  "klink k = (case k of [] \<Rightarrow> None | s # _ \<Rightarrow> Some (snode s, sdir s))"

lemma klink_simps [simp]: "klink [] = None" "klink (s # k) = Some (snode s, sdir s)"
  by (simp_all add: klink_def)

lemma focus_link:
  assumes f: "focus T None Lf k" and x: "x \<notin> kset k"
  shows "focus (rb_link_node x (klink k) T) (Some x) (mk DirL RB_RED Lf x Lf) k"
proof (cases k)
  case Nil
  then show ?thesis
    by (simp add: focus_def rb_link_node_def Let_def mk_simps)
next
  case (Cons s k')
  define T' where "T' = rb_link_node x (klink k) T"
  have nodes: "rb_nodes T' = (rb_nodes T)(x := (rb_nodes T x)\<lparr>rb_parent := Some (snode s),
      rb_color := RB_RED, rb_left := None, rb_right := None\<rparr>,
      snode s := rb_with_child (sdir s) (Some x) (rb_nodes T (snode s)))"
    and root: "rb_root T' = rb_root T"
    using x by (auto simp: T'_def Cons rb_link_node_def Let_def)
  have kc: "kctx (rb_nodes T) (rb_root T) None k" and ok: "kok k"
    using f by (auto simp: focus_def)
  have "repr (rb_nodes T') q p (ssib s) = repr (rb_nodes T) q p (ssib s)" for q p
    using x ok Cons by (intro repr_cong) (auto simp: nodes)
  moreover have "kctx (rb_nodes T') rt p k' = kctx (rb_nodes T) rt p k'" for rt p
    using x ok Cons by (intro kctx_cong) (auto simp: nodes)
  ultimately have "kctx (rb_nodes T') (rb_root T') (Some x) k"
    using kc x Cons by (auto simp: nodes root)
  moreover have "repr (rb_nodes T') (kpar k) (Some x) (mk DirL RB_RED Lf x Lf)"
    using x Cons by (auto simp: nodes mk_simps)
  ultimately show ?thesis using x ok by (simp add: focus_def T'_def)
qed

lemma rb_insert_ok:
  assumes "focus T None Lf k" and "kfits Lf k h" and "x \<notin> kset k"
  shows "\<exists>T'. rb_insert_color x (rb_link_node x (klink k) T) = kret T' \<and>
    rb_ok T' (kleft k @ x # kright k)"
proof -
  have h: "h = 0" "kgood k h" using assms(2) by (auto simp: kfits_def)
  have "rbh (mk DirL RB_RED Lf x Lf) h" using h by simp
  from rb_insert_color_ok [OF focus_link [OF assms(1,3)] this h(2)]
  show ?thesis by (simp add: inorder_plug inorder_mk join_def)
qed

section \<open>Traversal\<close>

definition hd_opt :: "'a list \<Rightarrow> 'a option" where
  "hd_opt xs = (case xs of [] \<Rightarrow> None | x # _ \<Rightarrow> Some x)"

lemma hd_opt_simps [simp]: "hd_opt [] = None" "hd_opt (x # xs) = Some x"
  by (simp_all add: hd_opt_def)

text \<open>\<open>along d xs\<close> is \<open>xs\<close> read from its \<open>d\<close> end.\<close>

definition along :: "rb_dir \<Rightarrow> 'a list \<Rightarrow> 'a list" where
  "along d xs = (case d of DirL \<Rightarrow> xs | DirR \<Rightarrow> rev xs)"

lemma along_join: "along d (join d xs ys) = along d xs @ along d ys"
  by (cases d) (simp_all add: along_def join_def)

lemma along_plug:
  assumes "\<forall>s \<in> set kk. sdir s = d"
  shows "\<exists>ys. along d (inorder (plug kk t)) = along d (inorder t) @ ys"
  using assms
proof (induction kk arbitrary: t)
  case Nil
  then show ?case by simp
next
  case (Cons s kk)
  from Cons.IH [of "mk d (scol s) t (snode s) (ssib s)"] Cons.prems show ?case
    by (auto simp: inorder_mk along_join)
qed

lemma rb_walk_end:
  assumes "focus T (Some x) t k"
  shows "\<exists>m. rb_walk d T x = kret m \<and> hd_opt (along d (inorder t)) = Some m"
proof -
  obtain m e r kk where w: "rb_walk d T x = kret m" "t = plug kk (mk d e Lf m r)"
    "\<forall>s \<in> set kk. sdir s = d"
    using rb_walk_ok [OF assms] by blast
  from along_plug [OF w(3), of "mk d e Lf m r"] obtain ys where
    "along d (inorder t) = along d (inorder (mk d e Lf m r)) @ ys" using w(2) by blast
  moreover have "along d (inorder (mk d e Lf m r)) = m # along d (inorder r)"
    by (cases d) (simp_all add: mk_def along_def)
  ultimately show ?thesis using w(1) by simp
qed

lemma rb_end_ok: "rb_ok T xs \<Longrightarrow> rb_end d T = kret (hd_opt (along d xs))"
proof -
  assume "rb_ok T xs"
  then obtain t where t: "focus T (rb_root T) t []" "inorder t = xs" by (auto simp: rb_ok_def)
  show ?thesis
  proof (cases "rb_root T")
    case None
    then have "t = Lf" using t(1) by (cases t) (auto simp: focus_def)
    with None t(2) show ?thesis by (cases d) (auto simp: rb_end_def along_def)
  next
    case (Some n)
    with rb_walk_end [of T n t "[]" d] t show ?thesis by (auto simp: rb_end_def)
  qed
qed

lemma rb_climb_ok:
  assumes "focus T (Some n) t k"
  shows "rb_climb d T n = kret (map_option snode (find (\<lambda>s. sdir s = flip d) k))"
  using assms
proof (induction k arbitrary: n t)
  case Nil
  then have "rb_parent (rb_nodes T n) = None" by (cases t) (auto simp: focus_def)
  then show ?case by (simp add: rb_climb.simps [of d T n])
next
  case (Cons s k)
  obtain e c x u where s: "s = Step e c x u" by (cases s) auto
  have par: "rb_parent (rb_nodes T n) = Some x"
    using Cons.prems by (cases t) (auto simp: focus_def s)
  note S = focus_sibling(1,2) [OF Cons.prems [unfolded s]]
  have up: "focus T (Some x) (mk e c t x u) k" using focus_up_ptr Cons.prems unfolding s by blast
  show ?case
  proof (cases "e = d")
    case True
    then show ?thesis using Cons.IH [OF up] par S by (simp add: rb_climb.simps [of d T n] s)
  next
    case False
    then have "e = flip d" using dir_cases by blast
    then show ?thesis using par S by (simp add: rb_climb.simps [of d T n] s)
  qed
qed

lemma kright_find: "hd_opt (kright k) = map_option snode (find (\<lambda>s. sdir s = DirL) k)"
  and kleft_find: "hd_opt (rev (kleft k)) = map_option snode (find (\<lambda>s. sdir s = DirR) k)"
  by (induction k) (auto split: rb_dir.splits)

lemma rb_step_ok:
  assumes f: "focus T (Some n) (mk DirL c a n b) k"
  shows "rb_step DirR T n = kret (hd_opt (inorder b @ kright k))"
    and "rb_step DirL T n = kret (hd_opt (rev (kleft k @ inorder a)))"
proof -
  have ns: "rb_parent (rb_nodes T n) \<noteq> Some n"
    using f by (cases k) (auto simp: focus_def repr_mk)
  note A = focus_down [OF f] and B = focus_far [OF f]
  show "rb_step DirR T n = kret (hd_opt (inorder b @ kright k))"
  proof (cases "rb_right (rb_nodes T n)")
    case None
    then have "b = Lf" using B by (cases b) (auto simp: focus_def rb_child_def)
    then show ?thesis
      using None ns rb_climb_ok [OF f, of DirR] kright_find
      by (simp add: rb_step_def rb_child_def)
  next
    case (Some m)
    then obtain m' where "rb_walk DirL T m = kret m'" "hd_opt (inorder b) = Some m'"
      using rb_walk_end [of T m b _ DirL] B by (auto simp: rb_child_def along_def)
    then show ?thesis
      using Some ns by (cases "inorder b") (auto simp: rb_step_def rb_child_def)
  qed
  show "rb_step DirL T n = kret (hd_opt (rev (kleft k @ inorder a)))"
  proof (cases "rb_left (rb_nodes T n)")
    case None
    then have "a = Lf" using A by (cases a) (auto simp: focus_def rb_child_def)
    then show ?thesis
      using None ns rb_climb_ok [OF f, of DirL] kleft_find
      by (simp add: rb_step_def rb_child_def)
  next
    case (Some m)
    then obtain m' where "rb_walk DirR T m = kret m'" "hd_opt (rev (inorder a)) = Some m'"
      using rb_walk_end [of T m a _ DirR] A by (auto simp: rb_child_def along_def)
    then show ?thesis
      using Some ns by (cases "rev (inorder a)") (auto simp: rb_step_def rb_child_def)
  qed
qed

lemma rb_next_prev_ok:
  assumes ok: "rb_ok T (ys @ n # zs)"
  shows "rb_next T n = kret (hd_opt zs)" and "rb_prev T n = kret (hd_opt (rev ys))"
proof -
  obtain t where t: "focus T (rb_root T) t []" "inorder t = ys @ n # zs" using ok by (auto simp: rb_ok_def)
  then have "n \<in> tset t" using set_inorder [of t] by auto
  then obtain c a b k where f: "focus T (Some n) (mk DirL c a n b) k" and pl: "plug k (mk DirL c a n b) = t"
    using focus_find [OF t(1), of n] by auto
  have eq: "ys @ n # zs = (kleft k @ inorder a) @ n # (inorder b @ kright k)"
    using t(2) pl by (auto simp: inorder_plug inorder_mk join_def)
  have "distinct (ys @ n # zs)" using t by (metis distinct_inorder focus_def)
  then have "n \<notin> set ys" "n \<notin> set zs" by simp_all
  then have "ys = kleft k @ inorder a" "zs = inorder b @ kright k"
    using append_Cons_eq_iff [of n ys zs "kleft k @ inorder a" "inorder b @ kright k"] eq by auto
  then show "rb_next T n = kret (hd_opt zs)" and "rb_prev T n = kret (hd_opt (rev ys))"
    using rb_step_ok [OF f] by (simp_all add: rb_next_def rb_prev_def)
qed

section \<open>The height of the tree\<close>

primrec height :: "rbt \<Rightarrow> nat" where
  "height Lf = 0"
| "height (Nd c l x r) = Suc (max (height l) (height r))"

lemma rbh_size: "rbh t h \<Longrightarrow> 2 ^ h \<le> length (inorder t) + 1"
proof (induction t arbitrary: h)
  case Lf
  then show ?case by simp
next
  case (Nd c l x r)
  then show ?case
  proof (cases c)
    case RB_RED
    then have "2 ^ h \<le> length (inorder l) + 1" using Nd by simp
    then show ?thesis by simp
  next
    case RB_BLACK
    then have "0 < h" "2 ^ (h - 1) \<le> length (inorder l) + 1" "2 ^ (h - 1) \<le> length (inorder r) + 1"
      using Nd by auto
    then show ?thesis by (cases h) simp_all
  qed
qed

lemma rbh_height: "rbh t h \<Longrightarrow> height t \<le> 2 * h + (if col t = RB_RED then 1 else 0)"
proof (induction t arbitrary: h)
  case Lf
  then show ?case by simp
next
  case (Nd c l x r)
  show ?case
  proof (cases c)
    case RB_RED
    then show ?thesis using Nd.IH(1) [of h] Nd.IH(2) [of h] Nd.prems by simp
  next
    case RB_BLACK
    then have "0 < h" "height l \<le> 2 * (h - 1) + 1" "height r \<le> 2 * (h - 1) + 1"
      using Nd.IH(1) [of "h - 1"] Nd.IH(2) [of "h - 1"] Nd.prems by (auto split: if_splits)
    then show ?thesis using RB_BLACK by simp
  qed
qed

section \<open>Contracts of the tree operations\<close>

lemma rb_link_ok:
  assumes ok: "rb_ok T xs" and x: "x \<notin> set xs"
    and link: "case link of None \<Rightarrow> rb_root T = None
      | Some (p, d) \<Rightarrow> p \<in> set xs \<and> rb_child d (rb_nodes T p) = None"
  shows "\<exists>k h. klink k = link \<and> focus T None Lf k \<and> kfits Lf k h \<and> x \<notin> kset k \<and>
    xs = kleft k @ kright k"
proof -
  obtain t h where t: "focus T (rb_root T) t []" "inorder t = xs" "kfits t [] h"
    using ok by (auto simp: rb_ok_def kfits_def)
  have "\<exists>k h. klink k = link \<and> focus T None Lf k \<and> kfits Lf k h \<and> plug k Lf = t"
  proof (cases link)
    case None
    then have "t = Lf" using link t(1) by (cases t) (auto simp: focus_def)
    then show ?thesis using None link t(1,3) by (intro exI [of _ "[]"] exI [of _ h]) auto
  next
    case (Some l)
    obtain p d where l: "l = (p, d)" by (cases l)
    then have p: "p \<in> tset t" "rb_child d (rb_nodes T p) = None"
      using link Some t(2) set_inorder [of t] by auto
    obtain c a b k where f: "focus T (Some p) (mk DirL c a p b) k" and pl: "plug k (mk DirL c a p b) = t"
      using focus_find [OF t(1) p(1)] by auto
    define u v where "u = (case d of DirL \<Rightarrow> a | DirR \<Rightarrow> b)" and "v = (case d of DirL \<Rightarrow> b | DirR \<Rightarrow> a)"
    have uv: "mk DirL c a p b = mk d c u p v" by (cases d) (simp_all add: u_def v_def mk_simps)
    have down: "focus T (rb_child d (rb_nodes T p)) u (Step d c p v # k)"
      using focus_down [of T "Some p" d c u p v k] f uv by simp
    then have lf: "u = Lf" using p(2) by (cases u) (auto simp: focus_def)
    obtain h' where "kfits (mk d c u p v) k h'"
      using kfits_plug [of k "mk d c u p v" "[]" h] t(3) pl uv by auto
    then obtain h'' where "kfits Lf (Step d c p v # k) h''" using kfits_down lf by blast
    moreover have "plug (Step d c p v # k) Lf = t" using pl uv lf by simp
    ultimately show ?thesis using down lf p(2) Some l
      by (intro exI [of _ "Step d c p v # k"] exI [of _ h'']) simp
  qed
  then obtain k h where k: "klink k = link" "focus T None Lf k" "kfits Lf k h" "plug k Lf = t" by blast
  have "tset (plug k Lf) = kset k" for k :: path
  proof -
    have "tset (plug k t) = tset t \<union> kset k" for t by (induction k arbitrary: t) auto
    then show ?thesis by simp
  qed
  then have "x \<notin> kset k" using x k(4) t(2) set_inorder [of t] by metis
  moreover have "xs = kleft k @ kright k" using t(2) k(4) inorder_plug [of k Lf] by simp
  ultimately show ?thesis using k by blast
qed

text \<open>A tree of three nodes, black at the root.\<close>

definition sample_tree :: rb_tree where
  "sample_tree = \<lparr>rb_nodes = (\<lambda>_. \<lparr>rb_parent = None, rb_color = RB_BLACK, rb_right = None, rb_left = None\<rparr>)
     (1 := \<lparr>rb_parent = Some 2, rb_color = RB_RED, rb_right = None, rb_left = None\<rparr>,
      2 := \<lparr>rb_parent = None, rb_color = RB_BLACK, rb_right = Some 3, rb_left = Some 1\<rparr>,
      3 := \<lparr>rb_parent = Some 2, rb_color = RB_RED, rb_right = None, rb_left = None\<rparr>),
     rb_root = Some 2\<rparr>"

lemma sample_tree_ok: "rb_ok sample_tree [1, 2, 3]"
  unfolding rb_ok_def
  by (rule exI [of _ "Nd RB_BLACK (Nd RB_RED Lf 1 Lf) 2 (Nd RB_RED Lf 3 Lf)"], rule exI [of _ 1])
    (simp add: sample_tree_def focus_def)

text \<open>C7. Linking a new node at a free child of a node of a red-black tree and rebalancing
  succeeds, keeps the red-black invariant, and puts the new node next to that node in the order
  of the tree: before it for a left child, after it for a right child.\<close>

theorem rb_insert_correct:
  assumes ok: "rb_ok T xs" and x: "x \<notin> set xs"
    and link: "case link of None \<Rightarrow> rb_root T = None
      | Some (p, d) \<Rightarrow> p \<in> set xs \<and> rb_child d (rb_nodes T p) = None"
  shows "\<exists>T' ys zs. rb_insert_color x (rb_link_node x link T) = kret T' \<and> xs = ys @ zs \<and>
    rb_ok T' (ys @ x # zs) \<and>
    (case link of None \<Rightarrow> xs = [] | Some (p, DirL) \<Rightarrow> hd_opt zs = Some p
     | Some (p, DirR) \<Rightarrow> hd_opt (rev ys) = Some p)"
proof -
  obtain k h where k: "klink k = link" "focus T None Lf k" "kfits Lf k h" "x \<notin> kset k"
    "xs = kleft k @ kright k" using rb_link_ok [OF assms] by blast
  obtain T' where "rb_insert_color x (rb_link_node x link T) = kret T'"
    "rb_ok T' (kleft k @ x # kright k)" using rb_insert_ok [OF k(2-4)] k(1) by auto
  moreover have "case link of None \<Rightarrow> xs = [] | Some (p, DirL) \<Rightarrow> hd_opt (kright k) = Some p
     | Some (p, DirR) \<Rightarrow> hd_opt (rev (kleft k)) = Some p"
    using k(1,5) by (cases k) (auto split: rb_dir.splits)
  ultimately show ?thesis using k(5) by blast
qed

theorem rb_insert_correct_witness:
  "\<exists>T' ys zs. rb_insert_color 7 (rb_link_node 7 (Some (1, DirR)) sample_tree) = kret T' \<and>
    [1, 2, 3] = ys @ zs \<and> rb_ok T' (ys @ 7 # zs) \<and> hd_opt (rev ys) = Some 1"
  using rb_insert_correct [OF sample_tree_ok, of 7 "Some (1, DirR)"]
  by (simp add: sample_tree_def rb_child_def)

text \<open>C13. Removing a node of a red-black tree succeeds, keeps the red-black invariant, and leaves
  the other nodes in their order.\<close>

theorem rb_erase_correct:
  assumes "rb_ok T xs" and "n \<in> set xs"
  shows "\<exists>T'. rb_erase n T = kret T' \<and> rb_ok T' (remove1 n xs)"
  using rb_erase_ok [OF assms] .

theorem rb_erase_correct_witness:
  "\<exists>T'. rb_erase 2 sample_tree = kret T' \<and> rb_ok T' [1, 3]"
  using rb_erase_correct [OF sample_tree_ok, of 2] by simp

text \<open>C34. The traversal functions follow the order of the tree: \<^verbatim>\<open>rb_first\<close> and \<^verbatim>\<open>rb_last\<close>
  return its ends, \<^verbatim>\<open>rb_next\<close> and \<^verbatim>\<open>rb_prev\<close> the neighbours of a node, and they always
  return.\<close>

theorem rb_traversal_correct:
  assumes "rb_ok T (ys @ n # zs)"
  shows "rb_first T = kret (hd_opt (ys @ [n])) \<and> rb_last T = kret (hd_opt (rev zs @ [n])) \<and>
    rb_next T n = kret (hd_opt zs) \<and> rb_prev T n = kret (hd_opt (rev ys))"
proof -
  have "hd_opt (ys @ n # zs) = hd_opt (ys @ [n])" "hd_opt (rev (ys @ n # zs)) = hd_opt (rev zs @ [n])"
    by (cases ys; simp) (cases "rev zs"; simp)
  then show ?thesis using rb_next_prev_ok [OF assms] rb_end_ok [OF assms]
    by (simp add: rb_first_def rb_last_def along_def)
qed

theorem rb_traversal_correct_witness:
  "rb_first sample_tree = kret (Some 1) \<and> rb_last sample_tree = kret (Some 3) \<and>
    rb_next sample_tree 2 = kret (Some 3) \<and> rb_prev sample_tree 2 = kret (Some 1)"
  using rb_traversal_correct [of sample_tree "[1]" 2 "[3]"] sample_tree_ok by simp

section \<open>Trees built by the operations\<close>

text \<open>\<open>rb_follow\<close> goes down from a pointer; \<open>rb_reach T X\<close>: insertions and removals have built the tree \<open>T\<close> with
  the nodes \<open>X\<close> from an empty one.\<close>

fun rb_follow :: "rb_tree \<Rightarrow> nat option \<Rightarrow> rb_dir list \<Rightarrow> nat option" where
  "rb_follow T p [] = p"
| "rb_follow T None (d # ds) = None"
| "rb_follow T (Some n) (d # ds) = rb_follow T (rb_child d (rb_nodes T n)) ds"

definition rb_free_link :: "rb_tree \<Rightarrow> nat set \<Rightarrow> (nat \<times> rb_dir) option \<Rightarrow> bool" where
  "rb_free_link T X link \<longleftrightarrow>
     (case link of None \<Rightarrow> rb_root T = None | Some (p, d) \<Rightarrow> p \<in> X \<and> rb_child d (rb_nodes T p) = None)"

inductive rb_reach :: "rb_tree \<Rightarrow> nat set \<Rightarrow> bool" where
  empty: "rb_root T = None \<Longrightarrow> rb_reach T {}"
| link: "rb_reach T X \<Longrightarrow> x \<notin> X \<Longrightarrow> rb_free_link T X link \<Longrightarrow>
    rb_insert_color x (rb_link_node x link T) = kret T' \<Longrightarrow> rb_reach T' (insert x X)"
| erase: "rb_reach T X \<Longrightarrow> n \<in> X \<Longrightarrow> rb_erase n T = kret T' \<Longrightarrow> rb_reach T' (X - {n})"

lemma rb_insert_at:
  assumes "rb_ok T xs" and "x \<notin> set xs" and "rb_free_link T (set xs) link"
  shows "\<exists>T' ys zs. rb_insert_color x (rb_link_node x link T) = kret T' \<and> xs = ys @ zs \<and> rb_ok T' (ys @ x # zs)"
proof -
  obtain k h where "klink k = link" "focus T None Lf k" "kfits Lf k h" "x \<notin> kset k" "xs = kleft k @ kright k"
    using rb_link_ok [OF assms(1,2), of link] assms(3) by (auto simp: rb_free_link_def)
  then show ?thesis using rb_insert_ok [of T k h x] by auto
qed

lemma rb_ok_distinct: "rb_ok T xs \<Longrightarrow> distinct xs"
  by (auto simp: rb_ok_def focus_def)

lemma rb_ok_empty: "rb_root T = None \<Longrightarrow> rb_ok T []"
  by (auto simp: rb_ok_def focus_def intro!: exI [of _ Lf] exI [of _ 0])

lemma rb_reach_ok: "rb_reach T X \<Longrightarrow> \<exists>xs. rb_ok T xs \<and> X = set xs"
proof (induction rule: rb_reach.induct)
  case (empty T)
  then show ?case using rb_ok_empty [of T] by (intro exI [of _ "[]"]) simp
next
  case (link T X x l T')
  then obtain xs where xs: "rb_ok T xs" "X = set xs" by blast
  obtain ys zs where "xs = ys @ zs" "rb_ok T' (ys @ x # zs)"
    using rb_insert_at [OF xs(1), of x l] link.hyps xs(2) by auto
  then show ?case using xs(2) by (intro exI [of _ "ys @ x # zs"]) simp
next
  case (erase T X n T')
  then obtain xs where xs: "rb_ok T xs" "X = set xs" by blast
  then have "rb_ok T' (remove1 n xs)" using rb_erase_ok [OF xs(1), of n] erase.hyps by auto
  then show ?case using xs rb_ok_distinct [OF xs(1)] by (intro exI [of _ "remove1 n xs"]) (simp add: set_remove1_eq)
qed

lemma rb_follow_height:
  "repr (rb_nodes T) par p t \<Longrightarrow> rb_follow T p ds = Some n \<Longrightarrow> n \<in> tset t \<and> length ds < height t"
proof (induction ds arbitrary: par p t)
  case Nil
  then show ?case by (cases t) auto
next
  case (Cons d ds)
  obtain m where m: "p = Some m" using Cons.prems(2) by (cases p) auto
  obtain c l r where t: "t = Nd c l m r" using Cons.prems(1) m by (cases t) auto
  have "rb_follow T (rb_child d (rb_nodes T m)) ds = Some n" using Cons.prems(2) m by simp
  moreover have "repr (rb_nodes T) (Some m) (rb_child d (rb_nodes T m)) (case d of DirL \<Rightarrow> l | DirR \<Rightarrow> r)"
    using Cons.prems(1) m t by (cases d) (auto simp: rb_child_def)
  ultimately show ?case using Cons.IH t by (cases d) fastforce+
qed

lemma rb_follow_bound:
  assumes ok: "rb_ok T xs" and f: "rb_follow T (rb_root T) ds = Some n"
  shows "n \<in> set xs \<and> 2 ^ (length ds + 1) \<le> (card (set xs) + 1) ^ 2"
proof -
  obtain t h where t: "focus T (rb_root T) t []" "inorder t = xs" "rbh t h" "col t = RB_BLACK"
    using ok by (auto simp: rb_ok_def)
  have d: "n \<in> tset t" "length ds < height t" using rb_follow_height [OF _ f] t(1) by (auto simp: focus_def)
  have c: "card (set xs) = length xs" using distinct_card [OF rb_ok_distinct [OF ok]] .
  have "length ds + 1 \<le> 2 * h" "2 ^ h \<le> length xs + 1"
    using d(2) rbh_height [OF t(3)] rbh_size [OF t(3)] t by simp_all
  then have "2 ^ (length ds + 1) \<le> (2 :: nat) ^ (2 * h)" by (intro power_increasing) simp_all
  also have "\<dots> = (2 ^ h) ^ 2" by (simp add: power_mult [symmetric] mult.commute)
  also have "\<dots> \<le> (length xs + 1) ^ 2" using \<open>2 ^ h \<le> length xs + 1\<close> by (rule power_mono) simp
  finally show ?thesis using d(1) t(2) set_inorder [of t] c by simp
qed

text \<open>C35. Searches stay short: in every tree that insertions and removals can build from an empty one,
  no way down from the root passes more than twice the binary logarithm of \<open>n + 1\<close> nodes, \<open>n\<close> the number of nodes in the
  tree; and the next removal of a node, or insertion at a free child, returns.\<close>

theorem rb_height_bound:
  assumes "rb_reach T X"
  shows "(\<forall>ds n. rb_follow T (rb_root T) ds = Some n \<longrightarrow> n \<in> X \<and> 2 ^ (length ds + 1) \<le> (card X + 1) ^ 2) \<and>
    (\<forall>n \<in> X. \<exists>T'. rb_erase n T = kret T') \<and>
    (\<forall>x link. x \<notin> X \<and> rb_free_link T X link \<longrightarrow> (\<exists>T'. rb_insert_color x (rb_link_node x link T) = kret T'))"
proof -
  obtain xs where xs: "rb_ok T xs" "X = set xs" using rb_reach_ok [OF assms] by blast
  show ?thesis
    unfolding xs(2) using rb_follow_bound [OF xs(1)] rb_erase_ok [OF xs(1)] rb_insert_at [OF xs(1)] by meson
qed

text \<open>Node 5, and then node 6 to its right.\<close>

theorem rb_height_bound_witness:
  "\<exists>T. rb_reach T {5, 6} \<and>
    (\<forall>ds n. rb_follow T (rb_root T) ds = Some n \<longrightarrow> n \<in> {5, 6} \<and> 2 ^ (length ds + 1) \<le> (9 :: nat))"
proof -
  let ?E = "\<lparr>rb_nodes = \<lambda>_. \<lparr>rb_parent = None, rb_color = RB_RED, rb_right = None, rb_left = None\<rparr>, rb_root = None\<rparr>"
  let ?T = "rb_set_color 5 RB_BLACK (rb_link_node 5 None ?E)"
  have "rb_insert_color 5 (rb_link_node 5 None ?E) = kret ?T"
    by (simp add: rb_insert_color_def rb_insert_loop.simps [of _ 5] rb_link_node_def rb_upd_def)
  then have "rb_reach ?T {5}" using rb_reach.link [of ?E "{}" 5 None ?T] rb_reach.empty [of ?E] by (simp add: rb_free_link_def)
  moreover have "rb_free_link ?T {5} (Some (5, DirR))"
    by (simp add: rb_free_link_def rb_set_color_def rb_link_node_def rb_upd_def rb_child_def)
  moreover from this obtain T where T: "rb_insert_color 6 (rb_link_node 6 (Some (5, DirR)) ?T) = kret T"
    using rb_height_bound [OF \<open>rb_reach ?T {5}\<close>] by fastforce
  ultimately have r: "rb_reach T {5, 6}" using rb_reach.link [of ?T "{5}" 6 "Some (5, DirR)" T] by (simp add: insert_commute)
  have "(card {5, 6 :: nat} + 1) ^ 2 = 9" by (simp add: power2_eq_square)
  then show ?thesis using r rb_height_bound [OF r] by metis
qed

end
