(* ===== verification/Clist.thy ===== *)
theory Clist
  imports Prelude
begin

text \<open>
  The intrusive doubly linked list of \<^verbatim>\<open>libs/list.h\<close>.  The memory of the list fields is
  explicit: \<open>lnext h p\<close> and \<open>lprev h p\<close> are the fields \<^verbatim>\<open>next\<close> and \<^verbatim>\<open>prev\<close> of the
  entry at address \<open>p\<close>, and every operation performs the source's assignments on that memory
  in the source's order.  The predicate \<open>dlist h hdr xs\<close> relates a memory to the sequence of
  entries it represents; the lemmas show that each operation acts on that sequence as
  documented, including on entries whose own fields are stale.
\<close>

section \<open>Operations\<close>

record 'p links =
  lnext :: "'p \<Rightarrow> 'p"
  lprev :: "'p \<Rightarrow> 'p"

definition list_init :: "'p links \<Rightarrow> 'p \<Rightarrow> 'p links" where
  "list_init h elm = h\<lparr>lnext := (lnext h)(elm := elm), lprev := (lprev h)(elm := elm)\<rparr>"

definition list_add_between :: "'p links \<Rightarrow> 'p \<Rightarrow> 'p \<Rightarrow> 'p \<Rightarrow> 'p links" where
  "list_add_between h elm prv nxt =
     (let h = h\<lparr>lprev := (lprev h)(nxt := elm)\<rparr>;
          h = h\<lparr>lnext := (lnext h)(prv := elm)\<rparr>;
          h = h\<lparr>lnext := (lnext h)(elm := nxt)\<rparr>
      in h\<lparr>lprev := (lprev h)(elm := prv)\<rparr>)"

definition list_del_between :: "'p links \<Rightarrow> 'p \<Rightarrow> 'p \<Rightarrow> 'p links" where
  "list_del_between h prv nxt =
     (let h = h\<lparr>lnext := (lnext h)(prv := nxt)\<rparr>
      in h\<lparr>lprev := (lprev h)(nxt := prv)\<rparr>)"

definition list_add_before :: "'p links \<Rightarrow> 'p \<Rightarrow> 'p \<Rightarrow> 'p links" where
  "list_add_before h listelm elm = list_add_between h elm (lprev h listelm) listelm"

definition list_add_after :: "'p links \<Rightarrow> 'p \<Rightarrow> 'p \<Rightarrow> 'p links" where
  "list_add_after h listelm elm = list_add_between h elm listelm (lnext h listelm)"

definition list_add :: "'p links \<Rightarrow> 'p \<Rightarrow> 'p \<Rightarrow> 'p links" where
  "list_add h listelm elm = list_add_after h listelm elm"

definition list_del :: "'p links \<Rightarrow> 'p \<Rightarrow> 'p links" where
  "list_del h listelm = list_del_between h (lprev h listelm) (lnext h listelm)"

definition list_del_init :: "'p links \<Rightarrow> 'p \<Rightarrow> 'p links" where
  "list_del_init h listelm = list_init (list_del h listelm) listelm"

definition list_empty :: "'p links \<Rightarrow> 'p \<Rightarrow> bool" where
  "list_empty h lst \<longleftrightarrow> lnext h lst = lst"

definition list_next :: "'p links \<Rightarrow> 'p \<Rightarrow> 'p" where
  "list_next h listelm = lnext h listelm"

definition list_prev :: "'p links \<Rightarrow> 'p \<Rightarrow> 'p" where
  "list_prev h listelm = lprev h listelm"

lemmas clist_defs = list_init_def list_add_between_def list_del_between_def list_add_before_def
  list_add_after_def list_add_def list_del_def list_del_init_def list_empty_def list_next_def
  list_prev_def Let_def

section \<open>Segments and circular lists\<close>

text \<open>\<open>lpath h a xs b\<close>: following \<^verbatim>\<open>next\<close> from \<open>a\<close> visits \<open>xs\<close> and arrives at
  \<open>b\<close>, and the \<^verbatim>\<open>prev\<close> fields lead back.\<close>

fun lpath :: "'p links \<Rightarrow> 'p \<Rightarrow> 'p list \<Rightarrow> 'p \<Rightarrow> bool" where
  "lpath h a [] b \<longleftrightarrow> lnext h a = b \<and> lprev h b = a"
| "lpath h a (x # xs) b \<longleftrightarrow> lnext h a = x \<and> lprev h x = a \<and> lpath h x xs b"

definition dlist :: "'p links \<Rightarrow> 'p \<Rightarrow> 'p list \<Rightarrow> bool" where
  "dlist h hdr xs \<longleftrightarrow> distinct (hdr # xs) \<and> lpath h hdr xs hdr"

lemma lpath_append [simp]:
  "lpath h a (xs @ y # ys) b \<longleftrightarrow> lpath h a xs y \<and> lpath h y ys b"
  by (induction xs arbitrary: a) auto

lemma lpath_cong:
  assumes "\<And>p. p \<in> insert a (set xs) \<Longrightarrow> lnext h' p = lnext h p"
    and "\<And>p. p \<in> insert b (set xs) \<Longrightarrow> lprev h' p = lprev h p"
  shows "lpath h' a xs b = lpath h a xs b"
  using assms by (induction xs arbitrary: a) auto

lemma lpath_first: "lpath h a xs b \<Longrightarrow> lnext h a = (case xs of [] \<Rightarrow> b | x # _ \<Rightarrow> x)"
  by (cases xs) auto

lemma lpath_last: "lpath h a xs b \<Longrightarrow> lprev h b = (if xs = [] then a else last xs)"
  by (induction xs arbitrary: a) auto

lemma dlist_frame:
  assumes "dlist h hdr xs" and "\<And>p. p \<in> set (hdr # xs) \<Longrightarrow> lnext h' p = lnext h p \<and> lprev h' p = lprev h p"
  shows "dlist h' hdr xs"
proof -
  have "lpath h' hdr xs hdr = lpath h hdr xs hdr" using assms(2) by (intro lpath_cong) auto
  then show ?thesis using assms(1) by (simp add: dlist_def)
qed

lemma dlist_unique: "dlist h hdr xs \<Longrightarrow> dlist h hdr ys \<Longrightarrow> xs = ys"
proof -
  have "lpath h a xs b \<Longrightarrow> lpath h a ys b \<Longrightarrow> b \<notin> set xs \<Longrightarrow> b \<notin> set ys \<Longrightarrow> xs = ys" for a b
  proof (induction xs arbitrary: a ys)
    case Nil
    then show ?case by (cases ys) auto
  next
    case (Cons x xs)
    then show ?case by (cases ys) auto
  qed
  then show "dlist h hdr xs \<Longrightarrow> dlist h hdr ys \<Longrightarrow> xs = ys"
    by (auto simp: dlist_def)
qed

lemma dlist_empty: "dlist h hdr xs \<Longrightarrow> list_empty h hdr \<longleftrightarrow> xs = []"
  by (cases xs) (auto simp: dlist_def clist_defs)

lemma dlist_init: "dlist (list_init h hdr) hdr []"
  by (simp add: dlist_def clist_defs)

lemma dlist_next:
  "dlist h hdr (xs @ y # ys) \<Longrightarrow> lnext h y = (case ys of [] \<Rightarrow> hdr | z # _ \<Rightarrow> z)"
  by (auto simp: dlist_def dest: lpath_first)

lemma dlist_hd_next: "dlist h hdr xs \<Longrightarrow> lnext h hdr = (case xs of [] \<Rightarrow> hdr | z # _ \<Rightarrow> z)"
  by (auto simp: dlist_def dest: lpath_first)

lemma dlist_hd_prev: "dlist h hdr xs \<Longrightarrow> lprev h hdr = (if xs = [] then hdr else last xs)"
  by (auto simp: dlist_def dest: lpath_last)

section \<open>What the operations do to the represented list\<close>

lemma dlist_insert_between:
  assumes "dlist h hdr (xs @ ys)" and "e \<notin> set (hdr # xs @ ys)"
    and "p = last (hdr # xs)" and "n = (case ys of [] \<Rightarrow> hdr | y # _ \<Rightarrow> y)"
  shows "dlist (list_add_between h e p n) hdr (xs @ e # ys)"
proof (cases xs rule: rev_cases)
  case Nil
  then show ?thesis using assms
    by (cases ys) (auto simp: dlist_def list_add_between_def Let_def intro: lpath_cong [THEN iffD2])
next
  case (snoc zs z)
  then show ?thesis using assms
    by (cases ys) (auto simp: dlist_def list_add_between_def Let_def intro: lpath_cong [THEN iffD2])
qed

lemma dlist_add_before:
  assumes "dlist h hdr (xs @ y # ys)" and "e \<notin> set (hdr # xs @ y # ys)"
  shows "dlist (list_add_before h y e) hdr (xs @ e # y # ys)"
proof -
  have "lprev h y = last (hdr # xs)"
    using assms(1) by (auto simp: dlist_def dest: lpath_last)
  then show ?thesis
    using dlist_insert_between [of h hdr xs "y # ys" e] assms
    by (simp add: list_add_before_def)
qed

lemma dlist_add_before_head:
  assumes "dlist h hdr xs" and "e \<notin> set (hdr # xs)"
  shows "dlist (list_add_before h hdr e) hdr (xs @ [e])"
  using dlist_insert_between [of h hdr xs "[]" e] assms dlist_hd_prev [OF assms(1)]
  by (simp add: list_add_before_def)

lemma dlist_add_after:
  assumes "dlist h hdr (xs @ y # ys)" and "e \<notin> set (hdr # xs @ y # ys)"
  shows "dlist (list_add_after h y e) hdr (xs @ y # e # ys)"
  using dlist_insert_between [of h hdr "xs @ [y]" ys e] assms dlist_next [OF assms(1)]
  by (simp add: list_add_after_def)

lemma dlist_add_after_head:
  assumes "dlist h hdr xs" and "e \<notin> set (hdr # xs)"
  shows "dlist (list_add_after h hdr e) hdr (e # xs)"
  using dlist_insert_between [of h hdr "[]" xs e] assms dlist_hd_next [OF assms(1)]
  by (simp add: list_add_after_def)

lemma dlist_del:
  assumes "dlist h hdr (xs @ y # ys)"
  shows "dlist (list_del h y) hdr (xs @ ys)"
proof (cases xs rule: rev_cases)
  case Nil
  then show ?thesis using assms
    by (cases ys) (auto simp: dlist_def clist_defs intro: lpath_cong [THEN iffD2])
next
  case (snoc zs z)
  then show ?thesis using assms
    by (cases ys) (auto simp: dlist_def clist_defs intro: lpath_cong [THEN iffD2])
qed

text \<open>Deleting an entry leaves the entry's own fields as they were.\<close>

lemma dlist_init_other:
  assumes "dlist h hdr xs" and "y \<notin> set (hdr # xs)"
  shows "dlist (list_init h y) hdr xs"
proof -
  have "lpath (list_init h y) hdr xs hdr = lpath h hdr xs hdr"
    using assms(2) by (intro lpath_cong) (auto simp: list_init_def)
  then show ?thesis using assms(1) by (simp add: dlist_def)
qed

lemma dlist_del_init:
  assumes "dlist h hdr (xs @ y # ys)"
  shows "dlist (list_del_init h y) hdr (xs @ ys)"
  using dlist_init_other [OF dlist_del [OF assms]] assms by (auto simp: list_del_init_def dlist_def)

lemma list_del_stale:
  assumes "dlist h hdr (xs @ y # ys)"
  shows "lnext (list_del h y) y = lnext h y" and "lprev (list_del h y) y = lprev h y"
proof -
  have "lprev h y \<noteq> y" "lnext h y \<noteq> y"
    using assms by (cases xs rule: rev_cases; cases ys; auto simp: dlist_def)+
  then show "lnext (list_del h y) y = lnext h y" and "lprev (list_del h y) y = lprev h y"
    by (simp_all add: clist_defs)
qed

text \<open>A second deletion of the same entry writes what is there already.\<close>

lemma list_del_twice:
  assumes "dlist h hdr (xs @ y # ys)"
  shows "list_del (list_del h y) y = list_del h y"
proof -
  have "lprev h y \<noteq> y" "lnext h y \<noteq> y"
    using assms by (cases xs rule: rev_cases; cases ys; auto simp: dlist_def)+
  then show ?thesis by (simp add: clist_defs)
qed

text \<open>Deleting an entry, adding a new one after it through its stale links and deleting it again
  replaces the entry by the new one.\<close>

lemma dlist_replace:
  assumes "dlist h hdr (xs @ y # ys)" and "e \<notin> set (hdr # xs @ y # ys)"
  shows "dlist (list_del (list_add_after (list_del h y) y e) y) hdr (xs @ e # ys)"
proof (cases xs rule: rev_cases)
  case Nil
  then show ?thesis using assms
    by (cases ys) (auto simp: dlist_def clist_defs intro: lpath_cong [THEN iffD2])
next
  case (snoc zs z)
  then show ?thesis using assms
    by (cases ys) (auto simp: dlist_def clist_defs intro: lpath_cong [THEN iffD2])
qed

section \<open>Lists in one memory\<close>

lemma dlist_closed: "dlist h a xs \<Longrightarrow> p \<in> set (a # xs) \<Longrightarrow> lnext h p \<in> set (a # xs) \<and> lprev h p \<in> set (a # xs)"
proof -
  have path: "lpath h q zs b \<Longrightarrow> (\<forall>p \<in> insert q (set zs). lnext h p \<in> insert b (set zs)) \<and>
      (\<forall>p \<in> insert b (set zs). lprev h p \<in> insert q (set zs))" for q zs b
  proof (induction zs arbitrary: q)
    case (Cons z zs)
    then show ?case using Cons.IH [of z] by auto
  qed auto
  assume "dlist h a xs" "p \<in> set (a # xs)"
  then show ?thesis using path [of a xs a] by (auto simp: dlist_def)
qed

lemma lpath_leads: "lpath h q zs b \<Longrightarrow> q \<in> S \<Longrightarrow> \<forall>p \<in> S. lnext h p \<in> S \<Longrightarrow> b \<in> S"
  by (induction zs arbitrary: q) auto

text \<open>Two circular lists are apart unless the head of one is in the other.\<close>

lemma dlist_disjoint:
  assumes "dlist h a xs" and "dlist h b ys" and "b \<notin> set (a # xs)"
  shows "set (a # xs) \<inter> set (b # ys) = {}"
proof (rule ccontr)
  assume "\<not> ?thesis"
  then obtain y where y: "y \<in> set (a # xs)" "y \<in> set ys" using assms(3) by auto
  then obtain us vs where "ys = us @ y # vs" by (meson split_list)
  then have "lpath h y vs b" using assms(2) by (auto simp: dlist_def)
  then have "b \<in> set (a # xs)" using lpath_leads [of h y vs b "set (a # xs)"] y(1) dlist_closed [OF assms(1)] by blast
  then show False using assms(3) by blast
qed

lemma dlist_add_frame:
  assumes "dlist h hdr xs" and "{e, p, n} \<inter> set (hdr # xs) = {}"
  shows "dlist (list_add_between h e p n) hdr xs"
  by (rule dlist_frame [OF assms(1)]) (use assms(2) in \<open>auto simp: list_add_between_def Let_def\<close>)

lemma dlist_add_after_frame:
  assumes "dlist h hdr xs" and "dlist h hdr' ys" and "hdr' \<notin> set (hdr # xs)"
    and "p \<in> set (hdr' # ys)" and "e \<notin> set (hdr # xs)"
  shows "dlist (list_add_after h p e) hdr xs"
proof -
  have "set (hdr # xs) \<inter> set (hdr' # ys) = {}" using dlist_disjoint [OF assms(1-3)] .
  moreover have "lnext h p \<in> set (hdr' # ys)" using dlist_closed [OF assms(2,4)] by blast
  ultimately show ?thesis unfolding list_add_after_def using assms(4,5) by (intro dlist_add_frame [OF assms(1)]) auto
qed

lemma dlist_del_frame:
  assumes "dlist h hdr xs" and "dlist h hdr' ys" and "hdr' \<notin> set (hdr # xs)" and "p \<in> set (hdr' # ys)"
  shows "dlist (list_del h p) hdr xs"
proof -
  have d: "set (hdr # xs) \<inter> set (hdr' # ys) = {}" using dlist_disjoint [OF assms(1-3)] .
  have n: "lnext h p \<in> set (hdr' # ys)" "lprev h p \<in> set (hdr' # ys)" using dlist_closed [OF assms(2,4)] by auto
  show ?thesis
  proof (rule dlist_frame [OF assms(1)])
    fix q assume "q \<in> set (hdr # xs)"
    then have "q \<noteq> lnext h p" "q \<noteq> lprev h p" using d n by blast+
    then show "lnext (list_del h p) q = lnext h q \<and> lprev (list_del h p) q = lprev h q"
      by (simp add: list_del_def list_del_between_def Let_def)
  qed
qed

text \<open>Entries outside a list do not change when the list does.\<close>

lemma ring_del:
  assumes "dlist h hdr xs" and "p \<in> set (hdr # xs)" and "z \<notin> set (hdr # xs)"
  shows "lnext (list_del_init h p) z = lnext h z" "lprev (list_del_init h p) z = lprev h z"
proof -
  have "lnext h p \<noteq> z" "lprev h p \<noteq> z" "p \<noteq> z" using dlist_closed [OF assms(1,2)] assms(2,3) by blast+
  then show "lnext (list_del_init h p) z = lnext h z" "lprev (list_del_init h p) z = lprev h z"
    by (auto simp: list_del_init_def list_init_def list_del_def list_del_between_def Let_def)
qed

lemma ring_add:
  assumes "dlist h hdr xs" and "z \<notin> set (hdr # xs)" and "z \<noteq> e"
  shows "lnext (list_add_before h hdr e) z = lnext h z" "lprev (list_add_before h hdr e) z = lprev h z"
proof -
  have "hdr \<noteq> z" "lprev h hdr \<noteq> z" using dlist_closed [OF assms(1), of hdr] assms(2) by auto
  then show "lnext (list_add_before h hdr e) z = lnext h z" "lprev (list_add_before h hdr e) z = lprev h z"
    using assms(3) by (auto simp: list_add_before_def list_add_between_def Let_def)
qed

section \<open>Lists threaded through an array of objects\<close>

text \<open>Addresses of list entries when the objects of an array or heap are linked: the head of the
  list, or the link field of the object with a given address (the macros \<^verbatim>\<open>le2...\<close> invert
  \<open>Link\<close>).\<close>

datatype lnode = Head | Link nat

definition first_entry :: "nat list \<Rightarrow> lnode" where
  "first_entry rs = (case rs of [] \<Rightarrow> Head | r # _ \<Rightarrow> Link r)"

lemma first_entry_simps [simp]: "first_entry [] = Head" "first_entry (r # rs) = Link r"
  by (simp_all add: first_entry_def)

lemma link_next: "dlist h Head (map Link (ds @ r # rs)) \<Longrightarrow> lnext h (Link r) = first_entry rs"
  using dlist_next [of h Head "map Link ds" "Link r" "map Link rs"]
  by (cases rs) simp_all

lemma head_next: "dlist h Head (map Link rs) \<Longrightarrow> lnext h Head = first_entry rs"
  using dlist_hd_next [of h Head "map Link rs"] by (cases rs) simp_all

end
