(* ===== verification/Proc.thy ===== *)
theory Proc
  imports Clist
begin

text \<open>
  The process descriptor, \<^verbatim>\<open>struct proc_struct\<close> of \<^verbatim>\<open>kern/process/proc.h\<close>.  A pointer to a
  descriptor is a natural number and the null pointer is \<open>None\<close>.  Saved registers, the trap
  frame, the name and the list links are not part of the record: the links live in memories of
  their own where a component uses them.
\<close>

datatype proc_state = PROC_UNINIT | PROC_SLEEPING | PROC_RUNNABLE | PROC_ZOMBIE

record proc_struct =
  state :: proc_state
  pid :: int
  runs :: int
  kstack :: u32
  need_resched :: bool
  parent :: "nat option"
  mm :: "nat option"
  cr3 :: u32
  pflags :: u32
  exit_code :: int
  wait_state :: u32
  cptr :: "nat option"
  yptr :: "nat option"
  optr :: "nat option"
  has_rq :: bool
  time_slice :: int
  filesp :: "nat option"
  vruntime :: u32
  cfs_prior :: u32
  stride :: u32
  stride_prior :: u32
  is_thread :: bool
  stack_num :: int
  stacks :: "nat \<Rightarrow> int"

abbreviation (input) MAX_PROCESS :: int where "MAX_PROCESS \<equiv> 4096"
abbreviation (input) MAX_PID :: int where "MAX_PID \<equiv> 8192"
abbreviation (input) MAX_THREAD :: nat where "MAX_THREAD \<equiv> 16"
abbreviation (input) PF_EXITING :: u32 where "PF_EXITING \<equiv> 1"
abbreviation (input) WT_INTERRUPTED :: u32 where "WT_INTERRUPTED \<equiv> 0x80000000"
abbreviation (input) WT_CHILD :: u32 where "WT_CHILD \<equiv> 0x80000001"
abbreviation (input) WT_KSEM :: u32 where "WT_KSEM \<equiv> 0x100"
abbreviation (input) WT_TIMER :: u32 where "WT_TIMER \<equiv> 0x80000002"
abbreviation (input) WT_KBD :: u32 where "WT_KBD \<equiv> 0x80000004"

text \<open>What \<^verbatim>\<open>alloc_proc\<close> stores into the memory \<open>p\<close> it gets from \<^verbatim>\<open>kmalloc\<close>; the exit code
  keeps the old contents of that memory.\<close>

definition init_proc :: "u32 \<Rightarrow> proc_struct \<Rightarrow> proc_struct" where
  "init_proc boot_cr3 p = p\<lparr>
     state := PROC_UNINIT, pid := - 1, runs := 0, kstack := 0, need_resched := False,
     parent := None, mm := None, cr3 := boot_cr3, pflags := 0, wait_state := 0,
     cptr := None, optr := None, yptr := None, has_rq := False, time_slice := 0,
     stride := 0, stride_prior := 19, filesp := None, cfs_prior := 19, vruntime := 0,
     is_thread := False, stacks := (\<lambda>i. if i < MAX_THREAD then 0 else stacks p i)(0 := 1),
     stack_num := 0\<rparr>"

end
