(* ===== verification/Runqueue.thy ===== *)
theory Runqueue
  imports Rbtree_Proof Proc
begin

text \<open>
  The run queues of the stride scheduler (\<^verbatim>\<open>stride_rb_tree.c\<close>, \<^verbatim>\<open>default_sched.c\<close>) and of the
  CFS scheduler (\<^verbatim>\<open>cfs_rb_tree.c\<close>, \<^verbatim>\<open>cfs_sched.c\<close>).  Both keep the waiting processes in a
  red-black tree; their tree routines differ only in the comparison, which is a parameter here.
  The answer of \<^verbatim>\<open>kmalloc\<close> for a tree node is an argument of the enqueue operations.
\<close>

section \<open>Operations\<close>

record run_queue =
  rq_tree :: rb_tree
  rq_proc :: "nat \<Rightarrow> nat"
  proc_num :: u32
  max_time_slice :: int

type_synonym procs = "nat \<Rightarrow> proc_struct"
type_synonym proc_cmp = "proc_struct \<Rightarrow> proc_struct \<Rightarrow> int"

definition compare_stride_node :: proc_cmp where
  "compare_stride_node a b =
     (let c = sint (stride a - stride b) in
      if c \<noteq> 0 then (if c > 0 then 1 else - 1)
      else (if pid a > pid b then 1 else - 1))"

definition compare_cfs_node :: proc_cmp where
  "compare_cfs_node a b =
     (if vruntime a \<noteq> vruntime b then (if vruntime a > vruntime b then 1 else - 1)
      else (if pid a > pid b then 1 else - 1))"

text \<open>\<^verbatim>\<open>stride_search\<close> and \<^verbatim>\<open>cfs_search\<close> use the comparison as a truth value.\<close>

partial_function (option) pq_search ::
  "proc_cmp \<Rightarrow> procs \<Rightarrow> run_queue \<Rightarrow> nat \<Rightarrow> nat option \<Rightarrow> nat option prog" where
  "pq_search cmp ps rq proc node =
     (case node of
        None \<Rightarrow> kret None
      | Some n \<Rightarrow>
          if pid (ps (rq_proc rq n)) = pid (ps proc) then kret (Some n)
          else if cmp (ps (rq_proc rq n)) (ps proc) \<noteq> 0
          then pq_search cmp ps rq proc (rb_left (rb_nodes (rq_tree rq) n))
          else pq_search cmp ps rq proc (rb_right (rb_nodes (rq_tree rq) n)))"

text \<open>The descent of \<^verbatim>\<open>stride_insert\<close> and \<^verbatim>\<open>cfs_insert\<close>: the place to link the new node, or
  \<open>None\<close> when an equal element is met.\<close>

partial_function (option) pq_place ::
  "proc_cmp \<Rightarrow> procs \<Rightarrow> run_queue \<Rightarrow> nat \<Rightarrow> nat option \<Rightarrow> (nat \<times> rb_dir) option \<Rightarrow>
   (nat \<times> rb_dir) option option prog" where
  "pq_place cmp ps rq proc cur link =
     (case cur of
        None \<Rightarrow> kret (Some link)
      | Some n \<Rightarrow>
          let result = cmp (ps proc) (ps (rq_proc rq n)) in
          if result < 0
          then pq_place cmp ps rq proc (rb_left (rb_nodes (rq_tree rq) n)) (Some (n, DirL))
          else if result > 0
          then pq_place cmp ps rq proc (rb_right (rb_nodes (rq_tree rq) n)) (Some (n, DirR))
          else kret None)"

definition pq_insert :: "proc_cmp \<Rightarrow> procs \<Rightarrow> nat option \<Rightarrow> run_queue \<Rightarrow> nat \<Rightarrow> run_queue prog" where
  "pq_insert cmp ps node rq proc =
     deref node (\<lambda>n.
       let rq = rq\<lparr>rq_proc := (rq_proc rq)(n := proc)\<rparr> in
       kbind (pq_place cmp ps rq proc (rb_root (rq_tree rq)) None) (\<lambda>r.
         case r of
           None \<Rightarrow> kret rq
         | Some link \<Rightarrow>
             kbind (rb_insert_color n (rb_link_node n link (rq_tree rq))) (\<lambda>T.
               kret (rq\<lparr>rq_tree := T\<rparr>))))"

text \<open>The two instances.\<close>

definition stride_search :: "procs \<Rightarrow> run_queue \<Rightarrow> nat \<Rightarrow> nat option prog" where
  "stride_search = (\<lambda>ps rq proc. pq_search compare_stride_node ps rq proc (rb_root (rq_tree rq)))"

definition cfs_search :: "procs \<Rightarrow> run_queue \<Rightarrow> nat \<Rightarrow> nat option prog" where
  "cfs_search = (\<lambda>ps rq proc. pq_search compare_cfs_node ps rq proc (rb_root (rq_tree rq)))"

definition stride_insert :: "procs \<Rightarrow> nat option \<Rightarrow> run_queue \<Rightarrow> nat \<Rightarrow> run_queue prog" where
  "stride_insert = pq_insert compare_stride_node"

definition cfs_insert :: "procs \<Rightarrow> nat option \<Rightarrow> run_queue \<Rightarrow> nat \<Rightarrow> run_queue prog" where
  "cfs_insert = pq_insert compare_cfs_node"

definition pq_find_min :: "run_queue \<Rightarrow> nat option prog" where
  "pq_find_min rq =
     (case rb_root (rq_tree rq) of
        None \<Rightarrow> kret None
      | Some n \<Rightarrow> kbind (rb_walk DirL (rq_tree rq) n) (\<lambda>m. kret (Some (rq_proc rq m))))"

definition pq_init :: "run_queue \<Rightarrow> run_queue" where
  "pq_init rq = rq\<lparr>rq_tree := (rq_tree rq)\<lparr>rb_root := None\<rparr>, proc_num := 0\<rparr>"

definition stride_find_min :: "run_queue \<Rightarrow> nat option prog" where "stride_find_min = pq_find_min"

definition cfs_find_min :: "run_queue \<Rightarrow> nat option prog" where "cfs_find_min = pq_find_min"

definition pq_enqueue ::
  "(procs \<Rightarrow> nat option \<Rightarrow> run_queue \<Rightarrow> nat \<Rightarrow> run_queue prog) \<Rightarrow>
   procs \<Rightarrow> nat option \<Rightarrow> run_queue \<Rightarrow> nat \<Rightarrow> (procs \<times> run_queue) prog" where
  "pq_enqueue insert_into ps node rq proc =
     kbind (insert_into ps node rq proc) (\<lambda>rq.
       let p = ps proc;
           p = (if time_slice p = 0 \<or> time_slice p > max_time_slice rq
                then p\<lparr>time_slice := max_time_slice rq\<rparr> else p)
       in kret (ps(proc := p\<lparr>has_rq := True\<rparr>), rq\<lparr>proc_num := proc_num rq + 1\<rparr>))"

definition pq_dequeue ::
  "(procs \<Rightarrow> run_queue \<Rightarrow> nat \<Rightarrow> nat option prog) \<Rightarrow> procs \<Rightarrow> run_queue \<Rightarrow> nat \<Rightarrow> run_queue prog" where
  "pq_dequeue search ps rq proc =
     kbind (search ps rq proc) (\<lambda>data.
       case data of
         None \<Rightarrow> kret rq
       | Some n \<Rightarrow>
           kbind (rb_erase n (rq_tree rq)) (\<lambda>T.
             kret (rq\<lparr>rq_tree := T, proc_num := proc_num rq - 1\<rparr>)))"

definition stride_init :: "run_queue \<Rightarrow> run_queue" where "stride_init = pq_init"

definition stride_enqueue :: "procs \<Rightarrow> nat option \<Rightarrow> run_queue \<Rightarrow> nat \<Rightarrow> (procs \<times> run_queue) prog" where
  "stride_enqueue = pq_enqueue stride_insert"

definition stride_dequeue :: "procs \<Rightarrow> run_queue \<Rightarrow> nat \<Rightarrow> run_queue prog" where
  "stride_dequeue = pq_dequeue stride_search"

abbreviation (input) BIG_STRIDE :: u32 where "BIG_STRIDE \<equiv> 0x7FFFFFFF"

definition stride_pick_next :: "procs \<Rightarrow> run_queue \<Rightarrow> (procs \<times> nat option) prog" where
  "stride_pick_next ps rq =
     kbind (stride_find_min rq) (\<lambda>r.
       case r of
         None \<Rightarrow> kret (ps, None)
       | Some p \<Rightarrow>
           if 20 - stride_prior (ps p) = 0 then kpanic (Panic ''divide error'')
           else kret (ps(p := (ps p)\<lparr>stride := stride (ps p) +
                                BIG_STRIDE div (20 - stride_prior (ps p))\<rparr>), Some p))"

definition stride_proc_tick :: "proc_struct \<Rightarrow> proc_struct prog" where
  "stride_proc_tick p =
     (let p = (if time_slice p > 0 then p\<lparr>time_slice := time_slice p - 1\<rparr> else p)
      in kret (if time_slice p = 0 then p\<lparr>need_resched := True\<rparr> else p))"

definition cfs_init :: "run_queue \<Rightarrow> run_queue" where "cfs_init = pq_init"

definition cfs_enqueue :: "procs \<Rightarrow> nat option \<Rightarrow> run_queue \<Rightarrow> nat \<Rightarrow> (procs \<times> run_queue) prog" where
  "cfs_enqueue = pq_enqueue cfs_insert"

definition cfs_dequeue :: "procs \<Rightarrow> run_queue \<Rightarrow> nat \<Rightarrow> run_queue prog" where
  "cfs_dequeue = pq_dequeue cfs_search"

definition cfs_pick_next :: "procs \<Rightarrow> run_queue \<Rightarrow> (procs \<times> nat option) prog" where
  "cfs_pick_next ps rq = kbind (cfs_find_min rq) (\<lambda>r. kret (ps, r))"

definition cfs_proc_tick :: "proc_struct \<Rightarrow> proc_struct prog" where
  "cfs_proc_tick p =
     kassert (cfs_prior p \<noteq> 0)
       (let p = p\<lparr>vruntime := vruntime p + cfs_prior p\<rparr>;
            p = (if time_slice p > 0 then p\<lparr>time_slice := time_slice p - 1\<rparr> else p)
        in kret (if time_slice p = 0 then p\<lparr>need_resched := True\<rparr> else p))"

section \<open>The queue as a list of processes\<close>

text \<open>\<open>rq_ok rq Q\<close>: the tree of \<open>rq\<close> is a red-black tree whose nodes hold the processes \<open>Q\<close>,
  in this order and without repetition, and \<^verbatim>\<open>proc_num\<close> counts them.\<close>

definition rq_holds :: "run_queue \<Rightarrow> nat list \<Rightarrow> nat list \<Rightarrow> bool" where
  "rq_holds rq xs Q \<longleftrightarrow>
     rb_ok (rq_tree rq) xs \<and> map (rq_proc rq) xs = Q \<and> distinct Q \<and> unat (proc_num rq) = length Q"

definition rq_ok :: "run_queue \<Rightarrow> nat list \<Rightarrow> bool" where
  "rq_ok rq Q \<longleftrightarrow> (\<exists>xs. rq_holds rq xs Q)"

lemma rb_ok_focus:
  assumes "rb_ok T xs"
  obtains t h where "focus T (rb_root T) t []" and "inorder t = xs" and "kfits t [] h"
  using assms by (auto simp: rb_ok_def kfits_def)

lemma pq_init_ok: "rq_ok (pq_init rq) []"
  by (auto simp: rq_ok_def rq_holds_def pq_init_def rb_ok_empty)

lemma pq_find_min_ok:
  assumes "rq_ok rq Q"
  shows "pq_find_min rq = kret (hd_opt Q)"
proof -
  obtain xs where xs: "rb_ok (rq_tree rq) xs" "map (rq_proc rq) xs = Q"
    using assms by (auto simp: rq_ok_def rq_holds_def)
  have "rb_end DirL (rq_tree rq) = kret (hd_opt xs)"
    using rb_end_ok [OF xs(1), of DirL] by (simp add: along_def)
  then show ?thesis
    using xs(2)
    by (cases xs; cases "rb_root (rq_tree rq)")
      (auto simp: pq_find_min_def rb_end_def kbind_eq_kret)
qed

section \<open>Insertion\<close>

text \<open>The comparison is a linear order on the processes of \<open>A\<close>.\<close>

definition cmp_linear :: "proc_cmp \<Rightarrow> procs \<Rightarrow> nat set \<Rightarrow> bool" where
  "cmp_linear cmp ps A \<longleftrightarrow>
     (\<forall>a \<in> A. \<forall>b \<in> A. a \<noteq> b \<longrightarrow> 0 < cmp (ps a) (ps b) \<longrightarrow> cmp (ps b) (ps a) < 0) \<and>
     (\<forall>a \<in> A. \<forall>b \<in> A. \<forall>c \<in> A. cmp (ps a) (ps b) < 0 \<longrightarrow> cmp (ps b) (ps c) < 0 \<longrightarrow>
        cmp (ps a) (ps c) < 0)"

definition queue_sorted :: "proc_cmp \<Rightarrow> procs \<Rightarrow> nat list \<Rightarrow> bool" where
  "queue_sorted cmp ps Q \<longleftrightarrow> sorted_wrt (\<lambda>a b. cmp (ps a) (ps b) < 0) Q"

locale proc_order =
  fixes cmp :: proc_cmp
  assumes cmp_nonzero: "cmp a b \<noteq> 0"
begin

lemma pq_place_ok:
  assumes "focus (rq_tree rq) cur t k"
  shows "\<exists>kk. pq_place cmp ps rq proc cur (klink k) = kret (Some (klink (kk @ k))) \<and>
    focus (rq_tree rq) None Lf (kk @ k) \<and> plug kk Lf = t \<and>
    (\<forall>s \<in> set kk. if sdir s = DirL then cmp (ps proc) (ps (rq_proc rq (snode s))) < 0
      else cmp (ps proc) (ps (rq_proc rq (snode s))) > 0)"
  using assms
proof (induction t arbitrary: cur k)
  case Lf
  then have "cur = None" by (simp add: focus_def)
  then show ?case
    using Lf by (intro exI [of _ "[]"]) (simp add: pq_place.simps [of cmp ps rq proc None])
next
  case (Nd c l x r)
  let ?c = "cmp (ps proc) (ps (rq_proc rq x))" and ?n = "rb_nodes (rq_tree rq) x"
  have cur: "cur = Some x" using Nd.prems by (simp add: focus_def)
  have L: "focus (rq_tree rq) (rb_left ?n) l (Step DirL c x r # k)"
    and R: "focus (rq_tree rq) (rb_right ?n) r (Step DirR c x l # k)"
    using focus_down [of "rq_tree rq" cur DirL c l x r k] focus_down [of "rq_tree rq" cur DirR c r x l k]
      Nd.prems by (simp_all add: mk_simps rb_child_def)
  show ?case
  proof (cases "?c < 0")
    case True
    from Nd.IH(1) [OF L] obtain kk where
      "pq_place cmp ps rq proc (rb_left ?n) (klink (Step DirL c x r # k)) =
        kret (Some (klink (kk @ Step DirL c x r # k)))"
      "focus (rq_tree rq) None Lf (kk @ Step DirL c x r # k)" "plug kk Lf = l"
      "\<forall>s \<in> set kk. if sdir s = DirL then cmp (ps proc) (ps (rq_proc rq (snode s))) < 0
        else cmp (ps proc) (ps (rq_proc rq (snode s))) > 0" by blast
    then show ?thesis
      using True cur
      by (intro exI [of _ "kk @ [Step DirL c x r]"])
        (auto simp: pq_place.simps [of cmp ps rq proc "Some x"] mk_simps)
  next
    case False
    then have "?c > 0" using cmp_nonzero [of "ps proc" "ps (rq_proc rq x)"] by simp
    moreover from Nd.IH(2) [OF R] obtain kk where
      "pq_place cmp ps rq proc (rb_right ?n) (klink (Step DirR c x l # k)) =
        kret (Some (klink (kk @ Step DirR c x l # k)))"
      "focus (rq_tree rq) None Lf (kk @ Step DirR c x l # k)" "plug kk Lf = r"
      "\<forall>s \<in> set kk. if sdir s = DirL then cmp (ps proc) (ps (rq_proc rq (snode s))) < 0
        else cmp (ps proc) (ps (rq_proc rq (snode s))) > 0" by blast
    ultimately show ?thesis
      using cur
      by (intro exI [of _ "kk @ [Step DirR c x l]"])
        (auto simp: pq_place.simps [of cmp ps rq proc "Some x"] mk_simps)
  qed
qed

text \<open>In a sorted tree the new element comes after the smaller and before the larger ones.\<close>

lemma place_sorted:
  assumes "\<forall>s \<in> set kk. if sdir s = DirL then lt x (f (snode s)) else lt (f (snode s)) x"
    and "sorted_wrt lt (map f (inorder (plug kk t)))"
    and "\<And>a b c. a \<in> A \<Longrightarrow> b \<in> A \<Longrightarrow> c \<in> A \<Longrightarrow> lt a b \<Longrightarrow> lt b c \<Longrightarrow> lt a c"
    and "insert x (f ` set (inorder (plug kk t))) \<subseteq> A"
  shows "(\<forall>y \<in> set (kleft kk). lt (f y) x) \<and> (\<forall>y \<in> set (kright kk). lt x (f y))"
  using assms
proof (induction kk arbitrary: t)
  case Nil
  then show ?case by simp
next
  case (Cons s kk)
  let ?t = "mk (sdir s) (scol s) t (snode s) (ssib s)"
  have IH: "(\<forall>y \<in> set (kleft kk). lt (f y) x) \<and> (\<forall>y \<in> set (kright kk). lt x (f y))"
    by (rule Cons.IH [OF _ _ Cons.prems(3), of ?t]) (use Cons.prems(1,2,4) in auto)
  have so: "sorted_wrt lt (map f (inorder ?t))"
    using Cons.prems(2) by (simp add: inorder_plug sorted_wrt_append)
  have A: "x \<in> A" "f (snode s) \<in> A" "\<And>y. y \<in> tset (ssib s) \<Longrightarrow> f y \<in> A"
    using Cons.prems(4) by auto
  show ?case
  proof (cases "sdir s")
    case DirL
    have "lt x (f (snode s))" using Cons.prems(1) DirL by auto
    moreover have "lt (f (snode s)) (f y)" if "y \<in> tset (ssib s)" for y
      using so that DirL by (auto simp: mk_simps sorted_wrt_append)
    ultimately have "lt x (f y)" if "y \<in> tset (ssib s)" for y
      using Cons.prems(3) [OF A] that by blast
    with \<open>lt x (f (snode s))\<close> show ?thesis using IH DirL by auto
  next
    case DirR
    have "lt (f (snode s)) x" using Cons.prems(1) DirR by auto
    moreover have "lt (f y) (f (snode s))" if "y \<in> tset (ssib s)" for y
      using so that DirR by (auto simp: mk_simps sorted_wrt_append)
    ultimately have "lt (f y) x" if "y \<in> tset (ssib s)" for y
      using Cons.prems(3) [OF A(3) A(2,1)] that by blast
    with \<open>lt (f (snode s)) x\<close> show ?thesis using IH DirR by auto
  qed
qed

text \<open>Insertion puts the process somewhere into the queue; where the comparison is linear, it
  keeps the queue sorted.\<close>

lemma pq_insert_ok:
  assumes ok: "rq_holds rq xs Q" and n: "n \<notin> set xs" and p: "p \<notin> set Q"
  shows "\<exists>rq' xs' Qa Qb. pq_insert cmp ps (Some n) rq p = kret rq' \<and>
    rb_ok (rq_tree rq') xs' \<and> map (rq_proc rq') xs' = Qa @ p # Qb \<and> Q = Qa @ Qb \<and>
    proc_num rq' = proc_num rq \<and> max_time_slice rq' = max_time_slice rq \<and>
    (cmp_linear cmp ps (insert p (set Q)) \<and> queue_sorted cmp ps Q \<longrightarrow>
      queue_sorted cmp ps (Qa @ p # Qb))"
proof -
  let ?rq = "rq\<lparr>rq_proc := (rq_proc rq)(n := p)\<rparr>" and ?T = "rq_tree rq"
  have okT: "rb_ok ?T xs" and Q: "map (rq_proc rq) xs = Q"
    using ok by (auto simp: rq_holds_def)
  obtain t h where t: "focus ?T (rb_root ?T) t []" "inorder t = xs" "kfits t [] h"
    using rb_ok_focus [OF okT] by blast
  obtain kk where kk: "pq_place cmp ps ?rq p (rb_root ?T) None = kret (Some (klink kk))"
    "focus ?T None Lf kk" "plug kk Lf = t"
    "\<forall>s \<in> set kk. if sdir s = DirL then cmp (ps p) (ps (rq_proc ?rq (snode s))) < 0
      else cmp (ps p) (ps (rq_proc ?rq (snode s))) > 0"
    using pq_place_ok [of ?rq "rb_root ?T" t "[]" ps p] t(1) by auto
  have xs: "xs = kleft kk @ kright kk" using t(2) kk(3) by (auto simp: inorder_plug)
  have ks: "kset kk = set xs" using kk(3) t(2) by (metis set_inorder sup_bot_left tset.simps(1) tset_plug)
  obtain h' where "kfits Lf kk h'" using kfits_plug [of kk Lf "[]" h] t(3) kk(3) by auto
  from rb_insert_ok [OF kk(2) this, of n] n ks obtain T' where
    T': "rb_insert_color n (rb_link_node n (klink kk) ?T) = kret T'" "rb_ok T' (kleft kk @ n # kright kk)"
    by auto
  let ?Qa = "map (rq_proc rq) (kleft kk)" and ?Qb = "map (rq_proc rq) (kright kk)"
  have run: "pq_insert cmp ps (Some n) rq p = kret (?rq\<lparr>rq_tree := T'\<rparr>)"
    using kk(1) T'(1) by (simp add: pq_insert_def Let_def)
  have mp: "map (rq_proc (?rq\<lparr>rq_tree := T'\<rparr>)) (kleft kk @ n # kright kk) = ?Qa @ p # ?Qb"
    using n xs by auto
  have Qs: "Q = ?Qa @ ?Qb" using Q xs by auto
  have "queue_sorted cmp ps (?Qa @ p # ?Qb)"
    if lin: "cmp_linear cmp ps (insert p (set Q))" and so: "queue_sorted cmp ps Q"
  proof -
    have nodes: "snode s \<in> set xs" if "s \<in> set kk" for s
      using that unfolding ks [symmetric] by (induction kk) auto
    have dir: "if sdir s = DirL then cmp (ps p) (ps (rq_proc rq (snode s))) < 0
        else cmp (ps (rq_proc rq (snode s))) (ps p) < 0" if "s \<in> set kk" for s
    proof -
      have m: "rq_proc rq (snode s) \<in> set Q" "snode s \<noteq> n" using nodes [OF that] Q n by auto
      have "p \<noteq> rq_proc rq (snode s)" using m(1) p by auto
      then have "0 < cmp (ps p) (ps (rq_proc rq (snode s))) \<Longrightarrow>
          cmp (ps (rq_proc rq (snode s))) (ps p) < 0"
        using lin m(1) unfolding cmp_linear_def by blast
      moreover have "if sdir s = DirL then cmp (ps p) (ps (rq_proc ?rq (snode s))) < 0
          else cmp (ps p) (ps (rq_proc ?rq (snode s))) > 0" using kk(4) that by blast
      ultimately show ?thesis using m(2) by (cases "sdir s") simp_all
    qed
    have "(\<forall>y \<in> set (kleft kk). cmp (ps (rq_proc rq y)) (ps p) < 0) \<and>
        (\<forall>y \<in> set (kright kk). cmp (ps p) (ps (rq_proc rq y)) < 0)"
    proof (rule place_sorted [where lt = "\<lambda>a b. cmp (ps a) (ps b) < 0" and A = "insert p (set Q)"
          and t = Lf and f = "rq_proc rq" and x = p])
      show "\<forall>s \<in> set kk. if sdir s = DirL then cmp (ps p) (ps (rq_proc rq (snode s))) < 0
          else cmp (ps (rq_proc rq (snode s))) (ps p) < 0" using dir by blast
      show "sorted_wrt (\<lambda>a b. cmp (ps a) (ps b) < 0) (map (rq_proc rq) (inorder (plug kk Lf)))"
        using so by (simp add: kk(3) t(2) Q queue_sorted_def)
      show "insert p (rq_proc rq ` set (inorder (plug kk Lf))) \<subseteq> insert p (set Q)"
        using Q by (auto simp: kk(3) t(2) simp del: set_inorder)
      show "cmp (ps a) (ps c) < 0" if "a \<in> insert p (set Q)" "b \<in> insert p (set Q)"
        "c \<in> insert p (set Q)" "cmp (ps a) (ps b) < 0" "cmp (ps b) (ps c) < 0" for a b c
        using lin that unfolding cmp_linear_def by blast
    qed
    then show ?thesis
      using so by (auto simp: queue_sorted_def Qs sorted_wrt_append)
  qed
  moreover have "rb_ok (rq_tree (?rq\<lparr>rq_tree := T'\<rparr>)) (kleft kk @ n # kright kk)"
    "proc_num (?rq\<lparr>rq_tree := T'\<rparr>) = proc_num rq"
    "max_time_slice (?rq\<lparr>rq_tree := T'\<rparr>) = max_time_slice rq"
    using T'(2) by simp_all
  ultimately show ?thesis using run mp Qs by blast
qed

lemma pq_enqueue_ok:
  assumes ok: "rq_holds rq xs Q" and n: "n \<notin> set xs" and p: "p \<notin> set Q"
    and len: "length Q + 1 < 2 ^ 32"
  shows "\<exists>ps' rq' Qa Qb. pq_enqueue (pq_insert cmp) ps (Some n) rq p = kret (ps', rq') \<and>
    rq_ok rq' (Qa @ p # Qb) \<and> Q = Qa @ Qb \<and> max_time_slice rq' = max_time_slice rq \<and>
    (\<forall>q. q \<noteq> p \<longrightarrow> ps' q = ps q) \<and>
    (\<exists>ts. ps' p = (ps p)\<lparr>time_slice := ts, has_rq := True\<rparr> \<and>
       (0 < max_time_slice rq \<and> 0 \<le> time_slice (ps p) \<longrightarrow> 0 < ts \<and> ts \<le> max_time_slice rq)) \<and>
    (cmp_linear cmp ps (insert p (set Q)) \<and> queue_sorted cmp ps Q \<longrightarrow>
      queue_sorted cmp ps (Qa @ p # Qb))"
proof -
  obtain rq1 xs' Qa Qb where r: "pq_insert cmp ps (Some n) rq p = kret rq1"
    "rb_ok (rq_tree rq1) xs'" "map (rq_proc rq1) xs' = Qa @ p # Qb" "Q = Qa @ Qb"
    "proc_num rq1 = proc_num rq" "max_time_slice rq1 = max_time_slice rq"
    "cmp_linear cmp ps (insert p (set Q)) \<and> queue_sorted cmp ps Q \<longrightarrow> queue_sorted cmp ps (Qa @ p # Qb)"
    using pq_insert_ok [OF ok n p] by blast
  let ?rq = "rq1\<lparr>proc_num := proc_num rq1 + 1\<rparr>"
  let ?p = "if time_slice (ps p) = 0 \<or> time_slice (ps p) > max_time_slice rq1
    then (ps p)\<lparr>time_slice := max_time_slice rq1\<rparr> else ps p"
  have run: "pq_enqueue (pq_insert cmp) ps (Some n) rq p = kret (ps(p := ?p\<lparr>has_rq := True\<rparr>), ?rq)"
    using r(1) by (simp add: pq_enqueue_def Let_def)
  have "unat (proc_num rq + 1) = length Q + 1"
    using ok len by (simp add: rq_holds_def unat_add_noov)
  then have "rq_holds ?rq xs' (Qa @ p # Qb)"
    using r ok p by (auto simp: rq_holds_def)
  moreover have "\<exists>ts. (ps(p := ?p\<lparr>has_rq := True\<rparr>)) p = (ps p)\<lparr>time_slice := ts, has_rq := True\<rparr> \<and>
      (0 < max_time_slice rq \<and> 0 \<le> time_slice (ps p) \<longrightarrow> 0 < ts \<and> ts \<le> max_time_slice rq)"
    using r(6) by (intro exI [of _ "time_slice ?p"]) auto
  moreover have "\<forall>q. q \<noteq> p \<longrightarrow> (ps(p := ?p\<lparr>has_rq := True\<rparr>)) q = ps q" by simp
  moreover have "max_time_slice ?rq = max_time_slice rq" using r(6) by simp
  ultimately show ?thesis
    using run r(4,7) unfolding rq_ok_def by blast
qed

text \<open>Removing the first process of the queue: the search goes left at every node, which is where
  the first process is.\<close>

lemma pq_search_hd:
  assumes "focus (rq_tree rq) cur t k" and "inorder t = x # ys"
    and "\<forall>y \<in> set ys. pid (ps (rq_proc rq y)) \<noteq> pid (ps (rq_proc rq x))"
  shows "pq_search cmp ps rq (rq_proc rq x) cur = kret (Some x)"
  using assms
proof (induction t arbitrary: cur k ys)
  case Lf
  then show ?case by simp
next
  case (Nd c l z r)
  let ?n = "rb_nodes (rq_tree rq) z"
  have cur: "cur = Some z" using Nd.prems by (simp add: focus_def)
  have L: "focus (rq_tree rq) (rb_left ?n) l (Step DirL c z r # k)"
    using focus_down [of "rq_tree rq" cur DirL c l z r k] Nd.prems(1)
    by (simp add: mk_simps rb_child_def)
  show ?case
  proof (cases "inorder l")
    case Nil
    then have "z = x" using Nd.prems(2) by simp
    then show ?thesis using cur by (simp add: pq_search.simps [of cmp ps rq _ "Some x"])
  next
    case (Cons u us)
    then have l: "inorder l = x # us" "z \<in> set ys" "set us \<subseteq> set ys" using Nd.prems(2) by auto
    then have "pq_search cmp ps rq (rq_proc rq x) (rb_left ?n) = kret (Some x)"
      using Nd.IH(1) [OF L l(1)] Nd.prems(3) by blast
    moreover have "pid (ps (rq_proc rq z)) \<noteq> pid (ps (rq_proc rq x))" using l(2) Nd.prems(3) by blast
    ultimately show ?thesis
      using cur cmp_nonzero by (simp add: pq_search.simps [of cmp ps rq _ "Some z"])
  qed
qed

lemma pq_dequeue_hd:
  assumes ok: "rq_ok rq (p # Q)" and pids: "\<forall>q \<in> set Q. pid (ps q) \<noteq> pid (ps p)"
  shows "\<exists>rq'. pq_dequeue (\<lambda>ps rq p. pq_search cmp ps rq p (rb_root (rq_tree rq))) ps rq p = kret rq' \<and> rq_ok rq' Q \<and>
    max_time_slice rq' = max_time_slice rq"
proof -
  obtain x xs where xs: "rb_ok (rq_tree rq) (x # xs)" "rq_proc rq x = p" "map (rq_proc rq) xs = Q"
    "distinct (p # Q)" "unat (proc_num rq) = length (p # Q)"
    using ok by (auto simp: rq_ok_def rq_holds_def)
  obtain t where t: "focus (rq_tree rq) (rb_root (rq_tree rq)) t []" "inorder t = x # xs"
    using rb_ok_focus [OF xs(1)] by blast
  have "pq_search cmp ps rq p (rb_root (rq_tree rq)) = kret (Some x)"
    using pq_search_hd [OF t(1,2), of ps] pids xs(2,3) by auto
  moreover obtain T' where "rb_erase x (rq_tree rq) = kret T'" "rb_ok T' xs"
    using rb_erase_ok [OF xs(1), of x] by auto
  moreover have "unat (proc_num rq - 1) = length Q"
    using xs(5) by (simp add: unat_diff_le)
  ultimately show ?thesis
    using xs by (auto simp: pq_dequeue_def rq_ok_def rq_holds_def intro!: exI [of _ xs])
qed

end

lemma compare_stride_nonzero: "compare_stride_node a b \<noteq> 0"
  by (simp add: compare_stride_node_def Let_def)

lemma compare_cfs_nonzero: "compare_cfs_node a b \<noteq> 0"
  by (simp add: compare_cfs_node_def)

interpretation stride_order: proc_order compare_stride_node
  by unfold_locales (rule compare_stride_nonzero)

interpretation cfs_order: proc_order compare_cfs_node
  by unfold_locales (rule compare_cfs_nonzero)

section \<open>When the comparisons are linear\<close>

lemma cfs_linear:
  assumes "inj_on (\<lambda>a. pid (ps a)) A"
  shows "cmp_linear compare_cfs_node ps A"
  using assms unfolding cmp_linear_def compare_cfs_node_def inj_on_def
  by (smt (verit) less_le_not_le linorder_less_linear order.strict_trans)

text \<open>Strides are compared by their difference modulo \<open>2 ^ 32\<close>, which is an order only within a
  window of \<open>2 ^ 31\<close>.\<close>

definition stride_window :: "procs \<Rightarrow> nat set \<Rightarrow> u32 \<Rightarrow> nat \<Rightarrow> bool" where
  "stride_window ps A base w \<longleftrightarrow> (\<forall>a \<in> A. unat (stride (ps a) - base) \<le> w)"

lemma stride_diff:
  fixes x y base :: u32
  assumes "unat (x - base) < 2 ^ 31" and "unat (y - base) < 2 ^ 31"
  shows "sint (x - y) = int (unat (x - base)) - int (unat (y - base))"
proof -
  define a b where ab: "a = unat (x - base)" "b = unat (y - base)"
  have "x - y = (x - base) - (y - base)" by simp
  also have "\<dots> = of_int (int a - int b)" by (simp add: ab)
  finally have "sint (x - y) = signed_take_bit 31 (int a - int b)"
    by (simp only: signed_of_int) simp
  also have "\<dots> = int a - int b"
    using assms unfolding ab [symmetric] by (intro signed_take_bit_int_eq_self) simp_all
  finally show ?thesis by (simp only: ab)
qed

definition stride_off :: "u32 \<Rightarrow> proc_struct \<Rightarrow> nat" where
  "stride_off base p = unat (stride p - base)"

lemma compare_stride_window:
  assumes "stride_off base a < 2 ^ 31" and "stride_off base b < 2 ^ 31"
  shows "compare_stride_node a b < 0 \<longleftrightarrow>
      stride_off base a < stride_off base b \<or> stride_off base a = stride_off base b \<and> pid a \<le> pid b"
    and "0 < compare_stride_node a b \<longleftrightarrow>
      stride_off base b < stride_off base a \<or> stride_off base a = stride_off base b \<and> pid b < pid a"
proof -
  have "sint (stride a - stride b) = int (stride_off base a) - int (stride_off base b)"
    using stride_diff assms by (simp add: stride_off_def del: of_nat_unat)
  then show "compare_stride_node a b < 0 \<longleftrightarrow>
      stride_off base a < stride_off base b \<or> stride_off base a = stride_off base b \<and> pid a \<le> pid b"
    and "0 < compare_stride_node a b \<longleftrightarrow>
      stride_off base b < stride_off base a \<or> stride_off base a = stride_off base b \<and> pid b < pid a"
    by (auto simp: compare_stride_node_def Let_def)
qed

lemma stride_linear:
  assumes "stride_window ps A base w" and "w < 2 ^ 31"
  shows "cmp_linear compare_stride_node ps A"
proof -
  have off: "stride_off base (ps a) < 2 ^ 31" if "a \<in> A" for a
    using assms that by (fastforce simp: stride_window_def stride_off_def)
  have lt: "compare_stride_node (ps a) (ps b) < 0 \<longleftrightarrow>
      stride_off base (ps a) < stride_off base (ps b) \<or>
      stride_off base (ps a) = stride_off base (ps b) \<and> pid (ps a) \<le> pid (ps b)"
    and gt: "0 < compare_stride_node (ps a) (ps b) \<longleftrightarrow>
      stride_off base (ps b) < stride_off base (ps a) \<or>
      stride_off base (ps a) = stride_off base (ps b) \<and> pid (ps b) < pid (ps a)"
    if "a \<in> A" "b \<in> A" for a b
    using compare_stride_window [OF off off] that by blast+
  show ?thesis
    unfolding cmp_linear_def by (auto simp: lt gt)
qed

text \<open>The process at the head of a sorted queue has the least stride.\<close>

lemma sorted_head_least:
  assumes "queue_sorted compare_stride_node ps (p # Q)"
    and "stride_window ps (set (p # Q)) base w" and "w < 2 ^ 31" and "q \<in> set Q"
  shows "stride_off base (ps p) \<le> stride_off base (ps q)"
proof -
  have "stride_off base (ps a) < 2 ^ 31" if "a \<in> set (p # Q)" for a
    using assms(2,3) that by (fastforce simp: stride_window_def stride_off_def)
  moreover have "compare_stride_node (ps p) (ps q) < 0"
    using assms(1,4) by (auto simp: queue_sorted_def)
  ultimately show ?thesis using compare_stride_window(1) assms(4) by fastforce
qed

text \<open>The pass of a process: what one selection adds to its stride.\<close>

definition stride_pass :: "proc_struct \<Rightarrow> u32" where
  "stride_pass p = BIG_STRIDE div (20 - stride_prior p)"

lemma stride_pass_le: "unat (stride_pass p) \<le> unat BIG_STRIDE"
  by (simp add: stride_pass_def unat_div div_le_dividend)

text \<open>Selecting the process with the least stride keeps all strides within one pass of each
  other, relative to the stride it had.\<close>

lemma window_after_pick:
  assumes win: "stride_window ps A base (unat BIG_STRIDE)" and p: "p \<in> A"
    and least: "\<And>q. q \<in> A \<Longrightarrow> stride_off base (ps p) \<le> stride_off base (ps q)"
  shows "stride_window (ps(p := (ps p)\<lparr>stride := stride (ps p) + stride_pass (ps p)\<rparr>)) A
    (stride (ps p)) (unat BIG_STRIDE)"
  unfolding stride_window_def
proof
  fix q assume q: "q \<in> A"
  let ?ps = "ps(p := (ps p)\<lparr>stride := stride (ps p) + stride_pass (ps p)\<rparr>)"
  show "unat (stride (?ps q) - stride (ps p)) \<le> unat BIG_STRIDE"
  proof (cases "q = p")
    case True
    then show ?thesis using stride_pass_le [of "ps p"] by simp
  next
    case False
    have "stride (ps q) - stride (ps p) = (stride (ps q) - base) - (stride (ps p) - base)" by simp
    also have "unat \<dots> = unat (stride (ps q) - base) - unat (stride (ps p) - base)"
      using least [OF q] by (intro unat_diff_le) (simp add: stride_off_def)
    finally show ?thesis
      using win q False by (fastforce simp: stride_window_def)
  qed
qed

section \<open>The scheduling class interface\<close>

text \<open>\<^verbatim>\<open>struct sched_class\<close>: the operations the core scheduler calls through pointers.\<close>

record sched_class =
  c_init :: "run_queue \<Rightarrow> run_queue"
  c_enqueue :: "procs \<Rightarrow> nat option \<Rightarrow> run_queue \<Rightarrow> nat \<Rightarrow> (procs \<times> run_queue) prog"
  c_dequeue :: "procs \<Rightarrow> run_queue \<Rightarrow> nat \<Rightarrow> run_queue prog"
  c_pick_next :: "procs \<Rightarrow> run_queue \<Rightarrow> (procs \<times> nat option) prog"
  c_proc_tick :: "proc_struct \<Rightarrow> proc_struct prog"

definition default_sched_class :: sched_class where
  "default_sched_class = \<lparr>c_init = stride_init, c_enqueue = stride_enqueue,
     c_dequeue = stride_dequeue, c_pick_next = stride_pick_next, c_proc_tick = stride_proc_tick\<rparr>"

definition cfs_sched_class :: sched_class where
  "cfs_sched_class = \<lparr>c_init = cfs_init, c_enqueue = cfs_enqueue,
     c_dequeue = cfs_dequeue, c_pick_next = cfs_pick_next, c_proc_tick = cfs_proc_tick\<rparr>"

text \<open>What the queue operations leave alone in a process, and a node address that the queue does
  not use.\<close>

definition core :: "proc_struct \<Rightarrow> proc_state \<times> int \<times> bool \<times> u32 \<times> u32 \<times> u32" where
  "core p = (state p, pid p, need_resched p, wait_state p, cfs_prior p, stride_prior p)"

definition rq_fresh :: "run_queue \<Rightarrow> nat \<Rightarrow> bool" where
  "rq_fresh rq n \<longleftrightarrow> (\<forall>xs. rb_ok (rq_tree rq) xs \<longrightarrow> n \<notin> set xs)"

locale sched_ops =
  fixes cls :: sched_class
    and sane :: "proc_struct \<Rightarrow> bool"
  assumes init_law: "rq_ok (c_init cls rq) []"
    and enqueue_law: "rq_ok rq Q \<Longrightarrow> rq_fresh rq n \<Longrightarrow> p \<notin> set Q \<Longrightarrow> length Q + 1 < 2 ^ 32 \<Longrightarrow>
      \<exists>ps' rq' Q'. c_enqueue cls ps (Some n) rq p = kret (ps', rq') \<and> rq_ok rq' Q' \<and>
        set Q' = insert p (set Q) \<and> (\<forall>q. core (ps' q) = core (ps q))"
    and enqueue_null: "c_enqueue cls ps None rq p = null_deref"
    and enqueue_core: "c_enqueue cls ps m rq p = kret (ps', rq') \<Longrightarrow> core (ps' q) = core (ps q)"
    and pick_law: "rq_ok rq Q \<Longrightarrow> (\<And>q. q \<in> set Q \<Longrightarrow> sane (ps q)) \<Longrightarrow>
      \<exists>ps'. c_pick_next cls ps rq = kret (ps', hd_opt Q) \<and> (\<forall>q. core (ps' q) = core (ps q))"
    and dequeue_law: "rq_ok rq (p # Q) \<Longrightarrow> (\<And>q. q \<in> set Q \<Longrightarrow> pid (ps q) \<noteq> pid (ps p)) \<Longrightarrow>
      \<exists>rq'. c_dequeue cls ps rq p = kret rq' \<and> rq_ok rq' Q"
    and tick_law: "sane r \<Longrightarrow> \<exists>r'. c_proc_tick cls r = kret r' \<and> state r' = state r \<and> pid r' = pid r \<and>
        cfs_prior r' = cfs_prior r \<and> stride_prior r' = stride_prior r"
    and sane_prior: "cfs_prior r = cfs_prior r' \<Longrightarrow> stride_prior r = stride_prior r' \<Longrightarrow> sane r = sane r'"

lemma pq_enqueue_null: "(\<And>ps rq p. ins ps None rq p = null_deref) \<Longrightarrow> pq_enqueue ins ps None rq p = null_deref"
  by (simp add: pq_enqueue_def null_deref_def)

lemma pq_enqueue_any: "pq_enqueue ins ps m rq p = kret (ps', rq') \<Longrightarrow> core (ps' q) = core (ps q)"
  by (auto simp: pq_enqueue_def kbind_eq_kret Let_def core_def split: if_splits)

lemma core_enqueued:
  assumes "\<forall>q. q \<noteq> p \<longrightarrow> ps' q = ps q" and "ps' p = (ps p)\<lparr>time_slice := ts, has_rq := True\<rparr>"
  shows "core (ps' q) = core (ps q)"
  using assms by (cases "q = p") (auto simp: core_def)

context proc_order
begin

lemma pq_enqueue_core:
  assumes ok: "rq_ok rq Q" and fresh: "rq_fresh rq n" and p: "p \<notin> set Q" and len: "length Q + 1 < 2 ^ 32"
  shows "\<exists>ps' rq' Q'. pq_enqueue (pq_insert cmp) ps (Some n) rq p = kret (ps', rq') \<and> rq_ok rq' Q' \<and>
    set Q' = insert p (set Q) \<and> (\<forall>q. core (ps' q) = core (ps q))"
proof -
  obtain xs where xs: "rq_holds rq xs Q" "n \<notin> set xs"
    using ok fresh by (auto simp: rq_ok_def rq_fresh_def rq_holds_def)
  obtain ps' rq' Qa Qb ts where e: "pq_enqueue (pq_insert cmp) ps (Some n) rq p = kret (ps', rq')"
    "rq_ok rq' (Qa @ p # Qb)" "Q = Qa @ Qb" "\<forall>q. q \<noteq> p \<longrightarrow> ps' q = ps q"
    "ps' p = (ps p)\<lparr>time_slice := ts, has_rq := True\<rparr>"
    using pq_enqueue_ok [OF xs p len] by blast
  have "\<forall>q. core (ps' q) = core (ps q)" using core_enqueued [OF e(4,5)] by blast
  moreover have "set (Qa @ p # Qb) = insert p (set Q)" using e(3) by auto
  ultimately show ?thesis using e(1,2) by blast
qed

end

definition stride_sane :: "proc_struct \<Rightarrow> bool" where
  "stride_sane p \<longleftrightarrow> stride_prior p \<noteq> 20"

interpretation stride_class: sched_ops default_sched_class stride_sane
proof unfold_locales
  fix rq Q n p and ps :: procs
  assume "rq_ok rq Q" "rq_fresh rq n" "p \<notin> set Q" "length Q + 1 < 2 ^ 32"
  then show "\<exists>ps' rq' Q'. c_enqueue default_sched_class ps (Some n) rq p = kret (ps', rq') \<and>
      rq_ok rq' Q' \<and> set Q' = insert p (set Q) \<and> (\<forall>q. core (ps' q) = core (ps q))"
    using stride_order.pq_enqueue_core by (simp add: default_sched_class_def stride_enqueue_def stride_insert_def)
next
  fix rq Q ps
  assume ok: "rq_ok rq Q" and sane: "\<And>q. q \<in> set Q \<Longrightarrow> stride_sane (ps q)"
  show "\<exists>ps'. c_pick_next default_sched_class ps rq = kret (ps', hd_opt Q) \<and>
      (\<forall>q. core (ps' q) = core (ps q))"
  proof (cases Q)
    case Nil
    then show ?thesis
      using pq_find_min_ok [OF ok] by (simp add: default_sched_class_def stride_pick_next_def stride_find_min_def)
  next
    case (Cons p Q')
    have "20 - stride_prior (ps p) \<noteq> 0" using sane [of p] Cons by (simp add: stride_sane_def)
    then show ?thesis
      using pq_find_min_ok [OF ok] Cons
      by (simp add: default_sched_class_def stride_pick_next_def stride_find_min_def core_def)
  qed
next
  fix rq p Q and ps :: procs
  assume "rq_ok rq (p # Q)" "\<And>q. q \<in> set Q \<Longrightarrow> pid (ps q) \<noteq> pid (ps p)"
  then show "\<exists>rq'. c_dequeue default_sched_class ps rq p = kret rq' \<and> rq_ok rq' Q"
    using stride_order.pq_dequeue_hd [of rq p Q ps]
    by (auto simp: default_sched_class_def stride_dequeue_def stride_search_def)
next
  fix ps m rq p ps' rq' q
  show "c_enqueue default_sched_class ps m rq p = kret (ps', rq') \<Longrightarrow> core (ps' q) = core (ps q)"
    by (simp add: default_sched_class_def stride_enqueue_def pq_enqueue_any)
qed (auto simp: default_sched_class_def stride_init_def pq_init_ok stride_sane_def
    stride_proc_tick_def Let_def stride_enqueue_def stride_insert_def pq_insert_def pq_enqueue_null)

definition cfs_sane :: "proc_struct \<Rightarrow> bool" where
  "cfs_sane p \<longleftrightarrow> cfs_prior p \<noteq> 0"

interpretation cfs_class: sched_ops cfs_sched_class cfs_sane
proof unfold_locales
  fix rq Q n p and ps :: procs
  assume "rq_ok rq Q" "rq_fresh rq n" "p \<notin> set Q" "length Q + 1 < 2 ^ 32"
  then show "\<exists>ps' rq' Q'. c_enqueue cfs_sched_class ps (Some n) rq p = kret (ps', rq') \<and>
      rq_ok rq' Q' \<and> set Q' = insert p (set Q) \<and> (\<forall>q. core (ps' q) = core (ps q))"
    using cfs_order.pq_enqueue_core by (simp add: cfs_sched_class_def cfs_enqueue_def cfs_insert_def)
next
  fix rq Q and ps :: procs
  assume "rq_ok rq Q"
  then show "\<exists>ps'. c_pick_next cfs_sched_class ps rq = kret (ps', hd_opt Q) \<and>
      (\<forall>q. core (ps' q) = core (ps q))"
    by (simp add: pq_find_min_ok cfs_sched_class_def cfs_pick_next_def cfs_find_min_def)
next
  fix rq p Q and ps :: procs
  assume "rq_ok rq (p # Q)" "\<And>q. q \<in> set Q \<Longrightarrow> pid (ps q) \<noteq> pid (ps p)"
  then show "\<exists>rq'. c_dequeue cfs_sched_class ps rq p = kret rq' \<and> rq_ok rq' Q"
    using cfs_order.pq_dequeue_hd [of rq p Q ps]
    by (auto simp: cfs_sched_class_def cfs_dequeue_def cfs_search_def)
next
  fix ps m rq p ps' rq' q
  show "c_enqueue cfs_sched_class ps m rq p = kret (ps', rq') \<Longrightarrow> core (ps' q) = core (ps q)"
    by (simp add: cfs_sched_class_def cfs_enqueue_def pq_enqueue_any)
qed (auto simp: cfs_sched_class_def cfs_init_def pq_init_ok cfs_sane_def cfs_proc_tick_def Let_def
    cfs_enqueue_def cfs_insert_def pq_insert_def pq_enqueue_null)

section \<open>A round of the stride scheduler\<close>

lemma queue_sorted_cong:
  "(\<And>a. a \<in> set Q \<Longrightarrow> ps' a = ps a) \<Longrightarrow> queue_sorted cmp ps' Q = queue_sorted cmp ps Q"
  unfolding queue_sorted_def by (rule iffI; rule sorted_wrt_mono_rel [rotated], assumption, simp)

lemma compare_stride_cong:
  "stride a = stride a' \<Longrightarrow> pid a = pid a' \<Longrightarrow> stride b = stride b' \<Longrightarrow> pid b = pid b' \<Longrightarrow>
   compare_stride_node a b = compare_stride_node a' b'"
  by (simp add: compare_stride_node_def)

text \<open>An empty queue, and one that holds process 5, whose stride is the largest below the
  wrap-around.\<close>

definition empty_queue :: run_queue where
  "empty_queue = pq_init \<lparr>rq_tree = sample_tree, rq_proc = (\<lambda>_. 0), proc_num = 0, max_time_slice = 5\<rparr>"

definition one_queue :: run_queue where
  "one_queue = empty_queue\<lparr>rq_tree := \<lparr>rb_nodes = (\<lambda>_. \<lparr>rb_parent = None, rb_color = RB_BLACK,
     rb_right = None, rb_left = None\<rparr>), rb_root = Some 1\<rparr>, rq_proc := (\<lambda>_. 5), proc_num := 1\<rparr>"

definition blank_proc :: proc_struct where
  "blank_proc = init_proc 0 \<lparr>state = PROC_UNINIT, pid = 0, runs = 0, kstack = 0, need_resched = False,
     parent = None, mm = None, cr3 = 0, pflags = 0, exit_code = 0, wait_state = 0, cptr = None,
     yptr = None, optr = None, has_rq = False, time_slice = 0, filesp = None, vruntime = 0,
     cfs_prior = 0, stride = 0, stride_prior = 0, is_thread = False, stack_num = 0,
     stacks = (\<lambda>_. 0)\<rparr>"

lemma one_queue_ok: "rq_ok one_queue [5]"
proof -
  have "rb_ok (rq_tree one_queue) [1]" unfolding rb_ok_def
    by (rule exI [of _ "Nd RB_BLACK Lf 1 Lf"], rule exI [of _ 1]) (simp add: one_queue_def focus_def)
  then show ?thesis
    by (auto simp: rq_ok_def rq_holds_def one_queue_def intro!: exI [of _ "[1]"])
qed

text \<open>C20. The stride scheduler serves the waiting process whose stride is least, also across the
  wrap-around of the 32-bit strides: if the queue is sorted and all strides lie within
  \<^verbatim>\<open>BIG_STRIDE\<close> of a base, then the picked process has the least stride, taking it out and
  putting it back succeeds, the queue is sorted again, and all strides lie within
  \<^verbatim>\<open>BIG_STRIDE\<close> of the stride it had.\<close>

theorem stride_round_correct:
  assumes ok: "rq_ok rq (p # Q)" and sorted: "queue_sorted compare_stride_node ps (p # Q)"
    and win: "stride_window ps (set (p # Q)) base (unat BIG_STRIDE)"
    and prior: "stride_prior (ps p) \<noteq> 20" and pids: "\<forall>q \<in> set Q. pid (ps q) \<noteq> pid (ps p)"
    and fresh: "\<forall>ps1 rq1. stride_dequeue ps1 rq p = kret rq1 \<longrightarrow> rq_fresh rq1 n" and len: "length Q + 1 < 2 ^ 32"
  shows "\<exists>ps1 rq1 ps2 rq2 Q'. stride_pick_next ps rq = kret (ps1, Some p) \<and>
    (\<forall>q \<in> set Q. stride_off base (ps p) \<le> stride_off base (ps q)) \<and>
    stride_dequeue ps1 rq p = kret rq1 \<and> stride_enqueue ps1 (Some n) rq1 p = kret (ps2, rq2) \<and>
    rq_ok rq2 Q' \<and> set Q' = set (p # Q) \<and> queue_sorted compare_stride_node ps2 Q' \<and>
    stride_window ps2 (set Q') (stride (ps p)) (unat BIG_STRIDE)"
proof -
  define ps1 where "ps1 = ps(p := (ps p)\<lparr>stride := stride (ps p) + stride_pass (ps p)\<rparr>)"
  have dist: "p \<notin> set Q" "distinct Q" using ok by (auto simp: rq_ok_def rq_holds_def)
  have pick: "stride_pick_next ps rq = kret (ps1, Some p)"
    using pq_find_min_ok [OF ok] prior by (simp add: stride_pick_next_def stride_find_min_def ps1_def stride_pass_def)
  have least: "stride_off base (ps p) \<le> stride_off base (ps q)" if "q \<in> set (p # Q)" for q
    using sorted_head_least [OF sorted win] that by auto
  have win1: "stride_window ps1 (set (p # Q)) (stride (ps p)) (unat BIG_STRIDE)"
    unfolding ps1_def using least by (intro window_after_pick [OF win]) auto
  have "\<forall>q \<in> set Q. pid (ps1 q) \<noteq> pid (ps1 p)" using pids dist by (auto simp: ps1_def)
  then obtain rq1 where deq: "stride_dequeue ps1 rq p = kret rq1" "rq_ok rq1 Q"
    using stride_order.pq_dequeue_hd [OF ok] by (auto simp: stride_dequeue_def stride_search_def)
  obtain xs where xs: "rq_holds rq1 xs Q" "n \<notin> set xs"
    using deq fresh by (fastforce simp: rq_ok_def rq_fresh_def rq_holds_def)
  have lin: "cmp_linear compare_stride_node ps1 (insert p (set Q))"
    using stride_linear [OF win1] by simp
  have s1: "queue_sorted compare_stride_node ps1 Q"
  proof -
    have "queue_sorted compare_stride_node ps Q" using sorted by (simp add: queue_sorted_def)
    moreover have "ps1 a = ps a" if "a \<in> set Q" for a using that dist by (auto simp: ps1_def)
    ultimately show ?thesis using queue_sorted_cong [of Q ps1 ps] by blast
  qed
  obtain ps2 rq2 Qa Qb ts where enq: "stride_enqueue ps1 (Some n) rq1 p = kret (ps2, rq2)"
    "rq_ok rq2 (Qa @ p # Qb)" "Q = Qa @ Qb" "\<forall>q. q \<noteq> p \<longrightarrow> ps2 q = ps1 q"
    "ps2 p = (ps1 p)\<lparr>time_slice := ts, has_rq := True\<rparr>"
    "queue_sorted compare_stride_node ps1 (Qa @ p # Qb)"
    using stride_order.pq_enqueue_ok [OF xs dist(1) len, of ps1] lin s1
    unfolding stride_enqueue_def stride_insert_def by blast
  have same: "stride (ps2 q) = stride (ps1 q)" "pid (ps2 q) = pid (ps1 q)" for q
    using enq(4,5) by (cases "q = p"; simp)+
  then have "queue_sorted compare_stride_node ps2 (Qa @ p # Qb)"
    using enq(6) compare_stride_cong [OF same same] by (simp add: queue_sorted_def)
  moreover have "stride_window ps2 (set (Qa @ p # Qb)) (stride (ps p)) (unat BIG_STRIDE)"
    using win1 same enq(3) by (auto simp: stride_window_def)
  moreover have "set (Qa @ p # Qb) = set (p # Q)" using enq(3) by auto
  ultimately show ?thesis using pick least deq(1) enq(1,2) by auto
qed

theorem stride_round_correct_witness:
  "\<exists>ps1 rq1 ps2 rq2 Q'. stride_pick_next (\<lambda>_. blank_proc\<lparr>stride := 0xFFFFFFFF\<rparr>) one_queue = kret (ps1, Some 5) \<and>
    stride_dequeue ps1 one_queue 5 = kret rq1 \<and> stride_enqueue ps1 (Some 2) rq1 5 = kret (ps2, rq2) \<and>
    rq_ok rq2 Q' \<and> set Q' = {5} \<and> stride_window ps2 {5} 0xFFFFFFFF 0x7FFFFFFF"
proof -
  let ?ps = "\<lambda>_ :: nat. blank_proc\<lparr>stride := 0xFFFFFFFF\<rparr>"
  have fresh: "rq_fresh rq1 2" if "stride_dequeue ps1 one_queue 5 = kret rq1" for ps1 rq1
  proof -
    have "rq_ok rq1 []"
      using stride_order.pq_dequeue_hd [OF one_queue_ok, of ps1] that by (auto simp: stride_dequeue_def stride_search_def)
    then show ?thesis using rb_ok_det by (fastforce simp: rq_fresh_def rq_ok_def rq_holds_def)
  qed
  then have fr: "\<forall>ps1 rq1. stride_dequeue ps1 one_queue 5 = kret rq1 \<longrightarrow> rq_fresh rq1 2" by blast
  have h: "queue_sorted compare_stride_node ?ps [5]"
    "stride_window ?ps (set [5]) 0xF0000000 (unat BIG_STRIDE)" "stride_prior (?ps 5) \<noteq> 20"
    "\<forall>q \<in> set []. pid (?ps q) \<noteq> pid (?ps 5)" "length [] + 1 < (2 :: nat) ^ 32"
    by (simp_all add: queue_sorted_def stride_window_def blank_proc_def init_proc_def)
  have "stride (?ps 5) = 0xFFFFFFFF" "set [5 :: nat] = {5}" "unat BIG_STRIDE = 0x7FFFFFFF" by simp_all
  then show ?thesis using stride_round_correct [OF one_queue_ok h(1-4) fr h(5)] by metis
qed

end
