(* ===== verification/Sched.thy ===== *)
theory Sched
  imports Runqueue
begin

text \<open>
  The core scheduler and the kernel timers, \<^verbatim>\<open>kern/schedule/sched.c\<close>.  The scheduling class
  is a record of operations, as in the source.  Interrupts are off inside every operation here
  (\<^verbatim>\<open>local_intr_save\<close>), so each is one atomic step; the register switch at the end of
  \<^verbatim>\<open>proc_run\<close> is not modelled.  \<open>km\<close> is the answer of \<^verbatim>\<open>kmalloc\<close> for a queue node.
\<close>

section \<open>State and operations\<close>

record timer =
  expires :: u32
  tproc :: "nat option"

record sched =
  ptab :: procs
  current :: nat
  idleproc :: nat
  rq :: run_queue
  timers :: "nat \<Rightarrow> timer"
  timer_links :: "lnode links"

definition sched_class_enqueue ::
  "sched_class \<Rightarrow> (sched \<Rightarrow> nat option) \<Rightarrow> sched \<Rightarrow> nat \<Rightarrow> sched prog" where
  "sched_class_enqueue cls km s proc =
     (if proc \<noteq> idleproc s
      then kbind (c_enqueue cls (ptab s) (km s) (rq s) proc) (\<lambda>(ps, q).
             kret (s\<lparr>ptab := ps, rq := q\<rparr>))
      else kret s)"

definition sched_class_dequeue :: "sched_class \<Rightarrow> sched \<Rightarrow> nat \<Rightarrow> sched prog" where
  "sched_class_dequeue cls s proc =
     kbind (c_dequeue cls (ptab s) (rq s) proc) (\<lambda>q. kret (s\<lparr>rq := q\<rparr>))"

definition sched_class_pick_next :: "sched_class \<Rightarrow> sched \<Rightarrow> (sched \<times> nat option) prog" where
  "sched_class_pick_next cls s =
     kbind (c_pick_next cls (ptab s) (rq s)) (\<lambda>(ps, r). kret (s\<lparr>ptab := ps\<rparr>, r))"

definition upd_proc :: "nat \<Rightarrow> (proc_struct \<Rightarrow> proc_struct) \<Rightarrow> sched \<Rightarrow> sched" where
  "upd_proc p f s = s\<lparr>ptab := (ptab s)(p := f (ptab s p))\<rparr>"

definition sched_class_proc_tick :: "sched_class \<Rightarrow> sched \<Rightarrow> nat \<Rightarrow> sched prog" where
  "sched_class_proc_tick cls s proc =
     (if proc \<noteq> idleproc s
      then kbind (c_proc_tick cls (ptab s proc)) (\<lambda>p. kret (upd_proc proc (\<lambda>_. p) s))
      else kret (upd_proc proc (\<lambda>p. p\<lparr>need_resched := True\<rparr>) s))"

definition sched_init :: "sched_class \<Rightarrow> sched \<Rightarrow> sched" where
  "sched_init cls s =
     s\<lparr>timer_links := list_init (timer_links s) Head,
       rq := c_init cls ((rq s)\<lparr>max_time_slice := 5\<rparr>)\<rparr>"

definition wakeup_proc :: "sched_class \<Rightarrow> (sched \<Rightarrow> nat option) \<Rightarrow> sched \<Rightarrow> nat \<Rightarrow> sched prog" where
  "wakeup_proc cls km s proc =
     kassert (state (ptab s proc) \<noteq> PROC_ZOMBIE)
       (if state (ptab s proc) \<noteq> PROC_RUNNABLE
        then let s = upd_proc proc (\<lambda>p. p\<lparr>state := PROC_RUNNABLE, wait_state := 0\<rparr>) s
             in if proc \<noteq> current s then sched_class_enqueue cls km s proc else kret s
        else kret s)"

definition proc_run :: "sched \<Rightarrow> nat \<Rightarrow> sched" where
  "proc_run s proc = (if proc \<noteq> current s then s\<lparr>current := proc\<rparr> else s)"

definition schedule :: "sched_class \<Rightarrow> (sched \<Rightarrow> nat option) \<Rightarrow> sched \<Rightarrow> sched prog" where
  "schedule cls km s =
     (let s = upd_proc (current s) (\<lambda>p. p\<lparr>need_resched := False\<rparr>) s in
      kbind (if state (ptab s (current s)) = PROC_RUNNABLE
             then sched_class_enqueue cls km s (current s) else kret s) (\<lambda>s.
      kbind (sched_class_pick_next cls s) (\<lambda>(s, next).
      kbind (case next of None \<Rightarrow> kret s | Some p \<Rightarrow> sched_class_dequeue cls s p) (\<lambda>s.
        let next = (case next of None \<Rightarrow> idleproc s | Some p \<Rightarrow> p);
            s = upd_proc next (\<lambda>p. p\<lparr>runs := runs p + 1\<rparr>) s
        in kret (if next \<noteq> current s then proc_run s next else s)))))"

section \<open>Timers\<close>

definition timer_init :: "sched \<Rightarrow> nat \<Rightarrow> nat option \<Rightarrow> int \<Rightarrow> sched" where
  "timer_init s t proc e =
     s\<lparr>timers := (timers s)(t := \<lparr>expires = word_of_int e, tproc = proc\<rparr>),
       timer_links := list_init (timer_links s) (Link t)\<rparr>"

definition upd_expires :: "nat \<Rightarrow> (u32 \<Rightarrow> u32) \<Rightarrow> sched \<Rightarrow> sched" where
  "upd_expires t f s =
     s\<lparr>timers := (timers s)(t := (timers s t)\<lparr>expires := f (expires (timers s t))\<rparr>)\<rparr>"

partial_function (option) add_timer_loop :: "sched \<Rightarrow> nat \<Rightarrow> lnode \<Rightarrow> (sched \<times> lnode) prog" where
  "add_timer_loop s timer le =
     (case le of
        Head \<Rightarrow> kret (s, le)
      | Link next \<Rightarrow>
          if expires (timers s timer) < expires (timers s next)
          then kret (upd_expires next (\<lambda>e. e - expires (timers s timer)) s, le)
          else let s = upd_expires timer (\<lambda>e. e - expires (timers s next)) s
               in add_timer_loop s timer (list_next (timer_links s) le))"

definition add_timer :: "sched \<Rightarrow> nat \<Rightarrow> sched prog" where
  "add_timer s timer =
     kassert (expires (timers s timer) > 0 \<and> tproc (timers s timer) \<noteq> None)
       (kassert (list_empty (timer_links s) (Link timer))
         (kbind (add_timer_loop s timer (list_next (timer_links s) Head)) (\<lambda>(s, le).
            kret (s\<lparr>timer_links := list_add_before (timer_links s) le (Link timer)\<rparr>))))"

definition del_timer :: "sched \<Rightarrow> nat \<Rightarrow> sched" where
  "del_timer s timer =
     (if \<not> list_empty (timer_links s) (Link timer)
      then let s = (if expires (timers s timer) \<noteq> 0
                    then case list_next (timer_links s) (Link timer) of
                           Head \<Rightarrow> s
                         | Link next \<Rightarrow> upd_expires next (\<lambda>e. e + expires (timers s timer)) s
                    else s)
           in s\<lparr>timer_links := list_del_init (timer_links s) (Link timer)\<rparr>
      else s)"

partial_function (option) run_timer_loop ::
  "sched_class \<Rightarrow> (sched \<Rightarrow> nat option) \<Rightarrow> sched \<Rightarrow> nat \<Rightarrow> sched prog" where
  "run_timer_loop cls km s timer =
     (if expires (timers s timer) = 0
      then let le = list_next (timer_links s) (Link timer) in
           deref (tproc (timers s timer)) (\<lambda>proc.
             kassert (wait_state (ptab s proc) \<noteq> 0 \<longrightarrow>
                      wait_state (ptab s proc) AND WT_INTERRUPTED \<noteq> 0)
               (kbind (wakeup_proc cls km s proc) (\<lambda>s.
                  let s = del_timer s timer
                  in case le of
                       Head \<Rightarrow> kret s
                     | Link timer \<Rightarrow> run_timer_loop cls km s timer)))
      else kret s)"

definition run_timer_list :: "sched_class \<Rightarrow> (sched \<Rightarrow> nat option) \<Rightarrow> sched \<Rightarrow> sched prog" where
  "run_timer_list cls km s =
     kbind (case list_next (timer_links s) Head of
              Head \<Rightarrow> kret s
            | Link timer \<Rightarrow>
                kassert (expires (timers s timer) \<noteq> 0)
                  (run_timer_loop cls km (upd_expires timer (\<lambda>e. e - 1) s) timer))
       (\<lambda>s. sched_class_proc_tick cls s (current s))"

section \<open>Fresh queue nodes\<close>

definition fresh_node :: "sched \<Rightarrow> nat option" where
  "fresh_node s = Some (LEAST n. rq_fresh (rq s) n)"

definition km_ok :: "(sched \<Rightarrow> nat option) \<Rightarrow> bool" where
  "km_ok km \<longleftrightarrow> (\<forall>s. \<exists>n. km s = Some n \<and> rq_fresh (rq s) n)"

lemma km_ok_fresh_node: "km_ok fresh_node"
proof -
  have "\<exists>n. rq_fresh q n" for q
  proof (cases "\<exists>xs. rb_ok (rq_tree q) xs")
    case True
    then obtain xs where xs: "rb_ok (rq_tree q) xs" by blast
    obtain n where "n \<notin> set xs" using ex_new_if_finite [OF infinite_UNIV_nat] by blast
    then show ?thesis using rb_ok_det [OF xs] by (auto simp: rq_fresh_def)
  next
    case False
    then show ?thesis by (simp add: rq_fresh_def)
  qed
  then show ?thesis by (auto simp: km_ok_def fresh_node_def intro: LeastI_ex)
qed

text \<open>\<^verbatim>\<open>kmalloc\<close> may also answer NULL: it promises only that the memory it answers is not in use.\<close>

definition km_fresh :: "(sched \<Rightarrow> nat option) \<Rightarrow> bool" where
  "km_fresh km \<longleftrightarrow> (\<forall>s n. km s = Some n \<longrightarrow> rq_fresh (rq s) n)"

definition km_total :: "(sched \<Rightarrow> nat option) \<Rightarrow> sched \<Rightarrow> nat option" where
  "km_total km s = (case km s of None \<Rightarrow> fresh_node s | Some n \<Rightarrow> Some n)"

lemma km_ok_total: "km_fresh km \<Longrightarrow> km_ok (km_total km)"
  using km_ok_fresh_node by (auto simp: km_ok_def km_fresh_def km_total_def split: option.splits)

lemma km_total_Some [simp]: "km s = Some n \<Longrightarrow> km_total km s = Some n"
  by (simp add: km_total_def)

lemma km_fresh_fresh_node: "km_fresh fresh_node"
  using km_ok_fresh_node unfolding km_ok_def km_fresh_def by (metis option.inject)

text \<open>\<^verbatim>\<open>wakeup_proc\<close> and \<^verbatim>\<open>schedule\<close> have to allocate a queue node for a process and get none.\<close>

definition wake_starved :: "(sched \<Rightarrow> nat option) \<Rightarrow> sched \<Rightarrow> nat \<Rightarrow> bool" where
  "wake_starved km s p \<longleftrightarrow> state (ptab s p) \<noteq> PROC_RUNNABLE \<and> p \<noteq> current s \<and> p \<noteq> idleproc s \<and>
     km (upd_proc p (\<lambda>x. x\<lparr>state := PROC_RUNNABLE, wait_state := 0\<rparr>) s) = None"

definition sched_starved :: "(sched \<Rightarrow> nat option) \<Rightarrow> sched \<Rightarrow> bool" where
  "sched_starved km s \<longleftrightarrow> state (ptab s (current s)) = PROC_RUNNABLE \<and> current s \<noteq> idleproc s \<and>
     km (upd_proc (current s) (\<lambda>x. x\<lparr>need_resched := False\<rparr>) s) = None"

section \<open>The run queue holds the runnable processes\<close>

text \<open>\<open>A\<close> is the set of existing processes.\<close>

definition waiting :: "nat set \<Rightarrow> sched \<Rightarrow> nat set" where
  "waiting A s = {p \<in> A. state (ptab s p) = PROC_RUNNABLE \<and> p \<noteq> current s \<and> p \<noteq> idleproc s}"

definition sched_inv :: "(proc_struct \<Rightarrow> bool) \<Rightarrow> nat set \<Rightarrow> sched \<Rightarrow> bool" where
  "sched_inv sane A s \<longleftrightarrow>
     (\<exists>Q. rq_ok (rq s) Q \<and> set Q = waiting A s) \<and>
     current s \<in> A \<and> idleproc s \<in> A \<and> finite A \<and> card A < 2 ^ 32 \<and>
     inj_on (\<lambda>p. pid (ptab s p)) A \<and> (\<forall>p \<in> A. sane (ptab s p))"

lemma upd_proc_simps [simp]:
  "ptab (upd_proc p f s) = (ptab s)(p := f (ptab s p))" "current (upd_proc p f s) = current s"
  "idleproc (upd_proc p f s) = idleproc s" "rq (upd_proc p f s) = rq s"
  "timers (upd_proc p f s) = timers s" "timer_links (upd_proc p f s) = timer_links s"
  by (simp_all add: upd_proc_def)

lemma proc_run_simps [simp]:
  "ptab (proc_run s p) = ptab s" "current (proc_run s p) = p" "idleproc (proc_run s p) = idleproc s"
  "rq (proc_run s p) = rq s"
  by (simp_all add: proc_run_def)

lemma rq_ok_strict:
  assumes "rq_ok r Q" and "set Q \<subseteq> A" and "finite A" and "a \<in> A" and "a \<notin> set Q"
  shows "length Q < card A"
proof -
  have "distinct Q" using assms(1) by (auto simp: rq_ok_def rq_holds_def)
  then have "length Q = card (set Q)" by (simp add: distinct_card)
  also have "\<dots> < card A" using assms by (intro psubset_card_mono) auto
  finally show ?thesis .
qed

context sched_ops
begin

lemma enqueue_ok:
  assumes q: "rq_ok (rq s) Q" "p \<notin> set Q" "length Q + 1 < 2 ^ 32" and km: "km_ok km"
    and p: "p \<noteq> idleproc s"
  shows "\<exists>ps' rq' Q'. sched_class_enqueue cls km s p = kret (s\<lparr>ptab := ps', rq := rq'\<rparr>) \<and>
    rq_ok rq' Q' \<and> set Q' = insert p (set Q) \<and> (\<forall>q. core (ps' q) = core (ptab s q))"
proof -
  obtain n where n: "km s = Some n" "rq_fresh (rq s) n" using km by (auto simp: km_ok_def)
  from enqueue_law [OF q(1) n(2) q(2,3), of "ptab s"] n p show ?thesis
    by (fastforce simp: sched_class_enqueue_def)
qed

lemma sane_core: "core r = core r' \<Longrightarrow> sane r = sane r'"
  by (rule sane_prior) (simp_all add: core_def)

lemma core_state: "core r = core r' \<Longrightarrow> state r = state r' \<and> pid r = pid r'"
  by (simp add: core_def)

lemma sched_invI:
  assumes inv: "sched_inv sane A s" and "current s' \<in> A" and "idleproc s' = idleproc s"
    and "rq_ok (rq s') Q" and "set Q = waiting A s'"
    and pids: "\<And>q. q \<in> A \<Longrightarrow> pid (ptab s' q) = pid (ptab s q)"
    and "\<And>q. q \<in> A \<Longrightarrow> sane (ptab s' q)"
  shows "sched_inv sane A s'"
proof -
  have "inj_on (\<lambda>p. pid (ptab s' p)) A = inj_on (\<lambda>p. pid (ptab s p)) A"
    by (rule inj_on_cong) (rule pids)
  then show ?thesis using assms unfolding sched_inv_def by metis
qed

lemma waiting_room:
  assumes inv: "sched_inv sane A s" and q: "rq_ok (rq s) Q" "set Q \<subseteq> A" and a: "a \<in> A" "a \<notin> set Q"
  shows "length Q + 1 < 2 ^ 32"
  using rq_ok_strict [OF q _ a] inv by (auto simp: sched_inv_def)

lemma wakeup_ok:
  assumes inv: "sched_inv sane A s" and km: "km_ok km" and p: "p \<in> A"
    and st: "state (ptab s p) \<noteq> PROC_ZOMBIE"
  shows "\<exists>s'. wakeup_proc cls km s p = kret s' \<and> sched_inv sane A s' \<and>
    state (ptab s' p) = PROC_RUNNABLE \<and> current s' = current s \<and> idleproc s' = idleproc s \<and>
    timers s' = timers s \<and> timer_links s' = timer_links s \<and>
    (\<forall>q. q \<noteq> p \<longrightarrow> core (ptab s' q) = core (ptab s q)) \<and>
    wait_state (ptab s' p) \<in> {0, wait_state (ptab s p)}"
proof (cases "state (ptab s p) = PROC_RUNNABLE")
  case True
  then show ?thesis using inv by (simp add: wakeup_proc_def)
next
  case False
  have sane': "sane (r\<lparr>state := PROC_RUNNABLE, wait_state := 0\<rparr>) = sane r" for r
    by (rule sane_prior) simp_all
  let ?s = "upd_proc p (\<lambda>p. p\<lparr>state := PROC_RUNNABLE, wait_state := 0\<rparr>) s"
  obtain Q where Q: "rq_ok (rq s) Q" "set Q = waiting A s" using inv by (auto simp: sched_inv_def)
  have inv1: "sched_inv sane A t"
    if t: "\<And>q. core (ptab t q) = core (ptab ?s q)" "current t = current s" "idleproc t = idleproc s"
      "rq_ok (rq t) Q'" "set Q' = waiting A t" for t Q'
  proof (rule sched_invI [OF inv _ t(3-5)])
    show "current t \<in> A" using inv t(2) by (simp add: sched_inv_def)
    fix q assume q: "q \<in> A"
    show "pid (ptab t q) = pid (ptab s q)" using core_state [OF t(1)] by (simp add: fun_upd_def)
    show "sane (ptab t q)"
      using sane_core [OF t(1) [of q]] q inv sane' by (auto simp: sched_inv_def split: if_splits)
  qed
  have np: "p \<notin> set Q" using False Q(2) by (simp add: waiting_def)
  show ?thesis
  proof (cases "p = current s \<or> p = idleproc s")
    case True
    then have "wakeup_proc cls km s p = kret ?s"
      using st False by (auto simp: wakeup_proc_def Let_def sched_class_enqueue_def)
    moreover have "waiting A ?s = waiting A s" using True by (auto simp: waiting_def)
    ultimately show ?thesis using inv1 [of ?s Q] Q by simp
  next
    case neq: False
    have room: "length Q + 1 < 2 ^ 32"
      using waiting_room [OF inv Q(1) _ p np] Q(2) by (auto simp: waiting_def)
    obtain ps' rq' Q' where e: "sched_class_enqueue cls km ?s p = kret (?s\<lparr>ptab := ps', rq := rq'\<rparr>)"
      "rq_ok rq' Q'" "set Q' = insert p (set Q)" "\<And>q. core (ps' q) = core (ptab ?s q)"
      using enqueue_ok [of ?s Q p km] Q np room km neq by auto
    let ?t = "?s\<lparr>ptab := ps', rq := rq'\<rparr>"
    have "wakeup_proc cls km s p = kret ?t"
      using st False neq e(1) by (simp add: wakeup_proc_def Let_def)
    moreover have "set Q' = waiting A ?t"
      using e(3) Q(2) neq p core_state [OF e(4)] by (auto simp: waiting_def)
    then have "sched_inv sane A ?t" using inv1 [of ?t Q'] e(2,4) by simp
    moreover have "core (ps' q) = core (ptab s q)" if "q \<noteq> p" for q using e(4) [of q] that by simp
    moreover have "state (ps' p) = PROC_RUNNABLE" "wait_state (ps' p) = 0"
      using e(4) [of p] by (simp_all add: core_def)
    ultimately show ?thesis by auto
  qed
qed

lemma schedule_ok:
  assumes inv: "sched_inv sane A s" and km: "km_ok km"
  shows "\<exists>s'. schedule cls km s = kret s' \<and> sched_inv sane A s' \<and>
    (if \<exists>p \<in> A. p \<noteq> idleproc s \<and> state (ptab s p) = PROC_RUNNABLE
     then current s' \<noteq> idleproc s \<and> state (ptab s (current s')) = PROC_RUNNABLE
     else current s' = idleproc s) \<and>
    idleproc s' = idleproc s \<and> (\<forall>q. state (ptab s' q) = state (ptab s q))"
proof -
  have sane': "sane (r\<lparr>need_resched := False\<rparr>) = sane r" "sane (r\<lparr>runs := n\<rparr>) = sane r" for r n
    by (rule sane_prior; simp)+
  obtain Q where Q: "rq_ok (rq s) Q" "set Q = waiting A s" using inv by (auto simp: sched_inv_def)
  let ?c = "current s" and ?i = "idleproc s"
  let ?s1 = "upd_proc ?c (\<lambda>p. p\<lparr>need_resched := False\<rparr>) s"
  let ?R = "{p \<in> A. state (ptab s p) = PROC_RUNNABLE \<and> p \<noteq> ?i}"
  have cA: "?c \<in> A" "?c \<notin> set Q" using inv Q(2) by (auto simp: sched_inv_def waiting_def)
  have "\<exists>ps2 rq2 Q2. (if state (ptab ?s1 ?c) = PROC_RUNNABLE then sched_class_enqueue cls km ?s1 ?c
      else kret ?s1) = kret (?s1\<lparr>ptab := ps2, rq := rq2\<rparr>) \<and> rq_ok rq2 Q2 \<and> set Q2 = ?R \<and>
      (\<forall>q. core (ps2 q) = core (ptab ?s1 q))"
  proof (cases "state (ptab s ?c) = PROC_RUNNABLE \<and> ?c \<noteq> ?i")
    case True
    have room: "length Q + 1 < 2 ^ 32"
      using waiting_room [OF inv Q(1) _ cA] Q(2) by (auto simp: waiting_def)
    from enqueue_ok [of ?s1 Q ?c km] Q cA room km True obtain ps2 rq2 Q2 where
      "sched_class_enqueue cls km ?s1 ?c = kret (?s1\<lparr>ptab := ps2, rq := rq2\<rparr>)"
      "rq_ok rq2 Q2" "set Q2 = insert ?c (set Q)" "\<forall>q. core (ps2 q) = core (ptab ?s1 q)" by auto
    moreover have "insert ?c (set Q) = ?R" using True Q(2) cA by (auto simp: waiting_def)
    moreover have "state (ptab ?s1 ?c) = PROC_RUNNABLE" using True by simp
    ultimately show ?thesis by metis
  next
    case False
    have "set Q = ?R" using False Q(2) by (auto simp: waiting_def)
    moreover have "(if state (ptab ?s1 ?c) = PROC_RUNNABLE then sched_class_enqueue cls km ?s1 ?c
      else kret ?s1) = kret (?s1\<lparr>ptab := ptab ?s1, rq := rq s\<rparr>)"
      using False by (auto simp: sched_class_enqueue_def upd_proc_def)
    ultimately show ?thesis using Q(1) by blast
  qed
  then obtain ps2 rq2 Q2 where 2: "(if state (ptab ?s1 ?c) = PROC_RUNNABLE
      then sched_class_enqueue cls km ?s1 ?c else kret ?s1) = kret (?s1\<lparr>ptab := ps2, rq := rq2\<rparr>)"
    "rq_ok rq2 Q2" "set Q2 = ?R" "\<And>q. core (ps2 q) = core (ptab ?s1 q)" by blast
  have sn: "sane (ps2 q)" if "q \<in> A" for q
    using that inv sane' sane_core [OF 2(4)] by (auto simp: sched_inv_def)
  obtain ps3 where 3: "c_pick_next cls ps2 rq2 = kret (ps3, hd_opt Q2)"
    "\<And>q. core (ps3 q) = core (ps2 q)"
    using pick_law [OF 2(2), of ps2] sn 2(3) by blast
  have st3: "state (ps3 q) = state (ptab s q)" "pid (ps3 q) = pid (ptab s q)" for q
    using core_state [OF 3(2) [of q]] core_state [OF 2(4) [of q]] by auto
  let ?next = "case hd_opt Q2 of None \<Rightarrow> ?i | Some p \<Rightarrow> p"
  have R: "?next = (if ?R = {} then ?i else hd Q2)" "?R \<noteq> {} \<Longrightarrow> hd Q2 \<in> ?R"
    using 2(3) by (cases Q2; auto)+
  have "\<exists>rq4. (case hd_opt Q2 of None \<Rightarrow> kret (?s1\<lparr>rq := rq2, ptab := ps3\<rparr>)
      | Some p \<Rightarrow> sched_class_dequeue cls (?s1\<lparr>rq := rq2, ptab := ps3\<rparr>) p) =
      kret (?s1\<lparr>ptab := ps3, rq := rq4\<rparr>) \<and> rq_ok rq4 (tl Q2)"
  proof (cases Q2)
    case Nil
    then show ?thesis using 2(2) by (intro exI [of _ rq2]) simp
  next
    case (Cons p Q3)
    have "pid (ps3 q) \<noteq> pid (ps3 p)" if "q \<in> set Q3" for q
    proof -
      have "q \<noteq> p" using that 2(2) Cons by (auto simp: rq_ok_def rq_holds_def)
      moreover have "q \<in> A" "p \<in> A" using that 2(3) Cons by auto
      ultimately show ?thesis using inv st3(2) by (auto simp: sched_inv_def inj_on_def)
    qed
    then have "\<exists>rq'. c_dequeue cls ps3 rq2 p = kret rq' \<and> rq_ok rq' Q3"
      using dequeue_law [of rq2 p Q3 ps3] 2(2) Cons by blast
    then show ?thesis using Cons by (auto simp: sched_class_dequeue_def)
  qed
  then obtain rq4 where 4: "(case hd_opt Q2 of None \<Rightarrow> kret (?s1\<lparr>rq := rq2, ptab := ps3\<rparr>)
      | Some p \<Rightarrow> sched_class_dequeue cls (?s1\<lparr>rq := rq2, ptab := ps3\<rparr>) p) =
      kret (?s1\<lparr>ptab := ps3, rq := rq4\<rparr>)" "rq_ok rq4 (tl Q2)" by blast
  define s5 where "s5 = upd_proc ?next (\<lambda>p. p\<lparr>runs := runs p + 1\<rparr>) (?s1\<lparr>ptab := ps3, rq := rq4\<rparr>)"
  define s6 where "s6 = (if ?next \<noteq> ?c then proc_run s5 ?next else s5)"
  have s6: "current s6 = ?next" "idleproc s6 = ?i" "rq s6 = rq4" "ptab s6 = ptab s5"
    by (auto simp: s6_def s5_def)
  have p6: "state (ptab s6 q) = state (ptab s q)" "pid (ptab s6 q) = pid (ptab s q)" for q
    using st3 [of q] unfolding s6(4) by (auto simp: s5_def)
  have run: "schedule cls km s = kret s6"
  proof -
    have c1: "current ?s1 = ?c" by simp
    show ?thesis
      unfolding schedule_def Let_def c1 2(1) sched_class_pick_next_def
      by (simp add: 3(1) 4(1)) (cases "hd_opt Q2", simp_all add: s6_def s5_def)
  qed
  have "sched_inv sane A s6"
  proof (rule sched_invI [OF inv])
    show "current s6 \<in> A" using R inv s6 by (auto simp: sched_inv_def)
    have "distinct Q2" using 2(2) by (auto simp: rq_ok_def rq_holds_def)
    then have "set (tl Q2) = ?R - {?next}"
      unfolding 2(3) [symmetric] by (cases Q2) simp_all
    then show "set (tl Q2) = waiting A s6" using s6 p6 by (auto simp: waiting_def)
    show "sane (ptab s6 q)" if "q \<in> A" for q
      using sn [OF that] sane_core [OF 3(2) [of q]] sane'(2) unfolding s6(4) by (auto simp: s5_def)
  qed (use s6 p6 4(2) in auto)
  then show ?thesis using run s6 p6 R by (auto split: if_splits)
qed

lemma enqueue_km: "p = idleproc s \<or> km s = km' s \<Longrightarrow> sched_class_enqueue cls km s p = sched_class_enqueue cls km' s p"
  by (auto simp: sched_class_enqueue_def)

lemma enqueue_starved: "p \<noteq> idleproc s \<Longrightarrow> km s = None \<Longrightarrow> sched_class_enqueue cls km s p = null_deref"
  using enqueue_null by (simp add: sched_class_enqueue_def null_deref_def)

lemma wakeup_starved:
  assumes "state (ptab s p) \<noteq> PROC_ZOMBIE" and "km_fresh km"
  shows "wakeup_proc cls km s p = (if wake_starved km s p then null_deref else wakeup_proc cls (km_total km) s p)"
proof -
  let ?s = "upd_proc p (\<lambda>x. x\<lparr>state := PROC_RUNNABLE, wait_state := 0\<rparr>) s"
  show ?thesis
    using assms enqueue_starved [of p ?s km] enqueue_km [of p ?s km "km_total km"]
    by (cases "km ?s") (auto simp: wakeup_proc_def wake_starved_def Let_def)
qed

lemma schedule_starved:
  assumes "km_fresh km"
  shows "schedule cls km s = (if sched_starved km s then null_deref else schedule cls (km_total km) s)"
proof -
  let ?s = "upd_proc (current s) (\<lambda>x. x\<lparr>need_resched := False\<rparr>) s"
  show ?thesis
    using enqueue_starved [of "current s" ?s km] enqueue_km [of "current s" ?s km "km_total km"]
    by (cases "km ?s") (auto simp: schedule_def sched_starved_def Let_def null_deref_def)
qed

text \<open>What a call of \<^verbatim>\<open>wakeup_proc\<close> that returns has done, in any state.\<close>

lemma wakeup_core:
  assumes "wakeup_proc cls km s p = kret s'"
  shows "state (ptab s' p) = PROC_RUNNABLE" "q \<noteq> p \<Longrightarrow> core (ptab s' q) = core (ptab s q)"
proof -
  have e: "core (ptab t' q) = core (ptab t q)" if "sched_class_enqueue cls km t p = kret t'" for t t' q
    using that by (auto simp: sched_class_enqueue_def kbind_eq_kret split: if_splits dest: enqueue_core)
  show "state (ptab s' p) = PROC_RUNNABLE" "q \<noteq> p \<Longrightarrow> core (ptab s' q) = core (ptab s q)"
    using assms e [of "upd_proc p (\<lambda>x. x\<lparr>state := PROC_RUNNABLE, wait_state := 0\<rparr>) s" s' p]
      e [of "upd_proc p (\<lambda>x. x\<lparr>state := PROC_RUNNABLE, wait_state := 0\<rparr>) s" s' q]
    by (auto simp: wakeup_proc_def kassert_eq_kret Let_def core_def split: if_splits)
qed

end

section \<open>The timer list as a list of due times\<close>

text \<open>The list stores differences; \<open>dues\<close> reads off the number of ticks after which each timer
  expires.\<close>

fun dues :: "(nat \<Rightarrow> timer) \<Rightarrow> nat \<Rightarrow> nat list \<Rightarrow> (nat \<times> nat) list" where
  "dues tm acc [] = []"
| "dues tm acc (t # ts) =
     (let d = acc + unat (expires (tm t)) in (t, d) # dues tm d ts)"

definition timers_ok :: "sched \<Rightarrow> nat list \<Rightarrow> bool" where
  "timers_ok s ts \<longleftrightarrow>
     dlist (timer_links s) Head (map Link ts) \<and> (\<forall>t \<in> set ts. tproc (timers s t) \<noteq> None) \<and>
     (\<forall>x \<in> set (dues (timers s) 0 ts). snd x < 2 ^ 32)"

definition timer_inv :: "sched \<Rightarrow> nat list \<Rightarrow> bool" where
  "timer_inv s ts \<longleftrightarrow> timers_ok s ts \<and> (\<forall>x \<in> set (dues (timers s) 0 ts). 0 < snd x)"

lemma dues_cong: "(\<And>t. t \<in> set ts \<Longrightarrow> expires (tm' t) = expires (tm t)) \<Longrightarrow> dues tm' acc ts = dues tm acc ts"
  by (induction ts arbitrary: acc) (auto simp: Let_def)

lemma dues_ge: "x \<in> set (dues tm acc ts) \<Longrightarrow> acc \<le> snd x"
  by (induction ts arbitrary: acc) (auto simp: Let_def dest: add_leD1)

lemma dues_append: "dues tm acc (as @ bs) =
    dues tm acc as @ dues tm (acc + sum_list (map (\<lambda>t. unat (expires (tm t))) as)) bs"
  by (induction as arbitrary: acc) (auto simp: Let_def add.assoc)

lemma dues_fst: "map fst (dues tm acc ts) = ts"
  by (induction ts arbitrary: acc) (auto simp: Let_def)

lemma upd_expires_simps [simp]:
  "timers (upd_expires t f s) = (timers s)(t := (timers s t)\<lparr>expires := f (expires (timers s t))\<rparr>)"
  "timer_links (upd_expires t f s) = timer_links s" "ptab (upd_expires t f s) = ptab s"
  "current (upd_expires t f s) = current s" "idleproc (upd_expires t f s) = idleproc s"
  "rq (upd_expires t f s) = rq s"
  by (simp_all add: upd_expires_def)

text \<open>Where a new timer goes: after all timers that are due no later.\<close>

definition insert_due :: "nat \<Rightarrow> nat \<Rightarrow> (nat \<times> nat) list \<Rightarrow> (nat \<times> nat) list" where
  "insert_due t d xs = filter (\<lambda>x. snd x \<le> d) xs @ (t, d) # filter (\<lambda>x. d < snd x) xs"

lemma add_timer_loop_ok:
  assumes "dlist (timer_links s) Head (map Link (ds @ rs))" and "t \<notin> set rs" and "distinct rs"
  shows "\<exists>as bs tm'. rs = as @ bs \<and>
    add_timer_loop s t (first_entry rs) = kret (s\<lparr>timers := tm'\<rparr>, first_entry bs) \<and>
    dues tm' acc (as @ t # bs) =
      insert_due t (acc + unat (expires (timers s t))) (dues (timers s) acc rs) \<and>
    (\<forall>q. tproc (tm' q) = tproc (timers s q)) \<and> (\<forall>q. q \<notin> set (t # rs) \<longrightarrow> tm' q = timers s q)"
  using assms
proof (induction rs arbitrary: s ds acc)
  case Nil
  have "s = s\<lparr>timers := timers s\<rparr>" by simp
  then show ?case
    by (intro exI [of _ "[]"] exI [of _ "timers s"])
      (simp add: add_timer_loop.simps [of s t Head] insert_due_def)
next
  case (Cons r rs)
  let ?e = "expires (timers s t)" and ?x = "expires (timers s r)"
  have rt: "r \<noteq> t" "r \<notin> set rs" using Cons.prems by auto
  show ?case
  proof (cases "?e < ?x")
    case True
    let ?s = "upd_expires r (\<lambda>e. e - ?e) s"
    have u: "unat ?e < unat ?x" "unat (?x - ?e) = unat ?x - unat ?e"
      using True by (auto simp: word_less_nat_alt unat_diff_le)
    have later: "acc + unat ?e < snd x" if "x \<in> set (dues (timers s) acc (r # rs))" for x
      using that u(1) dues_ge [of x "timers s" "acc + unat ?x" rs] by (auto simp: Let_def)
    have f1: "filter (\<lambda>x. acc + unat ?e < snd x) (dues (timers s) acc (r # rs)) = dues (timers s) acc (r # rs)"
      using later by (intro filter_True) blast
    have f2: "filter (\<lambda>x. snd x \<le> acc + unat ?e) (dues (timers s) acc (r # rs)) = []"
      using later by (intro filter_False) (fastforce simp: not_le)
    have "dues (timers ?s) d rs = dues (timers s) d rs" for d
      using rt by (intro dues_cong) auto
    then have d: "dues (timers ?s) acc ([] @ t # r # rs) =
        insert_due t (acc + unat ?e) (dues (timers s) acc (r # rs))"
      unfolding insert_due_def f1 f2 using rt u by (simp add: Let_def)
    have l: "add_timer_loop s t (first_entry (r # rs)) = kret (s\<lparr>timers := timers ?s\<rparr>, first_entry (r # rs))"
      using True by (simp add: add_timer_loop.simps [of s t "Link r"] upd_expires_def)
    have "\<forall>q. tproc (timers ?s q) = tproc (timers s q)"
      "\<forall>q. q \<notin> set (t # r # rs) \<longrightarrow> timers ?s q = timers s q" by simp_all
    with d l show ?thesis by blast
  next
    case False
    let ?s = "upd_expires t (\<lambda>e. e - ?x) s"
    have u: "unat ?x \<le> unat ?e" "unat (?e - ?x) = unat ?e - unat ?x"
      using False by (auto simp: word_less_nat_alt not_less unat_diff_le)
    have nx: "list_next (timer_links ?s) (Link r) = first_entry rs"
      using link_next [of "timer_links s" ds r rs] Cons.prems(1) by (simp add: list_next_def)
    have pre: "dlist (timer_links ?s) Head (map Link ((ds @ [r]) @ rs))" "t \<notin> set rs" "distinct rs"
      using Cons.prems by simp_all
    obtain as bs tm' where IH: "rs = as @ bs"
      "add_timer_loop ?s t (first_entry rs) = kret (?s\<lparr>timers := tm'\<rparr>, first_entry bs)"
      "dues tm' (acc + unat ?x) (as @ t # bs) = insert_due t
        (acc + unat ?x + unat (expires (timers ?s t))) (dues (timers ?s) (acc + unat ?x) rs)"
      "\<forall>q. tproc (tm' q) = tproc (timers ?s q)" "\<forall>q. q \<notin> set (t # rs) \<longrightarrow> tm' q = timers ?s q"
      using Cons.IH [OF pre, of "acc + unat ?x"] by blast
    have run: "add_timer_loop s t (first_entry (r # rs)) = kret (s\<lparr>timers := tm'\<rparr>, first_entry bs)"
      using False IH(2) nx by (simp add: add_timer_loop.simps [of s t "Link r"] Let_def upd_expires_def)
    have same: "tm' r = timers s r" using IH(5) rt by auto
    have "dues (timers ?s) d rs = dues (timers s) d rs" for d
      using Cons.prems(2) by (intro dues_cong) auto
    then have d: "dues tm' acc ((r # as) @ t # bs) = insert_due t (acc + unat ?e) (dues (timers s) acc (r # rs))"
      using IH(3) u same by (simp add: insert_due_def Let_def)
    show ?thesis
      by (rule exI [of _ "r # as"], rule exI [of _ bs], rule exI [of _ tm'])
        (use d run IH(1,4,5) in auto)
  qed
qed

lemma insert_due_set: "set (insert_due t d xs) = insert (t, d) (set xs)"
  by (auto simp: insert_due_def)

lemma add_timer_ok:
  assumes inv: "timer_inv s ts" and t: "t \<notin> set ts" and e: "0 < expires (timers s t)"
    and p: "tproc (timers s t) \<noteq> None" and emp: "list_empty (timer_links s) (Link t)"
  shows "\<exists>s' as bs. add_timer s t = kret s' \<and> ts = as @ bs \<and> timer_inv s' (as @ t # bs) \<and>
    dues (timers s') 0 (as @ t # bs) =
      insert_due t (unat (expires (timers s t))) (dues (timers s) 0 ts) \<and>
    ptab s' = ptab s \<and> current s' = current s \<and> idleproc s' = idleproc s \<and> rq s' = rq s"
proof -
  have dl: "dlist (timer_links s) Head (map Link ts)" using inv by (simp add: timer_inv_def timers_ok_def)
  have dist: "distinct ts" using dl by (auto simp: dlist_def distinct_map)
  obtain as bs tm' where l: "ts = as @ bs"
    "add_timer_loop s t (first_entry ts) = kret (s\<lparr>timers := tm'\<rparr>, first_entry bs)"
    "dues tm' 0 (as @ t # bs) = insert_due t (unat (expires (timers s t))) (dues (timers s) 0 ts)"
    "\<forall>q. tproc (tm' q) = tproc (timers s q)"
    using add_timer_loop_ok [of s "[]" ts t 0] dl t dist by auto
  let ?s = "s\<lparr>timers := tm', timer_links := list_add_before (timer_links s) (first_entry bs) (Link t)\<rparr>"
  have run: "add_timer s t = kret ?s"
    using e p emp l(2) head_next [OF dl] by (simp add: add_timer_def list_next_def)
  have "dlist (timer_links ?s) Head (map Link (as @ t # bs))"
  proof (cases bs)
    case Nil
    then show ?thesis using dlist_add_before_head [OF dl, of "Link t"] t l(1) by auto
  next
    case (Cons b bs')
    then show ?thesis
      using dlist_add_before [of "timer_links s" Head "map Link as" "Link b" "map Link bs'" "Link t"] dl t l(1)
      by auto
  qed
  moreover have "unat (expires (timers s t)) < 2 ^ 32" "0 < unat (expires (timers s t))"
    using e by (simp_all add: unat_gt_0)
  ultimately have "timer_inv ?s (as @ t # bs)"
    using inv l p by (auto simp: timer_inv_def timers_ok_def insert_due_set)
  then show ?thesis using run l(1,3) by auto
qed

lemma dues_remove: "t \<notin> set as \<Longrightarrow> filter (\<lambda>x. fst x \<noteq> t) (dues tm acc as) = dues tm acc as"
  by (induction as arbitrary: acc) (auto simp: Let_def)

lemma dues_merge:
  assumes "\<forall>x \<in> set (dues tm acc (t # b # bs)). snd x < 2 ^ 32" and "distinct (t # b # bs)"
  shows "dues (tm(b := (tm b)\<lparr>expires := expires (tm b) + expires (tm t)\<rparr>)) acc (b # bs) =
    dues tm (acc + unat (expires (tm t))) (b # bs)"
proof -
  have "unat (expires (tm b)) + unat (expires (tm t)) < 2 ^ 32" using assms by (simp add: Let_def)
  then have "unat (expires (tm b) + expires (tm t)) = unat (expires (tm b)) + unat (expires (tm t))"
    by (subst unat_add_lem [symmetric]) simp
  then show ?thesis using assms(2) by (auto simp: Let_def ac_simps intro!: dues_cong)
qed

lemma del_timer_ok:
  assumes ok: "timers_ok s (as @ t # bs)"
  shows "timers_ok (del_timer s t) (as @ bs)"
    and "dues (timers (del_timer s t)) 0 (as @ bs) =
      filter (\<lambda>x. fst x \<noteq> t) (dues (timers s) 0 (as @ t # bs))"
    and "ptab (del_timer s t) = ptab s" and "current (del_timer s t) = current s"
    and "idleproc (del_timer s t) = idleproc s" and "rq (del_timer s t) = rq s"
    and "\<forall>q. tproc (timers (del_timer s t) q) = tproc (timers s q)"
proof -
  let ?e = "expires (timers s t)"
  have dl: "dlist (timer_links s) Head (map Link (as @ t # bs))" using ok by (simp add: timers_ok_def)
  then have dist: "distinct (as @ t # bs)" by (auto simp: dlist_def distinct_map)
  have nx: "lnext (timer_links s) (Link t) = first_entry bs" using link_next [OF dl] .
  moreover have "first_entry bs \<noteq> Link t" using dist by (cases bs) auto
  ultimately have ne: "\<not> list_empty (timer_links s) (Link t)" by (simp add: list_empty_def)
  define tm where "tm = (case bs of [] \<Rightarrow> timers s
    | b # _ \<Rightarrow> (timers s)(b := (timers s b)\<lparr>expires := expires (timers s b) + ?e\<rparr>))"
  have "(timers s)(b := (timers s b)\<lparr>expires := expires (timers s b) + 0\<rparr>) = timers s" for b
    by (auto simp: fun_eq_iff)
  then have del: "del_timer s t = s\<lparr>timers := tm, timer_links := list_del_init (timer_links s) (Link t)\<rparr>"
    using ne nx by (cases bs) (auto simp: del_timer_def list_next_def tm_def upd_expires_def Let_def)
  have split: "dues (timers s) 0 (as @ t # bs) = dues (timers s) 0 as @ dues (timers s) acc (t # bs)"
    if "acc = sum_list (map (\<lambda>t. unat (expires (timers s t))) as)" for acc
    using dues_append [of "timers s" 0 as "t # bs"] that by simp
  have tm_as: "expires (tm q) = expires (timers s q)" if "q \<in> set as" for q
    using that dist by (cases bs) (auto simp: tm_def)
  have tail: "dues tm acc bs = dues (timers s) (acc + unat ?e) bs"
    if "\<forall>x \<in> set (dues (timers s) acc (t # bs)). snd x < 2 ^ 32" for acc
    using dues_merge [of "timers s" acc t _ _] that dist by (cases bs) (auto simp: tm_def)
  let ?acc = "sum_list (map (\<lambda>t. unat (expires (timers s t))) as)"
  have bnd: "\<forall>x \<in> set (dues (timers s) ?acc (t # bs)). snd x < 2 ^ 32"
    using ok unfolding timers_ok_def split [OF refl] by auto
  have "sum_list (map (\<lambda>t. unat (expires (tm t))) as) = ?acc"
    using tm_as by (intro arg_cong [of _ _ sum_list] map_cong) auto
  then have D: "dues tm 0 (as @ bs) = dues (timers s) 0 as @ dues (timers s) (?acc + unat ?e) bs"
    using dues_append [of tm 0 as bs] tail [OF bnd] dues_cong [of as tm "timers s" 0] tm_as by simp
  have F: "dues tm 0 (as @ bs) = filter (\<lambda>x. fst x \<noteq> t) (dues (timers s) 0 (as @ t # bs))"
    unfolding D split [OF refl] using dist by (simp add: dues_remove Let_def)
  then show "dues (timers (del_timer s t)) 0 (as @ bs) =
      filter (\<lambda>x. fst x \<noteq> t) (dues (timers s) 0 (as @ t # bs))" by (simp add: del)
  have tp: "tproc (tm q) = tproc (timers s q)" for q by (cases bs) (auto simp: tm_def)
  then show "\<forall>q. tproc (timers (del_timer s t) q) = tproc (timers s q)" by (simp add: del)
  have "dlist (list_del_init (timer_links s) (Link t)) Head (map Link (as @ bs))"
    using dlist_del_init [of "timer_links s" Head "map Link as" "Link t" "map Link bs"] dl by simp
  then show "timers_ok (del_timer s t) (as @ bs)"
    using ok F tp unfolding timers_ok_def del by auto
qed (auto simp: del_timer_def Let_def split: lnode.splits)

section \<open>A tick of the timer list\<close>

definition timers_ready :: "nat set \<Rightarrow> sched \<Rightarrow> nat list \<Rightarrow> bool" where
  "timers_ready A s ts \<longleftrightarrow> (\<forall>t \<in> set ts. \<exists>p \<in> A. tproc (timers s t) = Some p \<and>
     state (ptab s p) \<noteq> PROC_ZOMBIE \<and>
     (wait_state (ptab s p) = 0 \<or> wait_state (ptab s p) AND WT_INTERRUPTED \<noteq> 0))"

definition expired :: "sched \<Rightarrow> nat \<Rightarrow> nat list \<Rightarrow> nat set" where
  "expired s d ts = {p. \<exists>t. (t, d) \<in> set (dues (timers s) 0 ts) \<and> tproc (timers s t) = Some p}"

context sched_ops
begin

lemma run_timer_step:
  assumes ok: "timers_ok s (t # rs)" and inv: "sched_inv sane A s" and km: "km_ok km"
    and rdy: "timers_ready A s (t # rs)" and e: "expires (timers s t) = 0"
  shows "\<exists>s1 p. run_timer_loop cls km s t =
      (case first_entry rs of Head \<Rightarrow> kret s1 | Link r \<Rightarrow> run_timer_loop cls km s1 r) \<and>
    timers_ok s1 rs \<and> dues (timers s1) 0 rs = dues (timers s) 0 rs \<and>
    (\<forall>q. tproc (timers s1 q) = tproc (timers s q)) \<and> sched_inv sane A s1 \<and> timers_ready A s1 rs \<and>
    current s1 = current s \<and> idleproc s1 = idleproc s \<and> tproc (timers s t) = Some p \<and>
    state (ptab s1 p) = PROC_RUNNABLE \<and> (\<forall>q. q \<noteq> p \<longrightarrow> core (ptab s1 q) = core (ptab s q))"
proof -
  obtain p where p: "p \<in> A" "tproc (timers s t) = Some p" "state (ptab s p) \<noteq> PROC_ZOMBIE"
    "wait_state (ptab s p) = 0 \<or> wait_state (ptab s p) AND WT_INTERRUPTED \<noteq> 0"
    using rdy by (auto simp: timers_ready_def)
  obtain s0 where w: "wakeup_proc cls km s p = kret s0" "sched_inv sane A s0"
    "state (ptab s0 p) = PROC_RUNNABLE" "current s0 = current s" "idleproc s0 = idleproc s"
    "timers s0 = timers s" "timer_links s0 = timer_links s"
    "\<And>q. q \<noteq> p \<Longrightarrow> core (ptab s0 q) = core (ptab s q)"
    "wait_state (ptab s0 p) \<in> {0, wait_state (ptab s p)}"
    using wakeup_ok [OF inv km p(1,3)] by blast
  define s1 where "s1 = del_timer s0 t"
  have "timers_ok s0 ([] @ t # rs)" using ok w(6,7) by (simp add: timers_ok_def)
  note d = del_timer_ok [OF this, folded s1_def]
  have dist: "t \<notin> set rs" and nx: "lnext (timer_links s) (Link t) = first_entry rs"
    using ok link_next [of "timer_links s" "[]" t rs] by (auto simp: timers_ok_def dlist_def distinct_map)
  have run: "run_timer_loop cls km s t =
      (case first_entry rs of Head \<Rightarrow> kret s1 | Link r \<Rightarrow> run_timer_loop cls km s1 r)"
    unfolding s1_def run_timer_loop.simps [of cls km s t] using e p w(1) nx
    by (cases "wait_state (ptab s p) = 0") (simp_all add: list_next_def Let_def)
  have D: "dues (timers s1) 0 rs = dues (timers s) 0 rs"
    using d(2) e w(6) dist by (simp add: dues_remove)
  have I: "sched_inv sane A s1" using w(2) d(3-6) by (simp add: sched_inv_def waiting_def)
  have R: "timers_ready A s1 rs"
    unfolding timers_ready_def
  proof
    fix q assume "q \<in> set rs"
    then obtain p' where p': "p' \<in> A" "tproc (timers s q) = Some p'" "state (ptab s p') \<noteq> PROC_ZOMBIE"
      "wait_state (ptab s p') = 0 \<or> wait_state (ptab s p') AND WT_INTERRUPTED \<noteq> 0"
      using rdy by (auto simp: timers_ready_def)
    have "state (ptab s1 p') \<noteq> PROC_ZOMBIE \<and>
      (wait_state (ptab s1 p') = 0 \<or> wait_state (ptab s1 p') AND WT_INTERRUPTED \<noteq> 0)"
      using p' p w(3,9) w(8) [of p'] d(3) by (cases "p' = p") (auto simp: core_def)
    then show "\<exists>p \<in> A. tproc (timers s1 q) = Some p \<and> state (ptab s1 p) \<noteq> PROC_ZOMBIE \<and>
        (wait_state (ptab s1 p) = 0 \<or> wait_state (ptab s1 p) AND WT_INTERRUPTED \<noteq> 0)"
      using p'(1,2) d(7) w(6) by auto
  qed
  show ?thesis
    by (rule exI [of _ s1], rule exI [of _ p]) (use run D I R d w p in auto)
qed

lemma expired_Cons:
  assumes "expires (timers s t) = 0" and "tproc (timers s t) = Some p"
    and "dues (timers s1) 0 rs = dues (timers s) 0 rs" and "\<forall>q. tproc (timers s1 q) = tproc (timers s q)"
  shows "expired s 0 (t # rs) = insert p (expired s1 0 rs)"
  using assms by (auto simp: expired_def)

lemma run_timer_loop_ok:
  assumes "timers_ok s (t # rs)" and "sched_inv sane A s" and "km_ok km" and "timers_ready A s (t # rs)"
  shows "\<exists>s' ts. run_timer_loop cls km s t = kret s' \<and> timers_ok s' ts \<and>
    dues (timers s') 0 ts = filter (\<lambda>x. 0 < snd x) (dues (timers s) 0 (t # rs)) \<and>
    sched_inv sane A s' \<and> current s' = current s \<and> idleproc s' = idleproc s \<and>
    (\<forall>p \<in> expired s 0 (t # rs). state (ptab s' p) = PROC_RUNNABLE) \<and>
    (\<forall>p. p \<notin> expired s 0 (t # rs) \<longrightarrow> core (ptab s' p) = core (ptab s p))"
  using assms
proof (induction rs arbitrary: s t)
  case Nil
  show ?case
  proof (cases "expires (timers s t) = 0")
    case True
    obtain s1 p where 1: "run_timer_loop cls km s t = kret s1" "timers_ok s1 []"
      "\<forall>q. tproc (timers s1 q) = tproc (timers s q)"
      "sched_inv sane A s1" "current s1 = current s" "idleproc s1 = idleproc s"
      "tproc (timers s t) = Some p" "state (ptab s1 p) = PROC_RUNNABLE"
      "\<forall>q. q \<noteq> p \<longrightarrow> core (ptab s1 q) = core (ptab s q)"
      using run_timer_step [OF Nil True] by auto
    show ?thesis using 1 True by (auto simp: expired_def)
  next
    case False
    then show ?thesis using Nil by (intro exI [of _ s] exI [of _ "[t]"])
      (auto simp: run_timer_loop.simps [of cls km s t] expired_def unat_gt_0 unat_eq_0 Let_def)
  qed
next
  case (Cons r rs)
  show ?case
  proof (cases "expires (timers s t) = 0")
    case True
    obtain s1 p where 1: "run_timer_loop cls km s t = run_timer_loop cls km s1 r" "timers_ok s1 (r # rs)"
      "dues (timers s1) 0 (r # rs) = dues (timers s) 0 (r # rs)"
      "\<forall>q. tproc (timers s1 q) = tproc (timers s q)" "sched_inv sane A s1" "timers_ready A s1 (r # rs)"
      "current s1 = current s" "idleproc s1 = idleproc s"
      "tproc (timers s t) = Some p" "state (ptab s1 p) = PROC_RUNNABLE"
      "\<forall>q. q \<noteq> p \<longrightarrow> core (ptab s1 q) = core (ptab s q)"
      using run_timer_step [OF Cons.prems True] by auto
    obtain s' ts where 2: "run_timer_loop cls km s1 r = kret s'" "timers_ok s' ts"
      "dues (timers s') 0 ts = filter (\<lambda>x. 0 < snd x) (dues (timers s1) 0 (r # rs))"
      "sched_inv sane A s'" "current s' = current s1" "idleproc s' = idleproc s1"
      "\<forall>p \<in> expired s1 0 (r # rs). state (ptab s' p) = PROC_RUNNABLE"
      "\<forall>p. p \<notin> expired s1 0 (r # rs) \<longrightarrow> core (ptab s' p) = core (ptab s1 p)"
      using Cons.IH [OF 1(2,5) Cons.prems(3) 1(6)] by blast
    note E = expired_Cons [OF True 1(9,3,4)]
    have "state (ptab s' p) = PROC_RUNNABLE"
      using 2(7,8) 1(10) core_state by (cases "p \<in> expired s1 0 (r # rs)") metis+
    moreover have "dues (timers s') 0 ts = filter (\<lambda>x. 0 < snd x) (dues (timers s) 0 (t # r # rs))"
      using 2(3) 1(3) True by (simp del: dues.simps(2) add: dues.simps(2) [of _ _ t] Let_def)
    ultimately show ?thesis
      unfolding E using 1 2 by (intro exI [of _ s'] exI [of _ ts]) auto
  next
    case False
    then have pos: "0 < snd x" if "x \<in> set (dues (timers s) 0 (t # r # rs))" for x
    proof -
      have "0 < unat (expires (timers s t))" using False by (simp add: unat_gt_0)
      moreover have "unat (expires (timers s t)) \<le> snd x"
        using that dues_ge [of x "timers s" "unat (expires (timers s t))" "r # rs"] by (auto simp: Let_def)
      ultimately show ?thesis by simp
    qed
    then have "filter (\<lambda>x. 0 < snd x) (dues (timers s) 0 (t # r # rs)) = dues (timers s) 0 (t # r # rs)"
      "expired s 0 (t # r # rs) = {}"
      by (auto simp only: filter_id_conv expired_def) fastforce
    moreover have "run_timer_loop cls km s t = kret s"
      using False by (simp add: run_timer_loop.simps [of cls km s t])
    ultimately show ?thesis using Cons.prems by (intro exI [of _ s] exI [of _ "t # r # rs"]) simp
  qed
qed

end

context sched_ops
begin

lemma proc_tick_ok:
  assumes inv: "sched_inv sane A s"
  shows "\<exists>s'. sched_class_proc_tick cls s (current s) = kret s' \<and> sched_inv sane A s' \<and>
    current s' = current s \<and> idleproc s' = idleproc s \<and> timers s' = timers s \<and>
    timer_links s' = timer_links s \<and> (\<forall>q. state (ptab s' q) = state (ptab s q)) \<and>
    (\<forall>q. q \<noteq> current s \<longrightarrow> ptab s' q = ptab s q)"
proof -
  let ?c = "current s"
  have c: "?c \<in> A" "sane (ptab s ?c)" using inv by (auto simp: sched_inv_def)
  have "\<exists>r. sched_class_proc_tick cls s ?c = kret (upd_proc ?c (\<lambda>_. r) s) \<and>
      state r = state (ptab s ?c) \<and> pid r = pid (ptab s ?c) \<and> sane r"
  proof (cases "?c = idleproc s")
    case True
    have "sane ((ptab s ?c)\<lparr>need_resched := True\<rparr>)" using c(2) by (subst sane_prior [of _ "ptab s ?c"]) simp_all
    then show ?thesis using True
      by (intro exI [of _ "(ptab s ?c)\<lparr>need_resched := True\<rparr>"])
        (simp add: sched_class_proc_tick_def upd_proc_def)
  next
    case False
    obtain r where r: "c_proc_tick cls (ptab s ?c) = kret r" "state r = state (ptab s ?c)"
      "pid r = pid (ptab s ?c)" "cfs_prior r = cfs_prior (ptab s ?c)"
      "stride_prior r = stride_prior (ptab s ?c)" using tick_law [OF c(2)] by blast
    then have "sane r" using sane_prior [OF r(4,5)] c(2) by simp
    then show ?thesis using False r by (auto simp: sched_class_proc_tick_def)
  qed
  then obtain r where r: "sched_class_proc_tick cls s ?c = kret (upd_proc ?c (\<lambda>_. r) s)"
    "state r = state (ptab s ?c)" "pid r = pid (ptab s ?c)" "sane r" by blast
  obtain Q where Q: "rq_ok (rq s) Q" "set Q = waiting A s" using inv by (auto simp: sched_inv_def)
  have "sched_inv sane A (upd_proc ?c (\<lambda>_. r) s)"
  proof (rule sched_invI [OF inv, of _ Q])
    show "set Q = waiting A (upd_proc ?c (\<lambda>_. r) s)" using Q(2) by (auto simp: waiting_def)
    show "sane (ptab (upd_proc ?c (\<lambda>_. r) s) q)" if "q \<in> A" for q
      using that r(4) inv by (simp add: sched_inv_def)
  qed (use c(1) Q(1) r(3) in simp_all)
  then show ?thesis using r(1,2) by simp
qed

lemma run_timer_list_ok:
  assumes ti: "timer_inv s ts" and inv: "sched_inv sane A s" and km: "km_ok km"
    and rdy: "timers_ready A s ts"
  shows "\<exists>s' ts'. run_timer_list cls km s = kret s' \<and> timer_inv s' ts' \<and>
    dues (timers s') 0 ts' =
      map (\<lambda>(t, d). (t, d - 1)) (filter (\<lambda>(t, d). 1 < d) (dues (timers s) 0 ts)) \<and>
    sched_inv sane A s' \<and> current s' = current s \<and>
    (\<forall>p \<in> expired s 1 ts. state (ptab s' p) = PROC_RUNNABLE) \<and>
    (\<forall>p. p \<notin> expired s 1 ts \<longrightarrow> state (ptab s' p) = state (ptab s p))"
proof (cases ts)
  case Nil
  have "list_next (timer_links s) Head = Head"
    using ti Nil head_next [of "timer_links s" "[]"] by (simp add: timer_inv_def timers_ok_def list_next_def)
  then have "run_timer_list cls km s = sched_class_proc_tick cls s (current s)"
    by (simp add: run_timer_list_def)
  then obtain s' where s': "run_timer_list cls km s = kret s'" "sched_inv sane A s'"
    "current s' = current s" "timers s' = timers s" "timer_links s' = timer_links s"
    "\<forall>q. state (ptab s' q) = state (ptab s q)" using proc_tick_ok [OF inv] by auto
  moreover have "timer_inv s' []" using ti Nil s' by (simp add: timer_inv_def timers_ok_def)
  ultimately show ?thesis using Nil
    by (intro exI [of _ s'] exI [of _ "[]"]) (simp add: expired_def)
next
  case (Cons t rs)
  let ?s = "upd_expires t (\<lambda>e. e - 1) s"
  have ok: "timers_ok s (t # rs)" and pos: "\<forall>x \<in> set (dues (timers s) 0 (t # rs)). 0 < snd x"
    using ti Cons by (auto simp: timer_inv_def)
  have e: "expires (timers s t) \<noteq> 0" "t \<notin> set rs"
    using pos ok by (auto simp: timers_ok_def dlist_def distinct_map Let_def)
  have u: "unat (expires (timers s t) - 1) = unat (expires (timers s t)) - 1"
    using e(1) by (intro unat_minus_one) simp
  have shift: "dues (timers ?s) acc rs = map (\<lambda>(t, d). (t, d - 1)) (dues (timers s) (acc + 1) rs)" for acc
  proof -
    have "map (\<lambda>(t, d). (t, d - 1)) (dues tm (acc + 1) xs) = dues tm acc xs" for tm xs
      by (induction xs arbitrary: acc) (auto simp: Let_def)
    moreover have "dues (timers ?s) acc rs = dues (timers s) acc rs" using e(2) by (intro dues_cong) auto
    ultimately show ?thesis by simp
  qed
  have D: "dues (timers ?s) 0 (t # rs) = map (\<lambda>(t, d). (t, d - 1)) (dues (timers s) 0 (t # rs))"
    using shift [of "unat (expires (timers s t) - 1)"] u e(1) unat_gt_0 [of "expires (timers s t)"]
    by (simp add: Let_def)
  have ok': "timers_ok ?s (t # rs)" using ok unfolding timers_ok_def D by fastforce
  have rdy': "timers_ready A ?s (t # rs)" using rdy Cons by (auto simp: timers_ready_def)
  have inv': "sched_inv sane A ?s" using inv by (simp add: sched_inv_def waiting_def)
  obtain s1 ts' where 1: "run_timer_loop cls km ?s t = kret s1" "timers_ok s1 ts'"
    "dues (timers s1) 0 ts' = filter (\<lambda>x. 0 < snd x) (dues (timers ?s) 0 (t # rs))"
    "sched_inv sane A s1" "current s1 = current ?s" "idleproc s1 = idleproc ?s"
    "\<forall>p \<in> expired ?s 0 (t # rs). state (ptab s1 p) = PROC_RUNNABLE"
    "\<forall>p. p \<notin> expired ?s 0 (t # rs) \<longrightarrow> core (ptab s1 p) = core (ptab ?s p)"
    using run_timer_loop_ok [OF ok' inv' km rdy'] by blast
  obtain s2 where 2: "sched_class_proc_tick cls s1 (current s1) = kret s2" "sched_inv sane A s2"
    "current s2 = current s1" "timers s2 = timers s1" "timer_links s2 = timer_links s1"
    "\<forall>q. state (ptab s2 q) = state (ptab s1 q)"
    using proc_tick_ok [OF 1(4)] by blast
  have "list_next (timer_links s) Head = Link t"
    using ok head_next [of "timer_links s" "t # rs"] by (simp add: timers_ok_def list_next_def)
  then have run: "run_timer_list cls km s = kret s2" using e 1(1) 2(1) by (simp add: run_timer_list_def)
  have E: "expired ?s 0 (t # rs) = expired s 1 ts"
  proof -
    have "(q, 0) \<in> set (map (\<lambda>(t, d). (t, d - 1)) xs) \<longleftrightarrow> (q, 1) \<in> set xs"
      if "\<forall>x \<in> set xs. 0 < snd x" for xs :: "(nat \<times> nat) list" and q
      using that by (induction xs) (auto split: prod.splits)
    then have "(q, 0) \<in> set (dues (timers ?s) 0 (t # rs)) \<longleftrightarrow> (q, 1) \<in> set (dues (timers s) 0 (t # rs))" for q
      unfolding D using pos by blast
    moreover have "tproc (timers ?s q) = tproc (timers s q)" for q by simp
    ultimately show ?thesis unfolding expired_def Cons by presburger
  qed
  have F: "dues (timers s2) 0 ts' =
      map (\<lambda>(t, d). (t, d - 1)) (filter (\<lambda>(t, d). 1 < d) (dues (timers s) 0 ts))"
    unfolding 2(4) 1(3) D Cons filter_map by (intro arg_cong [of _ _ "map _"] filter_cong) auto
  have "timer_inv s2 ts'"
    using 1(2,3) 2(4,5) by (auto simp: timer_inv_def timers_ok_def)
  moreover have "\<forall>p \<in> expired s 1 ts. state (ptab s2 p) = PROC_RUNNABLE"
    using 1(7) 2(6) unfolding E by simp
  moreover have "\<forall>p. p \<notin> expired s 1 ts \<longrightarrow> state (ptab s2 p) = state (ptab s p)"
    using 1(8) 2(6) unfolding E by (simp add: core_def)
  moreover have "current s2 = current s" using 1(5) 2(3) by simp
  ultimately show ?thesis using run F 2(2) by blast
qed

end

section \<open>Contracts of the scheduler\<close>

text \<open>The two scheduling classes of the kernel, each with the priorities it can work with.\<close>

definition sched_classes :: "(sched_class \<times> (proc_struct \<Rightarrow> bool)) list" where
  "sched_classes = [(default_sched_class, stride_sane), (cfs_sched_class, cfs_sane)]"

text \<open>The idle process 0 and process 1, which is running, and process 2, which sleeps until its
  timer 9 expires; the run queue is empty.\<close>

definition small_sched :: sched where
  "small_sched =
     \<lparr>ptab = (\<lambda>p. blank_proc\<lparr>pid := int p, state := if p = 2 then PROC_SLEEPING else PROC_RUNNABLE,
                             wait_state := if p = 2 then WT_TIMER else 0\<rparr>),
      current = 1, idleproc = 0, rq = empty_queue,
      timers = (\<lambda>_. \<lparr>expires = 1, tproc = Some 2\<rparr>),
      timer_links = \<lparr>lnext = (\<lambda>x. x)(Head := Link 9, Link 9 := Head),
                     lprev = (\<lambda>x. x)(Head := Link 9, Link 9 := Head)\<rparr>\<rparr>"

lemma small_sched_inv:
  "sched_inv stride_sane {0, 1, 2} small_sched" "timer_inv small_sched [9]"
  "timers_ready {0, 1, 2} small_sched [9]"
proof -
  have "rq_ok (rq small_sched) []" by (simp add: small_sched_def empty_queue_def pq_init_ok)
  moreover have "waiting {0, 1, 2} small_sched = {}" by (auto simp: waiting_def small_sched_def)
  moreover have "inj_on (\<lambda>p. pid (ptab small_sched p)) {0, 1, 2}"
    by (simp add: small_sched_def)
  moreover have "\<forall>p \<in> {0, 1, 2}. stride_sane (ptab small_sched p)"
    by (simp add: small_sched_def stride_sane_def blank_proc_def init_proc_def)
  ultimately show "sched_inv stride_sane {0, 1, 2} small_sched"
    unfolding sched_inv_def by (intro conjI exI [of _ "[]"]) (simp_all add: small_sched_def)
  show "timer_inv small_sched [9]"
    by (simp add: timer_inv_def timers_ok_def small_sched_def dlist_def)
  show "timers_ready {0, 1, 2} small_sched [9]"
    by (auto simp: timers_ready_def small_sched_def)
qed

text \<open>C6. \<^verbatim>\<open>schedule\<close> keeps the run queue in step with the process states: with
  either scheduling class it leaves the queue holding exactly the runnable processes other than
  the running one, it runs a runnable process whenever there is one besides the idle process, it
  runs the idle process only otherwise, and it changes no process state.  It fails in one case only: the
  current process is to be queued and \<^verbatim>\<open>kmalloc\<close> answers NULL for its queue node, which is then dereferenced.\<close>

theorem schedule_correct:
  assumes cls: "(cls, sane) \<in> set sched_classes" and inv: "sched_inv sane A s" and km: "km_fresh km"
  shows "if sched_starved km s then schedule cls km s = null_deref
    else \<exists>s'. schedule cls km s = kret s' \<and> sched_inv sane A s' \<and>
      (if \<exists>p \<in> A. p \<noteq> idleproc s \<and> state (ptab s p) = PROC_RUNNABLE
       then current s' \<noteq> idleproc s \<and> state (ptab s (current s')) = PROC_RUNNABLE
       else current s' = idleproc s) \<and>
      idleproc s' = idleproc s \<and> (\<forall>q. state (ptab s' q) = state (ptab s q))"
proof -
  note t = km_ok_total [OF km]
  consider "cls = default_sched_class" "sane = stride_sane" | "cls = cfs_sched_class" "sane = cfs_sane"
    using cls by (auto simp: sched_classes_def)
  then show ?thesis
  proof cases
    case 1
    then show ?thesis using stride_class.schedule_ok [OF _ t] stride_class.schedule_starved [OF km, of s] inv by simp
  next
    case 2
    then show ?thesis using cfs_class.schedule_ok [OF _ t] cfs_class.schedule_starved [OF km, of s] inv by simp
  qed
qed

theorem schedule_correct_witness:
  "(\<exists>s'. schedule default_sched_class fresh_node small_sched = kret s' \<and>
      sched_inv stride_sane {0, 1, 2} s' \<and> current s' \<noteq> 0) \<and>
    schedule default_sched_class (\<lambda>_. None) small_sched = null_deref"
proof -
  have c: "(default_sched_class, stride_sane) \<in> set sched_classes" by (simp add: sched_classes_def)
  have r: "\<exists>p \<in> {0, 1, 2}. p \<noteq> idleproc small_sched \<and> state (ptab small_sched p) = PROC_RUNNABLE"
    and i: "idleproc small_sched = 0" by (auto simp: small_sched_def)
  have n: "\<not> sched_starved fresh_node small_sched" by (simp add: sched_starved_def fresh_node_def)
  have y: "sched_starved (\<lambda>_. None) small_sched" "km_fresh (\<lambda>_. None)"
    by (simp_all add: sched_starved_def small_sched_def km_fresh_def)
  show ?thesis
    using schedule_correct [OF c small_sched_inv(1) km_fresh_fresh_node, unfolded if_not_P [OF n] if_P [OF r]]
      schedule_correct [OF c small_sched_inv(1) y(2)] y(1) unfolding i by auto
qed

text \<open>C26. \<^verbatim>\<open>wakeup_proc\<close> of an existing process that is not a zombie makes it runnable and puts
  it into the run queue, and leaves all other processes and the timers alone; it fails only when it needs a
  queue node and \<^verbatim>\<open>kmalloc\<close> answers NULL.\<close>

theorem wakeup_proc_correct:
  assumes cls: "(cls, sane) \<in> set sched_classes" and inv: "sched_inv sane A s" and km: "km_fresh km"
    and p: "p \<in> A" and st: "state (ptab s p) \<noteq> PROC_ZOMBIE"
  shows "if wake_starved km s p then wakeup_proc cls km s p = null_deref
    else \<exists>s'. wakeup_proc cls km s p = kret s' \<and> sched_inv sane A s' \<and>
      state (ptab s' p) = PROC_RUNNABLE \<and> current s' = current s \<and>
      timers s' = timers s \<and> timer_links s' = timer_links s \<and>
      (\<forall>q. q \<noteq> p \<longrightarrow> state (ptab s' q) = state (ptab s q))"
proof -
  note t = km_ok_total [OF km]
  consider "cls = default_sched_class" "sane = stride_sane" | "cls = cfs_sched_class" "sane = cfs_sane"
    using cls by (auto simp: sched_classes_def)
  then show ?thesis
  proof cases
    case 1
    then show ?thesis
      using stride_class.wakeup_ok [OF _ t p st] stride_class.wakeup_starved [OF st km] inv
      unfolding core_def prod.inject by (cases "wake_starved km s p") (simp, metis)
  next
    case 2
    then show ?thesis
      using cfs_class.wakeup_ok [OF _ t p st] cfs_class.wakeup_starved [OF st km] inv
      unfolding core_def prod.inject by (cases "wake_starved km s p") (simp, metis)
  qed
qed

theorem wakeup_proc_correct_witness:
  "\<exists>s'. wakeup_proc default_sched_class fresh_node small_sched 2 = kret s' \<and>
    sched_inv stride_sane {0, 1, 2} s' \<and> state (ptab s' 2) = PROC_RUNNABLE"
proof -
  have "(default_sched_class, stride_sane) \<in> set sched_classes" "(2 :: nat) \<in> {0, 1, 2}"
    "state (ptab small_sched 2) \<noteq> PROC_ZOMBIE" by (simp_all add: sched_classes_def small_sched_def)
  moreover have n: "\<not> wake_starved fresh_node small_sched 2" by (simp add: wake_starved_def fresh_node_def)
  ultimately show ?thesis
    using wakeup_proc_correct [OF _ small_sched_inv(1) km_fresh_fresh_node, of default_sched_class 2] unfolding if_not_P [OF n] by blast
qed

text \<open>C22. The timer list stores differences of expiry times.  Read as absolute due times,
  \<^verbatim>\<open>add_timer\<close> inserts the new timer behind all timers that are due no later, in a list whose
  due times stay below \<open>2 ^ 32\<close>, and it changes no other due time.\<close>

theorem add_timer_refines:
  assumes "timer_inv s ts" and "t \<notin> set ts" and "0 < expires (timers s t)"
    and "tproc (timers s t) \<noteq> None" and "list_empty (timer_links s) (Link t)"
  shows "\<exists>s' as bs. add_timer s t = kret s' \<and> ts = as @ bs \<and> timer_inv s' (as @ t # bs) \<and>
    dues (timers s') 0 (as @ t # bs) =
      insert_due t (unat (expires (timers s t))) (dues (timers s) 0 ts)"
  using add_timer_ok [OF assms] by blast

theorem add_timer_refines_witness:
  "\<exists>s' as bs. add_timer small_sched 4 = kret s' \<and> [9] = as @ bs \<and> timer_inv s' (as @ 4 # bs) \<and>
    dues (timers s') 0 (as @ 4 # bs) = [(9, 1), (4, 1)]"
  using add_timer_refines [OF small_sched_inv(2), of 4]
  by (simp add: small_sched_def list_empty_def insert_due_def Let_def)

text \<open>C21. A clock tick takes one from every due time, wakes exactly the processes whose timers
  become due, and removes those timers; it never fails when every timer belongs to an existing
  process that is not a zombie and whose wait, if it waits, may be interrupted, and \<^verbatim>\<open>kmalloc\<close> has
  memory for the queue nodes of the woken processes.\<close>

theorem run_timer_list_refines:
  assumes cls: "(cls, sane) \<in> set sched_classes" and ti: "timer_inv s ts"
    and inv: "sched_inv sane A s" and km: "km_ok km" and rdy: "timers_ready A s ts"
  shows "\<exists>s' ts'. run_timer_list cls km s = kret s' \<and> timer_inv s' ts' \<and>
    dues (timers s') 0 ts' =
      map (\<lambda>(t, d). (t, d - 1)) (filter (\<lambda>(t, d). 1 < d) (dues (timers s) 0 ts)) \<and>
    sched_inv sane A s' \<and> current s' = current s \<and>
    (\<forall>p \<in> expired s 1 ts. state (ptab s' p) = PROC_RUNNABLE) \<and>
    (\<forall>p. p \<notin> expired s 1 ts \<longrightarrow> state (ptab s' p) = state (ptab s p))"
proof -
  consider "cls = default_sched_class" "sane = stride_sane" | "cls = cfs_sched_class" "sane = cfs_sane"
    using cls by (auto simp: sched_classes_def)
  then show ?thesis
  proof cases
    case 1
    then show ?thesis using stride_class.run_timer_list_ok [OF ti _ km rdy] inv by simp
  next
    case 2
    then show ?thesis using cfs_class.run_timer_list_ok [OF ti _ km rdy] inv by simp
  qed
qed

theorem run_timer_list_refines_witness:
  "\<exists>s' ts'. run_timer_list default_sched_class fresh_node small_sched = kret s' \<and>
    dues (timers s') 0 ts' = [] \<and> sched_inv stride_sane {0, 1, 2} s' \<and>
    state (ptab s' 2) = PROC_RUNNABLE"
proof -
  have c: "(default_sched_class, stride_sane) \<in> set sched_classes" by (simp add: sched_classes_def)
  have d: "dues (timers small_sched) 0 [9] = [(9, 1)]" and e: "2 \<in> expired small_sched 1 [9]"
    by (simp_all add: small_sched_def expired_def)
  obtain s' ts' where "run_timer_list default_sched_class fresh_node small_sched = kret s'"
    "dues (timers s') 0 ts' =
      map (\<lambda>(t, d). (t, d - 1)) (filter (\<lambda>(t, d). 1 < d) (dues (timers small_sched) 0 [9]))"
    "sched_inv stride_sane {0, 1, 2} s'"
    "\<forall>p \<in> expired small_sched 1 [9]. state (ptab s' p) = PROC_RUNNABLE"
    using run_timer_list_refines [OF c small_sched_inv(2,1) km_ok_fresh_node small_sched_inv(3)]
    by blast
  then show ?thesis using e unfolding d by auto
qed

end
