(* ===== verification/Strings.thy ===== *)
theory Strings
  imports Prelude
begin

text \<open>
  \<^verbatim>\<open>libs/string.c\<close>, the assembly versions of \<^verbatim>\<open>libs/x86.h\<close> that it calls, \<^verbatim>\<open>libs/hash.c\<close>
  and \<^verbatim>\<open>libs/rand.c\<close>.  Memory is a function from addresses to bytes, as the current address space
  shows it; the x86 string instructions are functions on it.  \<open>moved\<close> and \<open>cstr\<close> are the
  specifications: a moved block, and a zero-terminated string.  Scans for a zero byte can run
  forever, so they are partial; the lemmas show that they return whenever there is a string.
\<close>

unbundle bit_operations_syntax

section \<open>Memory and the string instructions\<close>

type_synonym mem8 = "u32 \<Rightarrow> u8"

fun rep_stosb :: "nat \<Rightarrow> mem8 \<Rightarrow> u32 \<Rightarrow> u8 \<Rightarrow> mem8" where
  "rep_stosb 0 m edi al = m"
| "rep_stosb (Suc n) m edi al = rep_stosb n (m(edi := al)) (edi + 1) al"

fun rep_movsb :: "nat \<Rightarrow> mem8 \<Rightarrow> u32 \<Rightarrow> u32 \<Rightarrow> mem8 \<times> u32 \<times> u32" where
  "rep_movsb 0 m edi esi = (m, edi, esi)"
| "rep_movsb (Suc n) m edi esi = rep_movsb n (m(edi := m esi)) (edi + 1) (esi + 1)"

text \<open>With the direction flag set.\<close>

fun rep_movsb_std :: "nat \<Rightarrow> mem8 \<Rightarrow> u32 \<Rightarrow> u32 \<Rightarrow> mem8" where
  "rep_movsb_std 0 m edi esi = m"
| "rep_movsb_std (Suc n) m edi esi = rep_movsb_std n (m(edi := m esi)) (edi - 1) (esi - 1)"

definition movsl :: "mem8 \<Rightarrow> u32 \<Rightarrow> u32 \<Rightarrow> mem8" where
  "movsl m edi esi =
     m(edi := m esi, edi + 1 := m (esi + 1), edi + 2 := m (esi + 2), edi + 3 := m (esi + 3))"

fun rep_movsl :: "nat \<Rightarrow> mem8 \<Rightarrow> u32 \<Rightarrow> u32 \<Rightarrow> mem8 \<times> u32 \<times> u32" where
  "rep_movsl 0 m edi esi = (m, edi, esi)"
| "rep_movsl (Suc n) m edi esi = rep_movsl n (movsl m edi esi) (edi + 4) (esi + 4)"

section \<open>Operations (\<^verbatim>\<open>libs/x86.h\<close>)\<close>

definition memset_asm :: "mem8 \<Rightarrow> u32 \<Rightarrow> u8 \<Rightarrow> u32 \<Rightarrow> mem8" where
  "memset_asm m s c n = rep_stosb (unat n) m s c"

definition memcpy_asm :: "mem8 \<Rightarrow> u32 \<Rightarrow> u32 \<Rightarrow> u32 \<Rightarrow> mem8" where
  "memcpy_asm m dst src n =
     (let (m, edi, esi) = rep_movsl (unat (n div 4)) m dst src in
      fst (rep_movsb (unat (n AND 3)) m edi esi))"

definition memmove_asm :: "mem8 \<Rightarrow> u32 \<Rightarrow> u32 \<Rightarrow> u32 \<Rightarrow> mem8" where
  "memmove_asm m dst src n =
     (if dst < src then memcpy_asm m dst src n
      else rep_movsb_std (unat n) m (n - 1 + dst) (n - 1 + src))"

partial_function (option) strcpy_asm :: "mem8 \<Rightarrow> u32 \<Rightarrow> u32 \<Rightarrow> mem8 prog" where
  "strcpy_asm m edi esi =
     (let al = m esi; m = m(edi := al) in
      if al \<noteq> 0 then strcpy_asm m (edi + 1) (esi + 1) else kret m)"

text \<open>\<^verbatim>\<open>scasb\<close> compares \<open>al\<close> with the byte at \<open>edi\<close>; \<^verbatim>\<open>sbbl\<close> turns the borrow into 0 or -1
  and \<^verbatim>\<open>orb\<close> sets the lowest bit.\<close>

partial_function (option) strcmp_asm :: "mem8 \<Rightarrow> u32 \<Rightarrow> u32 \<Rightarrow> int prog" where
  "strcmp_asm m esi edi =
     (let al = m esi in
      if al \<noteq> m edi then kret (sint ((if al < m edi then -1 else 0) OR 1 :: u32))
      else if al \<noteq> 0 then strcmp_asm m (esi + 1) (edi + 1) else kret 0)"

section \<open>Operations (\<^verbatim>\<open>libs/string.c\<close>)\<close>

partial_function (option) strlen_loop :: "mem8 \<Rightarrow> u32 \<Rightarrow> u32 \<Rightarrow> u32 prog" where
  "strlen_loop m s cnt = (if m s \<noteq> 0 then strlen_loop m (s + 1) (cnt + 1) else kret cnt)"

definition strlen :: "mem8 \<Rightarrow> u32 \<Rightarrow> u32 prog" where
  "strlen m s = strlen_loop m s 0"

text \<open>The loops bounded by a length recurse on what is left of it.\<close>

fun strnlen_loop :: "mem8 \<Rightarrow> u32 \<Rightarrow> nat \<Rightarrow> u32 \<Rightarrow> u32" where
  "strnlen_loop m s 0 cnt = cnt"
| "strnlen_loop m s (Suc n) cnt = (if m s \<noteq> 0 then strnlen_loop m (s + 1) n (cnt + 1) else cnt)"

definition strnlen :: "mem8 \<Rightarrow> u32 \<Rightarrow> u32 \<Rightarrow> u32" where
  "strnlen m s len = strnlen_loop m s (unat len) 0"

definition strcpy :: "mem8 \<Rightarrow> u32 \<Rightarrow> u32 \<Rightarrow> (u32 \<times> mem8) prog" where
  "strcpy m dst src = kbind (strcpy_asm m dst src) (\<lambda>m. kret (dst, m))"

definition strcat :: "mem8 \<Rightarrow> u32 \<Rightarrow> u32 \<Rightarrow> (u32 \<times> mem8) prog" where
  "strcat m dst src = kbind (strlen m dst) (\<lambda>n. strcpy m (dst + n) src)"

fun strncpy_loop :: "nat \<Rightarrow> mem8 \<Rightarrow> u32 \<Rightarrow> u32 \<Rightarrow> mem8" where
  "strncpy_loop 0 m p src = m"
| "strncpy_loop (Suc n) m p src =
     (let m' = m(p := m src) in
      strncpy_loop n m' (p + 1) (if m src \<noteq> 0 then src + 1 else src))"

definition strncpy :: "mem8 \<Rightarrow> u32 \<Rightarrow> u32 \<Rightarrow> u32 \<Rightarrow> mem8" where
  "strncpy m dst src len = strncpy_loop (unat len) m dst src"

fun strncmp_loop :: "nat \<Rightarrow> mem8 \<Rightarrow> u32 \<Rightarrow> u32 \<Rightarrow> int" where
  "strncmp_loop 0 m s1 s2 = 0"
| "strncmp_loop (Suc n) m s1 s2 =
     (if m s1 \<noteq> 0 \<and> m s1 = m s2 then strncmp_loop n m (s1 + 1) (s2 + 1)
      else int (unat (m s1)) - int (unat (m s2)))"

definition strncmp :: "mem8 \<Rightarrow> u32 \<Rightarrow> u32 \<Rightarrow> u32 \<Rightarrow> int" where
  "strncmp m s1 s2 n = strncmp_loop (unat n) m s1 s2"

partial_function (option) strfind :: "mem8 \<Rightarrow> u32 \<Rightarrow> u8 \<Rightarrow> u32 prog" where
  "strfind m s c =
     (if m s \<noteq> 0 then if m s = c then kret s else strfind m (s + 1) c else kret s)"

partial_function (option) strchr :: "mem8 \<Rightarrow> u32 \<Rightarrow> u8 \<Rightarrow> u32 option prog" where
  "strchr m s c =
     (if m s \<noteq> 0 then if m s = c then kret (Some s) else strchr m (s + 1) c else kret None)"

fun memcmp_loop :: "nat \<Rightarrow> mem8 \<Rightarrow> u32 \<Rightarrow> u32 \<Rightarrow> int" where
  "memcmp_loop 0 m s1 s2 = 0"
| "memcmp_loop (Suc n) m s1 s2 =
     (if m s1 \<noteq> m s2 then int (unat (m s1)) - int (unat (m s2))
      else memcmp_loop n m (s1 + 1) (s2 + 1))"

definition memcmp :: "mem8 \<Rightarrow> u32 \<Rightarrow> u32 \<Rightarrow> u32 \<Rightarrow> int" where
  "memcmp m v1 v2 n = memcmp_loop (unat n) m v1 v2"

definition memcpy :: "mem8 \<Rightarrow> u32 \<Rightarrow> u32 \<Rightarrow> u32 \<Rightarrow> mem8" where
  "memcpy m dst src n = memcpy_asm m dst src n"

definition memmove :: "mem8 \<Rightarrow> u32 \<Rightarrow> u32 \<Rightarrow> u32 \<Rightarrow> mem8" where
  "memmove m dst src n = memmove_asm m dst src n"

definition memset :: "mem8 \<Rightarrow> u32 \<Rightarrow> u8 \<Rightarrow> u32 \<Rightarrow> mem8" where
  "memset m s c n = memset_asm m s c n"

definition strcmp :: "mem8 \<Rightarrow> u32 \<Rightarrow> u32 \<Rightarrow> int prog" where
  "strcmp m s1 s2 = strcmp_asm m s1 s2"

section \<open>Numbers (\<^verbatim>\<open>strtol\<close>)\<close>

partial_function (option) skip_blanks :: "mem8 \<Rightarrow> u32 \<Rightarrow> u32 prog" where
  "skip_blanks m s = (if m s = 32 \<or> m s = 9 then skip_blanks m (s + 1) else kret s)"

definition digit :: "u8 \<Rightarrow> int option" where
  "digit c =
     (if 48 \<le> c \<and> c \<le> 57 then Some (int (unat c) - 48)
      else if 97 \<le> c \<and> c \<le> 122 then Some (int (unat c) - 97 + 10)
      else if 65 \<le> c \<and> c \<le> 90 then Some (int (unat c) - 65 + 10)
      else None)"

text \<open>\<^verbatim>\<open>long\<close> has 32 bits; the value wraps around.\<close>

partial_function (option) strtol_digits :: "mem8 \<Rightarrow> u32 \<Rightarrow> int \<Rightarrow> u32 \<Rightarrow> (u32 \<times> u32) prog" where
  "strtol_digits m s base val = (case digit (m s) of
     None \<Rightarrow> kret (s, val)
   | Some dig \<Rightarrow> if base \<le> dig then kret (s, val)
       else strtol_digits m (s + 1) base (val * of_int base + of_int dig))"

definition strtol :: "mem8 \<Rightarrow> u32 \<Rightarrow> int \<Rightarrow> (int \<times> u32) prog" where
  "strtol m s base =
     kbind (skip_blanks m s) (\<lambda>s.
     let (s, neg) = (if m s = 43 then (s + 1, False)
                     else if m s = 45 then (s + 1, True) else (s, False));
         (s, base) = (if (base = 0 \<or> base = 16) \<and> m s = 48 \<and> m (s + 1) = 120 then (s + 2, 16)
                      else if base = 0 \<and> m s = 48 then (s + 1, 8)
                      else if base = 0 then (s, 10) else (s, base)) in
     kbind (strtol_digits m s base 0) (\<lambda>(s, val).
       kret (sint (if neg then - val else val), s)))"

section \<open>Hashes and random numbers (\<^verbatim>\<open>libs/hash.c\<close>, \<^verbatim>\<open>libs/rand.c\<close>)\<close>

definition hash32 :: "u32 \<Rightarrow> nat \<Rightarrow> u32" where
  "hash32 val bits = drop_bit (32 - bits) (val * 0x9e370001)"

text \<open>\<open>next\<close> is the generator's state; the answer is \<^verbatim>\<open>do_div\<close>'s remainder.\<close>

definition rand :: "u64 \<Rightarrow> int \<times> u64" where
  "rand next =
     (let next = (next * 0x5DEECE66D + 0xB) AND (push_bit 48 1 - 1);
          result = drop_bit 12 next in
      (sint (ucast (result mod (0x7FFFFFFF + 1)) :: u32), next))"

definition srand :: "u32 \<Rightarrow> u64" where
  "srand seed = ucast seed"
section \<open>Moving bytes\<close>

lemma unat_nat [simp]: "n < 4294967296 \<Longrightarrow> unat (of_nat n :: u32) = n"
  by (simp add: unat_of_nat)

lemma unat_eq_nat: "unat (x :: u32) = n \<longleftrightarrow> x = of_nat n \<and> n < 4294967296"
proof
  assume "unat x = n"
  then show "x = of_nat n \<and> n < 4294967296" using unat_u32(2) [of x] by auto
next
  assume "x = of_nat n \<and> n < 4294967296"
  then show "unat x = n" by simp
qed

text \<open>\<open>moved m dst src k\<close>: the \<open>k\<close> bytes at \<open>src\<close> are at \<open>dst\<close>, all others as before.\<close>

definition moved :: "mem8 \<Rightarrow> u32 \<Rightarrow> u32 \<Rightarrow> nat \<Rightarrow> mem8" where
  "moved m dst src k = (\<lambda>a. if unat (a - dst) < k then m (src + (a - dst)) else m a)"

lemma moved_0 [simp]: "moved m dst src 0 = m"
  by (simp add: moved_def)

lemma moved_Suc:
  assumes "n < 4294967296"
  shows "moved m dst src (Suc n) = (moved m dst src n)(dst + of_nat n := m (src + of_nat n))"
proof
  fix a
  show "moved m dst src (Suc n) a = ((moved m dst src n)(dst + of_nat n := m (src + of_nat n))) a"
  proof (cases "a = dst + of_nat n")
    case True
    then show ?thesis using assms by (simp add: moved_def)
  next
    case False
    then have "a - dst \<noteq> of_nat n" by (simp add: algebra_simps)
    then have "unat (a - dst) \<noteq> n" by (simp only: unat_eq_nat) simp
    then have "unat (a - dst) < Suc n \<longleftrightarrow> unat (a - dst) < n" by linarith
    then show ?thesis using False by (simp only: moved_def fun_upd_other) simp
  qed
qed

lemma movsl_moved: "movsl m d s = moved m d s 4"
proof -
  have "moved m d s (Suc (Suc (Suc (Suc 0)))) = movsl m d s"
    by (simp only: moved_Suc moved_0 zero_less_numeral) (simp add: moved_Suc movsl_def)
  then show ?thesis by (simp add: numeral_eq_Suc)
qed

text \<open>A second move may follow when its source has not been overwritten by the first.\<close>

lemma moved_moved:
  assumes "a + b \<le> 4294967296" and "a < 4294967296"
    and "\<forall>i. a \<le> i \<and> i < a + b \<longrightarrow> a \<le> unat (src + of_nat i - dst)"
  shows "moved (moved m dst src a) (dst + of_nat a) (src + of_nat a) b = moved m dst src (a + b)"
proof
  fix x
  let ?i = "unat (x - dst)"
  show "moved (moved m dst src a) (dst + of_nat a) (src + of_nat a) b x = moved m dst src (a + b) x"
  proof (cases "a \<le> ?i")
    case True
    have "unat (x - dst - of_nat a) = ?i - a"
      using unat_diff_le [of "of_nat a" "x - dst"] True assms(2) by simp
    then have u: "unat (x - (dst + of_nat a)) = ?i - a" by (simp add: diff_diff_eq)
    have "a \<le> unat (src + (x - dst) - dst)" if "?i < a + b"
      using assms(3) [rule_format, of ?i] True that by simp
    then show ?thesis using True u by (auto simp: moved_def)
  next
    case False
    have "b \<le> unat (x - (dst + of_nat a))"
    proof -
      have "x - (dst + of_nat a) = of_nat (4294967296 + ?i - a)"
        using assms(2) by (simp add: of_nat_diff)
      then have "unat (x - (dst + of_nat a)) = 4294967296 + ?i - a"
        using False by (simp only:) (rule unat_nat, simp)
      then show ?thesis using assms(1) by simp
    qed
    then show ?thesis using False by (simp add: moved_def)
  qed
qed

text \<open>The forward instructions, when no byte of the source is overwritten before it is read.\<close>

definition ahead :: "u32 \<Rightarrow> u32 \<Rightarrow> nat \<Rightarrow> bool" where
  "ahead dst src n \<longleftrightarrow> (\<forall>i < n. i \<le> unat (src + of_nat i - dst))"

lemma ahead_moved:
  assumes "ahead dst src (a + b)" and "a + b < 4294967296"
  shows "moved (moved m dst src a) (dst + of_nat a) (src + of_nat a) b = moved m dst src (a + b)"
  using assms by (intro moved_moved) (auto simp: ahead_def intro: order_trans)

lemma rep_movsb_moved:
  assumes "ahead dst src (a + n)" and "a + n < 4294967296"
  shows "rep_movsb n (moved m dst src a) (dst + of_nat a) (src + of_nat a) =
    (moved m dst src (a + n), dst + of_nat (a + n), src + of_nat (a + n))"
  using assms
proof (induction n arbitrary: a)
  case (Suc n)
  have e: "moved (moved m dst src a) (dst + of_nat a) (src + of_nat a) (Suc 0) = moved m dst src (Suc a)"
    using Suc.prems by (subst ahead_moved) (auto simp: ahead_def)
  have "moved (moved m dst src a) (dst + of_nat a) (src + of_nat a) (Suc 0) =
      (moved m dst src a)(dst + of_nat a := moved m dst src a (src + of_nat a))"
    by (simp add: moved_Suc)
  then have "(moved m dst src a)(dst + of_nat a := moved m dst src a (src + of_nat a)) =
      moved m dst src (Suc a)" using e by simp
  moreover have "dst + of_nat a + 1 = dst + of_nat (Suc a)" "src + of_nat a + 1 = src + of_nat (Suc a)"
    by simp_all
  ultimately show ?case using Suc.IH [of "Suc a"] Suc.prems
    by (simp only: rep_movsb.simps add_Suc add_Suc_right)
qed simp

lemma rep_movsl_moved:
  assumes "ahead dst src (a + 4 * n)" and "a + 4 * n < 4294967296"
  shows "rep_movsl n (moved m dst src a) (dst + of_nat a) (src + of_nat a) =
    (moved m dst src (a + 4 * n), dst + of_nat (a + 4 * n), src + of_nat (a + 4 * n))"
  using assms
proof (induction n arbitrary: a)
  case (Suc n)
  have "movsl (moved m dst src a) (dst + of_nat a) (src + of_nat a) = moved m dst src (a + 4)"
    unfolding movsl_moved using Suc.prems by (intro ahead_moved) (auto simp: ahead_def)
  then show ?case using Suc.IH [of "a + 4"] Suc.prems
    by (simp add: add.assoc add.commute add.left_commute)
qed simp

lemma memcpy_moved:
  assumes "ahead dst src (unat n)"
  shows "memcpy_asm m dst src n = moved m dst src (unat n)"
proof -
  let ?q = "unat n div 4" and ?r = "unat n mod 4"
  have n: "4 * ?q + ?r = unat n" by simp
  have r: "unat (n AND 3) = ?r"
  proof -
    have "n AND 3 = n mod 4"
      using take_bit_eq_mask [of 2 n] by (simp add: mask_eq_exp_minus_1 take_bit_eq_mod)
    then show ?thesis by (simp add: unat_mod)
  qed
  have lt: "4 * ?q < 4294967296" using n unat_u32(2) [of n] by linarith
  have "ahead dst src (4 * ?q)" using assms by (auto simp: ahead_def)
  then have "rep_movsl ?q m dst src =
      (moved m dst src (4 * ?q), dst + of_nat (4 * ?q), src + of_nat (4 * ?q))"
    using rep_movsl_moved [of dst src 0 ?q m] lt by simp
  moreover have "rep_movsb ?r (moved m dst src (4 * ?q)) (dst + of_nat (4 * ?q)) (src + of_nat (4 * ?q)) =
      (moved m dst src (unat n), dst + of_nat (unat n), src + of_nat (unat n))"
    using rep_movsb_moved [of dst src "4 * ?q" ?r m] assms n by simp
  ultimately show ?thesis by (simp add: memcpy_asm_def unat_div r)
qed

lemma rep_movsb_std_moved:
  assumes "\<forall>i < n. \<forall>j < n. i < j \<longrightarrow> src + of_nat i \<noteq> dst + of_nat j" and "n < 4294967296"
  shows "rep_movsb_std n m (of_nat n - 1 + dst) (of_nat n - 1 + src) = moved m dst src n"
  using assms
proof (induction n arbitrary: m)
  case (Suc n)
  let ?m = "m(of_nat n + dst := m (of_nat n + src))"
  have "rep_movsb_std (Suc n) m (of_nat (Suc n) - 1 + dst) (of_nat (Suc n) - 1 + src) = moved ?m dst src n"
  proof -
    have "of_nat (Suc n) - 1 + x = of_nat n + x" "of_nat n + x - 1 = of_nat n - 1 + x" for x :: u32 by simp_all
    moreover have "rep_movsb_std n ?m (of_nat n - 1 + dst) (of_nat n - 1 + src) = moved ?m dst src n"
      by (rule Suc.IH) (use Suc.prems in auto)
    ultimately show ?thesis by (simp only: rep_movsb_std.simps)
  qed
  also have "\<dots> = moved m dst src (Suc n)"
  proof
    fix x
    have "src + (x - dst) \<noteq> of_nat n + dst" if "unat (x - dst) < n"
      using Suc.prems(1) [rule_format, of "unat (x - dst)" n] that by (simp add: add.commute)
    then show "moved ?m dst src n x = moved m dst src (Suc n) x"
      using Suc.prems(2) by (simp add: moved_Suc) (auto simp: moved_def add.commute)
  qed
  finally show ?case .
qed simp

text \<open>C39. The kernel's \<^verbatim>\<open>memmove\<close>, which copies forward by words when the target is below the source
  and backward by bytes otherwise, moves any block that does not wrap around the address space,
  whatever the overlap: afterwards each target byte holds what the corresponding source byte held
  before, and all other memory is unchanged.\<close>

theorem memmove_correct:
  assumes "unat src + unat n \<le> 2 ^ 32" and "unat dst + unat n \<le> 2 ^ 32"
  shows "memmove m dst src n a =
    (if dst \<le> a \<and> unat a < unat dst + unat n then m (src + (a - dst)) else m a)"
proof -
  have "memmove m dst src n = moved m dst src (unat n)"
  proof (cases "dst < src")
    case True
    have "ahead dst src (unat n)"
      unfolding ahead_def
    proof (intro allI impI)
      fix i
      assume i: "i < unat n"
      then have "unat (src + of_nat i) = unat src + i"
        using assms(1) unat_add_noov [of src "of_nat i"] unat_u32(2) [of n] by simp
      moreover from this have "unat (src + of_nat i - dst) = unat src + i - unat dst"
        using True unat_diff_le [of dst "src + of_nat i"] by (simp add: word_less_nat_alt)
      ultimately show "i \<le> unat (src + of_nat i - dst)" using True by (simp add: word_less_nat_alt)
    qed
    then show ?thesis using True memcpy_moved by (simp add: memmove_def memmove_asm_def)
  next
    case False
    have "src + of_nat i \<noteq> dst + of_nat j" if "i < unat n" "j < unat n" "i < j" for i j
    proof -
      have "unat (src + of_nat i) = unat src + i" "unat (dst + of_nat j) = unat dst + j"
        using assms that unat_add_noov [of src "of_nat i"] unat_add_noov [of dst "of_nat j"]
          unat_u32(2) [of n] by simp_all
      then show ?thesis using that False by (auto simp: word_less_nat_alt)
    qed
    then show ?thesis using False rep_movsb_std_moved [of "unat n" src dst m]
      by (simp add: memmove_def memmove_asm_def)
  qed
  moreover have "unat (a - dst) < unat n \<longleftrightarrow> dst \<le> a \<and> unat a < unat dst + unat n"
  proof (cases "dst \<le> a")
    case True
    then show ?thesis by (simp add: unat_diff_le word_le_nat_alt) linarith
  next
    case False
    then have "unat a < unat dst" by (simp add: word_le_nat_alt)
    moreover have "a - dst = of_nat (4294967296 + unat a - unat dst)"
      using less_imp_le [OF unat_u32(2) [of dst]] by (simp add: of_nat_diff)
    ultimately have "unat (a - dst) = 4294967296 + unat a - unat dst" by (simp only:) (rule unat_nat, simp)
    then show ?thesis using False assms(2) unat_u32(2) [of dst] by (auto simp: word_le_nat_alt)
  qed
  ultimately show ?thesis by (simp add: moved_def)
qed

theorem memmove_correct_witness:
  "memmove (\<lambda>a. ucast a) 0x1001 0x1000 5 0x1003 = 2 \<and> memmove (\<lambda>a. ucast a) 0x1001 0x1000 5 0x1006 = 6"
  using memmove_correct [of "0x1000" 5 "0x1001" "\<lambda>a. ucast a" "0x1003"]
    memmove_correct [of "0x1000" 5 "0x1001" "\<lambda>a. ucast a" "0x1006"] by simp
section \<open>Strings\<close>

text \<open>\<open>cstr m p xs\<close>: the bytes \<open>xs\<close>, none of them zero, and a zero are at \<open>p\<close>.\<close>

fun cstr :: "mem8 \<Rightarrow> u32 \<Rightarrow> u8 list \<Rightarrow> bool" where
  "cstr m p [] \<longleftrightarrow> m p = 0"
| "cstr m p (x # xs) \<longleftrightarrow> m p = x \<and> x \<noteq> 0 \<and> cstr m (p + 1) xs"

lemma cstr_unique: "cstr m p xs \<Longrightarrow> cstr m p ys \<Longrightarrow> xs = ys"
proof (induction xs arbitrary: p ys)
  case Nil
  then show ?case by (cases ys) auto
next
  case (Cons x xs)
  then show ?case by (cases ys) auto
qed

lemma strlen_loop_cstr: "cstr m p xs \<Longrightarrow> strlen_loop m p cnt = kret (cnt + of_nat (length xs))"
proof (induction xs arbitrary: p cnt)
  case Nil
  then show ?case by (subst strlen_loop.simps) simp
next
  case (Cons x xs)
  then show ?case by (subst strlen_loop.simps) (simp add: add.commute add.left_commute)
qed

lemma strlen_cstr: "cstr m p xs \<Longrightarrow> strlen m p = kret (of_nat (length xs))"
  by (simp add: strlen_def strlen_loop_cstr)

lemma strnlen_loop_cstr:
  "cstr m p xs \<Longrightarrow> strnlen_loop m p n cnt = cnt + of_nat (min (length xs) n)"
proof (induction xs arbitrary: p cnt n)
  case Nil
  then show ?case by (cases n) auto
next
  case (Cons x xs)
  then show ?case by (cases n) (auto simp: add.commute add.left_commute)
qed

lemma strnlen_cstr: "cstr m p xs \<Longrightarrow> strnlen m p len = of_nat (min (length xs) (unat len))"
  by (simp add: strnlen_def strnlen_loop_cstr)

text \<open>What \<^verbatim>\<open>strfind\<close> and \<^verbatim>\<open>strchr\<close> look for: the first occurrence of a byte.\<close>

lemma strfind_cstr:
  "cstr m p xs \<Longrightarrow> strfind m p c = kret (p + of_nat (length (takeWhile (\<lambda>x. x \<noteq> c) xs)))"
proof (induction xs arbitrary: p)
  case Nil
  then show ?case by (subst strfind.simps) simp
next
  case (Cons x xs)
  then show ?case by (subst strfind.simps) (auto simp: add.commute add.left_commute)
qed

lemma strchr_cstr:
  "cstr m p xs \<Longrightarrow> strchr m p c =
     kret (if c \<in> set xs then Some (p + of_nat (length (takeWhile (\<lambda>x. x \<noteq> c) xs))) else None)"
proof (induction xs arbitrary: p)
  case Nil
  then show ?case by (subst strchr.simps) simp
next
  case (Cons x xs)
  then show ?case by (subst strchr.simps) (auto simp: add.commute add.left_commute)
qed

text \<open>The order of the strings is the lexicographic order of the bytes with their final zero.\<close>

fun str_order :: "u8 list \<Rightarrow> u8 list \<Rightarrow> int" where
  "str_order [] [] = 0"
| "str_order [] (y # ys) = - 1"
| "str_order (x # xs) [] = 1"
| "str_order (x # xs) (y # ys) = (if x < y then - 1 else if y < x then 1 else str_order xs ys)"

lemma str_order_0: "str_order xs ys = 0 \<longleftrightarrow> xs = ys"
  by (induction xs ys rule: str_order.induct) auto

lemma strcmp_cstr: "cstr m p xs \<Longrightarrow> cstr m q ys \<Longrightarrow> strcmp_asm m p q = kret (str_order xs ys)"
proof (induction xs ys arbitrary: p q rule: str_order.induct)
  case 1
  then show ?case by (subst strcmp_asm.simps) simp
next
  case (2 y ys)
  then show ?case by (subst strcmp_asm.simps) (auto simp: word_neq_0_conv)
next
  case (3 x xs)
  then show ?case by (subst strcmp_asm.simps) auto
next
  case (4 x xs y ys)
  then show ?case by (subst strcmp_asm.simps) auto
qed

lemma strncmp_cstr:
  "cstr m p xs \<Longrightarrow> cstr m q ys \<Longrightarrow> strncmp_loop n m p q = 0 \<longleftrightarrow> take n xs = take n ys"
proof (induction xs ys arbitrary: p q n rule: str_order.induct)
  case 1
  then show ?case by (cases n) auto
next
  case (2 y ys)
  then show ?case by (cases n) (auto simp: word_uint_eq_iff)
next
  case (3 x xs)
  then show ?case by (cases n) (auto simp: word_uint_eq_iff)
next
  case (4 x xs y ys)
  then show ?case by (cases n; cases "x = y") (auto simp: word_uint_eq_iff)
qed

lemma unat_minus1: "unat (- 1 :: u32) = 4294967295"
  by (simp add: unsigned_minus_1_eq_mask mask_eq_exp_minus_1)

lemma cstr_cong:
  "(\<And>i. i \<le> length xs \<Longrightarrow> m' (p + of_nat i) = m (p + of_nat i)) \<Longrightarrow> cstr m' p xs = cstr m p xs"
proof (induction xs arbitrary: p)
  case Nil
  then show ?case using Nil [of 0] by simp
next
  case (Cons x xs)
  have "m' p = m p" using Cons.prems [of 0] by simp
  moreover have "m' (p + 1 + of_nat i) = m (p + 1 + of_nat i)" if "i \<le> length xs" for i
    using Cons.prems [of "Suc i"] that by (simp add: add.assoc)
  ultimately show ?case using Cons.IH by simp
qed

lemma cstr_nth: "cstr m p xs \<Longrightarrow> i \<le> length xs \<Longrightarrow> m (p + of_nat i) = (xs @ [0]) ! i"
proof (induction xs arbitrary: p i)
  case (Cons x xs)
  then show ?case using Cons.IH [of "p + 1" "i - 1"] by (cases i) (auto simp: add.assoc)
qed simp

text \<open>\<^verbatim>\<open>strcpy\<close> into a place apart from the source.\<close>

definition apart :: "u32 \<Rightarrow> u32 \<Rightarrow> nat \<Rightarrow> bool" where
  "apart dst src n \<longleftrightarrow> (\<forall>i < n. \<forall>j < n. dst + of_nat i \<noteq> src + of_nat j)"

lemma apart_Suc:
  assumes "apart dst src (Suc n)"
  shows "apart (dst + 1) (src + 1) n" "j \<le> n \<Longrightarrow> src + of_nat j \<noteq> dst"
proof -
  show "apart (dst + 1) (src + 1) n"
    unfolding apart_def
  proof (intro allI impI)
    fix i j
    assume "i < n" "j < n"
    then show "dst + 1 + of_nat i \<noteq> src + 1 + of_nat j"
      using assms [unfolded apart_def, rule_format, of "Suc i" "Suc j"] by (simp add: add.assoc)
  qed
  show "j \<le> n \<Longrightarrow> src + of_nat j \<noteq> dst"
    using assms [unfolded apart_def, rule_format, of 0 j] by auto
qed

lemma strcpy_asm_cstr:
  assumes "cstr m src xs" and "apart dst src (Suc (length xs))" and "length xs < 4294967295"
  shows "\<exists>m'. strcpy_asm m dst src = kret m' \<and> cstr m' dst xs \<and>
    (\<forall>a. length xs < unat (a - dst) \<longrightarrow> m' a = m a)"
  using assms
proof (induction xs arbitrary: m dst src)
  case Nil
  then show ?case by (subst strcpy_asm.simps) auto
next
  case (Cons x xs)
  let ?m = "m(dst := x)"
  have x: "m src = x" "x \<noteq> 0" using Cons.prems by auto
  have "cstr ?m (src + 1) xs = cstr m (src + 1) xs"
  proof (rule cstr_cong)
    fix i
    assume "i \<le> length xs"
    then show "?m (src + 1 + of_nat i) = m (src + 1 + of_nat i)"
      using apart_Suc(2) [OF Cons.prems(2), of "Suc i"] by (simp add: add.assoc)
  qed
  then have "cstr ?m (src + 1) xs" using Cons.prems(1) by simp
  moreover have "apart (dst + 1) (src + 1) (Suc (length xs))"
    using apart_Suc(1) [OF Cons.prems(2)] by simp
  ultimately obtain m' where m': "strcpy_asm ?m (dst + 1) (src + 1) = kret m'" "cstr m' (dst + 1) xs"
      "\<forall>a. length xs < unat (a - (dst + 1)) \<longrightarrow> m' a = ?m a"
    using Cons.IH [of ?m "src + 1" "dst + 1", OF _ _ Suc_lessD] Cons.prems(3) by fastforce
  have "unat (dst - (dst + 1)) = 4294967295" by (simp add: unat_minus1)
  then have "m' dst = x" using m'(3) [rule_format, of dst] Cons.prems(3) by simp
  moreover have "m' a = m a" if a: "Suc (length xs) < unat (a - dst)" for a
  proof -
    have "1 \<le> unat (a - dst)" using a by simp
    then have "unat (a - dst - 1) = unat (a - dst) - 1" using unat_diff_le [of 1 "a - dst"] by simp
    then have "length xs < unat (a - (dst + 1))" using a by (simp add: diff_diff_eq)
    moreover have "a \<noteq> dst" using a by auto
    ultimately show ?thesis using m'(3) by simp
  qed
  ultimately show ?case using m'(1,2) x by (subst strcpy_asm.simps) (auto intro!: exI [of _ m'])
qed

lemma memset_set: "memset m s c n a = (if unat (a - s) < unat n then c else m a)"
proof -
  have "rep_stosb k m s c a = (if unat (a - s) < k then c else m a)" if "k \<le> 4294967295" for k m s
    using that
  proof (induction k arbitrary: m s)
    case (Suc k)
    show ?case
    proof (cases "a = s")
      case True
      then have "unat (a - (s + 1)) = 4294967295" by (simp add: unat_minus1)
      then show ?thesis using Suc True by simp
    next
      case False
      then have "1 \<le> unat (a - s)" by (simp add: Suc_le_eq unat_gt_0)
      then have "unat (a - s - 1) = unat (a - s) - 1" using unat_diff_le [of 1 "a - s"] by simp
      then have "unat (a - (s + 1)) < k \<longleftrightarrow> unat (a - s) < Suc k"
        using \<open>1 \<le> unat (a - s)\<close> by (simp add: diff_diff_eq) linarith
      then show ?thesis using Suc False by simp
    qed
  qed simp
  from this [of "unat n" m s] show ?thesis using unat_u32(2) [of n] by (simp add: memset_def memset_asm_def)
qed

section \<open>Ranges of \<^verbatim>\<open>hash32\<close> and \<^verbatim>\<open>rand\<close>\<close>

lemma hash32_less: "bits \<le> 32 \<Longrightarrow> unat (hash32 val bits) < 2 ^ bits"
proof -
  assume b: "bits \<le> 32"
  let ?h = "val * 0x9e370001"
  have "unat (hash32 val bits) = unat ?h div 2 ^ (32 - bits)"
    by (simp add: hash32_def unsigned_drop_bit_eq take_bit_nat_eq_self
        flip: drop_bit_eq_div)
  moreover have "unat ?h < 2 ^ bits * 2 ^ (32 - bits)"
    using b unat_u32(1) [of ?h] by (simp flip: power_add)
  ultimately show ?thesis by (simp add: less_mult_imp_div_less)
qed

lemma sint_ucast_small:
  assumes "unat (x :: u64) < 2147483648"
  shows "sint (ucast x :: u32) = int (unat x)"
proof -
  have "int (unat x) < int 2147483648" using assms by (simp only: of_nat_less_iff)
  then have "uint x < 2147483648" by simp
  then have "take_bit 32 (uint x) = uint x" by (intro take_bit_int_eq_self) auto
  moreover have "signed_take_bit 31 (uint x) = uint x"
    using \<open>uint x < 2147483648\<close> by (intro signed_take_bit_int_eq_self) (auto intro: order_trans [of _ 0])
  ultimately show ?thesis by (simp add: sint_uint unsigned_ucast_eq)
qed

lemma rand_range: "0 \<le> fst (rand s)" "fst (rand s) \<le> 2147483647" "unat (snd (rand s)) < 2 ^ 48"
proof -
  define n where "n = (s * 0x5DEECE66D + 0xB) AND (push_bit 48 1 - 1)"
  have r: "rand s = (sint (ucast (drop_bit 12 n mod 0x80000000) :: u32), n)"
    by (simp add: rand_def Let_def n_def)
  have lt: "unat (drop_bit 12 n mod 0x80000000) < 2147483648" by (simp add: unat_mod)
  then have "fst (rand s) = int (unat (drop_bit 12 n mod 0x80000000))"
    using sint_ucast_small [OF lt] by (simp only: r fst_conv)
  then show "0 \<le> fst (rand s)" "fst (rand s) \<le> 2147483647" using lt by linarith+
  have "n = take_bit 48 (s * 0x5DEECE66D + 0xB)"
    by (simp add: n_def take_bit_eq_mask mask_eq_exp_minus_1)
  then show "unat (snd (rand s)) < 2 ^ 48" by (simp add: r unsigned_take_bit_eq take_bit_eq_mod unat_mod)
qed

section \<open>Reading numbers\<close>

text \<open>The number at the start of a list of bytes and the bytes that follow it: blanks, a sign, a
  prefix that chooses the base, and the longest run of digits of that base, whose value is the sum
  of the digits times the powers of the base.\<close>

definition blank :: "u8 \<Rightarrow> bool" where
  "blank c \<longleftrightarrow> c = 32 \<or> c = 9"

definition digit_in :: "int \<Rightarrow> u8 \<Rightarrow> bool" where
  "digit_in b c \<longleftrightarrow> (case digit c of None \<Rightarrow> False | Some d \<Rightarrow> d < b)"

definition sign_of :: "u8 list \<Rightarrow> int \<times> u8 list" where
  "sign_of xs = (case xs of [] \<Rightarrow> (1, []) | x # ys \<Rightarrow> if x = 43 then (1, ys) else if x = 45 then (- 1, ys) else (1, xs))"

definition base_of :: "int \<Rightarrow> u8 list \<Rightarrow> int \<times> u8 list" where
  "base_of base xs =
     (if base \<in> {0, 16} \<and> take 2 xs = [48, 120] then (16, drop 2 xs)
      else if base \<noteq> 0 then (base, xs)
      else if take 1 xs = [48] then (8, drop 1 xs) else (10, xs))"

definition digits_value :: "int \<Rightarrow> int list \<Rightarrow> int" where
  "digits_value b ds = (\<Sum>i < length ds. ds ! i * b ^ (length ds - 1 - i))"

definition number :: "int \<Rightarrow> u8 list \<Rightarrow> int \<times> u8 list" where
  "number base xs =
     (let (sg, ys) = sign_of (dropWhile blank xs); (b, zs) = base_of base ys in
      (sg * digits_value b (map (\<lambda>c. the (digit c)) (takeWhile (digit_in b) zs)), dropWhile (digit_in b) zs))"

definition horner :: "int \<Rightarrow> int list \<Rightarrow> int \<Rightarrow> int" where
  "horner base ds v = foldl (\<lambda>v d. v * base + d) v ds"

lemma horner_value: "horner b ds v = v * b ^ length ds + digits_value b ds"
proof (induction ds arbitrary: v)
  case (Cons d ds)
  have "digits_value b (d # ds) = d * b ^ length ds + digits_value b ds"
    by (simp add: digits_value_def sum.lessThan_Suc_shift del: sum.lessThan_Suc)
  then show ?case using Cons.IH [of "v * b + d"] by (simp add: horner_def algebra_simps)
qed (simp add: horner_def digits_value_def)

lemma cstr_append: "cstr m p (as @ bs) \<Longrightarrow> cstr m (p + of_nat (length as)) bs"
proof (induction as arbitrary: p)
  case (Cons a as)
  then show ?case using Cons.IH [of "p + 1"] by (simp add: add.assoc)
qed simp

text \<open>\<open>tail_at m p xs ys\<close>: \<open>ys\<close> is what is left of the string \<open>xs\<close> at \<open>p\<close>.\<close>

definition left_of :: "u32 \<Rightarrow> u8 list \<Rightarrow> u8 list \<Rightarrow> u32" where
  "left_of p xs ys = p + of_nat (length xs - length ys)"

definition tail_at :: "mem8 \<Rightarrow> u32 \<Rightarrow> u8 list \<Rightarrow> u8 list \<Rightarrow> bool" where
  "tail_at m p xs ys \<longleftrightarrow> length ys \<le> length xs \<and> cstr m (left_of p xs ys) ys"

lemma tail_at_append:
  assumes "tail_at m p xs (as @ bs)"
  shows "tail_at m p xs bs" "left_of p xs bs = left_of p xs (as @ bs) + of_nat (length as)"
proof -
  have "length xs - length bs = length xs - length (as @ bs) + length as" using assms by (simp add: tail_at_def)
  then show e: "left_of p xs bs = left_of p xs (as @ bs) + of_nat (length as)" by (simp add: left_of_def add.assoc)
  show "tail_at m p xs bs" using assms cstr_append [of m "left_of p xs (as @ bs)" as bs] by (simp add: tail_at_def e)
qed

lemma skip_blanks_cstr: "cstr m p xs \<Longrightarrow> skip_blanks m p = kret (p + of_nat (length (takeWhile blank xs)))"
proof (induction xs arbitrary: p)
  case Nil
  then show ?case by (subst skip_blanks.simps) simp
next
  case (Cons x xs)
  then show ?case using blank_def [of x] by (subst skip_blanks.simps) (auto simp: add.assoc)
qed

lemma strtol_digits_cstr:
  "cstr m p xs \<Longrightarrow> strtol_digits m p b (of_int v) =
     kret (p + of_nat (length (takeWhile (digit_in b) xs)), of_int (horner b (map (\<lambda>c. the (digit c)) (takeWhile (digit_in b) xs)) v))"
proof (induction xs arbitrary: p v)
  case Nil
  then show ?case by (subst strtol_digits.simps) (simp add: digit_def horner_def)
next
  case (Cons x xs)
  show ?case
  proof (cases "digit_in b x")
    case True
    then obtain d where "digit x = Some d" "d < b" by (auto simp: digit_in_def split: option.splits)
    then show ?thesis using Cons.IH [of "p + 1" "v * b + d"] Cons.prems True
      by (subst strtol_digits.simps) (simp add: horner_def add.assoc)
  next
    case False
    then show ?thesis using Cons.prems
      by (subst strtol_digits.simps) (auto simp: digit_in_def horner_def split: option.splits)
  qed
qed

lemma sint_in_range: "- (2 ^ 31) \<le> v \<Longrightarrow> v < 2 ^ 31 \<Longrightarrow> sint (of_int v :: u32) = v"
  by (simp add: sint_sbintrunc' signed_take_bit_int_eq_self)

text \<open>The sign and the prefix in memory.\<close>

lemma sign_cstr:
  assumes "tail_at m p xs ys" and "sign_of ys = (sg, zs)"
  shows "(let s = left_of p xs ys in if m s = 43 then (s + 1, False) else if m s = 45 then (s + 1, True) else (s, False)) =
    (left_of p xs zs, sg = - 1)" (is ?A) and "tail_at m p xs zs" (is ?B) and "sg \<in> {1, - 1}" (is ?C)
proof -
  have "?A \<and> ?B \<and> ?C"
  proof (cases ys)
    case Nil
    then show ?thesis using assms by (auto simp: sign_of_def tail_at_def)
  next
    case (Cons y ys')
    have "m (left_of p xs ys) = y" using assms(1) Cons by (simp add: tail_at_def)
    moreover have "tail_at m p xs ys'" "left_of p xs ys' = left_of p xs ys + 1"
      using tail_at_append [of m p xs "[y]" ys'] assms(1) Cons by simp_all
    ultimately show ?thesis using assms Cons by (auto simp: sign_of_def split: if_splits)
  qed
  then show ?A ?B ?C by blast+
qed

lemma base_cstr:
  assumes "tail_at m p xs ys" and "base_of base ys = (b, zs)"
  shows "(let s = left_of p xs ys in
      if (base = 0 \<or> base = 16) \<and> m s = 48 \<and> m (s + 1) = 120 then (s + 2, 16)
      else if base = 0 \<and> m s = 48 then (s + 1, 8) else if base = 0 then (s, 10) else (s, base)) =
    (left_of p xs zs, b)" "tail_at m p xs zs"
proof -
  let ?s = "left_of p xs ys"
  have c: "cstr m ?s ys" using assms(1) by (simp add: tail_at_def)
  have one: "take 1 ys = [48] \<longleftrightarrow> m ?s = 48" using c by (cases ys) auto
  have two: "take 2 ys = [48, 120] \<longleftrightarrow> m ?s = 48 \<and> m (?s + 1) = 120"
  proof (cases ys)
    case (Cons y ys')
    then show ?thesis using c by (cases ys') auto
  qed (use c in auto)
  have d: "tail_at m p xs (drop n ys)" "left_of p xs (drop n ys) = ?s + of_nat (length (take n ys))" for n
    using tail_at_append [of m p xs "take n ys" "drop n ys"] assms(1) by simp_all
  have l: "take 1 ys = [48] \<Longrightarrow> length (take 1 ys) = 1" "take 2 ys = [48, 120] \<Longrightarrow> length (take 2 ys) = 2" by (simp_all del: length_take)
  show "(let s = left_of p xs ys in
      if (base = 0 \<or> base = 16) \<and> m s = 48 \<and> m (s + 1) = 120 then (s + 2, 16)
      else if base = 0 \<and> m s = 48 then (s + 1, 8) else if base = 0 then (s, 10) else (s, base)) =
    (left_of p xs zs, b)"
    using assms(2) d(2) [of 1] d(2) [of 2] l unfolding base_of_def one two by (auto simp: Let_def simp del: length_take split: if_splits)
  show "tail_at m p xs zs" using assms d(1) by (auto simp: base_of_def split: if_splits)
qed



end
