(* ===== verification/Ptable.thy ===== *)
theory Ptable
  imports Sched Strings
begin

text \<open>
  The table of processes of \<^verbatim>\<open>kern/process/proc.c\<close>: the list of all processes, the hash lists by
  process number, the relations between parents and children, and the choice of a process number.  The
  descriptors are those of the scheduler's state.  \<open>table_ok\<close> is the invariant that ties the lists,
  the pointers between relatives and the static variables of \<^verbatim>\<open>get_pid\<close> to one list of processes; the
  steps a process goes through (it is linked in by \<^verbatim>\<open>do_fork\<close>, its children are handed to
  \<^verbatim>\<open>initproc\<close> by \<^verbatim>\<open>do_exit\<close>, it is removed by \<^verbatim>\<open>do_wait\<close>) keep it.
\<close>

unbundle bit_operations_syntax

section \<open>State\<close>

abbreviation (input) E_BAD_PROC :: int where "E_BAD_PROC \<equiv> 2"
abbreviation (input) E_KILLED :: int where "E_KILLED \<equiv> 9"
abbreviation (input) HASH_LIST_SIZE :: nat where "HASH_LIST_SIZE \<equiv> 1024"

datatype hnode = Bucket nat | HLink nat

record ptable =
  psched :: sched
  list_links :: "lnode links"
  hash_links :: "hnode links"
  nr_process :: int
  initproc :: nat
  next_safe :: int
  last_pid :: int

abbreviation proc :: "ptable \<Rightarrow> nat \<Rightarrow> proc_struct" where
  "proc s p \<equiv> ptab (psched s) p"

definition updp :: "nat \<Rightarrow> (proc_struct \<Rightarrow> proc_struct) \<Rightarrow> ptable \<Rightarrow> ptable" where
  "updp p f s = s\<lparr>psched := upd_proc p f (psched s)\<rparr>"

definition pid_hashfn :: "int \<Rightarrow> nat" where
  "pid_hashfn x = unat (hash32 (of_int x) 10)"

section \<open>Relations between processes\<close>

definition set_links :: "ptable \<Rightarrow> nat \<Rightarrow> ptable prog" where
  "set_links s p =
     (let s = s\<lparr>list_links := list_add (list_links s) Head (Link p)\<rparr>;
          s = updp p (\<lambda>x. x\<lparr>yptr := None\<rparr>) s in
      deref (parent (proc s p)) (\<lambda>q.
        let s = updp p (\<lambda>x. x\<lparr>optr := cptr (proc s q)\<rparr>) s;
            s = (case optr (proc s p) of None \<Rightarrow> s | Some r \<Rightarrow> updp r (\<lambda>x. x\<lparr>yptr := Some p\<rparr>) s);
            s = updp q (\<lambda>x. x\<lparr>cptr := Some p\<rparr>) s
        in kret (s\<lparr>nr_process := nr_process s + 1\<rparr>)))"

definition remove_links :: "ptable \<Rightarrow> nat \<Rightarrow> ptable prog" where
  "remove_links s p =
     (let s = s\<lparr>list_links := list_del (list_links s) (Link p)\<rparr>;
          s = (case optr (proc s p) of None \<Rightarrow> s
               | Some r \<Rightarrow> updp r (\<lambda>x. x\<lparr>yptr := yptr (proc s p)\<rparr>) s) in
      kbind (case yptr (proc s p) of
               Some r \<Rightarrow> kret (updp r (\<lambda>x. x\<lparr>optr := optr (proc s p)\<rparr>) s)
             | None \<Rightarrow> deref (parent (proc s p)) (\<lambda>q. kret (updp q (\<lambda>x. x\<lparr>cptr := optr (proc s p)\<rparr>) s)))
        (\<lambda>s. kret (s\<lparr>nr_process := nr_process s - 1\<rparr>)))"

section \<open>Process numbers\<close>

text \<open>The search of \<^verbatim>\<open>get_pid\<close> from the label \<^verbatim>\<open>repeat\<close>, at the list entry \<open>le\<close>.\<close>

partial_function (option) pid_scan :: "ptable \<Rightarrow> lnode \<Rightarrow> int \<Rightarrow> int \<Rightarrow> (int \<times> int) prog" where
  "pid_scan s le cand safe =
     (case list_next (list_links s) le of
        Head \<Rightarrow> kret (cand, safe)
      | Link p \<Rightarrow>
          if pid (proc s p) = cand
          then if cand + 1 \<ge> safe
               then pid_scan s Head (if cand + 1 \<ge> MAX_PID then 1 else cand + 1) MAX_PID
               else pid_scan s (Link p) (cand + 1) safe
          else if pid (proc s p) > cand \<and> safe > pid (proc s p)
          then pid_scan s (Link p) cand (pid (proc s p))
          else pid_scan s (Link p) cand safe)"

definition get_pid :: "ptable \<Rightarrow> (int \<times> ptable) prog" where
  "get_pid s =
     (let cand = last_pid s + 1;
          (cand, inside) = (if cand \<ge> MAX_PID then (1, True) else (cand, cand \<ge> next_safe s)) in
      if inside
      then kbind (pid_scan s Head cand MAX_PID) (\<lambda>(cand, safe).
           kret (cand, s\<lparr>last_pid := cand, next_safe := safe\<rparr>))
      else kret (cand, s\<lparr>last_pid := cand\<rparr>))"

section \<open>Hash lists\<close>

definition hash_proc :: "ptable \<Rightarrow> nat \<Rightarrow> ptable" where
  "hash_proc s p = s\<lparr>hash_links := list_add (hash_links s) (Bucket (pid_hashfn (pid (proc s p)))) (HLink p)\<rparr>"

definition unhash_proc :: "ptable \<Rightarrow> nat \<Rightarrow> ptable" where
  "unhash_proc s p = s\<lparr>hash_links := list_del (hash_links s) (HLink p)\<rparr>"

text \<open>An entry that is neither the head of its list nor a process does not occur; the traversal would not end.\<close>

partial_function (option) find_loop :: "ptable \<Rightarrow> int \<Rightarrow> hnode \<Rightarrow> hnode \<Rightarrow> nat option prog" where
  "find_loop s n hdr le =
     (let le = list_next (hash_links s) le in
      if le = hdr then kret None
      else case le of
        HLink p \<Rightarrow> if pid (proc s p) = n then kret (Some p) else find_loop s n hdr le
      | Bucket _ \<Rightarrow> None)"

definition find_proc :: "ptable \<Rightarrow> int \<Rightarrow> nat option prog" where
  "find_proc s n =
     (if 0 < n \<and> n < MAX_PID then find_loop s n (Bucket (pid_hashfn n)) (Bucket (pid_hashfn n)) else kret None)"

section \<open>Steps in the life of a process\<close>

text \<open>The start of \<^verbatim>\<open>do_fork\<close>: \<open>p\<close> is the memory that \<^verbatim>\<open>alloc_proc\<close> gets, which may have been a descriptor before.\<close>

definition new_proc :: "u32 \<Rightarrow> ptable \<Rightarrow> nat \<Rightarrow> ptable" where
  "new_proc boot_cr3 s p =
     (let s = updp p (init_proc boot_cr3) s in updp p (\<lambda>x. x\<lparr>parent := Some (current (psched s))\<rparr>) s)"

text \<open>The critical section of \<^verbatim>\<open>do_fork\<close> and of \<^verbatim>\<open>do_clone\<close>.\<close>

definition link_proc :: "ptable \<Rightarrow> nat \<Rightarrow> ptable prog" where
  "link_proc s p = kbind (get_pid s) (\<lambda>(n, s). set_links (hash_proc (updp p (\<lambda>x. x\<lparr>pid := n\<rparr>) s) p) p)"

text \<open>\<^verbatim>\<open>wakeup_proc\<close> on the descriptors of the table; \<open>km\<close> answers for \<^verbatim>\<open>kmalloc\<close>.\<close>

definition wake :: "sched_class \<Rightarrow> (sched \<Rightarrow> nat option) \<Rightarrow> ptable \<Rightarrow> nat \<Rightarrow> ptable prog" where
  "wake cls km s p = kbind (wakeup_proc cls km (psched s) p) (\<lambda>c. kret (s\<lparr>psched := c\<rparr>))"

text \<open>The loop of \<^verbatim>\<open>do_exit\<close> that hands the children of the current process to \<^verbatim>\<open>initproc\<close>.\<close>

partial_function (option) exit_children :: "sched_class \<Rightarrow> (sched \<Rightarrow> nat option) \<Rightarrow> ptable \<Rightarrow> nat \<Rightarrow> ptable prog" where
  "exit_children cls km s me =
     (case cptr (proc s me) of None \<Rightarrow> kret s
      | Some p \<Rightarrow>
          let s = updp me (\<lambda>x. x\<lparr>cptr := optr (proc s p)\<rparr>) s;
              s = updp p (\<lambda>x. x\<lparr>yptr := None\<rparr>) s;
              s = updp p (\<lambda>x. x\<lparr>optr := cptr (proc s (initproc s))\<rparr>) s;
              s = (case optr (proc s p) of None \<Rightarrow> s
                   | Some _ \<Rightarrow> (case cptr (proc s (initproc s)) of None \<Rightarrow> s | Some r \<Rightarrow> updp r (\<lambda>x. x\<lparr>yptr := Some p\<rparr>) s));
              s = updp p (\<lambda>x. x\<lparr>parent := Some (initproc s)\<rparr>) s;
              s = updp (initproc s) (\<lambda>x. x\<lparr>cptr := Some p\<rparr>) s in
          kbind (if state (proc s p) = PROC_ZOMBIE \<and> wait_state (proc s (initproc s)) = WT_CHILD
                 then wake cls km s (initproc s) else kret s) (\<lambda>s.
          exit_children cls km s me))"

text \<open>The last part of \<^verbatim>\<open>do_exit\<close>, before it calls the scheduler.\<close>

definition exit_notify :: "sched_class \<Rightarrow> (sched \<Rightarrow> nat option) \<Rightarrow> ptable \<Rightarrow> int \<Rightarrow> ptable prog" where
  "exit_notify cls km s error_code =
     (let me = current (psched s); s = updp me (\<lambda>x. x\<lparr>state := PROC_ZOMBIE, exit_code := error_code\<rparr>) s in
      deref (parent (proc s me)) (\<lambda>q.
        kbind (if wait_state (proc s q) = WT_CHILD then wake cls km s q else kret s) (\<lambda>s.
        exit_children cls km s me)))"

text \<open>A search of \<^verbatim>\<open>do_wait\<close> for a zombie among the children: whether there is a child at all, and the
  zombie if one was found.\<close>

partial_function (option) child_loop :: "ptable \<Rightarrow> nat option \<Rightarrow> bool \<Rightarrow> (bool \<times> nat option) prog" where
  "child_loop s p haskid =
     (case p of None \<Rightarrow> kret (haskid, None)
      | Some q \<Rightarrow> if state (proc s q) = PROC_ZOMBIE then kret (True, Some q) else child_loop s (optr (proc s q)) True)"

definition wait_search :: "ptable \<Rightarrow> int \<Rightarrow> (bool \<times> nat option) prog" where
  "wait_search s n =
     (if n \<noteq> 0
      then kbind (find_proc s n) (\<lambda>r. case r of None \<Rightarrow> kret (False, None)
           | Some p \<Rightarrow> if parent (proc s p) = Some (current (psched s))
                       then kret (True, if state (proc s p) = PROC_ZOMBIE then Some p else None) else kret (False, None))
      else child_loop s (cptr (proc s (current (psched s)))) False)"

definition reap :: "ptable \<Rightarrow> nat \<Rightarrow> (int \<times> ptable) prog" where
  "reap s p =
     (if p = idleproc (psched s) \<or> p = initproc s then kpanic (Panic ''wait idleproc or initproc'')
      else kbind (remove_links (unhash_proc s p) p) (\<lambda>s'. kret (exit_code (proc s p), s')))"

text \<open>\<^verbatim>\<open>do_wait\<close> and \<^verbatim>\<open>kill_all_zombie_ch_process\<close> call each other; \<open>wait_call\<close> says which of them runs.
  The result of \<^verbatim>\<open>do_wait\<close> is its return value and the exit code it stores, or that the
  process leaves through \<^verbatim>\<open>do_exit\<close>.  \<open>resched\<close> is what happens until the scheduler runs this process
  again.  \<^verbatim>\<open>kill_all_zombie_ch_process\<close> reads the link to the next sibling from a descriptor that \<^verbatim>\<open>do_wait\<close> has
  just freed; the model takes the value the descriptor had.\<close>

datatype wait_call = DoWait int | KillZombies "nat option"
datatype wait_result = Returns int "int option" | Exits int

partial_function (option) wait_loop ::
  "(ptable \<Rightarrow> ptable prog) \<Rightarrow> ptable \<Rightarrow> wait_call \<Rightarrow> (wait_result \<times> ptable) prog" where
  "wait_loop resched s c =
     (case c of
        DoWait n \<Rightarrow> kbind (wait_search s n) (\<lambda>(haskid, z).
          case z of
            Some p \<Rightarrow> kbind (reap s p) (\<lambda>(code, s). kret (Returns 0 (Some code), s))
          | None \<Rightarrow>
              if \<not> haskid then kret (Returns (- E_BAD_PROC) None, s)
              else let me = current (psched s);
                       s = updp me (\<lambda>x. x\<lparr>state := PROC_SLEEPING, wait_state := WT_CHILD\<rparr>) s in
                kbind (resched s) (\<lambda>s.
                kbind (wait_loop resched s (KillZombies (cptr (proc s (current (psched s)))))) (\<lambda>(r, s).
                case r of
                  Exits e \<Rightarrow> kret (Exits e, s)
                | Returns _ _ \<Rightarrow>
                    if pflags (proc s (current (psched s))) AND PF_EXITING \<noteq> 0 then kret (Exits (- E_KILLED), s)
                    else wait_loop resched s (DoWait n))))
      | KillZombies z \<Rightarrow>
          (case z of None \<Rightarrow> kret (Returns 0 None, s)
           | Some p \<Rightarrow>
               kbind (if state (proc s p) = PROC_ZOMBIE then wait_loop resched s (DoWait (pid (proc s p)))
                      else kret (Returns 0 None, s)) (\<lambda>(r, s).
               case r of
                 Exits e \<Rightarrow> kret (Exits e, s)
               | Returns _ _ \<Rightarrow> wait_loop resched s (KillZombies (optr (proc s p))))))"

definition do_wait :: "(ptable \<Rightarrow> ptable prog) \<Rightarrow> ptable \<Rightarrow> int \<Rightarrow> (wait_result \<times> ptable) prog" where
  "do_wait resched s n = wait_loop resched s (DoWait n)"

section \<open>Killing\<close>

definition do_kill :: "sched_class \<Rightarrow> (sched \<Rightarrow> nat option) \<Rightarrow> ptable \<Rightarrow> int \<Rightarrow> (int \<times> ptable) prog" where
  "do_kill cls km s n = kbind (find_proc s n) (\<lambda>r.
     case r of None \<Rightarrow> kret (- E_INVAL, s)
     | Some p \<Rightarrow>
         if pflags (proc s p) AND PF_EXITING = 0
         then let s = updp p (\<lambda>x. x\<lparr>pflags := pflags x OR PF_EXITING\<rparr>) s in
           kbind (if wait_state (proc s p) AND WT_INTERRUPTED \<noteq> 0 then wake cls km s p else kret s) (\<lambda>s. kret (0, s))
         else kret (- E_KILLED, s))"

partial_function (option) thread_leader :: "ptable \<Rightarrow> nat \<Rightarrow> nat prog" where
  "thread_leader s p = (if is_thread (proc s p) then deref (parent (proc s p)) (\<lambda>q. thread_leader s q) else kret p)"

definition has_threads :: "proc_struct \<Rightarrow> bool" where
  "has_threads x = list_ex (\<lambda>i. stacks x i \<noteq> 0) [1..<MAX_THREAD]"

definition is_ancestral_thread :: "ptable \<Rightarrow> nat \<Rightarrow> bool" where
  "is_ancestral_thread s p = (if is_thread (proc s p) then False else has_threads (proc s p))"

definition current_have_kid :: "ptable \<Rightarrow> bool" where
  "current_have_kid s = (case cptr (proc s (current (psched s))) of None \<Rightarrow> False | Some _ \<Rightarrow> True)"

fun kill_threads :: "sched_class \<Rightarrow> (sched \<Rightarrow> nat option) \<Rightarrow> ptable \<Rightarrow> nat \<Rightarrow> nat list \<Rightarrow> ptable prog" where
  "kill_threads cls km s father [] = kret s"
| "kill_threads cls km s father (i # is) =
     (if stacks (proc s father) i \<noteq> 0
      then kbind (find_proc s (stacks (proc s father) i)) (\<lambda>r. deref r (\<lambda>p.
           kbind (do_kill cls km (updp p (\<lambda>x. x\<lparr>is_thread := False\<rparr>) s) (stacks (proc s father) i)) (\<lambda>(_, s).
           kill_threads cls km s father is)))
      else kill_threads cls km s father is)"

definition do_kill_all_thread :: "sched_class \<Rightarrow> (sched \<Rightarrow> nat option) \<Rightarrow> ptable \<Rightarrow> int \<Rightarrow> (int \<times> ptable) prog" where
  "do_kill_all_thread cls km s n = kbind (find_proc s n) (\<lambda>r.
     case r of None \<Rightarrow> kret (- E_INVAL, s)
     | Some p \<Rightarrow>
         if \<not> (is_thread (proc s p) \<or> has_threads (proc s p)) then do_kill cls km s n
         else kbind (thread_leader s p) (\<lambda>father.
              kbind (kill_threads cls km s father [1..<MAX_THREAD]) (\<lambda>s.
              kbind (do_kill cls km s (pid (proc s father))) (\<lambda>(_, s). kret (0, s)))))"

definition do_yield :: "ptable \<Rightarrow> ptable" where
  "do_yield s = updp (current (psched s)) (\<lambda>x. x\<lparr>need_resched := True\<rparr>) s"

section \<open>The invariant of the table\<close>

text \<open>The children of a process, linked from the youngest to the oldest; \<open>y\<close> is what the first one has for
  a younger sibling.\<close>

definition head :: "nat list \<Rightarrow> nat option" where
  "head cs = (case cs of [] \<Rightarrow> None | c # _ \<Rightarrow> Some c)"

lemma head_simps [simp]: "head [] = None" "head (c # cs) = Some c"
  by (simp_all add: head_def)

lemma head_mem: "head cs = Some c \<Longrightarrow> c \<in> set cs"
  by (cases cs) auto

fun siblings :: "procs \<Rightarrow> nat option \<Rightarrow> nat list \<Rightarrow> bool" where
  "siblings f y [] = True"
| "siblings f y (c # cs) \<longleftrightarrow> yptr (f c) = y \<and> optr (f c) = head cs \<and> siblings f (Some c) cs"

definition family :: "procs \<Rightarrow> nat \<Rightarrow> nat list \<Rightarrow> bool" where
  "family f q cs \<longleftrightarrow> distinct cs \<and> cptr (f q) = head cs \<and> siblings f None cs"

lemma siblings_cong:
  "(\<And>c. c \<in> set cs \<Longrightarrow> yptr (f' c) = yptr (f c) \<and> optr (f' c) = optr (f c)) \<Longrightarrow> siblings f' y cs = siblings f y cs"
  by (induction cs arbitrary: y) auto

lemma family_cong:
  assumes "cptr (f' q) = cptr (f q)" and "\<And>c. c \<in> set cs \<Longrightarrow> yptr (f' c) = yptr (f c) \<and> optr (f' c) = optr (f c)"
  shows "family f' q cs = family f q cs"
  using assms siblings_cong [of cs f' f None] by (simp add: family_def)

definition kids_ok :: "procs \<Rightarrow> nat \<Rightarrow> nat list \<Rightarrow> (nat \<Rightarrow> nat list) \<Rightarrow> bool" where
  "kids_ok f idle xs kids \<longleftrightarrow>
     (\<forall>q \<in> insert idle (set xs). family f q (kids q) \<and> set (kids q) = {c \<in> set xs. parent (f c) = Some q}) \<and>
     (\<forall>p \<in> set xs. \<exists>q \<in> insert idle (set xs). parent (f p) = Some q \<and> p \<noteq> q)"

definition pids_ok :: "ptable \<Rightarrow> nat list \<Rightarrow> bool" where
  "pids_ok s xs \<longleftrightarrow> inj_on (\<lambda>p. pid (proc s p)) (set xs) \<and> (\<forall>p \<in> set xs. 1 \<le> pid (proc s p) \<and> pid (proc s p) < MAX_PID) \<and>
     1 \<le> last_pid s \<and> last_pid s \<le> MAX_PID \<and> next_safe s \<le> MAX_PID \<and>
     (\<forall>p \<in> set xs. \<not> (last_pid s < pid (proc s p) \<and> pid (proc s p) < next_safe s))"

definition hash_ok :: "ptable \<Rightarrow> nat list \<Rightarrow> bool" where
  "hash_ok s xs \<longleftrightarrow> (\<forall>b < HASH_LIST_SIZE.
     dlist (hash_links s) (Bucket b) (map HLink (filter (\<lambda>p. pid_hashfn (pid (proc s p)) = b) xs)))"

definition table_ok :: "ptable \<Rightarrow> nat list \<Rightarrow> bool" where
  "table_ok s xs \<longleftrightarrow> dlist (list_links s) Head (map Link xs) \<and> hash_ok s xs \<and> pids_ok s xs \<and>
     nr_process s = int (length xs) + 1 \<and> nr_process s \<le> MAX_PROCESS \<and> idleproc (psched s) \<notin> set xs \<and>
     initproc s \<in> set xs \<and> parent (proc s (initproc s)) = Some (idleproc (psched s)) \<and>
     (\<exists>kids. kids_ok (ptab (psched s)) (idleproc (psched s)) xs kids) \<and>
     (\<forall>p \<in> set xs. state (proc s p) = PROC_ZOMBIE \<longrightarrow> cptr (proc s p) = None) \<and>
     state (proc s (initproc s)) \<noteq> PROC_ZOMBIE"

lemma table_distinct: "dlist h Head (map Link xs) \<Longrightarrow> distinct xs"
  by (simp add: dlist_def distinct_map)

lemma updp_simps [simp]:
  "proc (updp p f s) q = (if q = p then f (proc s p) else proc s q)" "list_links (updp p f s) = list_links s"
  "hash_links (updp p f s) = hash_links s" "nr_process (updp p f s) = nr_process s" "initproc (updp p f s) = initproc s"
  "next_safe (updp p f s) = next_safe s" "last_pid (updp p f s) = last_pid s"
  "idleproc (psched (updp p f s)) = idleproc (psched s)" "current (psched (updp p f s)) = current (psched s)"
  by (simp_all add: updp_def upd_proc_def)

text \<open>An update touches one field of one process.\<close>

lemma updp_keep:
  "(\<And>y. parent (f y) = parent y) \<Longrightarrow> parent (proc (updp p f s) x) = parent (proc s x)"
  "(\<And>y. cptr (f y) = cptr y) \<Longrightarrow> cptr (proc (updp p f s) x) = cptr (proc s x)"
  "(\<And>y. yptr (f y) = yptr y) \<Longrightarrow> yptr (proc (updp p f s) x) = yptr (proc s x)"
  "(\<And>y. optr (f y) = optr y) \<Longrightarrow> optr (proc (updp p f s) x) = optr (proc s x)"
  "(\<And>y. pid (f y) = pid y) \<Longrightarrow> pid (proc (updp p f s) x) = pid (proc s x)"
  "(\<And>y. state (f y) = state y) \<Longrightarrow> state (proc (updp p f s) x) = state (proc s x)"
  "(\<And>y. pflags (f y) = pflags y) \<Longrightarrow> pflags (proc (updp p f s) x) = pflags (proc s x)"
  by simp_all

lemma updp_set:
  "parent (proc (updp p (\<lambda>y. y\<lparr>parent := v\<rparr>) s) x) = (if x = p then v else parent (proc s x))"
  "cptr (proc (updp p (\<lambda>y. y\<lparr>cptr := v\<rparr>) s) x) = (if x = p then v else cptr (proc s x))"
  "yptr (proc (updp p (\<lambda>y. y\<lparr>yptr := v\<rparr>) s) x) = (if x = p then v else yptr (proc s x))"
  "optr (proc (updp p (\<lambda>y. y\<lparr>optr := v\<rparr>) s) x) = (if x = p then v else optr (proc s x))"
  by simp_all

lemma pid_hashfn_bound: "pid_hashfn x < HASH_LIST_SIZE"
proof -
  have "unat (drop_bit 22 (w :: u32)) < 1024" for w
  proof -
    have "unat w < 2 ^ LENGTH(32)" by (rule unsigned_less)
    then show ?thesis by (simp add: drop_bit_eq_div unat_div less_mult_imp_div_less)
  qed
  then show ?thesis by (simp add: pid_hashfn_def hash32_def)
qed

section \<open>Process numbers\<close>

text \<open>The scan has passed the processes \<open>ds\<close>: none of them has the candidate as its number, and none has one
  between it and \<open>safe\<close>.\<close>

definition passed :: "ptable \<Rightarrow> nat list \<Rightarrow> int \<Rightarrow> int \<Rightarrow> bool" where
  "passed s ds cand safe \<longleftrightarrow> (\<forall>p \<in> set ds. pid (proc s p) < cand \<or> safe \<le> pid (proc s p)) \<and>
     1 \<le> cand \<and> cand < safe \<and> safe \<le> MAX_PID"

definition pid_dist :: "int \<Rightarrow> int \<Rightarrow> int" where
  "pid_dist u c = (if c \<le> u then u - c else u + MAX_PID - c)"

lemma entry_next:
  "dlist h Head (map Link (ds @ es)) \<Longrightarrow> lnext h (if ds = [] then Head else Link (last ds)) = first_entry es"
  using head_next [of h es] link_next [of h "butlast ds" "last ds" es] by (cases ds rule: rev_cases) auto

lemma pid_pass:
  assumes d: "dlist (list_links s) Head (map Link xs)" and u: "1 \<le> u" "u < MAX_PID" "\<forall>p \<in> set xs. pid (proc s p) \<noteq> u"
    and H: "\<And>c. pid_dist u c < n \<Longrightarrow> 1 \<le> c \<Longrightarrow> c < MAX_PID \<Longrightarrow> \<exists>c' m. pid_scan s Head c MAX_PID = kret (c', m) \<and> passed s xs c' m"
  shows "xs = ds @ es \<Longrightarrow> passed s ds cand safe \<Longrightarrow> pid_dist u cand \<le> n \<Longrightarrow>
    \<exists>c m. pid_scan s (if ds = [] then Head else Link (last ds)) cand safe = kret (c, m) \<and> passed s xs c m"
proof (induction es arbitrary: ds cand safe)
  case Nil
  then show ?case using entry_next [of "list_links s" ds "[]"] d
    by (subst pid_scan.simps) (auto simp: list_next_def)
next
  case (Cons p es)
  let ?le = "if ds = [] then Head else Link (last ds)"
  have nx: "list_next (list_links s) ?le = Link p"
    using entry_next [of "list_links s" ds "p # es"] d Cons.prems(1) by (simp add: list_next_def)
  have pu: "pid (proc s p) \<noteq> u" using u(3) Cons.prems(1) by simp
  have ih: "\<exists>c m. pid_scan s (Link p) c' m' = kret (c, m) \<and> passed s xs c m" if "passed s (ds @ [p]) c' m'" "pid_dist u c' \<le> n" for c' m'
    using Cons.IH [of "ds @ [p]" c' m'] that Cons.prems(1) by simp
  have P: "1 \<le> cand" "cand < safe" "safe \<le> MAX_PID" "\<And>q. q \<in> set ds \<Longrightarrow> pid (proc s q) < cand \<or> safe \<le> pid (proc s q)"
    using Cons.prems(2) by (auto simp: passed_def)
  show ?case
  proof (cases "pid (proc s p) = cand")
    case True
    show ?thesis
    proof (cases "cand + 1 \<ge> safe")
      case restart: True
      let ?c = "if cand + 1 \<ge> MAX_PID then 1 else cand + 1"
      have "pid_dist u ?c < n" using True pu P u(1,2) Cons.prems(3) by (auto simp: pid_dist_def split: if_splits)
      moreover have "1 \<le> ?c" "?c < MAX_PID" using P by auto
      ultimately show ?thesis using H [of ?c] True restart nx by (subst pid_scan.simps) simp
    next
      case False
      have "passed s (ds @ [p]) (cand + 1) safe" using P True False by (force simp: passed_def)
      moreover have "pid_dist u (cand + 1) \<le> n" using True pu Cons.prems(3) by (auto simp: pid_dist_def split: if_splits)
      ultimately show ?thesis using ih [of "cand + 1" safe] True False nx by (subst pid_scan.simps) simp
    qed
  next
    case False
    show ?thesis
    proof (cases "pid (proc s p) > cand \<and> safe > pid (proc s p)")
      case True
      have "passed s (ds @ [p]) cand (pid (proc s p))" using P True by (force simp: passed_def)
      then show ?thesis using ih [of cand "pid (proc s p)"] True False nx Cons.prems(3) by (subst pid_scan.simps) simp
    next
      case skip: False
      then have "passed s (ds @ [p]) cand safe" using P False by (auto simp: passed_def)
      then show ?thesis using ih [of cand safe] skip False nx Cons.prems(3) by (subst pid_scan.simps) auto
    qed
  qed
qed

lemma pid_scan_ok:
  assumes d: "dlist (list_links s) Head (map Link xs)" and u: "1 \<le> u" "u < MAX_PID" "\<forall>p \<in> set xs. pid (proc s p) \<noteq> u"
    and c: "1 \<le> c" "c < MAX_PID"
  shows "\<exists>c' m. pid_scan s Head c MAX_PID = kret (c', m) \<and> passed s xs c' m"
  using c
proof (induction "nat (pid_dist u c)" arbitrary: c rule: less_induct)
  case less
  have pos: "0 \<le> pid_dist u c" using u less.prems by (simp add: pid_dist_def)
  have H: "\<exists>c' m. pid_scan s Head a MAX_PID = kret (c', m) \<and> passed s xs c' m"
    if "pid_dist u a < pid_dist u c" "1 \<le> a" "a < MAX_PID" for a
  proof -
    have "0 \<le> pid_dist u a" using u that by (simp add: pid_dist_def)
    then show ?thesis using less.hyps [of a] that pos by simp
  qed
  have "passed s [] c MAX_PID" using less.prems by (simp add: passed_def)
  then show ?case using pid_pass [OF d u H, of "pid_dist u c" "[]" xs c MAX_PID] by simp
qed

lemma free_pid:
  assumes "length xs < 8191"
  shows "\<exists>u. 1 \<le> u \<and> u < MAX_PID \<and> (\<forall>p \<in> set xs. pid (proc s p) \<noteq> u)"
proof -
  have "card ((\<lambda>p. pid (proc s p)) ` set xs) < card {1..<MAX_PID}"
    using card_image_le [of "set xs" "\<lambda>p. pid (proc s p)"] card_length [of xs] assms by simp
  then have "\<not> {1..<MAX_PID} \<subseteq> (\<lambda>p. pid (proc s p)) ` set xs"
    using card_mono [OF finite_imageI [OF finite_set], of "{1..<MAX_PID}" "\<lambda>p. pid (proc s p)" xs] by linarith
  then obtain u where "u \<in> {1..<MAX_PID}" "u \<notin> (\<lambda>p. pid (proc s p)) ` set xs" by blast
  then show ?thesis by (intro exI [of _ u]) auto
qed

text \<open>The number \<^verbatim>\<open>get_pid\<close> chooses is new, and the static variables are as the next call expects them.\<close>

lemma get_pid_ok:
  assumes d: "dlist (list_links s) Head (map Link xs)" and ok: "pids_ok s xs" and n: "length xs < 8191"
  shows "\<exists>n s'. get_pid s = kret (n, s') \<and> s' = s\<lparr>last_pid := n, next_safe := next_safe s'\<rparr> \<and> 1 \<le> n \<and> n < MAX_PID \<and>
    (\<forall>p \<in> set xs. pid (proc s p) \<noteq> n) \<and> pids_ok s' xs"
proof -
  let ?c = "last_pid s + 1"
  have P: "1 \<le> last_pid s" "next_safe s \<le> MAX_PID" "\<And>p. p \<in> set xs \<Longrightarrow> \<not> (last_pid s < pid (proc s p) \<and> pid (proc s p) < next_safe s)"
    using ok by (auto simp: pids_ok_def)
  have scan: "\<exists>n s'. kbind (pid_scan s Head c MAX_PID) (\<lambda>(cand, safe). kret (cand, s\<lparr>last_pid := cand, next_safe := safe\<rparr>)) = kret (n, s') \<and>
      s' = s\<lparr>last_pid := n, next_safe := next_safe s'\<rparr> \<and> 1 \<le> n \<and> n < MAX_PID \<and> (\<forall>p \<in> set xs. pid (proc s p) \<noteq> n) \<and> pids_ok s' xs"
    if c: "1 \<le> c" "c < MAX_PID" for c
  proof -
    obtain u where u: "1 \<le> u" "u < MAX_PID" "\<forall>p \<in> set xs. pid (proc s p) \<noteq> u" using free_pid [OF n] by blast
    obtain c' m where c': "pid_scan s Head c MAX_PID = kret (c', m)" "passed s xs c' m" using pid_scan_ok [OF d u c] by blast
    then show ?thesis using ok by (intro exI [of _ c'] exI [of _ "s\<lparr>last_pid := c', next_safe := m\<rparr>"]) (force simp: passed_def pids_ok_def)
  qed
  show ?thesis
  proof (cases "?c \<ge> MAX_PID \<or> ?c \<ge> next_safe s")
    case True
    then show ?thesis using scan [of 1] scan [of ?c] P(1) by (cases "?c \<ge> MAX_PID") (auto simp: get_pid_def Let_def)
  next
    case False
    have "pids_ok (s\<lparr>last_pid := ?c\<rparr>) xs" using ok False by (auto simp: pids_ok_def)
    moreover have "pid (proc s p) \<noteq> ?c" if "p \<in> set xs" for p using P(3) [OF that] False by auto
    ultimately show ?thesis using False P(1) by (auto simp: get_pid_def Let_def)
  qed
qed

section \<open>Hash lists\<close>

lemma list_add_other: "x \<noteq> hdr \<Longrightarrow> x \<noteq> e \<Longrightarrow> x \<noteq> lnext h hdr \<Longrightarrow>
    lnext (list_add h hdr e) x = lnext h x \<and> lprev (list_add h hdr e) x = lprev h x"
  by (simp add: clist_defs)

lemma list_del_other: "x \<noteq> lprev h y \<Longrightarrow> x \<noteq> lnext h y \<Longrightarrow> lnext (list_del h y) x = lnext h x \<and> lprev (list_del h y) x = lprev h x"
  by (simp add: clist_defs)

lemma dlist_around:
  assumes "dlist h hdr (xs @ y # ys)"
  shows "lnext h y \<in> set (hdr # ys)" "lprev h y \<in> set (hdr # xs)"
proof -
  show "lnext h y \<in> set (hdr # ys)" using dlist_next [OF assms] by (cases ys) auto
  have "lprev h y = last (hdr # xs)" using assms by (auto simp: dlist_def dest: lpath_last)
  then show "lprev h y \<in> set (hdr # xs)" by (metis last_in_set list.distinct(1))
qed

lemma hash_ok_add:
  assumes ok: "hash_ok s xs" and p: "p \<notin> set xs" and eq: "\<And>q. q \<in> set xs \<Longrightarrow> pid (proc s' q) = pid (proc s q)"
    and h: "hash_links s' = list_add (hash_links s) (Bucket (pid_hashfn (pid (proc s' p)))) (HLink p)"
  shows "hash_ok s' (p # xs)"
  unfolding hash_ok_def
proof (intro allI impI)
  fix b :: nat
  assume b: "b < HASH_LIST_SIZE"
  let ?c = "pid_hashfn (pid (proc s' p))"
  let ?ys = "\<lambda>b. map HLink (filter (\<lambda>q. pid_hashfn (pid (proc s q)) = b) xs)"
  have f: "filter (\<lambda>q. pid_hashfn (pid (proc s' q)) = b) xs = filter (\<lambda>q. pid_hashfn (pid (proc s q)) = b) xs"
    using eq by (intro filter_cong) auto
  have db: "dlist (hash_links s) (Bucket b) (?ys b)" using ok b by (simp add: hash_ok_def)
  have dc: "dlist (hash_links s) (Bucket ?c) (?ys ?c)" using ok pid_hashfn_bound by (simp add: hash_ok_def)
  show "dlist (hash_links s') (Bucket b) (map HLink (filter (\<lambda>q. pid_hashfn (pid (proc s' q)) = b) (p # xs)))"
  proof (cases "b = ?c")
    case True
    then show ?thesis using dlist_add_after_head [OF dc, of "HLink p"] p f by (auto simp: h list_add_def)
  next
    case False
    have n: "lnext (hash_links s) (Bucket ?c) = (case ?ys ?c of [] \<Rightarrow> Bucket ?c | z # _ \<Rightarrow> z)" using dlist_hd_next [OF dc] .
    have "lnext (hash_links s) (Bucket ?c) \<notin> set (Bucket b # ?ys b)"
      using False unfolding n by (cases "filter (\<lambda>q. pid_hashfn (pid (proc s q)) = ?c) xs") (auto dest: filter_eq_ConsD)
    moreover have "HLink p \<notin> set (Bucket b # ?ys b)" "Bucket ?c \<notin> set (Bucket b # ?ys b)" using p False by auto
    ultimately have "dlist (hash_links s') (Bucket b) (?ys b)"
      unfolding h by (intro dlist_frame [OF db] list_add_other) metis+
    then show ?thesis using False f by auto
  qed
qed

lemma hash_ok_del:
  assumes ok: "hash_ok s (as @ p # bs)" and d: "distinct (as @ p # bs)"
    and eq: "\<And>q. q \<in> set (as @ bs) \<Longrightarrow> pid (proc s' q) = pid (proc s q)" and h: "hash_links s' = list_del (hash_links s) (HLink p)"
  shows "hash_ok s' (as @ bs)"
  unfolding hash_ok_def
proof (intro allI impI)
  fix b :: nat
  assume b: "b < HASH_LIST_SIZE"
  let ?c = "pid_hashfn (pid (proc s p))"
  let ?ys = "\<lambda>b xs. map HLink (filter (\<lambda>q. pid_hashfn (pid (proc s q)) = b) xs)"
  have f: "filter (\<lambda>q. pid_hashfn (pid (proc s' q)) = b) (as @ bs) = filter (\<lambda>q. pid_hashfn (pid (proc s q)) = b) (as @ bs)"
    using eq by (intro filter_cong) auto
  have db: "dlist (hash_links s) (Bucket b) (?ys b (as @ p # bs))" using ok b by (simp add: hash_ok_def)
  have dc: "dlist (hash_links s) (Bucket ?c) (?ys ?c as @ HLink p # ?ys ?c bs)"
    using ok pid_hashfn_bound [of "pid (proc s p)"] by (auto simp: hash_ok_def)
  have "dlist (hash_links s') (Bucket b) (?ys b (as @ bs))"
  proof (cases "b = ?c")
    case True
    then show ?thesis using dlist_del [OF dc] by (simp add: h)
  next
    case False
    note a = dlist_around [OF dc]
    have "x \<notin> set (Bucket b # ?ys b (as @ p # bs))" if "x \<in> set (Bucket ?c # ?ys ?c as) \<union> set (Bucket ?c # ?ys ?c bs)" for x
      using that False by auto
    then have "lnext (hash_links s) (HLink p) \<notin> set (Bucket b # ?ys b (as @ p # bs))"
        "lprev (hash_links s) (HLink p) \<notin> set (Bucket b # ?ys b (as @ p # bs))" using a by blast+
    then have "dlist (hash_links s') (Bucket b) (?ys b (as @ p # bs))"
      unfolding h by (intro dlist_frame [OF db] list_del_other) metis+
    then show ?thesis using False by simp
  qed
  then show "dlist (hash_links s') (Bucket b) (map HLink (filter (\<lambda>q. pid_hashfn (pid (proc s' q)) = b) (as @ bs)))"
    using f by simp
qed

lemma find_loop_ok:
  assumes "dlist (hash_links s) (Bucket b) (map HLink (ds @ es))"
  shows "find_loop s n (Bucket b) (if ds = [] then Bucket b else HLink (last ds)) = kret (List.find (\<lambda>p. pid (proc s p) = n) es)"
  using assms
proof (induction es arbitrary: ds)
  case Nil
  have "lnext (hash_links s) (if ds = [] then Bucket b else HLink (last ds)) = Bucket b"
    using Nil dlist_hd_next [of "hash_links s" "Bucket b" "[]"] dlist_next [of "hash_links s" "Bucket b" "map HLink (butlast ds)" "HLink (last ds)" "[]"]
    by (cases ds rule: rev_cases) auto
  then show ?case by (subst find_loop.simps) (simp add: list_next_def)
next
  case (Cons p es)
  have nx: "lnext (hash_links s) (if ds = [] then Bucket b else HLink (last ds)) = HLink p"
    using Cons.prems dlist_hd_next [of "hash_links s" "Bucket b" "map HLink (p # es)"]
      dlist_next [of "hash_links s" "Bucket b" "map HLink (butlast ds)" "HLink (last ds)" "map HLink (p # es)"]
    by (cases ds rule: rev_cases) auto
  have "find_loop s n (Bucket b) (HLink p) = kret (List.find (\<lambda>p. pid (proc s p) = n) es)"
    using Cons.IH [of "ds @ [p]"] Cons.prems by simp
  then show ?case using nx by (subst find_loop.simps) (simp add: list_next_def)
qed

lemma find_filter: "(\<And>x. P x \<Longrightarrow> Q x) \<Longrightarrow> List.find P (filter Q xs) = List.find P xs"
  by (induction xs) auto

lemma find_proc_ok:
  assumes h: "hash_ok s xs" and p: "pids_ok s xs"
  shows "find_proc s n = kret (List.find (\<lambda>p. pid (proc s p) = n) xs)"
proof (cases "0 < n \<and> n < MAX_PID")
  case True
  let ?b = "pid_hashfn n"
  have "dlist (hash_links s) (Bucket ?b) (map HLink ([] @ filter (\<lambda>p. pid_hashfn (pid (proc s p)) = ?b) xs))"
    using h pid_hashfn_bound by (simp add: hash_ok_def)
  from find_loop_ok [OF this, of n] show ?thesis using True find_filter [of "\<lambda>p. pid (proc s p) = n"] by (simp add: find_proc_def)
next
  case False
  have "pid (proc s q) \<noteq> n" if "q \<in> set xs" for q using p that False by (force simp: pids_ok_def)
  then have "List.find (\<lambda>p. pid (proc s p) = n) xs = None" by (auto simp: find_None_iff)
  then show ?thesis using False by (auto simp: find_proc_def)
qed

lemma find_pid:
  assumes "pids_ok s xs" and "p \<in> set xs"
  shows "List.find (\<lambda>q. pid (proc s q) = pid (proc s p)) xs = Some p"
proof -
  have "List.find (\<lambda>q. pid (proc s q) = pid (proc s p)) xs \<noteq> None" using assms(2) by (auto simp: find_None_iff)
  then obtain q where q: "List.find (\<lambda>q. pid (proc s q) = pid (proc s p)) xs = Some q" by blast
  then have "q \<in> set xs" "pid (proc s q) = pid (proc s p)" by (auto simp: find_Some_iff)
  then show ?thesis using q assms by (auto simp: pids_ok_def inj_on_def)
qed

section \<open>Parents and children\<close>

lemma kids_okD:
  assumes "kids_ok f idle xs kids" and "q \<in> insert idle (set xs)"
  shows "family f q (kids q)" "c \<in> set (kids q) \<longleftrightarrow> c \<in> set xs \<and> parent (f c) = Some q"
  using assms by (auto simp: kids_ok_def)

text \<open>A new process becomes the youngest child of its parent.\<close>

lemma kids_ok_add:
  assumes ok: "kids_ok f idle xs kids" and q: "q \<in> insert idle (set xs)" and p: "p \<notin> insert idle (set xs)" "parent (f p) = Some q"
    and np: "kids p = []" "cptr (f p) = None"
    and g: "\<And>x. parent (g x) = parent (f x)" "\<And>x. cptr (g x) = (if x = q then Some p else cptr (f x))"
      "\<And>x. optr (g x) = (if x = p then head (kids q) else optr (f x))"
      "\<And>x. yptr (g x) = (if x = p then None else if Some x = head (kids q) then Some p else yptr (f x))"
  shows "kids_ok g idle (p # xs) (kids(q := p # kids q))"
proof -
  note Q = kids_okD [OF ok q]
  have fam: "family g r ((kids(q := p # kids q)) r)" if r: "r \<in> insert idle (set (p # xs))" for r
  proof (cases "r = q")
    case True
    have "p \<notin> set (kids q)" using Q(2) p by auto
    moreover have "siblings g (Some p) (kids q)"
    proof (cases "kids q")
      case (Cons c cs)
      have "siblings f None (c # cs)" "distinct (c # cs)" using Q(1) Cons by (auto simp: family_def)
      moreover have "siblings g (Some c) cs = siblings f (Some c) cs"
        using calculation \<open>p \<notin> set (kids q)\<close> g Cons by (intro siblings_cong) auto
      ultimately show ?thesis using Cons g \<open>p \<notin> set (kids q)\<close> by auto
    qed simp
    ultimately show ?thesis using True Q(1) g by (auto simp: family_def)
  next
    case False
    show ?thesis
    proof (cases "r = p")
      case True
      then show ?thesis using False np g by (simp add: family_def)
    next
      case rp: False
      then have r': "r \<in> insert idle (set xs)" using r by auto
      note R = kids_okD [OF ok r']
      have "c \<noteq> p \<and> Some c \<noteq> head (kids q)" if "c \<in> set (kids r)" for c
        using that R(2) [of c] Q(2) [of c] p(1) False head_mem [of "kids q" c] by auto
      then have "family g r (kids r) = family f r (kids r)" using g False by (intro family_cong) auto
      then show ?thesis using R(1) False by simp
    qed
  qed
  have pq: "p \<noteq> q" using p(1) q by auto
  have set: "set ((kids(q := p # kids q)) r) = {c \<in> set (p # xs). parent (g c) = Some r}" if r: "r \<in> insert idle (set (p # xs))" for r
  proof (cases "r = p")
    case True
    have "parent (f c) \<noteq> Some p" if "c \<in> set xs" for c using ok that p(1) unfolding kids_ok_def by force
    then show ?thesis using True np pq g p(2) by auto
  next
    case False
    then have "r \<in> insert idle (set xs)" using r by auto
    from kids_okD(2) [OF ok this] show ?thesis using p g(1) by auto
  qed
  have "\<exists>r \<in> insert idle (set (p # xs)). parent (g c) = Some r \<and> c \<noteq> r" if "c \<in> set (p # xs)" for c
    using that ok p(2) q pq g(1) unfolding kids_ok_def by force
  then show ?thesis using fam set unfolding kids_ok_def by blast
qed

lemma set_links_ok:
  assumes ok: "kids_ok (ptab (psched s)) idle xs kids" and q: "q \<in> insert idle (set xs)" "parent (proc s p) = Some q"
    and p: "p \<notin> insert idle (set xs)" "kids p = []" "cptr (proc s p) = None"
  shows "\<exists>s'. set_links s p = kret s' \<and> kids_ok (ptab (psched s')) idle (p # xs) (kids(q := p # kids q)) \<and>
    list_links s' = list_add (list_links s) Head (Link p) \<and> hash_links s' = hash_links s \<and> nr_process s' = nr_process s + 1 \<and>
    initproc s' = initproc s \<and> next_safe s' = next_safe s \<and> last_pid s' = last_pid s \<and>
    idleproc (psched s') = idleproc (psched s) \<and> current (psched s') = current (psched s) \<and>
    (\<forall>x. pid (proc s' x) = pid (proc s x) \<and> parent (proc s' x) = parent (proc s x) \<and> state (proc s' x) = state (proc s x) \<and>
      cptr (proc s' x) = (if x = q then Some p else cptr (proc s x)))"
proof -
  have pq: "p \<noteq> q" using p(1) q(1) by auto
  have c: "cptr (proc s q) = head (kids q)" using kids_okD(1) [OF ok q(1)] by (simp add: family_def)
  have ne: "head (kids q) \<noteq> Some p" using kids_okD(2) [OF ok q(1), of p] p(1) by (cases "kids q") auto
  obtain s' where s': "set_links s p = kret s'" by (simp add: set_links_def Let_def q(2) pq)
  have eq: "s' = (let s = s\<lparr>list_links := list_add (list_links s) Head (Link p)\<rparr>;
          s = updp p (\<lambda>x. x\<lparr>yptr := None\<rparr>) s; s = updp p (\<lambda>x. x\<lparr>optr := head (kids q)\<rparr>) s;
          s = (case head (kids q) of None \<Rightarrow> s | Some r \<Rightarrow> updp r (\<lambda>x. x\<lparr>yptr := Some p\<rparr>) s);
          s = updp q (\<lambda>x. x\<lparr>cptr := Some p\<rparr>) s in s\<lparr>nr_process := nr_process s + 1\<rparr>)"
    using s' pq by (auto simp: set_links_def Let_def q(2) c split: option.splits)
  have "kids_ok (ptab (psched s')) idle (p # xs) (kids(q := p # kids q))"
    by (rule kids_ok_add [OF ok q(1) p(1) q(2) p(2,3)]) (use pq ne in \<open>auto simp: eq Let_def split: option.splits\<close>)
  then show ?thesis using s' by (auto simp: eq Let_def split: option.splits)
qed

lemma siblings_at:
  "siblings f y (as @ p # bs) \<Longrightarrow> yptr (f p) = (if as = [] then y else Some (last as)) \<and> optr (f p) = head bs"
proof (induction as arbitrary: y)
  case (Cons a as)
  have "siblings f (Some a) (as @ p # bs)" using Cons.prems by simp
  from Cons.IH [OF this] show ?case by simp
qed simp

lemma siblings_remove:
  assumes "siblings f y (as @ p # bs)" and "distinct (as @ p # bs)"
    and "\<And>x. x \<in> set as \<Longrightarrow> yptr (g x) = yptr (f x) \<and> optr (g x) = (if x = last as then head bs else optr (f x))"
    and "\<And>x. x \<in> set bs \<Longrightarrow> optr (g x) = optr (f x) \<and> yptr (g x) = (if head bs = Some x then yptr (f p) else yptr (f x))"
  shows "siblings g y (as @ bs)"
  using assms
proof (induction as arbitrary: y)
  case Nil
  show ?case
  proof (cases bs)
    case (Cons b cs)
    have "siblings g (Some b) cs = siblings f (Some b) cs" using Nil Cons by (intro siblings_cong) auto
    then show ?thesis using Nil Cons by auto
  qed simp
next
  case (Cons a as)
  have "siblings g (Some a) (as @ bs)"
    by (rule Cons.IH) (use Cons.prems in \<open>auto split: if_splits\<close>)
  moreover have "optr (g a) = head (as @ bs)" using Cons.prems by (cases as) (auto split: if_splits)
  ultimately show ?case using Cons.prems by auto
qed

lemma kids_ok_remove:
  assumes ok: "kids_ok f idle xs kids" and p: "p \<in> set xs" "p \<noteq> idle" and q: "parent (f p) = Some q" "q \<in> insert idle (set xs)" "p \<noteq> q"
    and k: "kids p = []" "kids q = as @ p # bs" and ys: "set ys = set xs - {p}"
    and g: "\<And>x. x \<noteq> p \<Longrightarrow> parent (g x) = parent (f x)" "\<And>x. x \<noteq> p \<Longrightarrow> cptr (g x) = (if x = q \<and> as = [] then head bs else cptr (f x))"
      "\<And>x. x \<noteq> p \<Longrightarrow> optr (g x) = (if as \<noteq> [] \<and> x = last as then head bs else optr (f x))"
      "\<And>x. x \<noteq> p \<Longrightarrow> yptr (g x) = (if head bs = Some x then yptr (f p) else yptr (f x))"
  shows "kids_ok g idle ys (kids(q := as @ bs))"
proof -
  note Q = kids_okD [OF ok q(2)]
  have Qf: "distinct (as @ p # bs)" "cptr (f q) = head (as @ p # bs)" "siblings f None (as @ p # bs)" using Q(1) k(2) by (simp_all add: family_def)
  have D: "x \<in> set as \<Longrightarrow> x \<noteq> p \<and> head bs \<noteq> Some x" "x \<in> set bs \<Longrightarrow> x \<noteq> p \<and> \<not> (as \<noteq> [] \<and> x = last as)" for x
  proof -
    show "x \<noteq> p \<and> head bs \<noteq> Some x" if "x \<in> set as" using that Qf(1) head_mem [of bs x] by auto
    have "last as \<notin> set bs" if "as \<noteq> []" using Qf(1) last_in_set [OF that] by auto
    then show "x \<noteq> p \<and> \<not> (as \<noteq> [] \<and> x = last as)" if "x \<in> set bs" using that Qf(1) by auto
  qed
  have fam: "family g r ((kids(q := as @ bs)) r)" if r: "r \<in> insert idle (set ys)" for r
  proof (cases "r = q")
    case True
    have "siblings g None (as @ bs)"
    proof (rule siblings_remove [OF Qf(3,1)])
      show "yptr (g x) = yptr (f x) \<and> optr (g x) = (if x = last as then head bs else optr (f x))" if "x \<in> set as" for x
        using that D(1) [OF that] g(3,4) [of x] by auto
      show "optr (g x) = optr (f x) \<and> yptr (g x) = (if head bs = Some x then yptr (f p) else yptr (f x))" if "x \<in> set bs" for x
        using D(2) [OF that] g(3,4) [of x] by auto
    qed
    moreover have "cptr (g q) = head (as @ bs)" using Qf(2) g(2) [of q] q(3) by (cases as) auto
    ultimately show ?thesis using True Qf(1) by (simp add: family_def)
  next
    case False
    have r': "r \<in> insert idle (set xs)" "r \<noteq> p" using r ys p by auto
    note R = kids_okD [OF ok r'(1)]
    have "c \<noteq> p \<and> c \<notin> set as \<and> c \<notin> set bs" if "c \<in> set (kids r)" for c
      using that R(2) [of c] Q(2) [of c] False q(1) k(2) by auto
    moreover have "head bs \<noteq> Some c" "\<not> (as \<noteq> [] \<and> c = last as)" if "c \<notin> set as" "c \<notin> set bs" for c
      using that head_mem [of bs c] last_in_set [of as] by auto
    ultimately have "yptr (g c) = yptr (f c) \<and> optr (g c) = optr (f c)" if "c \<in> set (kids r)" for c
      using that g(3,4) [of c] by auto
    then have "family g r (kids r) = family f r (kids r)" using g(2) [of r] r'(2) False by (intro family_cong) simp_all
    then show ?thesis using R(1) False by simp
  qed
  have set: "set ((kids(q := as @ bs)) r) = {c \<in> set ys. parent (g c) = Some r}" if r: "r \<in> insert idle (set ys)" for r
  proof (cases "r = q")
    case True
    have "set (as @ bs) = set (kids q) - {p}" using k(2) Qf(1) by auto
    then show ?thesis using True Q(2) ys g(1) by auto
  next
    case False
    have "r \<in> insert idle (set xs)" using r ys by auto
    note R = kids_okD(2) [OF ok this]
    have "x \<noteq> p" if "parent (f x) = Some r" for x using that q(1) False by auto
    then show ?thesis using R False ys g(1) by auto
  qed
  have "\<exists>r \<in> insert idle (set ys). parent (g c) = Some r \<and> c \<noteq> r" if c: "c \<in> set ys" for c
  proof -
    have c': "c \<in> set xs" "c \<noteq> p" using c ys by auto
    then obtain r where r: "r \<in> insert idle (set xs)" "parent (f c) = Some r" "c \<noteq> r" using ok unfolding kids_ok_def by blast
    have "r \<noteq> p" using kids_okD(2) [OF ok, of p c] p(1) r(2) c'(1) k(1) by auto
    then show ?thesis using r ys g(1) [OF c'(2)] by auto
  qed
  then show ?thesis using fam set unfolding kids_ok_def by blast
qed

lemma remove_links_ok:
  assumes ok: "kids_ok (ptab (psched s)) idle xs kids" and p: "p \<in> set xs" "p \<noteq> idle" "cptr (proc s p) = None" and ys: "set ys = set xs - {p}"
  shows "\<exists>s' q. remove_links s p = kret s' \<and> parent (proc s p) = Some q \<and>
    kids_ok (ptab (psched s')) idle ys (kids(q := remove1 p (kids q))) \<and>
    list_links s' = list_del (list_links s) (Link p) \<and> hash_links s' = hash_links s \<and> nr_process s' = nr_process s - 1 \<and>
    initproc s' = initproc s \<and> next_safe s' = next_safe s \<and> last_pid s' = last_pid s \<and>
    idleproc (psched s') = idleproc (psched s) \<and> current (psched s') = current (psched s) \<and>
    (\<forall>x. pid (proc s' x) = pid (proc s x) \<and> parent (proc s' x) = parent (proc s x) \<and> state (proc s' x) = state (proc s x) \<and>
      pflags (proc s' x) = pflags (proc s x) \<and> (cptr (proc s x) = None \<longrightarrow> cptr (proc s' x) = None)) \<and> optr (proc s' p) = optr (proc s p)"
proof -
  obtain q where q: "q \<in> insert idle (set xs)" "parent (proc s p) = Some q" "p \<noteq> q" using ok p(1) unfolding kids_ok_def by blast
  have "p \<in> set (kids q)" using kids_okD(2) [OF ok q(1)] p(1) q(2) by simp
  then obtain as bs where k: "kids q = as @ p # bs" by (meson split_list)
  have k0: "kids p = []" using kids_okD(1) [OF ok, of p] p by (cases "kids p") (auto simp: family_def)
  have Qf: "distinct (as @ p # bs)" "cptr (proc s q) = head (as @ p # bs)" "siblings (ptab (psched s)) None (as @ p # bs)"
    using kids_okD(1) [OF ok q(1)] k by (simp_all add: family_def)
  have at: "optr (proc s p) = head bs" "yptr (proc s p) = (if as = [] then None else Some (last as))" using siblings_at [OF Qf(3)] by simp_all
  have ne: "head bs \<noteq> Some p" "as \<noteq> [] \<Longrightarrow> last as \<noteq> p" "\<And>r. head bs = Some r \<Longrightarrow> as \<noteq> [] \<Longrightarrow> last as \<noteq> r"
  proof -
    show "head bs \<noteq> Some p" using Qf(1) head_mem [of bs p] by auto
    show "last as \<noteq> p" if "as \<noteq> []" using Qf(1) last_in_set [OF that] by auto
    show "last as \<noteq> r" if "head bs = Some r" "as \<noteq> []" for r using Qf(1) head_mem [OF that(1)] last_in_set [OF that(2)] by auto
  qed
  define s' where "s' = (let s = s\<lparr>list_links := list_del (list_links s) (Link p)\<rparr>;
      s = (case head bs of None \<Rightarrow> s | Some r \<Rightarrow> updp r (\<lambda>x. x\<lparr>yptr := (if as = [] then None else Some (last as))\<rparr>) s);
      s = (if as = [] then updp q (\<lambda>x. x\<lparr>cptr := head bs\<rparr>) s else updp (last as) (\<lambda>x. x\<lparr>optr := head bs\<rparr>) s)
      in s\<lparr>nr_process := nr_process s - 1\<rparr>)"
  have r: "remove_links s p = kret s'"
    using at ne q by (auto simp: remove_links_def s'_def Let_def split: option.splits)
  have S: "parent (proc s' x) = parent (proc s x)" "cptr (proc s' x) = (if x = q \<and> as = [] then head bs else cptr (proc s x))"
      "optr (proc s' x) = (if as \<noteq> [] \<and> x = last as then head bs else optr (proc s x))"
      "yptr (proc s' x) = (if head bs = Some x then yptr (proc s p) else yptr (proc s x))"
      "pid (proc s' x) = pid (proc s x)" "state (proc s' x) = state (proc s x)" "pflags (proc s' x) = pflags (proc s x)" for x
    by (cases "head bs"; cases "as = []"; simp add: s'_def Let_def at(2) updp_keep updp_set del: updp_simps(1); auto)+
  have K: "kids_ok (ptab (psched s')) idle ys (kids(q := as @ bs))"
    by (rule kids_ok_remove [where g = "ptab (psched s')", OF ok p(1,2) q(2,1,3) k0 k ys]) (simp_all only: S)
  have C: "cptr (proc s x) = None \<longrightarrow> cptr (proc s' x) = None" for x using Qf(2) S(2) [of x] by (cases as) auto
  have L: "list_links s' = list_del (list_links s) (Link p)" "hash_links s' = hash_links s" "nr_process s' = nr_process s - 1"
      "initproc s' = initproc s" "next_safe s' = next_safe s" "last_pid s' = last_pid s"
      "idleproc (psched s') = idleproc (psched s)" "current (psched s') = current (psched s)"
    by (cases "head bs"; cases "as = []"; simp add: s'_def Let_def)+
  have "optr (proc s' p) = optr (proc s p)" using S(3) [of p] ne(2) by auto
  moreover have "remove1 p (kids q) = as @ bs" using k Qf(1) by (simp add: remove1_append)
  ultimately show ?thesis using r K C q(2) by (intro exI [of _ s'] exI [of _ q] conjI allI) (simp_all only: L S(1,5-7))
qed

text \<open>While \<^verbatim>\<open>do_exit\<close> hands over the children of \<open>me\<close>, the first of those left has a stale pointer to
  a younger sibling.\<close>

definition kids_moving :: "procs \<Rightarrow> nat \<Rightarrow> nat list \<Rightarrow> (nat \<Rightarrow> nat list) \<Rightarrow> nat \<Rightarrow> bool" where
  "kids_moving f idle xs kids me \<longleftrightarrow>
     (\<forall>q \<in> insert idle (set xs). (if q = me then distinct (kids q) \<and> cptr (f q) = head (kids q) \<and> (\<exists>y. siblings f y (kids q))
        else family f q (kids q)) \<and> set (kids q) = {c \<in> set xs. parent (f c) = Some q}) \<and>
     (\<forall>p \<in> set xs. \<exists>q \<in> insert idle (set xs). parent (f p) = Some q \<and> p \<noteq> q)"

lemma kids_moving_start: "kids_ok f idle xs kids \<Longrightarrow> kids_moving f idle xs kids me"
  by (auto simp: kids_ok_def kids_moving_def family_def)

lemma kids_movingD:
  assumes "kids_moving f idle xs kids me" and "q \<in> insert idle (set xs)"
  shows "q \<noteq> me \<Longrightarrow> family f q (kids q)" "c \<in> set (kids q) \<longleftrightarrow> c \<in> set xs \<and> parent (f c) = Some q"
    "distinct (kids q)" "cptr (f q) = head (kids q)" "\<exists>y. siblings f y (kids q)"
proof -
  have "(if q = me then distinct (kids q) \<and> cptr (f q) = head (kids q) \<and> (\<exists>y. siblings f y (kids q)) else family f q (kids q))"
      "set (kids q) = {c \<in> set xs. parent (f c) = Some q}"
    using assms unfolding kids_moving_def by blast+
  then show "q \<noteq> me \<Longrightarrow> family f q (kids q)" "c \<in> set (kids q) \<longleftrightarrow> c \<in> set xs \<and> parent (f c) = Some q"
    "distinct (kids q)" "cptr (f q) = head (kids q)" "\<exists>y. siblings f y (kids q)" by (auto simp: family_def split: if_splits)
qed

lemma kids_moving_end:
  assumes "kids_moving f idle xs kids me" and "kids me = []"
  shows "kids_ok f idle xs kids"
proof -
  have "family f q (kids q)" if "q \<in> insert idle (set xs)" for q
    using kids_movingD(1,4) [OF assms(1) that] assms(2) by (cases "q = me") (simp_all add: family_def)
  then show ?thesis using assms(1) unfolding kids_ok_def kids_moving_def by blast
qed

lemma kids_move:
  assumes ok: "kids_moving f idle xs kids me" and me: "me \<in> set xs" and i: "i \<in> set xs" "i \<noteq> me" "parent (f i) \<noteq> Some me"
    and k: "kids me = c # cs"
    and g: "\<And>x. parent (g x) = (if x = c then Some i else parent (f x))"
      "\<And>x. cptr (g x) = (if x = i then Some c else if x = me then head cs else cptr (f x))"
      "\<And>x. optr (g x) = (if x = c then head (kids i) else optr (f x))"
      "\<And>x. yptr (g x) = (if x = c then None else if head (kids i) = Some x then Some c else yptr (f x))"
  shows "kids_moving g idle xs (kids(me := cs, i := c # kids i)) me"
proof -
  note M = kids_movingD [OF ok, of me] and I = kids_movingD [OF ok, of i]
  have M': "c \<notin> set cs" "distinct cs" "c \<in> set xs" "parent (f c) = Some me" using M(2) [of c] M(3) k me by auto
  have ci: "c \<noteq> i" using M'(4) i(3) by auto
  have dis: "x \<notin> set (kids i)" if "x \<in> set (kids me)" for x using that M(2) [of x] I(2) [of x] me i by auto
  then have dis': "c \<notin> set (kids i)" "x \<in> set cs \<Longrightarrow> x \<noteq> c \<and> head (kids i) \<noteq> Some x" for x
    using k M'(1) head_mem [of "kids i" x] by auto
  have fam_i: "family g i (c # kids i)"
  proof -
    have F: "siblings f None (kids i)" "distinct (kids i)" using I(1) i by (auto simp: family_def)
    have "siblings g (Some c) (kids i)"
    proof (cases "kids i")
      case (Cons d ds)
      have "siblings g (Some d) ds = siblings f (Some d) ds" using F dis'(1) Cons g(3,4) by (intro siblings_cong) auto
      then show ?thesis using F dis'(1) Cons g(3,4) [of d] by auto
    qed simp
    then show ?thesis using F(2) dis'(1) g(2) [of i] g(3,4) [of c] by (simp add: family_def)
  qed
  have sib_me: "\<exists>y. siblings g y cs"
  proof -
    obtain y where "siblings f y (c # cs)" using M(5) me k by auto
    moreover have "siblings g (Some c) cs = siblings f (Some c) cs" using dis'(2) g(3,4) by (intro siblings_cong) auto
    ultimately show ?thesis by auto
  qed
  have other: "family g q (kids q)" if q: "q \<in> insert idle (set xs)" "q \<noteq> me" "q \<noteq> i" for q
  proof -
    note Q = kids_movingD [OF ok q(1)]
    have "x \<noteq> c \<and> head (kids i) \<noteq> Some x" if "x \<in> set (kids q)" for x
      using that Q(2) [of x] M'(4) I(2) [of x] i(1) q(2,3) head_mem [of "kids i" x] by auto
    then have "family g q (kids q) = family f q (kids q)" using g(2-4) q by (intro family_cong) auto
    then show ?thesis using Q(1) q(2) by simp
  qed
  have set: "set ((kids(me := cs, i := c # kids i)) q) = {d \<in> set xs. parent (g d) = Some q}" if q: "q \<in> insert idle (set xs)" for q
  proof -
    note Q = kids_movingD(2) [OF ok q]
    show ?thesis
    proof (cases "q = i")
      case True
      then show ?thesis using I(2) i(1) M'(3,4) i(2) g(1) by auto
    next
      case False
      have Qs: "set (kids q) = {d \<in> set xs. parent (f d) = Some q}" using Q by auto
      show ?thesis
      proof (cases "q = me")
        case True
        have "set cs = set (kids me) - {c}" using k M'(1) by auto
        then show ?thesis using Qs True False g(1) by auto
      next
        case qm: False
        then show ?thesis using Qs False M'(4) g(1) by auto
      qed
    qed
  qed
  have "\<exists>r \<in> insert idle (set xs). parent (g d) = Some r \<and> d \<noteq> r" if "d \<in> set xs" for d
    using that ok ci i(1) g(1) [of d] unfolding kids_moving_def by (cases "d = c") auto
  moreover have "distinct cs \<and> cptr (g me) = head cs \<and> (\<exists>y. siblings g y cs)" using M'(2) g(2) [of me] i(2) sib_me by simp
  ultimately show ?thesis using fam_i other set i(2) unfolding kids_moving_def by auto
qed

section \<open>Steps\<close>

text \<open>The part of the state that the table is about.\<close>

definition rel :: "proc_struct \<Rightarrow> int \<times> nat option \<times> nat option \<times> nat option \<times> nat option \<times> bool" where
  "rel x = (pid x, parent x, cptr x, yptr x, optr x, state x = PROC_ZOMBIE)"

definition same_table :: "ptable \<Rightarrow> ptable \<Rightarrow> bool" where
  "same_table s s' \<longleftrightarrow> (\<forall>p. rel (proc s' p) = rel (proc s p)) \<and> list_links s' = list_links s \<and> hash_links s' = hash_links s \<and>
     nr_process s' = nr_process s \<and> initproc s' = initproc s \<and> next_safe s' = next_safe s \<and> last_pid s' = last_pid s \<and>
     idleproc (psched s') = idleproc (psched s)"

lemma relD:
  assumes "rel x = rel y"
  shows "pid x = pid y" "parent x = parent y" "cptr x = cptr y" "yptr x = yptr y" "optr x = optr y"
    "state x = PROC_ZOMBIE \<longleftrightarrow> state y = PROC_ZOMBIE"
  using assms by (simp_all add: rel_def)

lemma kids_moving_rel:
  assumes "kids_moving f idle xs kids me" and "\<And>p. rel (g p) = rel (f p)"
  shows "kids_moving g idle xs kids me"
proof -
  have "family g q cs = family f q cs" "siblings g y cs = siblings f y cs" for q y cs
    using relD [OF assms(2)] family_cong [of g q f cs] siblings_cong [of cs g f y] by simp_all
  then show ?thesis using assms(1) unfolding kids_moving_def by (simp only: relD(2,3) [OF assms(2)])
qed

lemma kids_ok_cong:
  assumes "kids_ok f idle xs kids"
    and "\<And>x. parent (g x) = parent (f x) \<and> cptr (g x) = cptr (f x) \<and> yptr (g x) = yptr (f x) \<and> optr (g x) = optr (f x)"
  shows "kids_ok g idle xs kids"
proof -
  have "family g q cs = family f q cs" for q cs using assms(2) by (intro family_cong) simp_all
  then show ?thesis using assms unfolding kids_ok_def by simp
qed

lemma kids_ok_rel: "kids_ok f idle xs kids \<Longrightarrow> (\<And>p. rel (g p) = rel (f p)) \<Longrightarrow> kids_ok g idle xs kids"
  by (rule kids_ok_cong [of f idle xs kids g]) (simp_all add: rel_def)

lemma same_table_ok:
  assumes "table_ok s xs" and "same_table s s'"
  shows "table_ok s' xs"
proof -
  have r: "rel (proc s' p) = rel (proc s p)" for p using assms(2) by (simp add: same_table_def)
  have "hash_ok s' xs" "pids_ok s' xs" using assms relD [OF r] by (simp_all add: table_ok_def same_table_def hash_ok_def pids_ok_def)
  moreover have "\<exists>kids. kids_ok (ptab (psched s')) (idleproc (psched s')) xs kids"
    using assms kids_ok_rel r unfolding table_ok_def same_table_def by metis
  ultimately show ?thesis using assms relD [OF r] by (simp add: table_ok_def same_table_def)
qed

lemma enqueue_rel:
  assumes "cls = default_sched_class \<or> cls = cfs_sched_class" and "sched_class_enqueue cls km c p = kret c'"
  shows "rel (ptab c' q) = rel (ptab c q)" "current c' = current c" "idleproc c' = idleproc c"
proof -
  have "rel (ps' q) = rel (ps q)" if "pq_enqueue i ps n r p = kret (ps', r')" for i ps n r ps' r' q
    using that by (auto simp: pq_enqueue_def kbind_eq_kret Let_def rel_def split: if_splits)
  then show "rel (ptab c' q) = rel (ptab c q)" "current c' = current c" "idleproc c' = idleproc c"
    using assms by (auto simp: sched_class_enqueue_def kbind_eq_kret default_sched_class_def cfs_sched_class_def stride_enqueue_def
        cfs_enqueue_def split: if_splits)
qed

lemma wake_rel:
  assumes cls: "cls = default_sched_class \<or> cls = cfs_sched_class" and w: "wake cls km s p = kret s'"
  shows "same_table s s'" "current (psched s') = current (psched s)"
proof -
  obtain c where c: "wakeup_proc cls km (psched s) p = kret c" "s' = s\<lparr>psched := c\<rparr>" using w by (auto simp: wake_def kbind_eq_kret)
  let ?u = "upd_proc p (\<lambda>x. x\<lparr>state := PROC_RUNNABLE, wait_state := 0\<rparr>) (psched s)"
  have z: "state (proc s p) \<noteq> PROC_ZOMBIE" using c(1) by (auto simp: wakeup_proc_def kassert_def split: if_splits)
  have u: "rel (ptab ?u q) = rel (proc s q)" "current ?u = current (psched s)" "idleproc ?u = idleproc (psched s)" for q
    using z by (simp_all add: upd_proc_def rel_def)
  have "rel (ptab c q) = rel (proc s q) \<and> current c = current (psched s) \<and> idleproc c = idleproc (psched s)" for q
  proof (cases "state (proc s p) = PROC_RUNNABLE")
    case True
    then show ?thesis using c(1) z by (simp add: wakeup_proc_def)
  next
    case False
    show ?thesis
    proof (cases "p = current (psched s)")
      case True
      then have "c = ?u" using c(1) z False by (simp add: wakeup_proc_def Let_def upd_proc_def)
      then show ?thesis using u by simp
    next
      case neq: False
      then have "sched_class_enqueue cls km ?u p = kret c" using c(1) z False by (simp add: wakeup_proc_def Let_def upd_proc_def)
      from enqueue_rel [OF cls this] show ?thesis using u by simp
    qed
  qed
  then show "same_table s s'" "current (psched s') = current (psched s)" by (simp_all add: same_table_def c(2))
qed

lemma exit_children_ok:
  assumes "kids_moving (ptab (psched s)) idle xs kids me" and "me \<in> set xs" and "initproc s \<in> set xs" "initproc s \<noteq> me"
    and "parent (proc s (initproc s)) \<noteq> Some me" and "cls = default_sched_class \<or> cls = cfs_sched_class"
    and "exit_children cls km s me = kret s'"
  shows "(\<exists>kids'. kids_ok (ptab (psched s')) idle xs kids') \<and> cptr (proc s' me) = None \<and>
    list_links s' = list_links s \<and> hash_links s' = hash_links s \<and> nr_process s' = nr_process s \<and> initproc s' = initproc s \<and>
    next_safe s' = next_safe s \<and> last_pid s' = last_pid s \<and> idleproc (psched s') = idleproc (psched s) \<and>
    (\<forall>x. pid (proc s' x) = pid (proc s x) \<and> (state (proc s' x) = PROC_ZOMBIE \<longleftrightarrow> state (proc s x) = PROC_ZOMBIE) \<and>
      (x \<noteq> me \<and> x \<noteq> initproc s \<longrightarrow> cptr (proc s' x) = cptr (proc s x)) \<and>
      (parent (proc s x) \<noteq> Some me \<longrightarrow> parent (proc s' x) = parent (proc s x)))"
  using assms
proof (induction "kids me" arbitrary: s kids)
  case Nil
  have "cptr (proc s me) = None" using kids_movingD(4) [OF Nil(2), of me] Nil(1,3) by simp
  moreover have "s' = s" using Nil(8) calculation by (subst (asm) exit_children.simps) (simp add: kret_def)
  ultimately show ?case using kids_moving_end [OF Nil(2)] Nil(1) by auto
next
  case (Cons c cs)
  let ?i = "initproc s"
  note M = kids_movingD [OF Cons.prems(1), of me] and I = kids_movingD [OF Cons.prems(1), of ?i]
  have c: "cptr (proc s me) = Some c" "optr (proc s c) = head cs" "cptr (proc s ?i) = head (kids ?i)" "c \<noteq> me" "c \<noteq> ?i"
      "parent (proc s c) = Some me"
    using M(2) [of c] M(4,5) I(4) Cons.hyps(2) [symmetric] Cons.prems(1-5) by (auto simp: kids_moving_def)
  have ne: "head (kids ?i) \<noteq> Some c" using I(2) [of c] Cons.prems(3,4) c(6) head_mem [of "kids ?i" c] by auto
  define t where "t = (let s = updp me (\<lambda>x. x\<lparr>cptr := head cs\<rparr>) s; s = updp c (\<lambda>x. x\<lparr>yptr := None\<rparr>) s;
      s = updp c (\<lambda>x. x\<lparr>optr := head (kids ?i)\<rparr>) s;
      s = (case head (kids ?i) of None \<Rightarrow> s | Some r \<Rightarrow> updp r (\<lambda>x. x\<lparr>yptr := Some c\<rparr>) s);
      s = updp c (\<lambda>x. x\<lparr>parent := Some ?i\<rparr>) s in updp ?i (\<lambda>x. x\<lparr>cptr := Some c\<rparr>) s)"
  have T: "parent (proc t x) = (if x = c then Some ?i else parent (proc s x))"
      "cptr (proc t x) = (if x = ?i then Some c else if x = me then head cs else cptr (proc s x))"
      "optr (proc t x) = (if x = c then head (kids ?i) else optr (proc s x))"
      "pid (proc t x) = pid (proc s x)" "state (proc t x) = state (proc s x)" for x
    by (cases "head (kids ?i)"; simp add: t_def Let_def updp_keep updp_set del: updp_simps(1))+
  have Ty: "yptr (proc t x) = (if x = c then None else if head (kids ?i) = Some x then Some c else yptr (proc s x))" for x
    using ne by (cases "head (kids ?i)") (auto simp: t_def Let_def updp_keep updp_set simp del: updp_simps(1))
  have L: "list_links t = list_links s" "hash_links t = hash_links s" "nr_process t = nr_process s" "initproc t = ?i"
      "next_safe t = next_safe s" "last_pid t = last_pid s" "idleproc (psched t) = idleproc (psched s)"
    by (cases "head (kids ?i)"; simp add: t_def Let_def)+
  let ?wake = "if state (proc t c) = PROC_ZOMBIE \<and> wait_state (proc t (initproc t)) = WT_CHILD then wake cls km t (initproc t) else kret t"
  have e: "kbind ?wake (\<lambda>s. exit_children cls km s me) = kret s'"
  proof -
    have "exit_children cls km s me = kbind ?wake (\<lambda>s. exit_children cls km s me)"
      unfolding exit_children.simps [of cls km s me] using c ne Cons.prems(4)
      by (cases "head (kids ?i)") (simp_all add: t_def Let_def updp_keep updp_set del: updp_simps(1))
    then show ?thesis using Cons.prems(7) by simp
  qed
  then obtain u where u: "?wake = kret u" "exit_children cls km u me = kret s'" by (auto simp: kbind_eq_kret)
  have su: "same_table t u"
    using u(1) wake_rel(1) [OF Cons.prems(6), of km t "initproc t" u] by (auto simp: same_table_def kret_def split: if_splits)
  have ru: "rel (proc u x) = rel (proc t x)" for x using su by (simp add: same_table_def)
  note U = relD [OF ru]
  have "kids_moving (ptab (psched t)) idle xs (kids(me := cs, ?i := c # kids ?i)) me"
    by (rule kids_move [OF Cons.prems(1,2,3,4,5) Cons.hyps(2) [symmetric]]) (rule T Ty)+
  then have mv: "kids_moving (ptab (psched u)) idle xs (kids(me := cs, ?i := c # kids ?i)) me" using kids_moving_rel ru by blast
  have ui: "initproc u = ?i" using su L(4) by (simp add: same_table_def)
  have par: "parent (proc u ?i) \<noteq> Some me" using U(2) T(1) [of ?i] c(5) Cons.prems(5) by simp
  note ih = Cons.hyps(1) [OF _ mv Cons.prems(2) _ _ _ Cons.prems(6) u(2), unfolded ui, OF _ Cons.prems(3,4) par]
  show ?case using ih Cons.prems(4) U(1-3,6) T(1,2,4,5) L su c(6) by (simp add: same_table_def)
qed

lemma table_okD:
  assumes "table_ok s xs"
  shows "dlist (list_links s) Head (map Link xs)" "hash_ok s xs" "pids_ok s xs" "nr_process s = int (length xs) + 1"
    "nr_process s \<le> MAX_PROCESS" "idleproc (psched s) \<notin> set xs" "initproc s \<in> set xs"
    "parent (proc s (initproc s)) = Some (idleproc (psched s))" "\<exists>kids. kids_ok (ptab (psched s)) (idleproc (psched s)) xs kids"
    "p \<in> set xs \<Longrightarrow> state (proc s p) = PROC_ZOMBIE \<Longrightarrow> cptr (proc s p) = None" "state (proc s (initproc s)) \<noteq> PROC_ZOMBIE" "distinct xs"
  using assms table_distinct by (auto simp: table_ok_def)

lemma link_proc_ok:
  assumes ok: "table_ok s xs" and p: "p \<notin> insert (idleproc (psched s)) (set xs)" "cptr (proc s p) = None"
    and q: "parent (proc s p) = Some q" "q \<in> insert (idleproc (psched s)) (set xs)" "state (proc s q) \<noteq> PROC_ZOMBIE"
    and n: "nr_process s < MAX_PROCESS"
  shows "\<exists>s'. link_proc s p = kret s' \<and> table_ok s' (p # xs) \<and>
    (\<forall>x. pid (proc s' x) = (if x = p then last_pid s' else pid (proc s x)) \<and> state (proc s' x) = state (proc s x))"
proof -
  note T = table_okD [OF ok]
  let ?idle = "idleproc (psched s)"
  obtain kids0 where "kids_ok (ptab (psched s)) ?idle xs kids0" using T(9) by blast
  then have kids: "kids_ok (ptab (psched s)) ?idle xs (kids0(p := []))" using p(1) by (auto simp: kids_ok_def)
  obtain n s1 where s1: "get_pid s = kret (n, s1)" "s1 = s\<lparr>last_pid := n, next_safe := next_safe s1\<rparr>" "1 \<le> n" "n < MAX_PID"
      "\<forall>x \<in> set xs. pid (proc s x) \<noteq> n" "pids_ok s1 xs"
    using get_pid_ok [OF T(1,3)] T(4,5) by auto
  have E: "psched s1 = psched s" "list_links s1 = list_links s" "hash_links s1 = hash_links s" "nr_process s1 = nr_process s"
      "initproc s1 = initproc s" "last_pid s1 = n" by (subst s1(2), simp)+
  let ?s2 = "updp p (\<lambda>x. x\<lparr>pid := n\<rparr>) s1"
  let ?s3 = "hash_proc ?s2 p"
  have r: "kids_ok (ptab (psched ?s3)) ?idle xs (kids0(p := []))"
    by (rule kids_ok_cong [OF kids]) (simp add: hash_proc_def E)
  have P: "pid (proc ?s3 x) = (if x = p then n else pid (proc s x))" "parent (proc ?s3 x) = parent (proc s x)"
      "state (proc ?s3 x) = state (proc s x)" "cptr (proc ?s3 x) = cptr (proc s x)" for x
    by (auto simp: hash_proc_def E)
  have F: "list_links ?s3 = list_links s" "nr_process ?s3 = nr_process s" "initproc ?s3 = initproc s" "next_safe ?s3 = next_safe s1"
      "last_pid ?s3 = n" "idleproc (psched ?s3) = ?idle"
    by (simp_all add: hash_proc_def E)
  have a: "parent (proc ?s3 p) = Some q" "cptr (proc ?s3 p) = None" "(kids0(p := [])) p = []" using p(2) q(1) P by simp_all
  obtain s' where s': "set_links ?s3 p = kret s'" "kids_ok (ptab (psched s')) ?idle (p # xs) ((kids0(p := []))(q := p # (kids0(p := [])) q))"
      "list_links s' = list_add (list_links s) Head (Link p)" "hash_links s' = hash_links ?s3" "nr_process s' = nr_process s + 1"
      "initproc s' = initproc s" "next_safe s' = next_safe s1" "last_pid s' = n" "idleproc (psched s') = ?idle"
      "\<And>x. pid (proc s' x) = (if x = p then n else pid (proc s x))" "\<And>x. parent (proc s' x) = parent (proc s x)"
      "\<And>x. state (proc s' x) = state (proc s x)" "\<And>x. cptr (proc s' x) = (if x = q then Some p else cptr (proc s x))"
    using set_links_ok [OF r q(2) a(1) p(1) a(3,2), unfolded F P] by blast
  have "dlist (list_links s') Head (map Link (p # xs))"
    using dlist_add_after_head [OF T(1), of "Link p"] p(1) s'(3) by (auto simp: list_add_def)
  moreover have "hash_ok s' (p # xs)"
    using T(2) p(1) s'(4,10) E(3) by (intro hash_ok_add [of s]) (auto simp: hash_proc_def)
  moreover have "pids_ok s' (p # xs)" using s1(3,4,5,6) s'(7,8,10) p(1) E by (auto simp: pids_ok_def inj_on_def)
  moreover have "\<forall>x \<in> set (p # xs). state (proc s' x) = PROC_ZOMBIE \<longrightarrow> cptr (proc s' x) = None"
    using T(10) s'(12,13) p(2) q(3) by auto
  ultimately have "table_ok s' (p # xs)" using T p(1) s' n by (auto simp: table_ok_def)
  then show ?thesis using s1(1) s'(1,8,10,12) by (auto simp: link_proc_def)
qed

lemma reap_ok:
  assumes ok: "table_ok s xs" and k: "kids_ok (ptab (psched s)) (idleproc (psched s)) xs kids" and p: "p \<in> set xs" "p \<noteq> initproc s" "state (proc s p) = PROC_ZOMBIE"
  shows "\<exists>s'. reap s p = kret (exit_code (proc s p), s') \<and> table_ok s' (remove1 p xs) \<and>
    (\<exists>q. parent (proc s p) = Some q \<and> kids_ok (ptab (psched s')) (idleproc (psched s')) (remove1 p xs) (kids(q := remove1 p (kids q)))) \<and> current (psched s') = current (psched s) \<and>
    initproc s' = initproc s \<and> optr (proc s' p) = optr (proc s p) \<and>
    (\<forall>x. pid (proc s' x) = pid (proc s x) \<and> parent (proc s' x) = parent (proc s x) \<and> state (proc s' x) = state (proc s x) \<and>
      pflags (proc s' x) = pflags (proc s x))"
proof -
  note T = table_okD [OF ok]
  let ?idle = "idleproc (psched s)" and ?s = "unhash_proc s p" and ?ys = "remove1 p xs"
  have kids: "kids_ok (ptab (psched ?s)) ?idle xs kids" using k by (simp add: unhash_proc_def)
  have pi: "p \<noteq> ?idle" using p(1) T(6) by auto
  have ys: "set ?ys = set xs - {p}" using T(12) by (simp add: set_remove1_eq)
  have c0: "cptr (proc ?s p) = None" using T(10) [OF p(1,3)] by (simp add: unhash_proc_def)
  obtain s' q where s': "remove_links ?s p = kret s'" "kids_ok (ptab (psched s')) ?idle ?ys (kids(q := remove1 p (kids q)))"
      "list_links s' = list_del (list_links s) (Link p)" "hash_links s' = list_del (hash_links s) (HLink p)" "nr_process s' = nr_process s - 1"
      "initproc s' = initproc s" "next_safe s' = next_safe s" "last_pid s' = last_pid s" "idleproc (psched s') = ?idle"
      "current (psched s') = current (psched s)" "optr (proc s' p) = optr (proc s p)"
      "\<And>x. pid (proc s' x) = pid (proc s x)" "\<And>x. parent (proc s' x) = parent (proc s x)" "\<And>x. state (proc s' x) = state (proc s x)"
      "\<And>x. pflags (proc s' x) = pflags (proc s x)" "\<And>x. cptr (proc s x) = None \<longrightarrow> cptr (proc s' x) = None"
      "parent (proc s p) = Some q"
    using remove_links_ok [OF kids p(1) pi c0 ys] by (auto simp: unhash_proc_def)
  obtain as bs where xs: "xs = as @ p # bs" "p \<notin> set as" using split_list_first [OF p(1)] by blast
  then have yss: "?ys = as @ bs" by (simp add: remove1_append)
  have "dlist (list_links s') Head (map Link ?ys)" using dlist_del [of "list_links s" Head "map Link as" "Link p" "map Link bs"] T(1) xs s'(3) yss by simp
  moreover have "hash_ok s' ?ys" unfolding yss by (rule hash_ok_del [OF T(2,12) [unfolded xs(1)]]) (use s'(4,12) in simp_all)
  moreover have "pids_ok s' ?ys" using T(3) s'(7,8,12) ys by (auto simp: pids_ok_def inj_on_def)
  moreover have "int (length xs) = int (length ?ys) + 1" using xs yss by simp
  moreover have "\<forall>x \<in> set ?ys. state (proc s' x) = PROC_ZOMBIE \<longrightarrow> cptr (proc s' x) = None"
    using T(10) s'(14,16) ys by auto
  ultimately have "table_ok s' ?ys" using T(4-8,11) s' ys p(2) by (auto simp: table_ok_def)
  then show ?thesis using s'(1,2,6,9,10,11-15,17) p(2) pi by (auto simp: reap_def)
qed

lemma exit_notify_ok:
  assumes ok: "table_ok s xs" and me: "current (psched s) \<in> set xs" "current (psched s) \<noteq> initproc s"
    and cls: "cls = default_sched_class \<or> cls = cfs_sched_class" and e: "exit_notify cls km s code = kret s'"
  shows "table_ok s' xs"
proof -
  note T = table_okD [OF ok]
  let ?me = "current (psched s)" and ?idle = "idleproc (psched s)"
  let ?t = "updp ?me (\<lambda>x. x\<lparr>state := PROC_ZOMBIE, exit_code := code\<rparr>) s"
  obtain kids where k: "kids_ok (ptab (psched s)) ?idle xs kids" using T(9) by blast
  have kt: "kids_ok (ptab (psched ?t)) ?idle xs kids" by (rule kids_ok_cong [OF k]) simp
  obtain q u where u: "parent (proc ?t ?me) = Some q"
      "(if wait_state (proc ?t q) = WT_CHILD then wake cls km ?t q else kret ?t) = kret u" "exit_children cls km u ?me = kret s'"
    using e by (auto simp: exit_notify_def Let_def deref_def kbind_eq_kret null_deref_def split: option.splits)
  have su: "same_table ?t u" using u(2) wake_rel(1) [OF cls, of km ?t q u] by (auto simp: same_table_def kret_def split: if_splits)
  have ru: "rel (proc u x) = rel (proc ?t x)" for x using su by (simp add: same_table_def)
  have mv: "kids_moving (ptab (psched u)) ?idle xs kids ?me" using kids_moving_start [OF kids_ok_rel [OF kt ru]] .
  have iu: "initproc u = initproc s" "idleproc (psched u) = ?idle" using su by (simp_all add: same_table_def)
  have pu: "parent (proc u (initproc u)) \<noteq> Some ?me" using relD(2) [OF ru] T(6,8) me(1) iu by auto
  note X = exit_children_ok [OF mv me(1) _ _ pu cls u(3), unfolded iu, OF T(7) me(2) [symmetric]]
  have U: "pid (proc u x) = pid (proc s x)" "parent (proc u x) = parent (proc s x)" "cptr (proc u x) = cptr (proc s x)"
      "state (proc u x) = PROC_ZOMBIE \<longleftrightarrow> x = ?me \<or> state (proc s x) = PROC_ZOMBIE" for x
    using relD [OF ru, of x] by (auto split: if_splits)
  have V: "pid (proc s' x) = pid (proc s x)" "state (proc s' x) = PROC_ZOMBIE \<longleftrightarrow> x = ?me \<or> state (proc s x) = PROC_ZOMBIE"
      "x \<noteq> ?me \<Longrightarrow> x \<noteq> initproc s \<Longrightarrow> cptr (proc s' x) = cptr (proc s x)"
      "parent (proc s x) \<noteq> Some ?me \<Longrightarrow> parent (proc s' x) = parent (proc s x)" "cptr (proc s' ?me) = None" for x
    using X U by simp_all
  have L: "list_links s' = list_links s" "hash_links s' = hash_links s" "nr_process s' = nr_process s" "initproc s' = initproc s"
      "next_safe s' = next_safe s" "last_pid s' = last_pid s" "idleproc (psched s') = ?idle"
    using X su by (simp_all add: same_table_def)
  have hp: "hash_ok s' xs" "pids_ok s' xs" using T(2,3) V(1) L by (simp_all add: hash_ok_def pids_ok_def)
  have pi: "parent (proc s' (initproc s)) = Some ?idle" using V(4) [of "initproc s"] T(6,8) me(1) by (cases "?idle = ?me") simp_all
  have z: "cptr (proc s' x) = None" if "x \<in> set xs" "state (proc s' x) = PROC_ZOMBIE" for x
    using that V(2,3) [of x] V(5) T(10) [of x] T(11) me(2) by (cases "x = ?me"; cases "x = initproc s") auto
  show ?thesis using X T(1,4-7) V(2) [of "initproc s"] T(11) me(2) hp pi z L unfolding table_ok_def by simp
qed

section \<open>Searching for children\<close>

lemma child_loop_ok:
  "siblings (ptab (psched s)) y cs \<Longrightarrow>
    child_loop s (head cs) h = kret (h \<or> cs \<noteq> [], List.find (\<lambda>c. state (proc s c) = PROC_ZOMBIE) cs)"
proof (induction cs arbitrary: y h)
  case Nil
  then show ?case by (subst child_loop.simps) simp
next
  case (Cons c cs)
  have "siblings (ptab (psched s)) (Some c) cs" using Cons.prems by simp
  from Cons.IH [OF this, of True] show ?case using Cons.prems by (subst child_loop.simps) simp
qed

lemma wait_search_ok:
  assumes ok: "table_ok s xs" and k: "kids_ok (ptab (psched s)) (idleproc (psched s)) xs kids"
    and me: "current (psched s) \<in> insert (idleproc (psched s)) (set xs)"
  shows "wait_search s n =
    (if n \<noteq> 0
     then kret (case List.find (\<lambda>p. pid (proc s p) = n) xs of None \<Rightarrow> (False, None)
       | Some p \<Rightarrow> if parent (proc s p) = Some (current (psched s))
           then (True, if state (proc s p) = PROC_ZOMBIE then Some p else None) else (False, None))
     else kret (kids (current (psched s)) \<noteq> [], List.find (\<lambda>c. state (proc s c) = PROC_ZOMBIE) (kids (current (psched s)))))"
proof -
  note T = table_okD [OF ok]
  have "siblings (ptab (psched s)) None (kids (current (psched s)))" "cptr (proc s (current (psched s))) = head (kids (current (psched s)))"
    using kids_okD(1) [OF k me] by (simp_all add: family_def)
  then show ?thesis using find_proc_ok [OF T(2,3), of n] child_loop_ok [of s None "kids (current (psched s))" False]
    by (auto simp: wait_search_def split: option.splits)
qed

lemma wait_found:
  assumes ok: "table_ok s xs" and me: "current (psched s) \<in> insert (idleproc (psched s)) (set xs)" and w: "wait_search s n = kret (h, Some p)"
  shows "p \<in> set xs" "state (proc s p) = PROC_ZOMBIE" "parent (proc s p) = Some (current (psched s))"
proof -
  obtain kids where k: "kids_ok (ptab (psched s)) (idleproc (psched s)) xs kids" using table_okD(9) [OF ok] by blast
  have "p \<in> set xs \<and> state (proc s p) = PROC_ZOMBIE \<and> parent (proc s p) = Some (current (psched s))"
    using w wait_search_ok [OF ok k me, of n] kids_okD(2) [OF k me, of p]
    by (auto simp: kret_def find_Some_iff split: if_splits option.splits)
  then show "p \<in> set xs" "state (proc s p) = PROC_ZOMBIE" "parent (proc s p) = Some (current (psched s))" by auto
qed

lemma do_kill_table:
  assumes "cls = default_sched_class \<or> cls = cfs_sched_class" and "do_kill cls km s n = kret (r, s')"
  shows "same_table s s'"
proof -
  obtain z where z: "find_proc s n = kret z" using assms(2) by (auto simp: do_kill_def kbind_eq_kret)
  have u: "same_table s (updp p (\<lambda>x. x\<lparr>pflags := v\<rparr>) s)" for p v by (auto simp: same_table_def rel_def)
  have tr: "same_table s t \<Longrightarrow> same_table t w \<Longrightarrow> same_table s w" for t w by (simp add: same_table_def)
  have rf: "same_table s s" by (simp add: same_table_def)
  show ?thesis
  proof (cases z)
    case None
    then show ?thesis using assms(2) z rf by (simp add: do_kill_def)
  next
    case (Some p)
    let ?t = "updp p (\<lambda>x. x\<lparr>pflags := pflags x OR PF_EXITING\<rparr>) s"
    have ut: "same_table s ?t" by (auto simp: same_table_def rel_def)
    show ?thesis
      using assms(2) z Some rf ut tr [OF ut] wake_rel(1) [OF assms(1), of km ?t p s']
      by (auto simp: do_kill_def Let_def kbind_eq_kret split: if_splits)
  qed
qed

section \<open>Reachable tables\<close>

definition in_table :: "ptable \<Rightarrow> nat \<Rightarrow> bool" where
  "in_table s p \<longleftrightarrow> (\<exists>xs. dlist (list_links s) Head (map Link xs) \<and> p \<in> set xs)"

inductive pstep :: "sched_class \<Rightarrow> (sched \<Rightarrow> nat option) \<Rightarrow> ptable \<Rightarrow> ptable \<Rightarrow> bool" for cls km where
  alloc: "\<not> in_table s p \<Longrightarrow> p \<noteq> idleproc (psched s) \<Longrightarrow> pstep cls km s (new_proc boot_cr3 s p)"
| fork: "\<not> in_table s p \<Longrightarrow> p \<noteq> idleproc (psched s) \<Longrightarrow> parent (proc s p) = Some (current (psched s)) \<Longrightarrow> cptr (proc s p) = None \<Longrightarrow>
    in_table s (current (psched s)) \<or> current (psched s) = idleproc (psched s) \<Longrightarrow> state (proc s (current (psched s))) \<noteq> PROC_ZOMBIE \<Longrightarrow>
    nr_process s < MAX_PROCESS \<Longrightarrow> link_proc s p = kret s' \<Longrightarrow> pstep cls km s s'"
| exit: "in_table s (current (psched s)) \<Longrightarrow> current (psched s) \<noteq> initproc s \<Longrightarrow> exit_notify cls km s code = kret s' \<Longrightarrow> pstep cls km s s'"
| wait: "in_table s (current (psched s)) \<or> current (psched s) = idleproc (psched s) \<Longrightarrow>
    wait_search s n = kret (h, Some p) \<Longrightarrow> reap s p = kret (code, s') \<Longrightarrow> pstep cls km s s'"
| kill: "do_kill cls km s n = kret (r, s') \<Longrightarrow> pstep cls km s s'"
| other: "same_table s s' \<Longrightarrow> pstep cls km s s'"

lemma in_table_iff:
  assumes "table_ok s xs"
  shows "in_table s p \<longleftrightarrow> p \<in> set xs"
proof -
  have "ys = xs" if "dlist (list_links s) Head (map Link ys)" for ys
  proof -
    have "map Link ys = map Link xs" using dlist_unique [OF that table_okD(1) [OF assms]] .
    then show ?thesis by (simp add: inj_map_eq_map inj_on_def)
  qed
  then show ?thesis using table_okD(1) [OF assms] unfolding in_table_def by blast
qed

lemma new_proc_ok:
  assumes ok: "table_ok s xs" and p: "p \<notin> insert (idleproc (psched s)) (set xs)"
  shows "table_ok (new_proc boot_cr3 s p) xs"
proof -
  let ?s = "new_proc boot_cr3 s p" and ?idle = "idleproc (psched s)"
  note T = table_okD [OF ok]
  have q: "proc ?s x = proc s x" if "x \<in> insert ?idle (set xs)" for x using p that by (auto simp: new_proc_def Let_def)
  have E: "list_links ?s = list_links s" "hash_links ?s = hash_links s" "nr_process ?s = nr_process s" "initproc ?s = initproc s"
      "next_safe ?s = next_safe s" "last_pid ?s = last_pid s" "idleproc (psched ?s) = ?idle"
    by (simp_all add: new_proc_def Let_def updp_def)
  have f: "filter (\<lambda>x. pid_hashfn (pid (proc ?s x)) = b) xs = filter (\<lambda>x. pid_hashfn (pid (proc s x)) = b) xs" for b
    by (rule filter_cong) (simp_all add: q)
  have "hash_ok ?s xs" using T(2) unfolding hash_ok_def E f .
  moreover have "inj_on (\<lambda>x. pid (proc ?s x)) (set xs) = inj_on (\<lambda>x. pid (proc s x)) (set xs)"
    by (rule inj_on_cong) (simp add: q)
  then have "pids_ok ?s xs" using T(3) q unfolding pids_ok_def E by simp
  moreover obtain kids where k: "kids_ok (ptab (psched s)) ?idle xs kids" using T(9) by blast
  have "kids_ok (ptab (psched ?s)) ?idle xs kids"
    unfolding kids_ok_def
  proof (intro conjI ballI)
    fix x assume x: "x \<in> insert ?idle (set xs)"
    then have kx: "family (ptab (psched s)) x (kids x)" "set (kids x) = {c \<in> set xs. parent (proc s c) = Some x}"
      using k unfolding kids_ok_def by blast+
    then show "set (kids x) = {c \<in> set xs. parent (proc ?s c) = Some x}" using q by auto
    show "family (ptab (psched ?s)) x (kids x)"
      using kx family_cong [of "ptab (psched ?s)" x "ptab (psched s)" "kids x"] q x by auto
  next
    fix x assume "x \<in> set xs"
    then show "\<exists>y \<in> insert ?idle (set xs). parent (proc ?s x) = Some y \<and> x \<noteq> y" using k q [of x] unfolding kids_ok_def by auto
  qed
  ultimately show ?thesis using T q [of "initproc s"] q unfolding table_ok_def E by auto
qed

lemma pstep_ok:
  assumes cls: "cls = default_sched_class \<or> cls = cfs_sched_class" and st: "pstep cls km s s'" and ok: "table_ok s xs"
  shows "\<exists>xs'. table_ok s' xs'"
  using st
proof cases
  case (alloc p boot_cr3)
  then show ?thesis using new_proc_ok [OF ok, of p boot_cr3] in_table_iff [OF ok] by auto
next
  case (fork p)
  have i: "in_table s x \<longleftrightarrow> x \<in> set xs" for x using in_table_iff [OF ok] .
  obtain s1 where "link_proc s p = kret s1" "table_ok s1 (p # xs)"
    using link_proc_ok [OF ok _ fork(4) fork(3) _ fork(6,7)] fork(1,2,5) i by auto
  then show ?thesis using fork(8) by (auto simp: kret_def)
next
  case (exit code)
  then show ?thesis using exit_notify_ok [OF ok _ exit(2) cls exit(3)] in_table_iff [OF ok] by auto
next
  case (wait n h p code)
  have me: "current (psched s) \<in> insert (idleproc (psched s)) (set xs)" using wait(1) in_table_iff [OF ok] by auto
  note W = wait_found [OF ok me wait(2)]
  have "p \<noteq> initproc s" using wait(3) by (auto simp: reap_def kpanic_def kret_def split: if_splits)
  moreover obtain kids where "kids_ok (ptab (psched s)) (idleproc (psched s)) xs kids" using table_okD(9) [OF ok] by blast
  ultimately obtain s1 where "reap s p = kret (exit_code (proc s p), s1)" "table_ok s1 (remove1 p xs)"
    using reap_ok [OF ok _ W(1) _ W(2)] by blast
  then show ?thesis using wait(3) by (auto simp: kret_def)
next
  case (kill n r)
  then show ?thesis using same_table_ok [OF ok] do_kill_table [OF cls kill] by blast
next
  case other
  then show ?thesis using same_table_ok [OF ok] by blast
qed

section \<open>Waiting for a child\<close>

lemma kill_zombies:
  assumes "table_ok u zs" and "kids_ok (ptab (psched u)) (idleproc (psched u)) zs kids" and "current (psched u) = me" "me \<in> set zs"
    and "kids me = as @ ds"
  shows "\<exists>u' zs'. wait_loop resched u (KillZombies (head ds)) = kret (Returns 0 None, u') \<and> table_ok u' zs' \<and>
    current (psched u') = me \<and> set zs' = set zs - {d \<in> set ds. state (proc u d) = PROC_ZOMBIE} \<and>
    (\<forall>x. pid (proc u' x) = pid (proc u x) \<and> pflags (proc u' x) = pflags (proc u x))"
  using assms
proof (induction ds arbitrary: u zs kids as)
  case Nil
  then show ?case by (subst wait_loop.simps) auto
next
  case (Cons d ds)
  note T = table_okD [OF Cons.prems(1)]
  have me: "me \<in> insert (idleproc (psched u)) (set zs)" using Cons.prems(4) by simp
  note K = kids_okD [OF Cons.prems(2) me]
  have d: "d \<in> set zs" "parent (proc u d) = Some me" using K(2) [of d] Cons.prems(5) by auto
  have o: "optr (proc u d) = head ds" "distinct (as @ d # ds)" using K(1) Cons.prems(5) siblings_at by (force simp: family_def)+
  show ?case
  proof (cases "state (proc u d) = PROC_ZOMBIE")
    case False
    obtain u' zs' where ih: "wait_loop resched u (KillZombies (head ds)) = kret (Returns 0 None, u')" "table_ok u' zs'" "current (psched u') = me"
        "set zs' = set zs - {d \<in> set ds. state (proc u d) = PROC_ZOMBIE}"
        "\<forall>x. pid (proc u' x) = pid (proc u x) \<and> pflags (proc u' x) = pflags (proc u x)"
      using Cons.IH [OF Cons.prems(1-4), of "as @ [d]"] Cons.prems(5) by auto
    have "{x \<in> set (d # ds). state (proc u x) = PROC_ZOMBIE} = {x \<in> set ds. state (proc u x) = PROC_ZOMBIE}" using False by auto
    then show ?thesis using ih False o(1) by (subst wait_loop.simps) auto
  next
    case True
    have di: "d \<noteq> initproc u" using T(6,8) Cons.prems(4) d(2) by auto
    obtain u1 where u1: "reap u d = kret (exit_code (proc u d), u1)" "table_ok u1 (remove1 d zs)" "current (psched u1) = me"
        "kids_ok (ptab (psched u1)) (idleproc (psched u1)) (remove1 d zs) (kids(me := remove1 d (kids me)))"
        "optr (proc u1 d) = head ds" "\<And>x. pid (proc u1 x) = pid (proc u x)" "\<And>x. state (proc u1 x) = state (proc u x)"
        "\<And>x. pflags (proc u1 x) = pflags (proc u x)"
      using reap_ok [OF Cons.prems(1,2) d(1) di True] d(2) o(1) Cons.prems(3) by auto
    have n: "pid (proc u d) \<noteq> 0" using T(3) d(1) by (force simp: pids_ok_def)
    have "wait_search u (pid (proc u d)) = kret (True, Some d)"
      using wait_search_ok [OF Cons.prems(1,2)] me Cons.prems(3) n find_pid [OF T(3) d(1)] d(2) True by simp
    then have w: "wait_loop resched u (DoWait (pid (proc u d))) = kret (Returns 0 (Some (exit_code (proc u d))), u1)"
      using u1(1) by (subst wait_loop.simps) simp
    have z: "set (remove1 d zs) = set zs - {d}" using T(12) by (simp add: set_remove1_eq)
    have k1: "(kids(me := remove1 d (kids me))) me = as @ ds" using Cons.prems(5) o(2) by (simp add: remove1_append)
    have "me \<noteq> d" using Cons.prems(2) d unfolding kids_ok_def by force
    then have m1: "me \<in> set (remove1 d zs)" using z Cons.prems(4) by simp
    obtain u' zs' where ih: "wait_loop resched u1 (KillZombies (head ds)) = kret (Returns 0 None, u')" "table_ok u' zs'" "current (psched u') = me"
        "set zs' = set (remove1 d zs) - {d \<in> set ds. state (proc u1 d) = PROC_ZOMBIE}"
        "\<forall>x. pid (proc u' x) = pid (proc u1 x) \<and> pflags (proc u' x) = pflags (proc u1 x)"
      using Cons.IH [OF u1(2,4,3) m1 k1] by auto
    have "set zs' = set zs - {x \<in> set (d # ds). state (proc u x) = PROC_ZOMBIE}" using ih(4) z u1(7) True by auto
    moreover have "wait_loop resched u (KillZombies (head (d # ds))) = kret (Returns 0 None, u')"
      using True w u1(5) ih(1) by (subst wait_loop.simps) simp
    ultimately show ?thesis using ih(2,3,5) u1(6,8) by auto
  qed
qed

lemma wait_gone:
  assumes "table_ok s xs" and "current (psched s) \<in> set xs" and "n \<noteq> 0" and "\<And>p. p \<in> set xs \<Longrightarrow> pid (proc s p) \<noteq> n"
  shows "wait_loop resched s (DoWait n) = kret (Returns (- E_BAD_PROC) None, s)"
proof -
  obtain kids where k: "kids_ok (ptab (psched s)) (idleproc (psched s)) xs kids" using table_okD(9) [OF assms(1)] by blast
  have "List.find (\<lambda>p. pid (proc s p) = n) xs = None" using assms(4) by (auto simp: find_None_iff)
  then have "wait_search s n = kret (False, None)" using wait_search_ok [OF assms(1) k, of n] assms(2,3) by simp
  then show ?thesis by (subst wait_loop.simps) simp
qed

section \<open>Properties\<close>

text \<open>C23. \<^verbatim>\<open>get_pid\<close> returns on every table of processes, with a number between 1 and \<^verbatim>\<open>MAX_PID\<close> that
  no process has, and it leaves its static variables fit for the next call.\<close>

theorem get_pid_correct:
  assumes "table_ok s xs"
  shows "\<exists>n s'. get_pid s = kret (n, s') \<and> 1 \<le> n \<and> n < MAX_PID \<and> (\<forall>p \<in> set xs. pid (proc s p) \<noteq> n) \<and> table_ok s' xs"
proof -
  note T = table_okD [OF assms]
  obtain n s' where g: "get_pid s = kret (n, s')" "s' = s\<lparr>last_pid := n, next_safe := next_safe s'\<rparr>" "1 \<le> n" "n < MAX_PID"
      "\<forall>p \<in> set xs. pid (proc s p) \<noteq> n" "pids_ok s' xs"
    using get_pid_ok [OF T(1,3)] T(4,5) by auto
  have E: "psched s' = psched s" "list_links s' = list_links s" "hash_links s' = hash_links s" "nr_process s' = nr_process s"
      "initproc s' = initproc s" by (subst g(2), simp)+
  have "table_ok s' xs" using assms g(6) E by (simp add: table_ok_def hash_ok_def)
  then show ?thesis using g by blast
qed

text \<open>C9. The table of processes stays well formed: whatever sequence of allocations of descriptors, forks, exits, waits, kills and other
  actions that leave the table alone the kernel goes through, the list of all processes, the hash lists, the process numbers, the
  count of processes and the pointers between parents, children and siblings describe one and the same set of
  processes.\<close>

theorem ptable_invariant:
  assumes "cls = default_sched_class \<or> cls = cfs_sched_class" and "table_ok s xs" and "(pstep cls km)\<^sup>*\<^sup>* s s'"
  shows "\<exists>xs'. table_ok s' xs'"
  using assms(3,2)
proof (induction arbitrary: xs rule: rtranclp_induct)
  case base
  then show ?case by blast
next
  case (step t u)
  then show ?case using pstep_ok [OF assms(1) step.hyps(2)] by blast
qed

text \<open>C32. A process that has to sleep in \<^verbatim>\<open>do_wait\<close> for a child does not get its exit code: when the child has
  become a zombie and the parent runs again, the parent first removes all its zombies without storing their exit
  codes, then no longer finds the child and returns \<open>- E_BAD_PROC\<close>.\<close>

theorem do_wait_loses_child:
  assumes ok: "table_ok s xs" and me: "current (psched s) = me" "me \<in> set xs"
    and p: "p \<in> set xs" "parent (proc s p) = Some me" "state (proc s p) \<noteq> PROC_ZOMBIE" "pid (proc s p) = n"
    and r: "resched (updp me (\<lambda>x. x\<lparr>state := PROC_SLEEPING, wait_state := WT_CHILD\<rparr>) s) = kret t"
    and t: "table_ok t ys" "current (psched t) = me" "me \<in> set ys" "pflags (proc t me) AND PF_EXITING = 0"
    and z: "p \<in> set ys" "parent (proc t p) = Some me" "state (proc t p) = PROC_ZOMBIE" "pid (proc t p) = n"
  shows "\<exists>t'. do_wait resched s n = kret (Returns (- E_BAD_PROC) None, t')"
proof -
  obtain kids where k: "kids_ok (ptab (psched s)) (idleproc (psched s)) xs kids" using table_okD(9) [OF ok] by blast
  obtain kidt where kt: "kids_ok (ptab (psched t)) (idleproc (psched t)) ys kidt" using table_okD(9) [OF t(1)] by blast
  have n: "n \<noteq> 0" using table_okD(3) [OF ok] p(1,4) by (force simp: pids_ok_def)
  have "wait_search s n = kret (True, None)"
    using wait_search_ok [OF ok k, of n] me n find_pid [OF table_okD(3) [OF ok] p(1)] p by simp
  moreover obtain u zs where u: "wait_loop resched t (KillZombies (head (kidt me))) = kret (Returns 0 None, u)" "table_ok u zs"
      "current (psched u) = me" "set zs = set ys - {d \<in> set (kidt me). state (proc t d) = PROC_ZOMBIE}"
      "\<forall>x. pid (proc u x) = pid (proc t x) \<and> pflags (proc u x) = pflags (proc t x)"
    using kill_zombies [OF t(1) kt t(2,3), of "[]" "kidt me" resched] by auto
  moreover have c: "cptr (proc t me) = head (kidt me)" using kids_okD(1) [OF kt, of me] t(3) by (simp add: family_def)
  moreover have "p \<in> set (kidt me)" using kids_okD(2) [OF kt, of me p] t(3) z by simp
  then have "p \<notin> set zs" using u(4) z(3) by simp
  then have "pid (proc u x) \<noteq> n" if "x \<in> set zs" for x
    using that u(4,5) z(1,4) table_okD(3) [OF t(1)] by (auto simp: pids_ok_def inj_on_def)
  moreover have "me \<in> set zs" using u(4) t(3) kids_okD(2) [OF kt, of me me] kt by (auto simp: kids_ok_def)
  ultimately show ?thesis using wait_gone [OF u(2) _ n, of resched] r t(2,4) me(1)
    unfolding do_wait_def by (subst wait_loop.simps) (simp add: Let_def)
qed

text \<open>The idle process 0, \<^verbatim>\<open>initproc\<close> 1, which is running, and its child 2, which may be a zombie; 3 is a descriptor
  that is not linked in yet.\<close>

definition demo_procs :: "bool \<Rightarrow> procs" where
  "demo_procs z = (\<lambda>p. blank_proc\<lparr>pid := int p, parent := (if p = 0 then None else if p = 1 then Some 0 else Some 1),
     cptr := (if p = 0 then Some 1 else if p = 1 then Some 2 else None), yptr := None, optr := None,
     state := (if p = 2 \<and> z then PROC_ZOMBIE else PROC_RUNNABLE)\<rparr>)"

definition demo_table :: "bool \<Rightarrow> ptable" where
  "demo_table z = \<lparr>psched = small_sched\<lparr>ptab := demo_procs z\<rparr>,
     list_links = list_add (list_add \<lparr>lnext = id, lprev = id\<rparr> Head (Link 1)) Head (Link 2),
     hash_links = list_add (list_add \<lparr>lnext = id, lprev = id\<rparr> (Bucket (pid_hashfn 1)) (HLink 1)) (Bucket (pid_hashfn 2)) (HLink 2),
     nr_process = 3, initproc = 1, next_safe = 8192, last_pid = 2\<rparr>"

lemma demo_table_ok: "table_ok (demo_table z) [2, 1]"
proof -
  let ?l0 = "\<lparr>lnext = id, lprev = id\<rparr> :: lnode links" and ?h0 = "\<lparr>lnext = id, lprev = id\<rparr> :: hnode links"
  let ?s = "demo_table z"
  let ?kids = "\<lambda>p :: nat. if p = 0 then [1] else if p = 1 then [2] else [] :: nat list"
  have "dlist ?l0 Head []" by (simp add: dlist_def)
  then have "dlist (list_add ?l0 Head (Link 1)) Head [Link 1]" using dlist_add_after_head [of ?l0 Head "[]" "Link 1"] by (simp add: list_add_def)
  then have l: "dlist (list_links ?s) Head (map Link [2, 1])"
    using dlist_add_after_head [of "list_add ?l0 Head (Link 1)" Head "[Link 1]" "Link 2"] by (simp add: list_add_def demo_table_def)
  have "hash_ok (?s\<lparr>hash_links := ?h0\<rparr>) []" by (simp add: hash_ok_def dlist_def)
  then have "hash_ok (?s\<lparr>hash_links := list_add ?h0 (Bucket (pid_hashfn 1)) (HLink 1)\<rparr>) [1]"
    by (rule hash_ok_add) (simp_all add: demo_table_def demo_procs_def)
  then have h: "hash_ok ?s [2, 1]" by (rule hash_ok_add) (simp_all add: demo_table_def demo_procs_def)
  have p: "pids_ok ?s [2, 1]" by (simp add: pids_ok_def demo_table_def demo_procs_def)
  have "kids_ok (demo_procs z) 0 [2, 1] ?kids" by (auto simp: kids_ok_def family_def demo_procs_def)
  then show ?thesis using l h p unfolding table_ok_def by (auto simp: demo_table_def demo_procs_def small_sched_def)
qed

theorem get_pid_correct_witness: "\<exists>n s'. get_pid (demo_table False) = kret (n, s') \<and> n \<noteq> 1 \<and> n \<noteq> 2"
  using get_pid_correct [OF demo_table_ok [of False]] by (auto simp: demo_table_def demo_procs_def)

theorem ptable_invariant_witness:
  "\<exists>s' xs'. link_proc (new_proc 0 (demo_table False) 3) 3 = kret s' \<and> table_ok s' xs'"
proof -
  let ?t = "demo_table False"
  let ?s = "new_proc 0 ?t 3" and ?step = "pstep default_sched_class fresh_node"
  have f: "idleproc (psched ?t) = 0" "current (psched ?s) = 1" "idleproc (psched ?s) = 0" "nr_process ?s = 3"
      "parent (proc ?s 3) = Some 1" "cptr (proc ?s 3) = None" "state (proc ?s 1) = PROC_RUNNABLE"
    by (simp_all add: demo_table_def small_sched_def new_proc_def updp_def upd_proc_def init_proc_def demo_procs_def)
  have ok: "table_ok ?s [2, 1]" by (rule new_proc_ok [OF demo_table_ok]) (simp add: f(1))
  have i: "in_table ?t x \<longleftrightarrow> x \<in> {2, 1}" "in_table ?s x \<longleftrightarrow> x \<in> {2, 1}" for x
    using in_table_iff [OF demo_table_ok, of False x] in_table_iff [OF ok, of x] by simp_all
  have 1: "?step ?t ?s" by (rule pstep.alloc) (simp_all add: i f)
  obtain s' where s': "link_proc ?s 3 = kret s'" using link_proc_ok [OF ok, of 3 1] f by auto
  then have 2: "?step ?s s'" by (intro pstep.fork [of ?s 3]) (simp_all add: i f del: One_nat_def)
  from 1 2 have "?step\<^sup>*\<^sup>* ?t s'" by simp
  then show ?thesis using ptable_invariant [OF disjI1 [OF refl] demo_table_ok, of fresh_node False s'] s' by blast
qed

theorem do_wait_loses_child_witness:
  "\<exists>t'. do_wait (\<lambda>_. kret (demo_table True)) (demo_table False) 2 = kret (Returns (- E_BAD_PROC) None, t')"
proof -
  have f: "current (psched (demo_table z)) = 1" "proc (demo_table z) = demo_procs z" for z by (simp_all add: demo_table_def small_sched_def)
  show ?thesis
    by (rule do_wait_loses_child [OF demo_table_ok [of False] f(1) _ _ _ _ _ refl demo_table_ok [of True] f(1), where p = 2])
      (simp_all add: f(2) demo_procs_def blank_proc_def init_proc_def)
qed

end
