(* ===== verification/Bitmap.thy ===== *)
theory Bitmap
  imports Prelude
begin

text \<open>
  The bitmap of the simple file system, \<^verbatim>\<open>kern/fs/sfs/bitmap.c\<close>: an array of 32-bit words
  in which a set bit is a free block.  The answers of \<^verbatim>\<open>kmalloc\<close> are arguments of
  \<^verbatim>\<open>bitmap_create\<close>.  The lemmas read the array as the set of its free indices.
\<close>

section \<open>Operations\<close>

record bitmap =
  nbits :: u32
  nwords :: u32
  bmap :: "u32 list"

text \<open>The loop that clears the bits behind the last one.\<close>

function clear_over :: "u32 \<Rightarrow> nat \<Rightarrow> u32" where
  "clear_over w overbits =
     (if overbits < 32 then clear_over (w XOR push_bit overbits 1) (overbits + 1) else w)"
  by auto
termination by (relation "measure (\<lambda>(w, n). 32 - n)") auto

declare clear_over.simps [simp del]

definition bitmap_create :: "bool \<Rightarrow> bool \<Rightarrow> u32 \<Rightarrow> bitmap option prog" where
  "bitmap_create km_bitmap km_map n =
     kassert (n \<noteq> 0 \<and> n + 32 > n)
       (if \<not> km_bitmap then kret None
        else let nw = ROUNDUP_DIV n 32 in
          if \<not> km_map then kret None
          else let m = replicate (unat nw) (- 1) in
            if n \<noteq> nw * 32
            then let ix = nw - 1; overbits = n - ix * 32 in
                 kassert (n div 32 = ix)
                   (kassert (overbits > 0 \<and> overbits < 32)
                     (kret (Some \<lparr>nbits = n, nwords = nw,
                        bmap = m[unat ix := clear_over (m ! unat ix) (unat overbits)]\<rparr>)))
            else kret (Some \<lparr>nbits = n, nwords = nw, bmap = m\<rparr>))"

function find_bit :: "u32 \<Rightarrow> nat \<Rightarrow> nat option" where
  "find_bit w offset =
     (if offset < 32
      then if w AND push_bit offset 1 \<noteq> 0 then Some offset else find_bit w (offset + 1)
      else None)"
  by auto
termination by (relation "measure (\<lambda>(w, n). 32 - n)") auto

declare find_bit.simps [simp del]

function alloc_loop :: "bitmap \<Rightarrow> u32 \<Rightarrow> (bitmap \<times> (int + u32)) prog" where
  "alloc_loop bm ix =
     (if ix < nwords bm
      then let w = bmap bm ! unat ix in
           if w \<noteq> 0
           then case find_bit w 0 of
                  Some offset \<Rightarrow>
                    kret (bm\<lparr>bmap := (bmap bm)[unat ix := w XOR push_bit offset 1]\<rparr>,
                          Inr (ix * 32 + of_nat offset))
                | None \<Rightarrow> kpanic AssertFail
           else alloc_loop bm (ix + 1)
      else kret (bm, Inl (- E_NO_MEM)))"
  by auto
termination
proof (relation "measure (\<lambda>(bm, ix). unat (nwords bm) - unat ix)")
  fix bm :: bitmap and ix :: u32 and w
  assume "ix < nwords bm"
  then have "unat ix < unat (nwords bm)" "unat (ix + 1) = unat ix + 1"
    by (simp_all add: word_less_nat_alt unat_inc)
  then show "((bm, ix + 1), (bm, ix)) \<in> measure (\<lambda>(bm, ix). unat (nwords bm) - unat ix)"
    by simp
qed simp

declare alloc_loop.simps [simp del]

definition bitmap_alloc :: "bitmap \<Rightarrow> (bitmap \<times> (int + u32)) prog" where
  "bitmap_alloc bm = alloc_loop bm 0"

definition bitmap_translate :: "bitmap \<Rightarrow> u32 \<Rightarrow> (nat \<times> u32) prog" where
  "bitmap_translate bm index =
     kassert (index < nbits bm)
       (kret (unat (index div 32), push_bit (unat (index mod 32)) 1))"

definition bitmap_test :: "bitmap \<Rightarrow> u32 \<Rightarrow> bool prog" where
  "bitmap_test bm index =
     kbind (bitmap_translate bm index) (\<lambda>(word, mask). kret (bmap bm ! word AND mask \<noteq> 0))"

definition bitmap_free :: "bitmap \<Rightarrow> u32 \<Rightarrow> bitmap prog" where
  "bitmap_free bm index =
     kbind (bitmap_translate bm index) (\<lambda>(word, mask).
       kassert (bmap bm ! word AND mask = 0)
         (kret (bm\<lparr>bmap := (bmap bm)[word := bmap bm ! word OR mask]\<rparr>)))"

definition bitmap_getdata :: "bitmap \<Rightarrow> u32 list \<times> u32" where
  "bitmap_getdata bm = (bmap bm, 4 * nwords bm)"

section \<open>Single words\<close>

lemma and_push_one: "k < 32 \<Longrightarrow> (w :: u32) AND push_bit k 1 \<noteq> 0 \<longleftrightarrow> bit w k"
  using bit_eq_iff [of "w AND push_bit k 1" 0] by (auto simp: bit_and_iff)

lemma bit_clear_over:
  "bit (clear_over w k) n \<longleftrightarrow> (if k \<le> n then \<not> bit w n \<and> n < 32 else bit w n)"
proof (induction w k rule: clear_over.induct)
  case (1 w k)
  show ?case
  proof (cases "k < 32")
    case True
    then have "bit (clear_over w k) n = bit (clear_over (w XOR push_bit k 1) (k + 1)) n"
      by (simp add: clear_over.simps [of w k])
    then show ?thesis
      using 1 [OF True] True by (auto simp: bit_xor_iff)
  next
    case False
    then show ?thesis by (auto simp: clear_over.simps [of w k] dest: bit_imp_le_length)
  qed
qed

lemma find_bit_SomeD:
  "find_bit w k = Some n \<Longrightarrow> k \<le> n \<and> n < 32 \<and> bit w n \<and> (\<forall>m. k \<le> m \<and> m < n \<longrightarrow> \<not> bit w m)"
proof (induction w k rule: find_bit.induct)
  case (1 w k)
  show ?case
  proof (cases "k < 32 \<and> w AND push_bit k 1 = 0")
    case True
    then have n: "k + 1 \<le> n \<and> n < 32 \<and> bit w n \<and> (\<forall>m. k + 1 \<le> m \<and> m < n \<longrightarrow> \<not> bit w m)"
      using 1 by (simp add: find_bit.simps [of w k])
    moreover have "\<not> bit w k" using True and_push_one by blast
    ultimately have "\<not> bit w m" if "k \<le> m" "m < n" for m
      using that by (cases "m = k") auto
    then show ?thesis using n by auto
  next
    case False
    then show ?thesis
      using 1(2) and_push_one [of k w] by (auto simp: find_bit.simps [of w k] split: if_splits)
  qed
qed

lemma find_bit_NoneD: "find_bit w k = None \<Longrightarrow> k \<le> n \<Longrightarrow> n < 32 \<Longrightarrow> \<not> bit w n"
proof (induction w k rule: find_bit.induct)
  case (1 w k)
  then have z: "k < 32" "w AND push_bit k 1 = 0" "find_bit w (k + 1) = None"
    by (auto simp: find_bit.simps [of w k] split: if_splits)
  show ?case
  proof (cases "n = k")
    case True
    then show ?thesis using z and_push_one by blast
  next
    case False
    then show ?thesis using 1(1) z 1(3,4) by simp
  qed
qed

lemma find_bit_nonzero: "w \<noteq> 0 \<Longrightarrow> \<exists>n. find_bit w 0 = Some n"
proof (rule ccontr)
  assume "w \<noteq> 0" and "\<nexists>n. find_bit w 0 = Some n"
  then have "\<not> bit w n" for n
    using find_bit_NoneD [of w 0 n] bit_imp_le_length [of w n] by (cases "n < 32") auto
  then show False using \<open>w \<noteq> 0\<close> by (simp add: bit_eq_iff)
qed

section \<open>The bitmap as a set of free indices\<close>

definition free_bits :: "bitmap \<Rightarrow> nat set" where
  "free_bits bm = {i. i < 32 * length (bmap bm) \<and> bit (bmap bm ! (i div 32)) (i mod 32)}"

definition bitmap_ok :: "bitmap \<Rightarrow> bool" where
  "bitmap_ok bm \<longleftrightarrow>
     length (bmap bm) = unat (nwords bm) \<and> unat (nwords bm) = (unat (nbits bm) + 31) div 32 \<and>
     unat (nbits bm) + 32 < 2 ^ 32 \<and> free_bits bm \<subseteq> {..<unat (nbits bm)}"

lemma free_bits_update:
  assumes "ix < length (bmap bm)"
  shows "i \<in> free_bits (bm\<lparr>bmap := (bmap bm)[ix := w]\<rparr>) \<longleftrightarrow>
    (if i div 32 = ix then bit w (i mod 32) else i \<in> free_bits bm)"
  using assms by (auto simp: free_bits_def nth_list_update)

lemma index_split: "i = 32 * q + r \<longleftrightarrow> i div 32 = q \<and> i mod 32 = r" if "r < 32" for i q r :: nat
  using that by auto

lemma free_bits_word:
  assumes "ix < length (bmap bm)" and "k < 32"
  shows "32 * ix + k \<in> free_bits bm \<longleftrightarrow> bit (bmap bm ! ix) k"
  using assms by (auto simp: free_bits_def)

lemma alloc_loop_ok:
  assumes len: "length (bmap bm) = unat (nwords bm)" and small: "unat (nwords bm) * 32 < 2 ^ 32"
    and none: "\<And>i. i < 32 * unat ix \<Longrightarrow> i \<notin> free_bits bm"
  shows "(free_bits bm = {} \<and> alloc_loop bm ix = kret (bm, Inl (- E_NO_MEM))) \<or>
    (\<exists>bm' i. alloc_loop bm ix = kret (bm', Inr i) \<and> unat i \<in> free_bits bm \<and>
      (\<forall>j \<in> free_bits bm. unat i \<le> j) \<and> free_bits bm' = free_bits bm - {unat i} \<and>
      bm' = bm\<lparr>bmap := (bmap bm)[unat (i div 32) :=
        bmap bm ! unat (i div 32) XOR push_bit (unat (i mod 32)) 1]\<rparr>)"
  using none
proof (induction "unat (nwords bm) - unat ix" arbitrary: ix)
  case 0
  then have "\<not> ix < nwords bm" by (simp add: word_less_nat_alt)
  moreover have "free_bits bm = {}" using 0 len by (fastforce simp: free_bits_def)
  ultimately show ?case by (simp add: alloc_loop.simps [of bm ix])
next
  case (Suc d)
  then have lt: "ix < nwords bm" by (simp add: word_less_nat_alt)
  then have ix: "ix < nwords bm" "unat ix < length (bmap bm)" "unat (ix + 1) = unat ix + 1"
    using unat_inc [OF lt] by (simp_all add: word_less_nat_alt len)
  let ?w = "bmap bm ! unat ix"
  show ?case
  proof (cases "?w = 0")
    case True
    have "i \<notin> free_bits bm" if "i < 32 * unat (ix + 1)" for i
    proof (cases "i < 32 * unat ix")
      case False
      then have "i div 32 = unat ix" using that ix(3) by simp
      then show ?thesis using True by (simp add: free_bits_def)
    qed (use Suc.prems in blast)
    moreover have "d = unat (nwords bm) - unat (ix + 1)" using Suc.hyps(2) ix(3) by simp
    ultimately show ?thesis using Suc.hyps(1) [of "ix + 1"] True ix(1)
      by (simp add: alloc_loop.simps [of bm ix])
  next
    case False
    then obtain n where n: "find_bit ?w 0 = Some n" using find_bit_nonzero by blast
    note nD = find_bit_SomeD [OF n]
    let ?i = "ix * 32 + of_nat n" and ?bm = "bm\<lparr>bmap := (bmap bm)[unat ix := ?w XOR push_bit n 1]\<rparr>"
    have run: "alloc_loop bm ix = kret (?bm, Inr ?i)"
      using False ix(1) n by (simp add: alloc_loop.simps [of bm ix])
    have un: "unat (of_nat n :: u32) = n" using nD by (simp add: unat_of_nat)
    have "32 * unat ix + n < 2 ^ 32" using small ix(2) nD len by simp
    then have i: "unat ?i = 32 * unat ix + n"
      using un by (simp add: unat_word_ariths mult.commute)
    then have mem: "unat ?i \<in> free_bits bm" using nD free_bits_word [OF ix(2)] by simp
    have least: "unat ?i \<le> j" if j: "j \<in> free_bits bm" for j
    proof (rule ccontr)
      assume "\<not> unat ?i \<le> j"
      then have lt: "j < 32 * unat ix + n" using i by simp
      moreover have "\<not> j < 32 * unat ix" using Suc.prems j by blast
      ultimately have "j div 32 = unat ix" using nD by (intro div_nat_eqI) auto
      moreover from this have "j = 32 * unat ix + j mod 32" by (metis mult_div_mod_eq)
      with lt have "j mod 32 < n" by linarith
      ultimately have "j div 32 = unat ix" "j mod 32 < n" by simp_all
      then show False using j nD by (simp add: free_bits_def)
    qed
    have "free_bits ?bm = free_bits bm - {unat ?i}"
      using nD ix(2) index_split [of n]
      by (auto simp: set_eq_iff i bit_xor_iff free_bits_def nth_list_update)
    moreover have "unat (?i div 32) = unat ix" "unat (?i mod 32) = n"
      using i nD by (simp_all add: unat_div unat_mod)
    ultimately show ?thesis using run mem least by (intro disjI2 exI [of _ ?bm] exI [of _ ?i]) simp
  qed
qed

lemma bitmap_small: "bitmap_ok bm \<Longrightarrow> unat (nwords bm) * 32 < 2 ^ 32"
  by (auto simp: bitmap_ok_def)

lemma bitmap_word:
  assumes "bitmap_ok bm" and "i < nbits bm"
  shows "unat (i div 32) < length (bmap bm)" and "unat i = 32 * unat (i div 32) + unat (i mod 32)"
    and "unat (i mod 32) < 32"
  using assms by (auto simp: bitmap_ok_def word_less_nat_alt unat_div unat_mod)

lemma bitmap_translate_ok:
  assumes "bitmap_ok bm" and "i < nbits bm"
  shows "bmap bm ! unat (i div 32) AND push_bit (unat (i mod 32)) 1 = 0 \<longleftrightarrow> unat i \<notin> free_bits bm"
proof -
  note w = bitmap_word [OF assms]
  show ?thesis
    using and_push_one [OF w(3), of "bmap bm ! unat (i div 32)"] free_bits_word [OF w(1,3)] w(2) by metis
qed

lemma bitmap_alloc_ok:
  assumes "bitmap_ok bm"
  shows "(free_bits bm = {} \<and> bitmap_alloc bm = kret (bm, Inl (- E_NO_MEM))) \<or>
    (\<exists>bm' i. bitmap_alloc bm = kret (bm', Inr i) \<and> bitmap_ok bm' \<and> i < nbits bm \<and>
      unat i \<in> free_bits bm \<and> (\<forall>j \<in> free_bits bm. unat i \<le> j) \<and>
      free_bits bm' = free_bits bm - {unat i} \<and>
      bm' = bm\<lparr>bmap := (bmap bm)[unat (i div 32) :=
        bmap bm ! unat (i div 32) XOR push_bit (unat (i mod 32)) 1]\<rparr>)"
proof -
  have len: "length (bmap bm) = unat (nwords bm)" using assms by (simp add: bitmap_ok_def)
  show ?thesis
  proof (cases "free_bits bm = {}")
    case True
    then show ?thesis using alloc_loop_ok [OF len bitmap_small [OF assms], of 0]
      by (auto simp: bitmap_alloc_def)
  next
    case False
    then obtain bm' i where a: "alloc_loop bm 0 = kret (bm', Inr i)" "unat i \<in> free_bits bm"
      "\<forall>j \<in> free_bits bm. unat i \<le> j" "free_bits bm' = free_bits bm - {unat i}"
      "bm' = bm\<lparr>bmap := (bmap bm)[unat (i div 32) :=
        bmap bm ! unat (i div 32) XOR push_bit (unat (i mod 32)) 1]\<rparr>"
      using alloc_loop_ok [OF len bitmap_small [OF assms], of 0] by auto
    have "nbits bm' = nbits bm" "nwords bm' = nwords bm" "length (bmap bm') = length (bmap bm)"
      by (simp_all add: a(5))
    then have "bitmap_ok bm'" "i < nbits bm"
      using assms a(2,4) by (auto simp: bitmap_ok_def word_less_nat_alt)
    then show ?thesis using a by (auto simp: bitmap_alloc_def)
  qed
qed

lemma bitmap_free_ok:
  assumes "bitmap_ok bm"
  shows "bitmap_free bm i =
    (if i < nbits bm \<and> unat i \<notin> free_bits bm
     then kret (bm\<lparr>bmap := (bmap bm)[unat (i div 32) :=
        bmap bm ! unat (i div 32) OR push_bit (unat (i mod 32)) 1]\<rparr>)
     else kpanic AssertFail)"
  using bitmap_translate_ok [OF assms, of i]
  by (auto simp: bitmap_free_def bitmap_translate_def kassert_def)

lemma free_bits_free:
  assumes "bitmap_ok bm" and "i < nbits bm"
  shows "free_bits (bm\<lparr>bmap := (bmap bm)[unat (i div 32) :=
        bmap bm ! unat (i div 32) OR push_bit (unat (i mod 32)) 1]\<rparr>) = insert (unat i) (free_bits bm)"
proof -
  note w = bitmap_word [OF assms]
  show ?thesis
    using w(1,3) index_split [OF w(3)]
    by (auto simp: set_eq_iff w(2) bit_or_iff free_bits_def nth_list_update)
qed

section \<open>Creation\<close>

lemma bitmap_create_ok:
  assumes n: "n \<noteq> 0" "n + 32 > n"
  shows "\<exists>bm. bitmap_create True True n = kret (Some bm) \<and> bitmap_ok bm \<and> nbits bm = n \<and>
    free_bits bm = {..<unat n}"
proof -
  have big: "unat n + 32 < 2 ^ 32"
    using n(2) no_olen_add_nat [of n 32] by (simp add: order_less_imp_le)
  have r: "unat (31 + n) = unat n + 31" using big unat_add_noov [of 31 n] by simp
  define nw where "nw = ROUNDUP_DIV n 32"
  have nw: "unat nw = (unat n + 31) div 32" by (simp add: nw_def ROUNDUP_DIV_def unat_div r)
  have pos: "0 < unat n" using n(1) by (simp add: unat_gt_0)
  have full: "free_bits \<lparr>nbits = n, nwords = nw, bmap = replicate (unat nw) (- 1)\<rparr> = {..<32 * unat nw}"
    by (auto simp: free_bits_def bit_simps)
  have nw32: "unat (nw * 32) = 32 * unat nw"
    using nw big by (simp add: unat_word_ariths mult.commute)
  show ?thesis
  proof (cases "n = nw * 32")
    case True
    then have un: "unat n = 32 * unat nw" using nw32 by simp
    have c: "(n \<noteq> nw * 32) = False" using True by simp
    have run: "bitmap_create True True n =
        kret (Some \<lparr>nbits = n, nwords = nw, bmap = replicate (unat nw) (- 1)\<rparr>)"
      unfolding bitmap_create_def Let_def nw_def [symmetric] using n c by simp
    have "bitmap_ok \<lparr>nbits = n, nwords = nw, bmap = replicate (unat nw) (- 1)\<rparr>"
      unfolding bitmap_ok_def full
      by (intro conjI) (simp_all add: nw [symmetric] un [symmetric] big [simplified])
    then show ?thesis unfolding run using full un by simp
  next
    case False
    define m where "m = unat n mod 32"
    have q: "unat nw = unat n div 32 + 1" "0 < m" "m < 32"
    proof -
      have "unat n \<noteq> 32 * unat nw" using False nw32 by (metis unat_arith_simps(3))
      then show "0 < m" using nw unfolding m_def by (cases "unat n mod 32 = 0") auto
      then have "unat n + 31 = 32 * (unat n div 32 + 1) + (m - 1)" "m - 1 < 32"
        using mult_div_mod_eq [of 32 "unat n"] unfolding m_def by (simp_all add: less_imp_diff_less)
      then show "unat nw = unat n div 32 + 1" using nw index_split by metis
      show "m < 32" by (simp add: m_def)
    qed
    define ixw where "ixw = nw - 1"
    have ix: "unat ixw = unat n div 32" using q by (simp add: unat_diff_le ixw_def)
    have ix32: "unat (ixw * 32) = 32 * (unat n div 32)"
      using ix big by (simp add: unat_word_ariths mult.commute)
    have ov: "unat (n - ixw * 32) = m"
      using ix32 by (simp add: unat_diff_le m_def minus_mult_div_eq_mod)
    let ?map = "replicate (unat nw) (- 1 :: u32)"
    let ?bm = "\<lparr>nbits = n, nwords = nw, bmap = ?map[unat ixw := clear_over (?map ! unat ixw) m]\<rparr>"
    have asserts: "n div 32 = ixw" "n - ixw * 32 > 0" "n - ixw * 32 < 32"
      using ix ov q by (simp_all add: word_unat_eq_iff unat_div word_less_nat_alt)
    have "bitmap_create True True n = kret (Some ?bm)"
      unfolding bitmap_create_def Let_def nw_def [symmetric] ixw_def [symmetric]
      using n False asserts ov by simp
    moreover have "free_bits ?bm = {..<unat n}"
    proof (rule set_eqI)
      fix i
      have "i < unat n \<longleftrightarrow> i div 32 < unat n div 32 \<or> i div 32 = unat n div 32 \<and> i mod 32 < m"
      proof -
        have "32 * B + c < 32 * A + m \<longleftrightarrow> B < A \<or> B = A \<and> c < m" if "c < 32" for A B c
          using that q(3) by arith
        from this [of "i mod 32" "i div 32" "unat n div 32"] show ?thesis by (simp add: m_def)
      qed
      moreover have "i < 32 * unat nw \<longleftrightarrow> i div 32 < unat nw" by (simp add: div_less_iff_less_mult mult.commute)
      moreover have "bit (?map[unat ixw := clear_over (?map ! unat ixw) m] ! (i div 32)) (i mod 32) \<longleftrightarrow>
          i div 32 \<noteq> unat n div 32 \<or> i mod 32 < m" if "i div 32 < unat nw"
      proof -
        have "unat ixw < unat nw" using q(1) ix by simp
        then show ?thesis using that unfolding ix [symmetric]
          by (simp add: nth_list_update bit_clear_over bit_simps)
      qed
      moreover have "i \<in> free_bits ?bm \<longleftrightarrow> i < 32 * unat nw \<and>
          bit (?map[unat ixw := clear_over (?map ! unat ixw) m] ! (i div 32)) (i mod 32)"
        unfolding free_bits_def by simp
      moreover have "i div 32 < unat nw \<longleftrightarrow> i div 32 < unat n div 32 \<or> i div 32 = unat n div 32"
        using q(1) by (simp add: less_Suc_eq)
      ultimately show "i \<in> free_bits ?bm \<longleftrightarrow> i \<in> {..<unat n}"
        unfolding lessThan_iff by (metis less_irrefl)
    qed
    ultimately show ?thesis using nw big by (auto simp: bitmap_ok_def)
  qed
qed

section \<open>Contracts of the bitmap\<close>

definition sample_bitmap :: bitmap where
  "sample_bitmap = \<lparr>nbits = 40, nwords = 2, bmap = [0, 0xF0]\<rparr>"

lemma sample_free: "free_bits sample_bitmap = {36, 37, 38, 39}"
proof -
  have "(0xF0 :: u32) = push_bit 4 (mask 4)" by (simp add: mask_eq_exp_minus_1)
  then have "bit (0xF0 :: u32) k \<longleftrightarrow> 4 \<le> k \<and> k - 4 < 4" for k
    by (auto simp only: bit_push_bit_iff bit_mask_iff possible_bit_word) simp_all
  moreover have "4 \<le> k \<and> k - 4 < 4 \<longleftrightarrow> k = 4 \<or> k = 5 \<or> k = 6 \<or> k = 7" for k :: nat by arith
  ultimately have b: "bit (0xF0 :: u32) k \<longleftrightarrow> k = 4 \<or> k = 5 \<or> k = 6 \<or> k = 7" for k by simp
  have "i \<in> free_bits sample_bitmap \<longleftrightarrow> i \<in> {36, 37, 38, 39}" for i
  proof -
    consider "i < 32" | "32 \<le> i \<and> i < 64" | "64 \<le> i" by linarith
    then show ?thesis
    proof cases
      case 2
      then obtain j where j: "i = 32 + j" "j < 32" using less_eqE by auto
      then have "i div 32 = 1" "i mod 32 = j" by simp_all
      then show ?thesis using j b [of j] by (simp add: free_bits_def sample_bitmap_def)
    qed (auto simp: free_bits_def sample_bitmap_def)
  qed
  then show ?thesis by blast
qed

lemma sample_bitmap_ok: "bitmap_ok sample_bitmap"
  using sample_free by (simp add: bitmap_ok_def sample_bitmap_def)

text \<open>C27. \<^verbatim>\<open>bitmap_alloc\<close> hands out the least free index and marks exactly it as used; it reports
  \<^verbatim>\<open>-E_NO_MEM\<close> and changes nothing exactly when no index is free.\<close>

theorem bitmap_alloc_correct:
  assumes "bitmap_ok bm"
  shows "if free_bits bm = {} then bitmap_alloc bm = kret (bm, Inl (- E_NO_MEM))
    else \<exists>bm' i. bitmap_alloc bm = kret (bm', Inr i) \<and> bitmap_ok bm' \<and>
      unat i = Min (free_bits bm) \<and> free_bits bm' = free_bits bm - {unat i}"
proof (cases "free_bits bm = {}")
  case True
  then show ?thesis using bitmap_alloc_ok [OF assms] by auto
next
  case False
  obtain bm' i where "bitmap_alloc bm = kret (bm', Inr i)" "bitmap_ok bm'" "unat i \<in> free_bits bm"
    "\<forall>j \<in> free_bits bm. unat i \<le> j" "free_bits bm' = free_bits bm - {unat i}"
    using False bitmap_alloc_ok [OF assms] by blast
  moreover have "finite (free_bits bm)" by (rule finite_subset [of _ "{..<32 * length (bmap bm)}"])
    (auto simp: free_bits_def)
  ultimately show ?thesis using False Min_eqI [of "free_bits bm" "unat i"] by auto
qed

theorem bitmap_alloc_correct_witness:
  "\<exists>bm' i. bitmap_alloc sample_bitmap = kret (bm', Inr i) \<and> bitmap_ok bm' \<and>
    unat i = 36 \<and> free_bits bm' = {37, 38, 39}"
  using bitmap_alloc_correct [OF sample_bitmap_ok] by (auto simp: sample_free)

text \<open>Allocating an index and freeing it restores the bitmap, and freeing an index that is out
  of range or already free fails its assertion.\<close>

lemma bitmap_alloc_free_roundtrip:
  assumes ok: "bitmap_ok bm" and alloc: "bitmap_alloc bm = kret (bm', Inr i)"
  shows "bitmap_test bm' i = kret False \<and> bitmap_free bm' i = kret bm \<and>
    bitmap_free bm i = kpanic AssertFail"
proof -
  obtain a where a: "bitmap_ok bm'" "i < nbits bm" "unat i \<in> free_bits bm"
    "free_bits bm' = free_bits bm - {unat i}"
    "bm' = bm\<lparr>bmap := (bmap bm)[unat (i div 32) :=
      bmap bm ! unat (i div 32) XOR push_bit (unat (i mod 32)) 1]\<rparr>"
    using bitmap_alloc_ok [OF ok] alloc by auto
  note w = bitmap_word [OF ok a(2)]
  have n: "nbits bm' = nbits bm" using a(5) by simp
  have "bit (bmap bm ! unat (i div 32)) (unat (i mod 32))"
    using a(3) free_bits_word [OF w(1,3)] w(2) by simp
  then have "(bmap bm ! unat (i div 32) XOR push_bit (unat (i mod 32)) 1) OR push_bit (unat (i mod 32)) 1 =
      bmap bm ! unat (i div 32)"
    by (auto simp: bit_eq_iff [where ?'a = "32 word"] bit_or_iff bit_xor_iff)
  then have "bitmap_free bm' i = kret bm"
    using bitmap_free_ok [OF a(1)] a(2,4) n w(1) by (simp add: a(5))
  moreover have "bitmap_test bm' i = kret False"
    using bitmap_translate_ok [OF a(1), of i] a(2,4) n
    by (simp add: bitmap_test_def bitmap_translate_def)
  moreover have "bitmap_free bm i = kpanic AssertFail"
    using bitmap_free_ok [OF ok] a(3) by simp
  ultimately show ?thesis by blast
qed

text \<open>C28. \<^verbatim>\<open>bitmap_create\<close> passes its assertions for every size whose rounding does not
  overflow, and returns a bitmap in which exactly the indices below that size are free.\<close>

theorem bitmap_create_correct:
  assumes "n \<noteq> 0" and "n + 32 > n"
  shows "\<exists>bm. bitmap_create True True n = kret (Some bm) \<and> bitmap_ok bm \<and> nbits bm = n \<and>
    free_bits bm = {..<unat n}"
  using bitmap_create_ok [OF assms] .

theorem bitmap_create_correct_witness:
  "\<exists>bm. bitmap_create True True 37 = kret (Some bm) \<and> bitmap_ok bm \<and> free_bits bm = {..<37}"
  using bitmap_create_correct [of 37] by auto

end
