(* ===== verification/Disk.thy ===== *)
theory Disk
  imports Bitmap "HOL-Library.Signed_Division"
begin

text \<open>
  The block device under the file system: transfer buffers (\<^verbatim>\<open>kern/fs/iobuf.c\<close>), the disk driver of
  \<^verbatim>\<open>kern/fs/devs/dev_disk0.c\<close> and the sector loops of \<^verbatim>\<open>kern/driver/ide.c\<close>.

  A buffer in memory is the list of its bytes and a pointer into it is an index; an access outside
  of the buffer is a panic.  Buffers that the C code allocates separately are separate lists.  The
  drive is a function from byte addresses to bytes; \<open>dfail\<close> is what a transfer of a sector answers.
  The signed type \<^verbatim>\<open>off_t\<close> is a 32-bit word whose comparisons are the signed ones.

  A semaphore that only the running process uses is its value: \<^verbatim>\<open>down\<close> on the value 0 waits for an
  \<^verbatim>\<open>up\<close> that nobody can make, so it does not return.
\<close>

section \<open>Bytes in buffers\<close>

type_synonym bytes = "u8 list"

definition paste :: "bytes \<Rightarrow> nat \<Rightarrow> bytes \<Rightarrow> bytes" where
  "paste b i xs = take i b @ xs @ drop (i + length xs) b"

definition sub :: "bytes \<Rightarrow> nat \<Rightarrow> nat \<Rightarrow> bytes" where
  "sub b i n = take n (drop i b)"

definition peek :: "bytes \<Rightarrow> nat \<Rightarrow> nat \<Rightarrow> bytes prog" where
  "peek b i n = (if i + n \<le> length b then kret (sub b i n) else kpanic (Panic ''out of bounds''))"

definition poke :: "bytes \<Rightarrow> nat \<Rightarrow> bytes \<Rightarrow> bytes prog" where
  "poke b i xs =
     (if i + length xs \<le> length b then kret (paste b i xs) else kpanic (Panic ''out of bounds''))"

definition sem_down :: "nat \<Rightarrow> (nat \<Rightarrow> 'a prog) \<Rightarrow> 'a prog" where
  "sem_down v k = (if 0 < v then k (v - 1) else None)"

section \<open>Transfer buffers (\<^verbatim>\<open>kern/fs/iobuf.c\<close>)\<close>

record iobuf =
  io_buf :: bytes
  io_base :: nat
  io_offset :: u32
  io_len :: u32
  io_resid :: u32

definition iobuf_used :: "iobuf \<Rightarrow> u32" where
  "iobuf_used iob = io_len iob - io_resid iob"

definition iobuf_init :: "bytes \<Rightarrow> nat \<Rightarrow> u32 \<Rightarrow> u32 \<Rightarrow> iobuf" where
  "iobuf_init buf base len offset =
     \<lparr>io_buf = buf, io_base = base, io_offset = offset, io_len = len, io_resid = len\<rparr>"

definition iobuf_skip :: "iobuf \<Rightarrow> u32 \<Rightarrow> iobuf prog" where
  "iobuf_skip iob n = kassert (io_resid iob \<ge> n)
     (kret (iob\<lparr>io_base := io_base iob + unat n, io_offset := io_offset iob + n,
                io_resid := io_resid iob - n\<rparr>))"

text \<open>The buffer \<open>data\<close> is passed from its start; \<open>m2b\<close> copies it into the transfer buffer.\<close>

definition iobuf_move :: "iobuf \<Rightarrow> bytes \<Rightarrow> u32 \<Rightarrow> bool \<Rightarrow> (int \<times> u32 \<times> iobuf \<times> bytes) prog" where
  "iobuf_move iob data len m2b =
     (let alen = (if io_resid iob > len then len else io_resid iob) in
      kbind (if alen > 0
             then kbind (if m2b
                         then kbind (peek data 0 (unat alen)) (\<lambda>x.
                              kbind (poke (io_buf iob) (io_base iob) x) (\<lambda>b. kret (iob\<lparr>io_buf := b\<rparr>, data)))
                         else kbind (peek (io_buf iob) (io_base iob) (unat alen)) (\<lambda>x.
                              kbind (poke data 0 x) (\<lambda>data. kret (iob, data)))) (\<lambda>(iob, data).
                  kbind (iobuf_skip iob alen) (\<lambda>iob. kret (iob, data, len - alen)))
             else kret (iob, data, len)) (\<lambda>(iob, data, len).
      kret (if len = 0 then 0 else - E_NO_MEM, alen, iob, data)))"

definition iobuf_move_zeros :: "iobuf \<Rightarrow> u32 \<Rightarrow> (int \<times> u32 \<times> iobuf) prog" where
  "iobuf_move_zeros iob len =
     (let alen = (if io_resid iob > len then len else io_resid iob) in
      kbind (if alen > 0
             then kbind (poke (io_buf iob) (io_base iob) (replicate (unat alen) 0)) (\<lambda>b.
                  kbind (iobuf_skip (iob\<lparr>io_buf := b\<rparr>) alen) (\<lambda>iob. kret (iob, len - alen)))
             else kret (iob, len)) (\<lambda>(iob, len).
      kret (if len = 0 then 0 else - E_NO_MEM, alen, iob)))"

section \<open>The drive and its driver\<close>

text \<open>\<open>dfail\<close> says whether the transfer of a sector fails, \<open>dvalid\<close> is \<^verbatim>\<open>VALID_IDE\<close> of the drive.\<close>

record disk =
  dbytes :: "nat \<Rightarrow> u8"
  dfail :: "nat \<Rightarrow> int"
  dvalid :: bool
  d_blocks :: u32
  disk0_buffer :: bytes
  disk0_sem :: nat

abbreviation (input) SECTSIZE :: nat where "SECTSIZE \<equiv> 512"
abbreviation (input) DISK0_BLKSIZE :: u32 where "DISK0_BLKSIZE \<equiv> 4096"
abbreviation (input) DISK0_BUFSIZE :: u32 where "DISK0_BUFSIZE \<equiv> 16384"
abbreviation (input) DISK0_BLK_NSECT :: u32 where "DISK0_BLK_NSECT \<equiv> 8"
abbreviation (input) MAX_NSECS :: u32 where "MAX_NSECS \<equiv> 128"
abbreviation (input) MAX_DISK_NSECS :: u32 where "MAX_DISK_NSECS \<equiv> 0x10000000"

text \<open>The loops of the driver of the drive: one sector between the drive and the buffer at a time.\<close>

fun ide_read_loop :: "nat \<Rightarrow> disk \<Rightarrow> nat \<Rightarrow> nat \<Rightarrow> (int \<times> disk) prog" where
  "ide_read_loop 0 d sec dst = kret (0, d)"
| "ide_read_loop (Suc n) d sec dst =
     (if dfail d sec \<noteq> 0 then kret (dfail d sec, d)
      else kbind (poke (disk0_buffer d) dst (map (\<lambda>i. dbytes d (sec * SECTSIZE + i)) [0..<SECTSIZE])) (\<lambda>b.
           ide_read_loop n (d\<lparr>disk0_buffer := b\<rparr>) (sec + 1) (dst + SECTSIZE)))"

fun ide_write_loop :: "nat \<Rightarrow> disk \<Rightarrow> nat \<Rightarrow> nat \<Rightarrow> (int \<times> disk) prog" where
  "ide_write_loop 0 d sec src = kret (0, d)"
| "ide_write_loop (Suc n) d sec src =
     (if dfail d sec \<noteq> 0 then kret (dfail d sec, d)
      else kbind (peek (disk0_buffer d) src SECTSIZE) (\<lambda>x.
           ide_write_loop n (d\<lparr>dbytes := (\<lambda>a. if a div SECTSIZE = sec then x ! (a mod SECTSIZE) else dbytes d a)\<rparr>)
             (sec + 1) (src + SECTSIZE)))"

definition ide_read_secs :: "disk \<Rightarrow> u32 \<Rightarrow> u32 \<Rightarrow> (int \<times> disk) prog" where
  "ide_read_secs d secno nsecs =
     kassert (nsecs \<le> MAX_NSECS \<and> dvalid d) (kassert (secno < MAX_DISK_NSECS \<and> secno + nsecs \<le> MAX_DISK_NSECS)
       (ide_read_loop (unat nsecs) d (unat secno) 0))"

definition ide_write_secs :: "disk \<Rightarrow> u32 \<Rightarrow> u32 \<Rightarrow> (int \<times> disk) prog" where
  "ide_write_secs d secno nsecs =
     kassert (nsecs \<le> MAX_NSECS \<and> dvalid d) (kassert (secno < MAX_DISK_NSECS \<and> secno + nsecs \<le> MAX_DISK_NSECS)
       (ide_write_loop (unat nsecs) d (unat secno) 0))"

definition disk0_read_blks_nolock :: "disk \<Rightarrow> u32 \<Rightarrow> u32 \<Rightarrow> disk prog" where
  "disk0_read_blks_nolock d blkno nblks =
     kbind (ide_read_secs d (blkno * DISK0_BLK_NSECT) (nblks * DISK0_BLK_NSECT)) (\<lambda>(ret, d).
       if ret \<noteq> 0 then kpanic (Panic ''disk0: read'') else kret d)"

definition disk0_write_blks_nolock :: "disk \<Rightarrow> u32 \<Rightarrow> u32 \<Rightarrow> disk prog" where
  "disk0_write_blks_nolock d blkno nblks =
     kbind (ide_write_secs d (blkno * DISK0_BLK_NSECT) (nblks * DISK0_BLK_NSECT)) (\<lambda>(ret, d).
       if ret \<noteq> 0 then kpanic (Panic ''disk0: write'') else kret d)"

partial_function (option) disk0_loop :: "disk \<Rightarrow> iobuf \<Rightarrow> bool \<Rightarrow> u32 \<Rightarrow> u32 \<Rightarrow> (iobuf \<times> disk) prog" where
  "disk0_loop d iob write resid blkno =
     (if resid = 0 then kret (iob, d)
      else kbind (if write
           then kbind (iobuf_move iob (disk0_buffer d) DISK0_BUFSIZE False) (\<lambda>(_, copied, iob, b).
                kassert (copied \<noteq> 0 \<and> copied \<le> resid \<and> copied mod DISK0_BLKSIZE = 0) (
                  let nblks = copied div DISK0_BLKSIZE in
                  kbind (disk0_write_blks_nolock (d\<lparr>disk0_buffer := b\<rparr>) blkno nblks) (\<lambda>d.
                  kret (iob, d, copied, nblks))))
           else let alen = (if DISK0_BUFSIZE > resid then resid else DISK0_BUFSIZE);
                    nblks = alen div DISK0_BLKSIZE in
                kbind (disk0_read_blks_nolock d blkno nblks) (\<lambda>d.
                kbind (iobuf_move iob (disk0_buffer d) alen True) (\<lambda>(_, copied, iob, _).
                kassert (copied = alen \<and> copied mod DISK0_BLKSIZE = 0) (kret (iob, d, copied, nblks)))))
        (\<lambda>(iob, d, copied, nblks). disk0_loop d iob write (resid - copied) (blkno + nblks)))"

definition disk0_io :: "disk \<Rightarrow> iobuf \<Rightarrow> bool \<Rightarrow> (int \<times> iobuf \<times> disk) prog" where
  "disk0_io d iob write =
     (let offset = io_offset iob; resid = io_resid iob;
          blkno = word_of_int (sint offset sdiv 4096); nblks = resid div DISK0_BLKSIZE in
      if sint offset smod 4096 \<noteq> 0 \<or> resid mod DISK0_BLKSIZE \<noteq> 0 then kret (- E_INVAL, iob, d)
      else if blkno + nblks > d_blocks d then kret (- E_INVAL, iob, d)
      else if nblks = 0 then kret (0, iob, d)
      else sem_down (disk0_sem d) (\<lambda>v.
        kbind (disk0_loop (d\<lparr>disk0_sem := v\<rparr>) iob write resid blkno) (\<lambda>(iob, d).
        kret (0, iob, d\<lparr>disk0_sem := disk0_sem d + 1\<rparr>))))"

lemma sem_down_mono [partial_function_mono]:
  assumes "\<And>y. mono_option (\<lambda>f. C y f)"
  shows "mono_option (\<lambda>f. sem_down v (\<lambda>y. C y f))"
  using assms by (cases "0 < v") (auto simp: sem_down_def intro: option.const_mono)

section \<open>Slices\<close>

lemma length_paste [simp]: "i + length xs \<le> length b \<Longrightarrow> length (paste b i xs) = length b"
  by (simp add: paste_def)

lemma length_sub [simp]: "i + n \<le> length b \<Longrightarrow> length (sub b i n) = n"
  by (simp add: sub_def)

lemma nth_paste:
  "i + length xs \<le> length b \<Longrightarrow> j < length b \<Longrightarrow>
    paste b i xs ! j = (if i \<le> j \<and> j < i + length xs then xs ! (j - i) else b ! j)"
  by (auto simp: paste_def nth_append)

lemma nth_sub [simp]: "i + n \<le> length b \<Longrightarrow> j < n \<Longrightarrow> sub b i n ! j = b ! (i + j)"
  by (simp add: sub_def)

lemma sub_paste_same [simp]: "i + length xs \<le> length b \<Longrightarrow> sub (paste b i xs) i (length xs) = xs"
  by (rule nth_equalityI) (auto simp: nth_paste)

lemma paste_append:
  "i + length xs + length ys \<le> length b \<Longrightarrow> paste (paste b i xs) (i + length xs) ys = paste b i (xs @ ys)"
  by (rule nth_equalityI) (auto simp: nth_paste nth_append)

lemma paste_all: "length xs = length b \<Longrightarrow> paste b 0 xs = xs"
  by (simp add: paste_def)

lemma paste_Nil [simp]: "paste b i [] = b"
  by (simp add: paste_def)

lemma sub_append: "i + n + k \<le> length b \<Longrightarrow> sub b i n @ sub b (i + n) k = sub b i (n + k)"
  by (rule nth_equalityI) (auto simp: nth_append)

lemma sub_all [simp]: "sub b 0 (length b) = b"
  by (simp add: sub_def)

lemma poke_ok [simp]: "i + length xs \<le> length b \<Longrightarrow> poke b i xs = kret (paste b i xs)"
  by (simp add: poke_def)

lemma peek_ok [simp]: "i + n \<le> length b \<Longrightarrow> peek b i n = kret (sub b i n)"
  by (simp add: peek_def)

section \<open>Blocks\<close>

definition blk :: "disk \<Rightarrow> nat \<Rightarrow> bytes" where
  "blk d b = map (\<lambda>i. dbytes d (b * 4096 + i)) [0..<4096]"

definition put_blk :: "disk \<Rightarrow> nat \<Rightarrow> bytes \<Rightarrow> disk" where
  "put_blk d b xs = d\<lparr>dbytes := (\<lambda>a. if a div 4096 = b then xs ! (a mod 4096) else dbytes d a)\<rparr>"

lemma length_blk [simp]: "length (blk d b) = 4096"
  by (simp add: blk_def)

lemma nth_blk [simp]: "i < 4096 \<Longrightarrow> blk d b ! i = dbytes d (b * 4096 + i)"
  by (simp add: blk_def)

lemma blk_put: "length xs = 4096 \<Longrightarrow> blk (put_blk d b xs) c = (if c = b then xs else blk d c)"
  by (rule nth_equalityI) (auto simp: put_blk_def)

lemma blk_buffer [simp]: "blk (d\<lparr>disk0_buffer := x\<rparr>) b = blk d b" "blk (d\<lparr>disk0_sem := v\<rparr>) b = blk d b"
  by (simp_all add: blk_def)

lemma ide_read_loop_ok:
  assumes "\<forall>k < n. dfail d (sec + k) = 0" and "dst + n * 512 \<le> length (disk0_buffer d)"
  shows "ide_read_loop n d sec dst =
    kret (0, d\<lparr>disk0_buffer := paste (disk0_buffer d) dst (map (\<lambda>i. dbytes d (sec * 512 + i)) [0..<n * 512])\<rparr>)"
  using assms
proof (induction n arbitrary: d sec dst)
  case (Suc n)
  let ?x = "map (\<lambda>i. dbytes d (sec * 512 + i)) [0..<512]"
  let ?d = "d\<lparr>disk0_buffer := paste (disk0_buffer d) dst ?x\<rparr>"
  have f: "dfail d sec = 0" using Suc.prems(1) by (metis add.right_neutral zero_less_Suc)
  have "\<forall>k < n. dfail ?d (Suc sec + k) = 0" using Suc.prems(1) by (simp add: All_less_Suc2)
  then have "ide_read_loop n ?d (Suc sec) (dst + 512) = kret (0, ?d\<lparr>disk0_buffer := paste (disk0_buffer ?d) (dst + 512)
      (map (\<lambda>i. dbytes ?d (Suc sec * 512 + i)) [0..<n * 512])\<rparr>)"
    using Suc.prems(2) by (intro Suc.IH) simp_all
  moreover have "paste (disk0_buffer ?d) (dst + 512) (map (\<lambda>i. dbytes ?d (Suc sec * 512 + i)) [0..<n * 512]) =
      paste (disk0_buffer d) dst (?x @ map (\<lambda>i. dbytes d (Suc sec * 512 + i)) [0..<n * 512])"
    using paste_append [of dst ?x _ "disk0_buffer d"] Suc.prems(2) by simp
  moreover have "?x @ map (\<lambda>i. dbytes d (Suc sec * 512 + i)) [0..<n * 512] =
      map (\<lambda>i. dbytes d (sec * 512 + i)) [0..<Suc n * 512]"
    by (rule nth_equalityI) (auto simp: nth_append algebra_simps)
  ultimately show ?case using f Suc.prems(2) by simp
qed simp

lemma ide_write_loop_ok:
  assumes "\<forall>k < n. dfail d (sec + k) = 0" and "src + n * 512 \<le> length (disk0_buffer d)"
  shows "ide_write_loop n d sec src =
    kret (0, d\<lparr>dbytes := (\<lambda>a. if sec * 512 \<le> a \<and> a < (sec + n) * 512 then disk0_buffer d ! (src + a - sec * 512)
      else dbytes d a)\<rparr>)"
  using assms
proof (induction n arbitrary: d sec src)
  case 0
  have "(\<lambda>a. if sec * 512 \<le> a \<and> a < (sec + 0) * 512 then f a else dbytes d a) = dbytes d" for f by (rule ext) auto
  then show ?case by simp
next
  case (Suc n)
  let ?x = "sub (disk0_buffer d) src 512"
  let ?d = "d\<lparr>dbytes := (\<lambda>a. if a div 512 = sec then ?x ! (a mod 512) else dbytes d a)\<rparr>"
  have f: "dfail d sec = 0" using Suc.prems(1) by (metis add.right_neutral zero_less_Suc)
  have "\<forall>k < n. dfail ?d (Suc sec + k) = 0" using Suc.prems(1) by (simp add: All_less_Suc2)
  then have "ide_write_loop n ?d (Suc sec) (src + 512) = kret (0, ?d\<lparr>dbytes := (\<lambda>a.
      if Suc sec * 512 \<le> a \<and> a < (Suc sec + n) * 512 then disk0_buffer ?d ! (src + 512 + a - Suc sec * 512) else dbytes ?d a)\<rparr>)"
    using Suc.prems(2) by (intro Suc.IH) simp_all
  moreover have "(\<lambda>a. if Suc sec * 512 \<le> a \<and> a < (Suc sec + n) * 512 then disk0_buffer ?d ! (src + 512 + a - Suc sec * 512)
        else dbytes ?d a) =
      (\<lambda>a. if sec * 512 \<le> a \<and> a < (sec + Suc n) * 512 then disk0_buffer d ! (src + a - sec * 512) else dbytes d a)"
  proof
    fix a
    have "a div 512 = sec \<longleftrightarrow> sec * 512 \<le> a \<and> a < sec * 512 + 512" by auto
    moreover have "src + a mod 512 = src + a - sec * 512" if "a div 512 = sec"
      using that div_mult_mod_eq [of a 512] by linarith
    ultimately show "(if Suc sec * 512 \<le> a \<and> a < (Suc sec + n) * 512 then disk0_buffer ?d ! (src + 512 + a - Suc sec * 512)
        else dbytes ?d a) =
      (if sec * 512 \<le> a \<and> a < (sec + Suc n) * 512 then disk0_buffer d ! (src + a - sec * 512) else dbytes d a)"
      using Suc.prems(2) by (auto simp: algebra_simps)
  qed
  ultimately show ?case using f Suc.prems(2) by simp
qed

section \<open>One block through the driver\<close>

lemma sint_unat:
  assumes "unat (w :: u32) < 2 ^ 31"
  shows "sint w = int (unat w)"
proof -
  have "int (unat w) < int (2 ^ 31)" using assms by (simp only: of_nat_less_iff)
  then have "uint w < 2 ^ 31" by simp
  moreover have "- (2 ^ 31) \<le> uint w" using uint_ge_0 [of w] by (rule order_trans [rotated]) simp
  ultimately have "signed_take_bit 31 (uint w) = uint w" by (simp only: signed_take_bit_int_eq_self)
  then show ?thesis using sint_uint [of w] by simp
qed

lemma block_offset:
  assumes "unat (b :: u32) < 2 ^ 19"
  shows "word_of_int (sint (b * 4096) sdiv 4096) = b" and "sint (b * 4096) smod 4096 = 0"
proof -
  have "unat (b * 4096) = unat b * 4096" using assms by (simp add: unat_word_ariths)
  then have s: "sint (b * 4096) = int (unat b) * 4096" using assms sint_unat [of "b * 4096"] by simp
  have "int n * 4096 sdiv 4096 = int n" for n by (simp add: signed_divide_int_def sgn_if abs_mult)
  note q = this [of "unat b"]
  from q show "word_of_int (sint (b * 4096) sdiv 4096) = b" by (simp add: s)
  show "sint (b * 4096) smod 4096 = 0" using q by (simp add: s signed_modulo_int_def)
qed

definition drive_ok :: "disk \<Rightarrow> bool" where
  "drive_ok d \<longleftrightarrow> length (disk0_buffer d) = 16384 \<and> (\<forall>sec. dfail d sec = 0) \<and> dvalid d \<and> unat (d_blocks d) < 2 ^ 19"

definition disk_ok :: "disk \<Rightarrow> bool" where
  "disk_ok d \<longleftrightarrow> drive_ok d \<and> 0 < disk0_sem d"

lemma drive_okD:
  assumes "drive_ok d"
  shows "length (disk0_buffer d) = 16384" "dfail d sec = 0" "b < d_blocks d \<Longrightarrow> unat b < 2 ^ 19" "dvalid d"
  using assms by (simp_all add: drive_ok_def word_less_nat_alt)

lemma disk_ok_buffer [simp]: "length x = 16384 \<Longrightarrow> disk_ok d \<Longrightarrow> disk_ok (d\<lparr>disk0_buffer := x\<rparr>)"
  by (simp add: disk_ok_def drive_ok_def)

lemma disk_ok_put [simp]: "disk_ok (put_blk d b x) = disk_ok d"
  by (simp add: disk_ok_def drive_ok_def put_blk_def)

lemma put_blk_simps [simp]:
  "disk0_buffer (put_blk d b x) = disk0_buffer d" "disk0_sem (put_blk d b x) = disk0_sem d"
  "dfail (put_blk d b x) = dfail d" "d_blocks (put_blk d b x) = d_blocks d"
  by (simp_all add: put_blk_def)

lemma disk0_sectors:
  assumes "unat (b :: u32) < 2 ^ 19"
  shows "unat (b * 8) = 8 * unat b" "b * 8 < MAX_DISK_NSECS" "b * 8 + 8 \<le> MAX_DISK_NSECS"
  using assms by (simp_all add: unat_word_ariths word_less_nat_alt word_le_nat_alt)

lemma disk0_read_blk:
  assumes "drive_ok d" and "b < d_blocks d"
  shows "disk0_read_blks_nolock d b 1 = kret (d\<lparr>disk0_buffer := paste (disk0_buffer d) 0 (blk d (unat b))\<rparr>)"
proof -
  note D = drive_okD [OF assms(1)]
  have "map (\<lambda>i. dbytes d (8 * unat b * 512 + i)) [0..<8 * 512] = blk d (unat b)" by (simp add: blk_def mult.commute)
  then show ?thesis using ide_read_loop_ok [of 8 d "8 * unat b" 0] D disk0_sectors [OF D(3) [OF assms(2)]]
    by (simp add: disk0_read_blks_nolock_def ide_read_secs_def)
qed

lemma disk0_write_blk:
  assumes "drive_ok d" and "b < d_blocks d"
  shows "disk0_write_blks_nolock d b 1 = kret (put_blk d (unat b) (take 4096 (disk0_buffer d)))"
proof -
  note D = drive_okD [OF assms(1)]
  have "(\<lambda>a. if 8 * unat b * 512 \<le> a \<and> a < (8 * unat b + 8) * 512 then disk0_buffer d ! (0 + a - 8 * unat b * 512) else dbytes d a) =
      (\<lambda>a. if a div 4096 = unat b then take 4096 (disk0_buffer d) ! (a mod 4096) else dbytes d a)"
  proof
    fix a
    have "a div 4096 = unat b \<longleftrightarrow> 8 * unat b * 512 \<le> a \<and> a < (8 * unat b + 8) * 512" by auto
    moreover have "a mod 4096 = a - 8 * unat b * 512" if "a div 4096 = unat b"
      using that div_mult_mod_eq [of a 4096] by linarith
    ultimately show "(if 8 * unat b * 512 \<le> a \<and> a < (8 * unat b + 8) * 512 then disk0_buffer d ! (0 + a - 8 * unat b * 512)
        else dbytes d a) = (if a div 4096 = unat b then take 4096 (disk0_buffer d) ! (a mod 4096) else dbytes d a)" by auto
  qed
  then show ?thesis using ide_write_loop_ok [of 8 d "8 * unat b" 0] D disk0_sectors [OF D(3) [OF assms(2)]]
    by (simp add: disk0_write_blks_nolock_def ide_write_secs_def put_blk_def)
qed

lemma disk0_io_guard:
  assumes ok: "disk_ok d" and b: "b < d_blocks d"
  shows "\<exists>v. drive_ok (d\<lparr>disk0_sem := v\<rparr>) \<and> disk0_sem d = v + 1 \<and>
    disk0_io d (iobuf_init buf pos 4096 (b * 4096)) write =
    kbind (disk0_loop (d\<lparr>disk0_sem := v\<rparr>) (iobuf_init buf pos 4096 (b * 4096)) write 4096 b) (\<lambda>(iob, d).
      kret (0, iob, d\<lparr>disk0_sem := disk0_sem d + 1\<rparr>))"
proof -
  obtain v where v: "disk0_sem d = Suc v" using ok by (auto simp: disk_ok_def gr0_conv_Suc)
  have "unat b < 2 ^ 19" using ok drive_okD(3) [OF _ b] by (simp add: disk_ok_def)
  moreover have "\<not> b + 1 > d_blocks d" using unat_inc [OF b] b by (simp add: word_less_nat_alt not_less word_le_nat_alt)
  ultimately show ?thesis using v block_offset [of b] ok
    by (intro exI [of _ v]) (simp add: disk0_io_def iobuf_init_def sem_down_def disk_ok_def drive_ok_def)
qed

text \<open>Reading and writing one block: the buffer gets the block, the block gets the buffer.\<close>

lemma disk0_io_read:
  assumes ok: "disk_ok d" and b: "b < d_blocks d" and pos: "pos + 4096 \<le> length buf"
  shows "\<exists>iob x. disk0_io d (iobuf_init buf pos 4096 (b * 4096)) False = kret (0, iob, d\<lparr>disk0_buffer := x\<rparr>) \<and>
    io_buf iob = paste buf pos (blk d (unat b)) \<and> length x = 16384"
proof -
  obtain v where v: "drive_ok (d\<lparr>disk0_sem := v\<rparr>)" "disk0_sem d = v + 1"
      "disk0_io d (iobuf_init buf pos 4096 (b * 4096)) False =
        kbind (disk0_loop (d\<lparr>disk0_sem := v\<rparr>) (iobuf_init buf pos 4096 (b * 4096)) False 4096 b) (\<lambda>(iob, d).
        kret (0, iob, d\<lparr>disk0_sem := disk0_sem d + 1\<rparr>))"
    using disk0_io_guard [OF ok b] by blast
  let ?d = "d\<lparr>disk0_sem := v\<rparr>" and ?x = "paste (disk0_buffer d) 0 (blk d (unat b))"
  have l: "length (disk0_buffer d) = 16384" using drive_okD(1) [OF v(1)] by simp
  have rd: "disk0_read_blks_nolock ?d b 1 = kret (?d\<lparr>disk0_buffer := ?x\<rparr>)" using disk0_read_blk [OF v(1), of b] b by simp
  have sl: "sub ?x 0 4096 = blk d (unat b)" using l sub_paste_same [of 0 "blk d (unat b)" "disk0_buffer d"] by simp
  let ?iob = "\<lparr>io_buf = paste buf pos (blk d (unat b)), io_base = pos + 4096, io_offset = b * 4096 + 4096, io_len = 4096, io_resid = 0\<rparr>"
  have "disk0_loop ?d (iobuf_init buf pos 4096 (b * 4096)) False 4096 b = kret (?iob, ?d\<lparr>disk0_buffer := ?x\<rparr>)"
    using l sl pos by (subst disk0_loop.simps, subst disk0_loop.simps) (simp add: rd iobuf_move_def iobuf_init_def iobuf_skip_def)
  then show ?thesis using v(2,3) l by (intro exI [of _ ?iob] exI [of _ ?x]) simp
qed

lemma disk0_io_write:
  assumes ok: "disk_ok d" and b: "b < d_blocks d" and pos: "pos + 4096 \<le> length buf"
  shows "\<exists>iob x. disk0_io d (iobuf_init buf pos 4096 (b * 4096)) True =
      kret (0, iob, (put_blk d (unat b) (sub buf pos 4096))\<lparr>disk0_buffer := x\<rparr>) \<and> io_buf iob = buf \<and> length x = 16384"
proof -
  obtain v where v: "drive_ok (d\<lparr>disk0_sem := v\<rparr>)" "disk0_sem d = v + 1"
      "disk0_io d (iobuf_init buf pos 4096 (b * 4096)) True =
        kbind (disk0_loop (d\<lparr>disk0_sem := v\<rparr>) (iobuf_init buf pos 4096 (b * 4096)) True 4096 b) (\<lambda>(iob, d).
        kret (0, iob, d\<lparr>disk0_sem := disk0_sem d + 1\<rparr>))"
    using disk0_io_guard [OF ok b] by blast
  let ?x = "paste (disk0_buffer d) 0 (sub buf pos 4096)" and ?d = "d\<lparr>disk0_sem := v\<rparr>"
  have l: "length (disk0_buffer d) = 16384" using drive_okD(1) [OF v(1)] by simp
  have sl: "take 4096 ?x = sub buf pos 4096" using pos by (simp add: paste_def)
  have "drive_ok (?d\<lparr>disk0_buffer := ?x\<rparr>)" using v(1) pos l by (simp add: drive_ok_def)
  then have wr: "disk0_write_blks_nolock (?d\<lparr>disk0_buffer := ?x\<rparr>) b 1 =
      kret (put_blk (?d\<lparr>disk0_buffer := ?x\<rparr>) (unat b) (sub buf pos 4096))"
    using disk0_write_blk [of "?d\<lparr>disk0_buffer := ?x\<rparr>" b] b sl by simp
  let ?iob = "\<lparr>io_buf = buf, io_base = pos + 4096, io_offset = b * 4096 + 4096, io_len = 4096, io_resid = 0\<rparr>"
  have "disk0_loop ?d (iobuf_init buf pos 4096 (b * 4096)) True 4096 b =
      kret (?iob, put_blk (?d\<lparr>disk0_buffer := ?x\<rparr>) (unat b) (sub buf pos 4096))"
    using l pos by (subst disk0_loop.simps, subst disk0_loop.simps) (simp add: wr iobuf_move_def iobuf_init_def iobuf_skip_def)
  moreover have "(put_blk (?d\<lparr>disk0_buffer := ?x\<rparr>) (unat b) (sub buf pos 4096))\<lparr>disk0_sem := v + 1\<rparr> =
      (put_blk d (unat b) (sub buf pos 4096))\<lparr>disk0_buffer := ?x\<rparr>"
    by (rule disk.equality) (simp_all add: put_blk_def v(2) fun_eq_iff)
  ultimately show ?thesis using v(3) l pos by (intro exI [of _ ?iob] exI [of _ ?x]) simp
qed

end
