(* ===== verification/Sfs.thy ===== *)
theory Sfs
  imports Disk Strings Clist
begin

text \<open>
  The simple file system: block transfers (\<^verbatim>\<open>kern/fs/sfs/sfs_io.c\<close>) and the inodes of
  \<^verbatim>\<open>kern/fs/sfs/sfs_inode.c\<close> up to reading, writing and truncating a file.  Structures that are copied
  to and from the disk have their layout as encodings into bytes.  A \<^verbatim>\<open>struct sfs_inode\<close> is passed
  and returned as a value, with the disk inode it owns inside.
\<close>

unbundle bit_operations_syntax

section \<open>Structures and their layout on the disk\<close>

abbreviation (input) E_ISDIR :: int where "E_ISDIR \<equiv> 17"
abbreviation (input) E_NOTDIR :: int where "E_NOTDIR \<equiv> 18"
abbreviation (input) E_EXISTS :: int where "E_EXISTS \<equiv> 23"
abbreviation (input) E_NOTEMPTY :: int where "E_NOTEMPTY \<equiv> 24"

abbreviation (input) SFS_BLKSIZE :: u32 where "SFS_BLKSIZE \<equiv> 4096"
abbreviation (input) SFS_NDIRECT :: u32 where "SFS_NDIRECT \<equiv> 12"
abbreviation (input) SFS_BLK_NENTRY :: u32 where "SFS_BLK_NENTRY \<equiv> 1024"
abbreviation (input) SFS_BLKBITS :: u32 where "SFS_BLKBITS \<equiv> 32768"
abbreviation (input) SFS_MAX_FILE_SIZE :: u32 where "SFS_MAX_FILE_SIZE \<equiv> 0x8000000"
abbreviation (input) SFS_MAX_FNAME_LEN :: nat where "SFS_MAX_FNAME_LEN \<equiv> 255"
abbreviation (input) SFS_BLKN_SUPER :: u32 where "SFS_BLKN_SUPER \<equiv> 0"
abbreviation (input) SFS_BLKN_FREEMAP :: u32 where "SFS_BLKN_FREEMAP \<equiv> 2"
abbreviation (input) SFS_TYPE_FILE :: u16 where "SFS_TYPE_FILE \<equiv> 1"
abbreviation (input) SFS_TYPE_DIR :: u16 where "SFS_TYPE_DIR \<equiv> 2"

record sfs_super =
  smagic :: u32
  sblocks :: u32
  unused_blocks :: u32
  sinfo :: bytes

record sfs_disk_inode =
  dsize :: u32
  dtype :: u16
  nlinks :: u16
  dblocks :: u32
  direct :: "u32 list"
  indirect :: u32

record sfs_disk_entry =
  eino :: u32
  ename :: bytes

record sfs_inode =
  din :: sfs_disk_inode
  ino :: u32
  dirty :: bool
  reclaim_count :: int
  sin_sem :: nat

record sfs_fs =
  super :: sfs_super
  dev :: disk
  freemap :: bitmap
  super_dirty :: bool
  sfs_buffer :: bytes
  fs_sem :: nat
  io_sem :: nat

definition enc16 :: "u16 \<Rightarrow> bytes" where
  "enc16 w = [ucast w, ucast (drop_bit 8 w)]"

definition enc32 :: "u32 \<Rightarrow> bytes" where
  "enc32 w = [ucast w, ucast (drop_bit 8 w), ucast (drop_bit 16 w), ucast (drop_bit 24 w)]"

definition dec16 :: "bytes \<Rightarrow> nat \<Rightarrow> u16" where
  "dec16 b i = ucast (b ! i) OR push_bit 8 (ucast (b ! (i + 1)))"

definition dec32 :: "bytes \<Rightarrow> nat \<Rightarrow> u32" where
  "dec32 b i = ucast (b ! i) OR push_bit 8 (ucast (b ! (i + 1))) OR
     push_bit 16 (ucast (b ! (i + 2))) OR push_bit 24 (ucast (b ! (i + 3)))"

definition enc_super :: "sfs_super \<Rightarrow> bytes" where
  "enc_super x = enc32 (smagic x) @ enc32 (sblocks x) @ enc32 (unused_blocks x) @ sinfo x"

definition enc_din :: "sfs_disk_inode \<Rightarrow> bytes" where
  "enc_din x = enc32 (dsize x) @ enc16 (dtype x) @ enc16 (nlinks x) @ enc32 (dblocks x) @
     concat (map enc32 (direct x)) @ enc32 (indirect x)"

definition dec_din :: "bytes \<Rightarrow> sfs_disk_inode" where
  "dec_din b = \<lparr>dsize = dec32 b 0, dtype = dec16 b 4, nlinks = dec16 b 6, dblocks = dec32 b 8,
     direct = map (\<lambda>i. dec32 b (12 + 4 * i)) [0..<12], indirect = dec32 b 60\<rparr>"

definition enc_entry :: "sfs_disk_entry \<Rightarrow> bytes" where
  "enc_entry x = enc32 (eino x) @ ename x"

definition dec_entry :: "bytes \<Rightarrow> sfs_disk_entry" where
  "dec_entry b = \<lparr>eino = dec32 b 0, ename = sub b 4 256\<rparr>"

section \<open>Block transfers (\<^verbatim>\<open>sfs_io.c\<close>)\<close>

definition lock_sfs_io :: "sfs_fs \<Rightarrow> (sfs_fs \<Rightarrow> 'a prog) \<Rightarrow> 'a prog" where
  "lock_sfs_io s k = sem_down (io_sem s) (\<lambda>v. k (s\<lparr>io_sem := v\<rparr>))"

definition unlock_sfs_io :: "sfs_fs \<Rightarrow> sfs_fs" where
  "unlock_sfs_io s = s\<lparr>io_sem := io_sem s + 1\<rparr>"

definition sfs_rwblock_nolock :: "sfs_fs \<Rightarrow> bytes \<Rightarrow> nat \<Rightarrow> u32 \<Rightarrow> bool \<Rightarrow> bool \<Rightarrow> (int \<times> bytes \<times> sfs_fs) prog" where
  "sfs_rwblock_nolock s buf pos blkno write check =
     kassert ((blkno \<noteq> 0 \<or> \<not> check) \<and> blkno < sblocks (super s))
       (kbind (disk0_io (dev s) (iobuf_init buf pos SFS_BLKSIZE (blkno * SFS_BLKSIZE)) write) (\<lambda>(ret, iob, d).
        kret (ret, io_buf iob, s\<lparr>dev := d\<rparr>)))"

partial_function (option) rwblock_loop ::
  "sfs_fs \<Rightarrow> bytes \<Rightarrow> nat \<Rightarrow> u32 \<Rightarrow> u32 \<Rightarrow> bool \<Rightarrow> (int \<times> bytes \<times> sfs_fs) prog" where
  "rwblock_loop s buf pos blkno nblks write =
     (if nblks = 0 then kret (0, buf, s)
      else kbind (sfs_rwblock_nolock s buf pos blkno write True) (\<lambda>(ret, buf, s).
        if ret \<noteq> 0 then kret (ret, buf, s)
        else rwblock_loop s buf (pos + 4096) (blkno + 1) (nblks - 1) write))"

definition sfs_rwblock :: "sfs_fs \<Rightarrow> bytes \<Rightarrow> nat \<Rightarrow> u32 \<Rightarrow> u32 \<Rightarrow> bool \<Rightarrow> (int \<times> bytes \<times> sfs_fs) prog" where
  "sfs_rwblock s buf pos blkno nblks write = lock_sfs_io s (\<lambda>s.
     kbind (rwblock_loop s buf pos blkno nblks write) (\<lambda>(ret, buf, s). kret (ret, buf, unlock_sfs_io s)))"

definition sfs_rblock :: "sfs_fs \<Rightarrow> bytes \<Rightarrow> nat \<Rightarrow> u32 \<Rightarrow> u32 \<Rightarrow> (int \<times> bytes \<times> sfs_fs) prog" where
  "sfs_rblock s buf pos blkno nblks = sfs_rwblock s buf pos blkno nblks False"

definition sfs_wblock :: "sfs_fs \<Rightarrow> bytes \<Rightarrow> nat \<Rightarrow> u32 \<Rightarrow> u32 \<Rightarrow> (int \<times> bytes \<times> sfs_fs) prog" where
  "sfs_wblock s buf pos blkno nblks = sfs_rwblock s buf pos blkno nblks True"

definition sfs_rbuf :: "sfs_fs \<Rightarrow> bytes \<Rightarrow> nat \<Rightarrow> u32 \<Rightarrow> u32 \<Rightarrow> u32 \<Rightarrow> (int \<times> bytes \<times> sfs_fs) prog" where
  "sfs_rbuf s buf pos len blkno offset =
     kassert (0 \<le> sint offset \<and> sint offset < 4096 \<and> offset + len \<le> SFS_BLKSIZE) (lock_sfs_io s (\<lambda>s.
       kbind (sfs_rwblock_nolock s (sfs_buffer s) 0 blkno False True) (\<lambda>(ret, b, s).
       let s = s\<lparr>sfs_buffer := b\<rparr> in
       if ret = 0
       then kbind (peek (sfs_buffer s) (unat offset) (unat len)) (\<lambda>x.
            kbind (poke buf pos x) (\<lambda>buf. kret (ret, buf, unlock_sfs_io s)))
       else kret (ret, buf, unlock_sfs_io s))))"

definition sfs_wbuf :: "sfs_fs \<Rightarrow> bytes \<Rightarrow> nat \<Rightarrow> u32 \<Rightarrow> u32 \<Rightarrow> u32 \<Rightarrow> (int \<times> bytes \<times> sfs_fs) prog" where
  "sfs_wbuf s buf pos len blkno offset =
     kassert (0 \<le> sint offset \<and> sint offset < 4096 \<and> offset + len \<le> SFS_BLKSIZE) (lock_sfs_io s (\<lambda>s.
       kbind (sfs_rwblock_nolock s (sfs_buffer s) 0 blkno False True) (\<lambda>(ret, b, s).
       let s = s\<lparr>sfs_buffer := b\<rparr> in
       if ret = 0
       then kbind (peek buf pos (unat len)) (\<lambda>x.
            kbind (poke (sfs_buffer s) (unat offset) x) (\<lambda>b.
            kbind (sfs_rwblock_nolock s b 0 blkno True True) (\<lambda>(ret, b, s).
            kret (ret, buf, unlock_sfs_io (s\<lparr>sfs_buffer := b\<rparr>)))))
       else kret (ret, buf, unlock_sfs_io s))))"

definition sfs_sync_super :: "sfs_fs \<Rightarrow> (int \<times> sfs_fs) prog" where
  "sfs_sync_super s = lock_sfs_io s (\<lambda>s.
     kbind (poke (sfs_buffer s) 0 (replicate 4096 0)) (\<lambda>b.
     kbind (poke b 0 (enc_super (super s))) (\<lambda>b.
     kbind (sfs_rwblock_nolock s b 0 SFS_BLKN_SUPER True False) (\<lambda>(ret, b, s).
     kret (ret, unlock_sfs_io (s\<lparr>sfs_buffer := b\<rparr>))))))"

definition sfs_freemap_blocks :: "sfs_super \<Rightarrow> u32" where
  "sfs_freemap_blocks x = ROUNDUP_DIV (sblocks x) SFS_BLKBITS"

definition sfs_sync_freemap :: "sfs_fs \<Rightarrow> (int \<times> sfs_fs) prog" where
  "sfs_sync_freemap s =
     kbind (sfs_wblock s (concat (map enc32 (fst (bitmap_getdata (freemap s))))) 0 SFS_BLKN_FREEMAP
              (sfs_freemap_blocks (super s))) (\<lambda>(ret, _, s). kret (ret, s))"

text \<open>The result of an empty loop is not initialised in the code; reading it is a panic here.\<close>

partial_function (option) clear_loop :: "sfs_fs \<Rightarrow> int option \<Rightarrow> u32 \<Rightarrow> u32 \<Rightarrow> (int \<times> sfs_fs) prog" where
  "clear_loop s ret blkno nblks =
     (if nblks = 0
      then case ret of None \<Rightarrow> kpanic (Panic ''uninitialised'') | Some ret \<Rightarrow> kret (ret, s)
      else kbind (sfs_rwblock_nolock s (sfs_buffer s) 0 blkno True True) (\<lambda>(ret, b, s).
        let s = s\<lparr>sfs_buffer := b\<rparr> in
        if ret \<noteq> 0 then kret (ret, s) else clear_loop s (Some ret) (blkno + 1) (nblks - 1)))"

definition sfs_clear_block :: "sfs_fs \<Rightarrow> u32 \<Rightarrow> u32 \<Rightarrow> (int \<times> sfs_fs) prog" where
  "sfs_clear_block s blkno nblks = lock_sfs_io s (\<lambda>s.
     kbind (poke (sfs_buffer s) 0 (replicate 4096 0)) (\<lambda>b.
     kbind (clear_loop (s\<lparr>sfs_buffer := b\<rparr>) None blkno nblks) (\<lambda>(ret, s). kret (ret, unlock_sfs_io s))))"

section \<open>Blocks and the free map (\<^verbatim>\<open>sfs_inode.c\<close>)\<close>

definition sfs_block_inuse :: "sfs_fs \<Rightarrow> u32 \<Rightarrow> bool prog" where
  "sfs_block_inuse s b =
     (if b \<noteq> 0 \<and> b < sblocks (super s) then kbind (bitmap_test (freemap s) b) (\<lambda>t. kret (\<not> t))
      else kpanic (Panic ''sfs_block_inuse: called out of range''))"

definition assert_inuse :: "sfs_fs \<Rightarrow> u32 \<Rightarrow> 'a prog \<Rightarrow> 'a prog" where
  "assert_inuse s b k = kbind (sfs_block_inuse s b) (\<lambda>t. kassert t k)"

text \<open>The callers ignore the result.\<close>

definition sfs_super_sync :: "sfs_fs \<Rightarrow> sfs_fs prog" where
  "sfs_super_sync s =
     (if super_dirty s
      then kbind (sfs_sync_super (s\<lparr>super_dirty := False\<rparr>)) (\<lambda>(ret, s).
           if ret \<noteq> 0 then kret (s\<lparr>super_dirty := True\<rparr>)
           else kbind (sfs_sync_freemap s) (\<lambda>(ret, s).
             kret (if ret \<noteq> 0 then s\<lparr>super_dirty := True\<rparr> else s)))
      else kret s)"

definition add_unused :: "u32 \<Rightarrow> sfs_fs \<Rightarrow> sfs_fs" where
  "add_unused n s = s\<lparr>super := (super s)\<lparr>unused_blocks := unused_blocks (super s) + n\<rparr>, super_dirty := True\<rparr>"

definition sfs_block_alloc :: "sfs_fs \<Rightarrow> (int \<times> u32 \<times> sfs_fs) prog" where
  "sfs_block_alloc s = kbind (bitmap_alloc (freemap s)) (\<lambda>(fm, r).
     let s = s\<lparr>freemap := fm\<rparr> in
     case r of Inl ret \<Rightarrow> kret (ret, 0, s)
     | Inr b \<Rightarrow> kassert (unused_blocks (super s) > 0) (
         kbind (sfs_super_sync (add_unused (- 1) s)) (\<lambda>s.
         assert_inuse s b (
         kbind (sfs_clear_block s b 1) (\<lambda>(ret, s). kret (ret, b, s))))))"

definition sfs_block_free :: "sfs_fs \<Rightarrow> u32 \<Rightarrow> sfs_fs prog" where
  "sfs_block_free s b = assert_inuse s b (
     kbind (bitmap_free (freemap s) b) (\<lambda>fm. sfs_super_sync (add_unused 1 (s\<lparr>freemap := fm\<rparr>))))"

section \<open>The blocks of a file\<close>

text \<open>The second half of \<^verbatim>\<open>sfs_bmap_get_sub_nolock\<close>: the index block \<open>ent\<close> exists and the entry is empty.\<close>

definition bmap_cleanup :: "sfs_fs \<Rightarrow> u32 \<Rightarrow> u32 \<Rightarrow> int \<Rightarrow> (int \<times> u32 \<times> u32 \<times> sfs_fs) prog" where
  "bmap_cleanup s entp ent ret =
     (if ent \<noteq> entp then kbind (sfs_block_free s ent) (\<lambda>s. kret (ret, entp, 0, s)) else kret (ret, entp, 0, s))"

definition bmap_create_sub :: "sfs_fs \<Rightarrow> u32 \<Rightarrow> u32 \<Rightarrow> u32 \<Rightarrow> (int \<times> u32 \<times> u32 \<times> sfs_fs) prog" where
  "bmap_create_sub s entp ent offset = kbind (sfs_block_alloc s) (\<lambda>(ret, b, s).
     if ret \<noteq> 0 then bmap_cleanup s entp ent ret
     else kbind (sfs_wbuf s (enc32 b) 0 4 ent offset) (\<lambda>(ret, _, s).
       if ret \<noteq> 0 then kbind (sfs_block_free s b) (\<lambda>s. bmap_cleanup s entp ent ret)
       else kret (0, ent, b, s)))"

definition sfs_bmap_get_sub_nolock :: "sfs_fs \<Rightarrow> u32 \<Rightarrow> u32 \<Rightarrow> bool \<Rightarrow> (int \<times> u32 \<times> u32 \<times> sfs_fs) prog" where
  "sfs_bmap_get_sub_nolock s entp index create = kassert (index < SFS_BLK_NENTRY) (
     let offset = index * 4 in
     if entp \<noteq> 0
     then kbind (sfs_rbuf s (enc32 0) 0 4 entp offset) (\<lambda>(ret, b, s).
          if ret \<noteq> 0 then kret (ret, entp, 0, s)
          else let b = dec32 b 0 in
            if b \<noteq> 0 \<or> \<not> create then kret (0, entp, b, s) else bmap_create_sub s entp entp offset)
     else if \<not> create then kret (0, entp, 0, s)
     else kbind (sfs_block_alloc s) (\<lambda>(ret, ent, s).
       if ret \<noteq> 0 then kret (ret, entp, 0, s) else bmap_create_sub s entp ent offset))"

definition upd_din :: "(sfs_disk_inode \<Rightarrow> sfs_disk_inode) \<Rightarrow> sfs_inode \<Rightarrow> sfs_inode" where
  "upd_din f x = x\<lparr>din := f (din x)\<rparr>"

definition bmap_out :: "sfs_fs \<Rightarrow> sfs_inode \<Rightarrow> u32 \<Rightarrow> (int \<times> u32 \<times> sfs_fs \<times> sfs_inode) prog" where
  "bmap_out s sin b = (if b = 0 then kret (0, b, s, sin) else assert_inuse s b (kret (0, b, s, sin)))"

definition sfs_bmap_get_nolock ::
  "sfs_fs \<Rightarrow> sfs_inode \<Rightarrow> u32 \<Rightarrow> bool \<Rightarrow> (int \<times> u32 \<times> sfs_fs \<times> sfs_inode) prog" where
  "sfs_bmap_get_nolock s sin index create =
     (if index < SFS_NDIRECT
      then let b = direct (din sin) ! unat index in
        if b = 0 \<and> create
        then kbind (sfs_block_alloc s) (\<lambda>(ret, b, s).
             if ret \<noteq> 0 then kret (ret, 0, s, sin)
             else bmap_out s ((upd_din (\<lambda>d. d\<lparr>direct := (direct d)[unat index := b]\<rparr>) sin)\<lparr>dirty := True\<rparr>) b)
        else bmap_out s sin b
      else let index = index - SFS_NDIRECT in
        if index < SFS_BLK_NENTRY
        then kbind (sfs_bmap_get_sub_nolock s (indirect (din sin)) index create) (\<lambda>(ret, ent, b, s).
             if ret \<noteq> 0 then kret (ret, 0, s, sin)
             else if ent \<noteq> indirect (din sin)
             then kassert (indirect (din sin) = 0)
                    (bmap_out s ((upd_din (\<lambda>d. d\<lparr>indirect := ent\<rparr>) sin)\<lparr>dirty := True\<rparr>) b)
             else bmap_out s sin b)
        else kpanic (Panic ''sfs_bmap_get_nolock - index out of range''))"

definition sfs_bmap_free_sub_nolock :: "sfs_fs \<Rightarrow> u32 \<Rightarrow> u32 \<Rightarrow> (int \<times> sfs_fs) prog" where
  "sfs_bmap_free_sub_nolock s ent index = assert_inuse s ent (kassert (index < SFS_BLK_NENTRY) (
     kbind (sfs_rbuf s (enc32 0) 0 4 ent (index * 4)) (\<lambda>(ret, b, s).
       let b = dec32 b 0 in
       if ret \<noteq> 0 then kret (ret, s)
       else if b \<noteq> 0
       then kbind (sfs_wbuf s (enc32 0) 0 4 ent (index * 4)) (\<lambda>(ret, _, s).
            if ret \<noteq> 0 then kret (ret, s) else kbind (sfs_block_free s b) (\<lambda>s. kret (0, s)))
       else kret (0, s))))"

definition sfs_bmap_free_nolock :: "sfs_fs \<Rightarrow> sfs_inode \<Rightarrow> u32 \<Rightarrow> (int \<times> sfs_fs \<times> sfs_inode) prog" where
  "sfs_bmap_free_nolock s sin index =
     (if index < SFS_NDIRECT
      then let b = direct (din sin) ! unat index in
        if b \<noteq> 0
        then kbind (sfs_block_free s b) (\<lambda>s.
             kret (0, s, (upd_din (\<lambda>d. d\<lparr>direct := (direct d)[unat index := 0]\<rparr>) sin)\<lparr>dirty := True\<rparr>))
        else kret (0, s, sin)
      else let index = index - SFS_NDIRECT in
        if index < SFS_BLK_NENTRY
        then if indirect (din sin) \<noteq> 0
             then kbind (sfs_bmap_free_sub_nolock s (indirect (din sin)) index) (\<lambda>(ret, s). kret (ret, s, sin))
             else kret (0, s, sin)
        else kret (0, s, sin))"

definition sfs_bmap_load_nolock :: "sfs_fs \<Rightarrow> sfs_inode \<Rightarrow> u32 \<Rightarrow> (int \<times> u32 \<times> sfs_fs \<times> sfs_inode) prog" where
  "sfs_bmap_load_nolock s sin index = kassert (index \<le> dblocks (din sin)) (
     let create = (index = dblocks (din sin)) in
     kbind (sfs_bmap_get_nolock s sin index create) (\<lambda>(ret, b, s, sin).
       if ret \<noteq> 0 then kret (ret, 0, s, sin)
       else assert_inuse s b (
         kret (0, b, s, if create then upd_din (\<lambda>d. d\<lparr>dblocks := dblocks d + 1\<rparr>) sin else sin))))"

definition sfs_bmap_truncate_nolock :: "sfs_fs \<Rightarrow> sfs_inode \<Rightarrow> (int \<times> sfs_fs \<times> sfs_inode) prog" where
  "sfs_bmap_truncate_nolock s sin = kassert (dblocks (din sin) \<noteq> 0) (
     kbind (sfs_bmap_free_nolock s sin (dblocks (din sin) - 1)) (\<lambda>(ret, s, sin).
       if ret \<noteq> 0 then kret (ret, s, sin)
       else kret (0, s, (upd_din (\<lambda>d. d\<lparr>dblocks := dblocks d - 1\<rparr>) sin)\<lparr>dirty := True\<rparr>)))"

section \<open>Reading, writing and resizing\<close>

definition io_buf_op :: "bool \<Rightarrow> sfs_fs \<Rightarrow> bytes \<Rightarrow> nat \<Rightarrow> u32 \<Rightarrow> u32 \<Rightarrow> u32 \<Rightarrow> (int \<times> bytes \<times> sfs_fs) prog" where
  "io_buf_op write = (if write then sfs_wbuf else sfs_rbuf)"

definition io_block_op :: "bool \<Rightarrow> sfs_fs \<Rightarrow> bytes \<Rightarrow> nat \<Rightarrow> u32 \<Rightarrow> u32 \<Rightarrow> (int \<times> bytes \<times> sfs_fs) prog" where
  "io_block_op write = (if write then sfs_wblock else sfs_rblock)"

text \<open>A part of one block, at the start or at the end of the range.\<close>

definition io_part ::
  "bool \<Rightarrow> sfs_fs \<Rightarrow> sfs_inode \<Rightarrow> bytes \<Rightarrow> nat \<Rightarrow> u32 \<Rightarrow> u32 \<Rightarrow> u32 \<Rightarrow> (int \<times> bytes \<times> sfs_fs \<times> sfs_inode) prog" where
  "io_part write s sin buf pos blkno len blkoff =
     kbind (sfs_bmap_load_nolock s sin blkno) (\<lambda>(ret, b, s, sin).
       if ret \<noteq> 0 then kret (ret, buf, s, sin)
       else kbind (io_buf_op write s buf pos len b blkoff) (\<lambda>(ret, buf, s). kret (ret, buf, s, sin)))"

partial_function (option) io_blocks ::
  "bool \<Rightarrow> sfs_fs \<Rightarrow> sfs_inode \<Rightarrow> bytes \<Rightarrow> nat \<Rightarrow> u32 \<Rightarrow> u32 \<Rightarrow> u32 \<Rightarrow>
     (int \<times> u32 \<times> nat \<times> u32 \<times> bytes \<times> sfs_fs \<times> sfs_inode) prog" where
  "io_blocks write s sin buf pos blkno nblks alen =
     (if nblks = 0 then kret (0, alen, pos, blkno, buf, s, sin)
      else kbind (sfs_bmap_load_nolock s sin blkno) (\<lambda>(ret, b, s, sin).
        if ret \<noteq> 0 then kret (ret, alen, pos, blkno, buf, s, sin)
        else kbind (io_block_op write s buf pos b 1) (\<lambda>(ret, buf, s).
          if ret \<noteq> 0 then kret (ret, alen, pos, blkno, buf, s, sin)
          else io_blocks write s sin buf (pos + 4096) (blkno + 1) (nblks - 1) (alen + SFS_BLKSIZE))))"

definition io_tail ::
  "bool \<Rightarrow> sfs_fs \<Rightarrow> sfs_inode \<Rightarrow> bytes \<Rightarrow> nat \<Rightarrow> u32 \<Rightarrow> u32 \<Rightarrow> u32 \<Rightarrow> u32 \<Rightarrow>
     (int \<times> u32 \<times> bytes \<times> sfs_fs \<times> sfs_inode) prog" where
  "io_tail write s sin buf pos blkno nblks endpos alen =
     kbind (io_blocks write s sin buf pos blkno nblks alen) (\<lambda>(ret, alen, pos, blkno, buf, s, sin).
       if ret \<noteq> 0 then kret (ret, alen, buf, s, sin)
       else let len = endpos mod SFS_BLKSIZE in
         if len \<noteq> 0
         then kbind (io_part write s sin buf pos blkno len 0) (\<lambda>(ret, buf, s, sin).
              kret (ret, if ret \<noteq> 0 then alen else alen + len, buf, s, sin))
         else kret (0, alen, buf, s, sin))"

definition io_transfer ::
  "bool \<Rightarrow> sfs_fs \<Rightarrow> sfs_inode \<Rightarrow> bytes \<Rightarrow> nat \<Rightarrow> u32 \<Rightarrow> u32 \<Rightarrow> (int \<times> u32 \<times> bytes \<times> sfs_fs \<times> sfs_inode) prog" where
  "io_transfer write s sin buf pos offset endpos =
     (let blkno = offset div SFS_BLKSIZE; nblks = endpos div SFS_BLKSIZE - blkno;
          blkoff = offset mod SFS_BLKSIZE in
      if blkoff \<noteq> 0
      then let len = (if nblks \<noteq> 0 then SFS_BLKSIZE - blkoff else endpos - offset) in
        kbind (io_part write s sin buf pos blkno len blkoff) (\<lambda>(ret, buf, s, sin).
          if ret \<noteq> 0 then kret (ret, 0, buf, s, sin)
          else if nblks = 0 then kret (0, len, buf, s, sin)
          else io_tail write s sin buf (pos + unat len) (blkno + 1) (nblks - 1) endpos len)
      else io_tail write s sin buf pos blkno nblks endpos 0)"

definition sfs_io_nolock ::
  "sfs_fs \<Rightarrow> sfs_inode \<Rightarrow> bytes \<Rightarrow> nat \<Rightarrow> u32 \<Rightarrow> u32 \<Rightarrow> bool \<Rightarrow> (int \<times> u32 \<times> bytes \<times> sfs_fs \<times> sfs_inode) prog" where
  "sfs_io_nolock s sin buf pos offset alen write = kassert (dtype (din sin) \<noteq> SFS_TYPE_DIR) (
     let endpos = offset + alen in
     if sint offset < 0 \<or> offset \<ge> SFS_MAX_FILE_SIZE \<or> sint offset > sint endpos then kret (- E_INVAL, 0, buf, s, sin)
     else if offset = endpos then kret (0, 0, buf, s, sin)
     else let endpos = (if endpos > SFS_MAX_FILE_SIZE then SFS_MAX_FILE_SIZE else endpos) in
       if \<not> write \<and> offset \<ge> dsize (din sin) then kret (0, 0, buf, s, sin)
       else let endpos = (if \<not> write \<and> endpos > dsize (din sin) then dsize (din sin) else endpos) in
         kbind (io_transfer write s sin buf pos offset endpos) (\<lambda>(ret, alen, buf, s, sin).
           kret (ret, alen, buf, s,
             if offset + alen > dsize (din sin)
             then (upd_din (\<lambda>d. d\<lparr>dsize := offset + alen\<rparr>) sin)\<lparr>dirty := True\<rparr> else sin)))"

definition lock_sin :: "sfs_inode \<Rightarrow> (sfs_inode \<Rightarrow> 'a prog) \<Rightarrow> 'a prog" where
  "lock_sin sin k = sem_down (sin_sem sin) (\<lambda>v. k (sin\<lparr>sin_sem := v\<rparr>))"

definition unlock_sin :: "sfs_inode \<Rightarrow> sfs_inode" where
  "unlock_sin sin = sin\<lparr>sin_sem := sin_sem sin + 1\<rparr>"

definition sfs_io :: "sfs_fs \<Rightarrow> sfs_inode \<Rightarrow> iobuf \<Rightarrow> bool \<Rightarrow> (int \<times> iobuf \<times> sfs_fs \<times> sfs_inode) prog" where
  "sfs_io s sin iob write = lock_sin sin (\<lambda>sin.
     kbind (sfs_io_nolock s sin (io_buf iob) (io_base iob) (io_offset iob) (io_resid iob) write)
       (\<lambda>(ret, alen, buf, s, sin).
         let iob = iob\<lparr>io_buf := buf\<rparr> in
         kbind (if alen \<noteq> 0 then iobuf_skip iob alen else kret iob) (\<lambda>iob.
         kret (ret, iob, s, unlock_sin sin))))"

definition sfs_fsync :: "sfs_fs \<Rightarrow> sfs_inode \<Rightarrow> (int \<times> sfs_fs \<times> sfs_inode) prog" where
  "sfs_fsync s sin =
     (if dirty sin
      then lock_sin sin (\<lambda>sin.
        if dirty sin
        then kbind (sfs_wbuf s (enc_din (din sin)) 0 64 (ino sin) 0) (\<lambda>(ret, _, s).
             kret (ret, s, unlock_sin (sin\<lparr>dirty := (ret \<noteq> 0)\<rparr>)))
        else kret (0, s, unlock_sin sin))
      else kret (0, s, sin))"

partial_function (option) grow_loop :: "sfs_fs \<Rightarrow> sfs_inode \<Rightarrow> u32 \<Rightarrow> u32 \<Rightarrow> (int \<times> sfs_fs \<times> sfs_inode) prog" where
  "grow_loop s sin nblks tblks =
     (if nblks = tblks then kret (0, s, sin)
      else kbind (sfs_bmap_load_nolock s sin nblks) (\<lambda>(ret, _, s, sin).
        if ret \<noteq> 0 then kret (ret, s, sin) else grow_loop s sin (nblks + 1) tblks))"

partial_function (option) shrink_loop :: "sfs_fs \<Rightarrow> sfs_inode \<Rightarrow> u32 \<Rightarrow> u32 \<Rightarrow> (int \<times> sfs_fs \<times> sfs_inode) prog" where
  "shrink_loop s sin nblks tblks =
     (if tblks = nblks then kret (0, s, sin)
      else kbind (sfs_bmap_truncate_nolock s sin) (\<lambda>(ret, s, sin).
        if ret \<noteq> 0 then kret (ret, s, sin) else shrink_loop s sin (nblks - 1) tblks))"

definition sfs_truncfile :: "sfs_fs \<Rightarrow> sfs_inode \<Rightarrow> u32 \<Rightarrow> (int \<times> sfs_fs \<times> sfs_inode) prog" where
  "sfs_truncfile s sin len =
     (if sint len < 0 \<or> len > SFS_MAX_FILE_SIZE then kret (- E_INVAL, s, sin)
      else let tblks = ROUNDUP_DIV len SFS_BLKSIZE in
        if dsize (din sin) = len then kassert (tblks = dblocks (din sin)) (kret (0, s, sin))
        else lock_sin sin (\<lambda>sin.
          let nblks = dblocks (din sin) in
          kbind (if nblks < tblks then grow_loop s sin nblks tblks
                 else if tblks < nblks then shrink_loop s sin nblks tblks else kret (0, s, sin)) (\<lambda>(ret, s, sin).
          if ret \<noteq> 0 then kret (ret, s, unlock_sin sin)
          else kassert (dblocks (din sin) = tblks)
            (kret (0, s, unlock_sin ((upd_din (\<lambda>d. d\<lparr>dsize := len\<rparr>) sin)\<lparr>dirty := True\<rparr>))))))"

definition sfs_tryseek :: "sfs_fs \<Rightarrow> sfs_inode \<Rightarrow> u32 \<Rightarrow> (int \<times> sfs_fs \<times> sfs_inode) prog" where
  "sfs_tryseek s sin pos =
     (if sint pos < 0 \<or> pos \<ge> SFS_MAX_FILE_SIZE then kret (- E_INVAL, s, sin)
      else if pos > dsize (din sin) then sfs_truncfile s sin pos else kret (0, s, sin))"

section \<open>Block transfers as updates of blocks\<close>

definition io_ok :: "sfs_fs \<Rightarrow> bool" where
  "io_ok s \<longleftrightarrow> disk_ok (dev s) \<and> length (sfs_buffer s) = 4096 \<and> sblocks (super s) \<le> d_blocks (dev s)"

text \<open>\<open>writes s s' w\<close>: only the blocks in the domain of \<open>w\<close> and the contents of the buffers differ.\<close>

definition writes :: "sfs_fs \<Rightarrow> sfs_fs \<Rightarrow> (nat \<rightharpoonup> bytes) \<Rightarrow> bool" where
  "writes s s' w \<longleftrightarrow> io_ok s' \<and> super s' = super s \<and> freemap s' = freemap s \<and> super_dirty s' = super_dirty s \<and>
     fs_sem s' = fs_sem s \<and> io_sem s' = io_sem s \<and>
     (\<forall>b. blk (dev s') b = (case w b of None \<Rightarrow> blk (dev s) b | Some x \<Rightarrow> x))"

lemma writesD:
  assumes "writes s s' w"
  shows "io_ok s'" "super s' = super s" "freemap s' = freemap s" "super_dirty s' = super_dirty s"
    "fs_sem s' = fs_sem s" "io_sem s' = io_sem s"
    "w b = None \<Longrightarrow> blk (dev s') b = blk (dev s) b" "w b = Some x \<Longrightarrow> blk (dev s') b = x"
  using assms by (auto simp: writes_def)

lemma writes_refl: "io_ok s \<Longrightarrow> writes s s Map.empty"
  by (simp add: writes_def)

lemma writes_trans: "writes s t v \<Longrightarrow> writes t u w \<Longrightarrow> writes s u (v ++ w)"
  by (auto simp: writes_def map_add_def split: option.splits)

lemma writes_idle: "writes s t Map.empty \<Longrightarrow> writes t u w \<Longrightarrow> writes s u w"
  using writes_trans by fastforce

lemma writes_buffer: "writes s t w \<Longrightarrow> length b = 4096 \<Longrightarrow> writes s (t\<lparr>sfs_buffer := b\<rparr>) w"
  by (auto simp: writes_def io_ok_def)

lemma io_ok_simps [simp]:
  "io_ok (s\<lparr>io_sem := v\<rparr>) = io_ok s" "io_ok (s\<lparr>freemap := fm\<rparr>) = io_ok s" "io_ok (s\<lparr>super_dirty := d\<rparr>) = io_ok s"
  "length b = 4096 \<Longrightarrow> io_ok s \<Longrightarrow> io_ok (s\<lparr>sfs_buffer := b\<rparr>)"
  by (simp_all add: io_ok_def)

lemma writes_unlock: "io_sem s = Suc v \<Longrightarrow> writes (s\<lparr>io_sem := v\<rparr>) t w \<Longrightarrow> writes s (unlock_sfs_io t) w"
  by (auto simp: writes_def unlock_sfs_io_def split: option.splits)

lemma lock_sfs_io_ok: "io_sem s = Suc v \<Longrightarrow> lock_sfs_io s k = k (s\<lparr>io_sem := v\<rparr>)"
  by (simp add: lock_sfs_io_def sem_down_def)

lemma rwblock_read:
  assumes ok: "io_ok s" and b: "b < sblocks (super s)" "b \<noteq> 0 \<or> \<not> check" and pos: "pos + 4096 \<le> length buf"
  shows "\<exists>s'. sfs_rwblock_nolock s buf pos b False check = kret (0, paste buf pos (blk (dev s) (unat b)), s') \<and>
    writes s s' Map.empty \<and> sfs_buffer s' = sfs_buffer s"
proof -
  have d: "disk_ok (dev s)" "b < d_blocks (dev s)" using ok b(1) by (auto simp: io_ok_def)
  obtain iob x where "disk0_io (dev s) (iobuf_init buf pos 4096 (b * 4096)) False = kret (0, iob, (dev s)\<lparr>disk0_buffer := x\<rparr>)"
      "io_buf iob = paste buf pos (blk (dev s) (unat b))" "length x = 16384"
    using disk0_io_read [OF d pos] by blast
  then show ?thesis using ok b
    by (intro exI [of _ "s\<lparr>dev := (dev s)\<lparr>disk0_buffer := x\<rparr>\<rparr>"]) (simp add: sfs_rwblock_nolock_def writes_def io_ok_def)
qed

lemma rwblock_write:
  assumes ok: "io_ok s" and b: "b < sblocks (super s)" "b \<noteq> 0 \<or> \<not> check" and pos: "pos + 4096 \<le> length buf"
  shows "\<exists>s'. sfs_rwblock_nolock s buf pos b True check = kret (0, buf, s') \<and>
    writes s s' [unat b \<mapsto> sub buf pos 4096] \<and> sfs_buffer s' = sfs_buffer s"
proof -
  have d: "disk_ok (dev s)" "b < d_blocks (dev s)" using ok b(1) by (auto simp: io_ok_def)
  obtain iob x where "disk0_io (dev s) (iobuf_init buf pos 4096 (b * 4096)) True =
        kret (0, iob, (put_blk (dev s) (unat b) (sub buf pos 4096))\<lparr>disk0_buffer := x\<rparr>)"
      "io_buf iob = buf" "length x = 16384"
    using disk0_io_write [OF d pos] by blast
  then show ?thesis using ok b pos
    by (intro exI [of _ "s\<lparr>dev := (put_blk (dev s) (unat b) (sub buf pos 4096))\<lparr>disk0_buffer := x\<rparr>\<rparr>"])
      (simp add: sfs_rwblock_nolock_def writes_def io_ok_def blk_put)
qed

lemma unat_le_4096: "unat (off + len :: u32) \<le> 4096 \<longleftrightarrow> off + len \<le> 4096"
  by (simp add: word_le_nat_alt)

lemma buf_range:
  assumes "unat (off :: u32) < 4096" and "unat off + unat len \<le> 4096"
  shows "0 \<le> sint off" "sint off < 4096" "off + len \<le> 4096"
proof -
  have "sint off = int (unat off)" using assms(1) by (intro sint_unat) simp
  then show "0 \<le> sint off" "sint off < 4096" using assms(1) by linarith+
  show "off + len \<le> 4096" using assms(2) by (simp add: word_le_nat_alt unat_add_noov)
qed

lemma sfs_rbuf_ok:
  assumes ok: "io_ok s" "0 < io_sem s" and b: "b < sblocks (super s)" "b \<noteq> 0"
    and r: "unat off < 4096" "unat off + unat len \<le> 4096" and pos: "pos + unat len \<le> length buf"
  shows "\<exists>s'. sfs_rbuf s buf pos len b off = kret (0, paste buf pos (sub (blk (dev s) (unat b)) (unat off) (unat len)), s') \<and>
    writes s s' Map.empty"
proof -
  obtain v where v: "io_sem s = Suc v" using ok(2) gr0_conv_Suc by auto
  let ?s = "s\<lparr>io_sem := v\<rparr>"
  have l: "length (sfs_buffer s) = 4096" using ok(1) by (simp add: io_ok_def)
  obtain t where t: "sfs_rwblock_nolock ?s (sfs_buffer ?s) 0 b False True = kret (0, blk (dev s) (unat b), t)"
      "writes ?s t Map.empty"
    using rwblock_read [of ?s b True 0 "sfs_buffer ?s"] ok b l by (auto simp: paste_all)
  let ?t = "t\<lparr>sfs_buffer := blk (dev s) (unat b)\<rparr>"
  have "writes s (unlock_sfs_io ?t) Map.empty" using writes_unlock [OF v writes_buffer [OF t(2)]] by simp
  then show ?thesis using t(1) buf_range [OF r] r(2) pos
    by (intro exI [of _ "unlock_sfs_io ?t"]) (simp add: sfs_rbuf_def lock_sfs_io_ok [OF v] Let_def)
qed

lemma sfs_wbuf_ok:
  assumes ok: "io_ok s" "0 < io_sem s" and b: "b < sblocks (super s)" "b \<noteq> 0"
    and r: "unat off < 4096" "unat off + unat len \<le> 4096" and pos: "pos + unat len \<le> length buf"
  shows "\<exists>s'. sfs_wbuf s buf pos len b off = kret (0, buf, s') \<and>
    writes s s' [unat b \<mapsto> paste (blk (dev s) (unat b)) (unat off) (sub buf pos (unat len))]"
proof -
  obtain v where v: "io_sem s = Suc v" using ok(2) gr0_conv_Suc by auto
  let ?s = "s\<lparr>io_sem := v\<rparr>"
  have l: "length (sfs_buffer s) = 4096" using ok(1) by (simp add: io_ok_def)
  obtain t where t: "sfs_rwblock_nolock ?s (sfs_buffer ?s) 0 b False True = kret (0, blk (dev s) (unat b), t)"
      "writes ?s t Map.empty"
    using rwblock_read [of ?s b True 0 "sfs_buffer ?s"] ok b l by (auto simp: paste_all)
  let ?t = "t\<lparr>sfs_buffer := blk (dev s) (unat b)\<rparr>"
  let ?x = "paste (blk (dev s) (unat b)) (unat off) (sub buf pos (unat len))"
  have lx: "length ?x = 4096" using r(2) pos by simp
  have wt: "writes ?s ?t Map.empty" using writes_buffer [OF t(2)] by simp
  obtain u where u: "sfs_rwblock_nolock ?t ?x 0 b True True = kret (0, ?x, u)" "writes ?t u [unat b \<mapsto> ?x]"
    using rwblock_write [of ?t b True 0 ?x] b lx writesD(1,2) [OF wt] sub_all [of ?x] by auto
  have "writes s (unlock_sfs_io (u\<lparr>sfs_buffer := ?x\<rparr>)) [unat b \<mapsto> ?x]"
    using writes_unlock [OF v writes_buffer [OF writes_idle [OF wt u(2)] lx]] .
  then show ?thesis using t(1) u(1) buf_range [OF r] r(2) pos
    by (intro exI [of _ "unlock_sfs_io (u\<lparr>sfs_buffer := ?x\<rparr>)"]) (simp add: sfs_wbuf_def lock_sfs_io_ok [OF v] Let_def)
qed

lemma rblock_one:
  assumes ok: "io_ok s" "0 < io_sem s" and b: "b < sblocks (super s)" "b \<noteq> 0" and pos: "pos + 4096 \<le> length buf"
  shows "\<exists>s'. sfs_rblock s buf pos b 1 = kret (0, paste buf pos (blk (dev s) (unat b)), s') \<and> writes s s' Map.empty"
proof -
  obtain v where v: "io_sem s = Suc v" using ok(2) gr0_conv_Suc by auto
  obtain t where "sfs_rwblock_nolock (s\<lparr>io_sem := v\<rparr>) buf pos b False True = kret (0, paste buf pos (blk (dev s) (unat b)), t)"
      "writes (s\<lparr>io_sem := v\<rparr>) t Map.empty"
    using rwblock_read [of "s\<lparr>io_sem := v\<rparr>" b True pos buf] ok b pos by auto
  then show ?thesis using writes_unlock [OF v, of t]
    by (simp add: sfs_rblock_def sfs_rwblock_def lock_sfs_io_ok [OF v]) (subst rwblock_loop.simps, subst rwblock_loop.simps, simp)
qed

text \<open>Writing a run of blocks.\<close>

lemma wblock_loop:
  assumes "io_ok s" and "b \<noteq> 0" and "unat b + n \<le> unat (sblocks (super s))" and "pos + n * 4096 \<le> length buf"
  shows "\<exists>s'. rwblock_loop s buf pos b (of_nat n) True = kret (0, buf, s') \<and>
    writes s s' (\<lambda>c. if unat b \<le> c \<and> c < unat b + n then Some (sub buf (pos + (c - unat b) * 4096) 4096) else None)"
  using assms
proof (induction n arbitrary: s b pos)
  case 0
  have e: "(\<lambda>c. if unat b \<le> c \<and> c < unat b + 0 then Some (sub buf (pos + (c - unat b) * 4096) 4096) else None) = Map.empty"
    by (rule ext) auto
  show ?case unfolding e using writes_refl [OF 0(1)] by (subst rwblock_loop.simps) simp
next
  case (Suc n)
  have small: "unat b + Suc n \<le> unat (sblocks (super s))" using Suc.prems(3) .
  then have "Suc n < 4294967296" using unat_u32(2) [of "sblocks (super s)"] by linarith
  then have n: "unat (of_nat (Suc n) :: u32) = Suc n" by (rule unat_nat)
  have b1: "unat (b + 1) = Suc (unat b)" "b < sblocks (super s)"
    using small unat_inc [of b "sblocks (super s)"] by (simp_all add: word_less_nat_alt)
  obtain t where t: "sfs_rwblock_nolock s buf pos b True True = kret (0, buf, t)" "writes s t [unat b \<mapsto> sub buf pos 4096]"
    using rwblock_write [OF Suc.prems(1) b1(2), of True pos buf] Suc.prems by auto
  let ?w = "\<lambda>c. if unat (b + 1) \<le> c \<and> c < unat (b + 1) + n then Some (sub buf (pos + 4096 + (c - unat (b + 1)) * 4096) 4096) else None"
  have "b + 1 \<noteq> 0" using b1(1) by (metis unat_0 nat.distinct(1))
  then obtain u where u: "rwblock_loop t buf (pos + 4096) (b + 1) (of_nat n) True = kret (0, buf, u)" "writes t u ?w"
    using Suc.IH [of t "b + 1" "pos + 4096"] writesD(1,2) [OF t(2)] Suc.prems b1(1) by auto
  have "[unat b \<mapsto> sub buf pos 4096] ++ ?w =
      (\<lambda>c. if unat b \<le> c \<and> c < unat b + Suc n then Some (sub buf (pos + (c - unat b) * 4096) 4096) else None)"
  proof
    fix c
    have "pos + 4096 + (c - Suc (unat b)) * 4096 = pos + (c - unat b) * 4096" if "Suc (unat b) \<le> c"
      using that by (simp add: Suc_diff_le [symmetric] diff_mult_distrib)
    then show "([unat b \<mapsto> sub buf pos 4096] ++ ?w) c =
        (if unat b \<le> c \<and> c < unat b + Suc n then Some (sub buf (pos + (c - unat b) * 4096) 4096) else None)"
      by (auto simp: map_add_def b1(1) add.assoc)
  qed
  moreover have "(of_nat (Suc n) :: u32) \<noteq> 0" using n by (metis unat_0 nat.distinct(1))
  moreover have "(of_nat (Suc n) :: u32) - 1 = of_nat n" by simp
  ultimately show ?case using t(1) u(1) writes_trans [OF t(2) u(2)]
    by (subst rwblock_loop.simps) (simp del: of_nat_Suc)
qed

section \<open>Encodings\<close>

lemma length_enc [simp]: "length (enc16 x) = 2" "length (enc32 w) = 4"
  by (simp_all add: enc16_def enc32_def)

lemma length_enc32s [simp]: "length (concat (map enc32 ws)) = 4 * length ws"
  by (induction ws) simp_all

lemma bytes_of_word:
  "ucast (ucast w :: u8) OR push_bit 8 (ucast (ucast (drop_bit 8 w) :: u8)) OR
   push_bit 16 (ucast (ucast (drop_bit 16 w) :: u8)) OR push_bit 24 (ucast (ucast (drop_bit 24 w) :: u8)) = (w :: u32)"
proof (rule bit_word_eqI)
  fix n
  assume "n < LENGTH(32)"
  then consider "n < 8" | "8 \<le> n" "n < 16" | "16 \<le> n" "n < 24" | "24 \<le> n" "n < 32" by fastforce
  then show "bit (ucast (ucast w :: u8) OR push_bit 8 (ucast (ucast (drop_bit 8 w) :: u8)) OR
      push_bit 16 (ucast (ucast (drop_bit 16 w) :: u8)) OR push_bit 24 (ucast (ucast (drop_bit 24 w) :: u8)) :: u32) n = bit w n"
    by cases (auto simp: bit_simps)
qed

lemma halves_of_word: "ucast (ucast w :: u8) OR push_bit 8 (ucast (ucast (drop_bit 8 w) :: u8)) = (w :: u16)"
proof (rule bit_word_eqI)
  fix n
  assume "n < LENGTH(16)"
  then consider "n < 8" | "8 \<le> n" "n < 16" by fastforce
  then show "bit (ucast (ucast w :: u8) OR push_bit 8 (ucast (ucast (drop_bit 8 w) :: u8)) :: u16) n = bit w n"
    by cases (auto simp: bit_simps)
qed

lemma dec32_sub:
  assumes "i + 4 \<le> length b" and "sub b i 4 = enc32 w"
  shows "dec32 b i = w"
proof -
  have "b ! (i + j) = enc32 w ! j" if "j < 4" for j using assms that by (metis nth_sub)
  from this [of 0] this [of 1] this [of 2] this [of 3] show ?thesis
    using bytes_of_word [of w] by (simp add: dec32_def enc32_def)
qed

lemma dec16_sub:
  assumes "i + 2 \<le> length b" and "sub b i 2 = enc16 w"
  shows "dec16 b i = w"
proof -
  have "b ! (i + j) = enc16 w ! j" if "j < 2" for j using assms that by (metis nth_sub)
  from this [of 0] this [of 1] show ?thesis using halves_of_word [of w] by (simp add: dec16_def enc16_def)
qed

lemma dec32_enc32 [simp]: "dec32 (enc32 w) 0 = w"
  by (rule dec32_sub) (simp_all add: sub_def)

lemma sub_at: "length xs = i \<Longrightarrow> sub (xs @ ys @ zs) i (length ys) = ys"
  by (simp add: sub_def)

lemma sub_enc32s: "k < length ws \<Longrightarrow> sub (concat (map enc32 ws) @ zs) (4 * k) 4 = enc32 (ws ! k)"
proof (induction ws arbitrary: k)
  case (Cons w ws)
  then show ?case by (cases k) (simp_all add: sub_def)
qed simp

text \<open>An inode that is written to its block is the one that is read back.\<close>

lemma dec_enc_din:
  assumes "length (direct x) = 12"
  shows "dec_din (enc_din x @ zs) = x"
proof -
  let ?b = "enc_din x @ zs"
  have l: "length ?b = 64 + length zs" using assms by (simp add: enc_din_def)
  have "dec32 ?b 0 = dsize x" using l by (intro dec32_sub) (simp_all add: enc_din_def sub_def)
  moreover have "dec16 ?b 4 = dtype x" using l by (intro dec16_sub) (simp_all add: enc_din_def sub_def)
  moreover have "dec16 ?b 6 = nlinks x" using l by (intro dec16_sub) (simp_all add: enc_din_def sub_def)
  moreover have "dec32 ?b 8 = dblocks x" using l by (intro dec32_sub) (simp_all add: enc_din_def sub_def)
  moreover have "dec32 ?b 60 = indirect x" using l assms by (intro dec32_sub) (simp_all add: enc_din_def sub_def)
  moreover have "dec32 ?b (12 + 4 * k) = direct x ! k" if "k < 12" for k
  proof (rule dec32_sub)
    show "12 + 4 * k + 4 \<le> length ?b" using l that by simp
    have "sub ?b (12 + 4 * k) 4 = sub (concat (map enc32 (direct x)) @ enc32 (indirect x) @ zs) (4 * k) 4"
      by (simp add: enc_din_def sub_def)
    then show "sub ?b (12 + 4 * k) 4 = enc32 (direct x ! k)" using sub_enc32s [of k "direct x"] assms that by simp
  qed
  then have "map (\<lambda>i. dec32 ?b (12 + 4 * i)) [0..<12] = direct x"
    using assms by (intro nth_equalityI) (simp_all del: upt_rec_numeral)
  ultimately show ?thesis by (simp add: dec_din_def del: upt_rec_numeral)
qed

section \<open>The free map on the disk\<close>

definition nfm :: "sfs_fs \<Rightarrow> nat" where
  "nfm s = unat (sfs_freemap_blocks (super s))"

lemma sync_super_ok:
  assumes ok: "io_ok s" "0 < io_sem s" and n: "0 < sblocks (super s)" and i: "length (sinfo (super s)) = 32"
  shows "\<exists>s'. sfs_sync_super s = kret (0, s') \<and> writes s s' [0 \<mapsto> enc_super (super s) @ replicate 4052 0]"
proof -
  obtain v where v: "io_sem s = Suc v" using ok(2) gr0_conv_Suc by auto
  let ?s = "s\<lparr>io_sem := v\<rparr>" and ?x = "enc_super (super s) @ replicate 4052 0"
  have l: "length (sfs_buffer s) = 4096" "length (enc_super (super s)) = 44" using ok(1) i by (simp_all add: io_ok_def enc_super_def)
  have "paste (replicate 4096 0) 0 (enc_super (super s)) = ?x" using l(2) by (simp add: paste_def drop_replicate)
  then have p: "poke (sfs_buffer ?s) 0 (replicate 4096 0) = kret (replicate 4096 0)"
      "poke (replicate 4096 0) 0 (enc_super (super ?s)) = kret ?x" using l by (simp_all add: paste_all)
  obtain t where t: "sfs_rwblock_nolock ?s ?x 0 0 True False = kret (0, ?x, t)" "writes ?s t [0 \<mapsto> ?x]"
    using rwblock_write [of ?s 0 False 0 ?x] ok n l(2) sub_all [of ?x] by auto
  have "writes s (unlock_sfs_io (t\<lparr>sfs_buffer := ?x\<rparr>)) [0 \<mapsto> ?x]"
    using writes_unlock [OF v writes_buffer [OF t(2)]] l(2) by simp
  then show ?thesis using p t(1) by (intro exI [of _ "unlock_sfs_io (t\<lparr>sfs_buffer := ?x\<rparr>)"])
    (simp add: sfs_sync_super_def lock_sfs_io_ok [OF v])
qed

lemma sync_freemap_ok:
  assumes ok: "io_ok s" "0 < io_sem s" and n: "2 + nfm s \<le> unat (sblocks (super s))" and l: "length (bmap (freemap s)) = 1024 * nfm s"
  shows "\<exists>s' w. sfs_sync_freemap s = kret (0, s') \<and> writes s s' w \<and> dom w = {2..<2 + nfm s}"
proof -
  obtain v where v: "io_sem s = Suc v" using ok(2) gr0_conv_Suc by auto
  let ?s = "s\<lparr>io_sem := v\<rparr>" and ?x = "concat (map enc32 (bmap (freemap s)))"
  have m: "of_nat (nfm s) = sfs_freemap_blocks (super s)" by (simp add: nfm_def)
  obtain t where t: "rwblock_loop ?s ?x 0 2 (of_nat (nfm s)) True = kret (0, ?x, t)"
      "writes ?s t (\<lambda>c. if unat (2 :: u32) \<le> c \<and> c < unat (2 :: u32) + nfm s then Some (sub ?x (0 + (c - unat (2 :: u32)) * 4096) 4096) else None)"
    using wblock_loop [of ?s 2 "nfm s" 0 ?x] ok n l by auto
  then show ?thesis using writes_unlock [OF v t(2)]
    by (intro exI [of _ "unlock_sfs_io t"])
      (auto simp: sfs_sync_freemap_def sfs_wblock_def sfs_rwblock_def lock_sfs_io_ok [OF v] bitmap_getdata_def m [symmetric] dom_def
        intro!: exI split: if_splits)
qed

lemma clear_block_ok:
  assumes ok: "io_ok s" "0 < io_sem s" and b: "b < sblocks (super s)" "b \<noteq> 0"
  shows "\<exists>s'. sfs_clear_block s b 1 = kret (0, s') \<and> writes s s' [unat b \<mapsto> replicate 4096 0]"
proof -
  obtain v where v: "io_sem s = Suc v" using ok(2) gr0_conv_Suc by auto
  let ?z = "replicate 4096 (0 :: u8)" let ?s = "s\<lparr>io_sem := v, sfs_buffer := ?z\<rparr>"
  have p: "poke (sfs_buffer s) 0 ?z = kret ?z" using ok(1) by (simp add: io_ok_def paste_all)
  have w0: "writes (s\<lparr>io_sem := v\<rparr>) ?s Map.empty" using writes_buffer [OF writes_refl] ok(1) by simp
  obtain t where t: "sfs_rwblock_nolock ?s ?z 0 b True True = kret (0, ?z, t)" "writes ?s t [unat b \<mapsto> ?z]"
    using rwblock_write [of ?s b True 0 ?z] writesD(1,2) [OF w0] b sub_all [of ?z] by auto
  have "clear_loop ?s None b 1 = kret (0, t\<lparr>sfs_buffer := ?z\<rparr>)"
    using t(1) by (subst clear_loop.simps, subst clear_loop.simps) simp
  moreover have "writes s (unlock_sfs_io (t\<lparr>sfs_buffer := ?z\<rparr>)) [unat b \<mapsto> ?z]"
    using writes_unlock [OF v writes_buffer [OF writes_idle [OF w0 t(2)]]] by simp
  ultimately show ?thesis using p by (intro exI [of _ "unlock_sfs_io (t\<lparr>sfs_buffer := ?z\<rparr>)"])
    (simp add: sfs_clear_block_def lock_sfs_io_ok [OF v])
qed

end
