(* ===== verification/Sfs_Map.thy ===== *)
theory Sfs_Map
  imports Sfs
begin

text \<open>
  Correctness of the blocks of a file.  \<open>fs_ok\<close> is the invariant of a mounted file system: the free
  map covers exactly the data blocks and counts them.  \<open>map_ok\<close> is the invariant of the block map of a
  file, \<open>fbyte\<close> its bytes, and \<open>modified\<close> says how an operation changes them and that it leaves the blocks
  of other files alone.
\<close>

unbundle bit_operations_syntax

section \<open>The invariant of the file system\<close>

abbreviation free :: "sfs_fs \<Rightarrow> nat set" where
  "free s \<equiv> free_bits (freemap s)"

definition isdata :: "sfs_fs \<Rightarrow> nat \<Rightarrow> bool" where
  "isdata s c \<longleftrightarrow> (c = 1 \<or> 2 + nfm s \<le> c) \<and> c < unat (sblocks (super s))"

definition in_use :: "sfs_fs \<Rightarrow> nat \<Rightarrow> bool" where
  "in_use s c \<longleftrightarrow> isdata s c \<and> c \<notin> free s"

definition fs_ok :: "sfs_fs \<Rightarrow> bool" where
  "fs_ok s \<longleftrightarrow> io_ok s \<and> 0 < io_sem s \<and> length (sinfo (super s)) = 32 \<and> bitmap_ok (freemap s) \<and>
     sblocks (super s) \<le> nbits (freemap s) \<and> length (bmap (freemap s)) = 1024 * nfm s \<and> 2 + nfm s \<le> unat (sblocks (super s)) \<and>
     free s \<subseteq> {2 + nfm s..<unat (sblocks (super s))} \<and> unat (unused_blocks (super s)) = card (free s)"

lemma fs_okD:
  assumes "fs_ok s"
  shows "io_ok s" "0 < io_sem s" "length (sinfo (super s)) = 32" "bitmap_ok (freemap s)"
    "length (bmap (freemap s)) = 1024 * nfm s" "2 + nfm s \<le> unat (sblocks (super s))"
    "free s \<subseteq> {2 + nfm s..<unat (sblocks (super s))}" "unat (unused_blocks (super s)) = card (free s)"
    "finite (free s)" "sblocks (super s) \<le> nbits (freemap s)"
  using assms finite_subset [of "free s" "{2 + nfm s..<unat (sblocks (super s))}"] by (auto simp: fs_ok_def)

lemma isdata_pos: "isdata s c \<Longrightarrow> 0 < c \<and> c < 4294967296"
  using less_trans [OF _ unat_u32(2)] by (auto simp: isdata_def)

lemma in_use_word:
  assumes "in_use s (unat b)"
  shows "b \<noteq> 0" "b < sblocks (super s)" "unat b \<notin> free s"
  using assms by (auto simp: in_use_def isdata_def word_less_nat_alt)

lemma free_isdata: "fs_ok s \<Longrightarrow> c \<in> free s \<Longrightarrow> isdata s c"
  using fs_okD(7) [of s] by (auto simp: isdata_def)

text \<open>Reads and writes of data blocks keep the invariant.\<close>

lemma writes_fs_ok: "fs_ok s \<Longrightarrow> writes s s' w \<Longrightarrow> fs_ok s'"
  using writesD [of s s' w] by (auto simp: fs_ok_def nfm_def)

lemma inuse_ok:
  assumes ok: "fs_ok s" and b: "in_use s (unat b)"
  shows "assert_inuse s b k = k"
proof -
  note w = in_use_word [OF b]
  have "b < nbits (freemap s)" using w(2) fs_okD(10) [OF ok] by simp
  then show ?thesis using w bitmap_translate_ok [OF fs_okD(4) [OF ok], of b]
    by (simp add: assert_inuse_def sfs_block_inuse_def bitmap_test_def bitmap_translate_def)
qed

text \<open>\<open>changed s s' F B\<close>: the free blocks are \<open>F\<close> now, and of the data blocks only those in \<open>B\<close> differ.\<close>

definition changed :: "sfs_fs \<Rightarrow> sfs_fs \<Rightarrow> nat set \<Rightarrow> nat set \<Rightarrow> bool" where
  "changed s s' F B \<longleftrightarrow> fs_ok s' \<and> sblocks (super s') = sblocks (super s) \<and> fs_sem s' = fs_sem s \<and> free s' = F \<and>
     (\<forall>c. isdata s c \<and> c \<notin> B \<longrightarrow> blk (dev s') c = blk (dev s) c)"

lemma changedD:
  assumes "changed s s' F B"
  shows "fs_ok s'" "sblocks (super s') = sblocks (super s)" "free s' = F"
    "isdata s c \<Longrightarrow> c \<notin> B \<Longrightarrow> blk (dev s') c = blk (dev s) c"
  using assms by (simp_all add: changed_def)

lemma isdata_cong: "sblocks (super s') = sblocks (super s) \<Longrightarrow> isdata s' c = isdata s c"
  by (simp add: isdata_def nfm_def sfs_freemap_blocks_def)

lemma changed_isdata: "changed s s' F B \<Longrightarrow> isdata s' c = isdata s c"
  by (rule isdata_cong) (rule changedD)

lemma changed_in_use: "changed s s' F B \<Longrightarrow> in_use s' c \<longleftrightarrow> isdata s c \<and> c \<notin> F"
  by (simp add: in_use_def changed_isdata changedD(3))

lemma changed_trans: "changed s t F B \<Longrightarrow> changed t u G C \<Longrightarrow> changed s u G (B \<union> C)"
  using changed_isdata [of s t F B] by (auto simp: changed_def)

lemma changed_mono: "changed s t F B \<Longrightarrow> B \<subseteq> C \<Longrightarrow> changed s t F C"
  by (auto simp: changed_def)

lemma writes_changed:
  assumes "fs_ok s" and "writes s s' w"
  shows "changed s s' (free s) (dom w)"
  using writes_fs_ok [OF assms] writesD [OF assms(2)] by (auto simp: changed_def dom_def)

section \<open>Allocating and freeing blocks\<close>

lemma super_sync_ok:
  assumes ok: "io_ok s" "0 < io_sem s" "length (sinfo (super s)) = 32" "length (bmap (freemap s)) = 1024 * nfm s"
      "2 + nfm s \<le> unat (sblocks (super s))" and d: "super_dirty s"
  shows "\<exists>s' w. sfs_super_sync s = kret s' \<and> writes (s\<lparr>super_dirty := False\<rparr>) s' w \<and> (\<forall>c \<in> dom w. \<not> isdata s c)"
proof -
  let ?s = "s\<lparr>super_dirty := False\<rparr>"
  have "0 < sblocks (super s)" using ok(5) by (simp add: word_less_nat_alt)
  then obtain t where t: "sfs_sync_super ?s = kret (0, t)" "writes ?s t [0 \<mapsto> enc_super (super ?s) @ replicate 4052 0]"
    using sync_super_ok [of ?s] ok by auto
  note T = writesD [OF t(2)]
  have n: "nfm t = nfm s" using T(2) by (simp add: nfm_def)
  obtain u w where u: "sfs_sync_freemap t = kret (0, u)" "writes t u w" "dom w = {2..<2 + nfm t}"
    using sync_freemap_ok [of t] T ok n by auto
  have "\<not> isdata s c" if "c \<in> dom ([0 \<mapsto> enc_super (super ?s) @ replicate 4052 0] ++ w)" for c
    using that u(3) n by (auto simp: isdata_def)
  then show ?thesis using d t(1) u(1)
    by (intro exI conjI, rule_tac [2] writes_trans [OF t(2) u(2)]) (auto simp: sfs_super_sync_def)
qed

lemma add_unused_simps [simp]:
  "sblocks (super (add_unused n s)) = sblocks (super s)" "sinfo (super (add_unused n s)) = sinfo (super s)"
  "freemap (add_unused n s) = freemap s" "dev (add_unused n s) = dev s" "io_sem (add_unused n s) = io_sem s"
  "fs_sem (add_unused n s) = fs_sem s" "sfs_buffer (add_unused n s) = sfs_buffer s" "super_dirty (add_unused n s)"
  "unused_blocks (super (add_unused n s)) = unused_blocks (super s) + n" "nfm (add_unused n s) = nfm s"
  "io_ok (add_unused n s) = io_ok s"
  by (simp_all add: add_unused_def nfm_def sfs_freemap_blocks_def io_ok_def)

text \<open>A new free map is counted and written to the disk.\<close>

lemma new_freemap_ok:
  assumes ok: "fs_ok s" and fm: "bitmap_ok fm" "nbits fm = nbits (freemap s)" "length (bmap fm) = length (bmap (freemap s))"
      "free_bits fm \<subseteq> {2 + nfm s..<unat (sblocks (super s))}" and n: "unat (unused_blocks (super s) + n) = card (free_bits fm)"
  shows "\<exists>s'. sfs_super_sync (add_unused n (s\<lparr>freemap := fm\<rparr>)) = kret s' \<and> changed s s' (free_bits fm) {}"
proof -
  note S = fs_okD [OF ok]
  let ?t = "add_unused n (s\<lparr>freemap := fm\<rparr>)"
  have nf: "nfm (s\<lparr>freemap := fm\<rparr>) = nfm s" by (simp add: nfm_def)
  obtain s' w where s': "sfs_super_sync ?t = kret s'" "writes (?t\<lparr>super_dirty := False\<rparr>) s' w" "\<forall>c \<in> dom w. \<not> isdata ?t c"
    using super_sync_ok [of ?t] S fm nf by auto
  note W = writesD [OF s'(2)]
  have nf': "nfm s' = nfm s" using W(2) by (simp add: nfm_def sfs_freemap_blocks_def)
  have "fs_ok s'" using W S fm n nf' by (simp add: fs_ok_def)
  moreover have "blk (dev s') c = blk (dev s) c" if "isdata s c" for c
  proof -
    have "isdata ?t c" using that isdata_cong [of ?t s] by simp
    then have "w c = None" using s'(3) by blast
    then show ?thesis using W(7) by simp
  qed
  ultimately show ?thesis using s'(1) W by (auto simp: changed_def)
qed

lemma block_alloc_ok:
  assumes ok: "fs_ok s"
  shows "if free s = {} then sfs_block_alloc s = kret (- E_NO_MEM, 0, s)
    else \<exists>b s'. sfs_block_alloc s = kret (0, b, s') \<and> unat b \<in> free s \<and> changed s s' (free s - {unat b}) {unat b} \<and>
      blk (dev s') (unat b) = replicate 4096 0"
proof (cases "free s = {}")
  case True
  then show ?thesis using bitmap_alloc_ok [OF fs_okD(4) [OF ok]] by (auto simp: sfs_block_alloc_def)
next
  case False
  note S = fs_okD [OF ok]
  obtain fm b where fm: "bitmap_alloc (freemap s) = kret (fm, Inr b)" "bitmap_ok fm" "unat b \<in> free s"
      "free_bits fm = free s - {unat b}" "nbits fm = nbits (freemap s)" "length (bmap fm) = length (bmap (freemap s))"
    using bitmap_alloc_ok [OF S(4)] False by auto
  have c: "0 < card (free s)" using False S(9) by (simp add: card_gt_0_iff)
  then have "unat (unused_blocks (super s) + - 1) = card (free_bits fm)"
    using S(8,9) fm(3,4) unat_diff_le [of 1 "unused_blocks (super s)"] by simp
  then obtain t where t: "sfs_super_sync (add_unused (- 1) (s\<lparr>freemap := fm\<rparr>)) = kret t" "changed s t (free_bits fm) {}"
    using new_freemap_ok [OF ok fm(2,5,6), of "- 1"] S(7) fm(4) by auto
  have d: "isdata s (unat b)" using free_isdata [OF ok fm(3)] .
  have iu: "in_use t (unat b)" using changed_in_use [OF t(2)] d fm(4) by simp
  note w = in_use_word [OF iu]
  obtain u where u: "sfs_clear_block t b 1 = kret (0, u)" "writes t u [unat b \<mapsto> replicate 4096 0]"
    using clear_block_ok [of t b] fs_okD [OF changedD(1) [OF t(2)]] w by auto
  have "changed s u (free_bits fm) {unat b}"
    using changed_trans [OF t(2) writes_changed [OF changedD(1) [OF t(2)] u(2)]] changedD(3) [OF t(2)] by simp
  moreover have "unused_blocks (super s) > 0" using c S(8) by (simp add: word_less_nat_alt)
  ultimately show ?thesis
    using False fm t(1) u(1) inuse_ok [OF changedD(1) [OF t(2)] iu] writesD(8) [OF u(2), of "unat b"]
    by (auto simp: sfs_block_alloc_def intro!: exI [of _ b] exI [of _ u])
qed

lemma block_free_ok:
  assumes ok: "fs_ok s" and b: "in_use s (unat b)" "2 + nfm s \<le> unat b"
  shows "\<exists>s'. sfs_block_free s b = kret s' \<and> changed s s' (insert (unat b) (free s)) {}"
proof -
  note S = fs_okD [OF ok]
  note w = in_use_word [OF b(1)]
  have i: "b < nbits (freemap s)" using w(2) S(10) by simp
  define fm where "fm = (freemap s)\<lparr>bmap := (bmap (freemap s))[unat (b div 32) :=
        bmap (freemap s) ! unat (b div 32) OR push_bit (unat (b mod 32)) 1]\<rparr>"
  have f: "free_bits fm = insert (unat b) (free s)" using free_bits_free [OF S(4) i] by (simp add: fm_def)
  have bf: "bitmap_free (freemap s) b = kret fm" using bitmap_free_ok [OF S(4), of b] i w(3) by (simp add: fm_def)
  have l: "nbits fm = nbits (freemap s)" "nwords fm = nwords (freemap s)" "length (bmap fm) = length (bmap (freemap s))"
    by (simp_all add: fm_def)
  have fok: "bitmap_ok fm" using S(4) f i l by (auto simp: bitmap_ok_def word_less_nat_alt)
  have sub: "free_bits fm \<subseteq> {2 + nfm s..<unat (sblocks (super s))}"
    using f S(7) b(2) w(2) by (auto simp: word_less_nat_alt)
  have "card (free_bits fm) \<le> unat (sblocks (super s))" using card_mono [OF _ sub] by simp
  then have "unat (unused_blocks (super s)) + 1 \<le> unat (sblocks (super s))" using f w(3) S(8,9) by simp
  then have "unat (unused_blocks (super s) + 1) = card (free_bits fm)"
    using f w(3) S(8,9) unat_inc [of "unused_blocks (super s)" "sblocks (super s)"] by (simp add: word_less_nat_alt)
  then show ?thesis using new_freemap_ok [OF ok fok l(1,3) sub, of 1] bf f
    by (simp add: sfs_block_free_def inuse_ok [OF ok b(1)])
qed


section \<open>The block map of a file\<close>

definition used :: "sfs_fs \<Rightarrow> nat \<Rightarrow> bool" where
  "used s c \<longleftrightarrow> 2 + nfm s \<le> c \<and> in_use s c"

definition fblk :: "sfs_fs \<Rightarrow> sfs_disk_inode \<Rightarrow> nat \<Rightarrow> nat" where
  "fblk s x k =
     (if k < 12 then unat (direct x ! k) else if indirect x = 0 then 0
      else unat (dec32 (blk (dev s) (unat (indirect x))) (4 * (k - 12))))"

definition blocks_of :: "sfs_fs \<Rightarrow> sfs_disk_inode \<Rightarrow> nat set" where
  "blocks_of s x = fblk s x ` {..<unat (dblocks x)} \<union> (if indirect x = 0 then {} else {unat (indirect x)})"

definition map_ok :: "sfs_fs \<Rightarrow> sfs_disk_inode \<Rightarrow> bool" where
  "map_ok s x \<longleftrightarrow> length (direct x) = 12 \<and> unat (dblocks x) \<le> 1036 \<and> (\<forall>c \<in> blocks_of s x. used s c) \<and>
     (\<forall>k < 1036. unat (dblocks x) \<le> k \<longrightarrow> fblk s x k = 0) \<and> inj_on (fblk s x) {..<unat (dblocks x)} \<and>
     (indirect x \<noteq> 0 \<longrightarrow> unat (indirect x) \<notin> fblk s x ` {..<unat (dblocks x)})"

definition fbyte :: "sfs_fs \<Rightarrow> sfs_disk_inode \<Rightarrow> nat \<Rightarrow> u8" where
  "fbyte s x j = blk (dev s) (fblk s x (j div 4096)) ! (j mod 4096)"

lemma map_okD:
  assumes "map_ok s x"
  shows "length (direct x) = 12" "unat (dblocks x) \<le> 1036" "c \<in> blocks_of s x \<Longrightarrow> used s c"
    "k < 1036 \<Longrightarrow> unat (dblocks x) \<le> k \<Longrightarrow> fblk s x k = 0" "inj_on (fblk s x) {..<unat (dblocks x)}"
    "indirect x \<noteq> 0 \<Longrightarrow> unat (indirect x) \<notin> fblk s x ` {..<unat (dblocks x)}"
    "indirect x \<noteq> 0 \<Longrightarrow> used s (unat (indirect x))" "k < unat (dblocks x) \<Longrightarrow> used s (fblk s x k)"
  using assms by (auto simp: map_ok_def blocks_of_def)

lemma usedD: "used s c \<Longrightarrow> in_use s c \<and> isdata s c \<and> c \<notin> free s \<and> 2 + nfm s \<le> c \<and> 0 < c"
  by (auto simp: used_def in_use_def)

lemma changed_nfm: "changed s s' F B \<Longrightarrow> nfm s' = nfm s"
  using changedD(2) [of s s' F B] by (simp add: nfm_def sfs_freemap_blocks_def)

lemma changed_used: "changed s s' F B \<Longrightarrow> used s' c \<longleftrightarrow> 2 + nfm s \<le> c \<and> isdata s c \<and> c \<notin> F"
  using changed_in_use [of s s' F B c] changed_nfm [of s s' F B] by (simp add: used_def)

lemma fblk_cong:
  assumes "indirect x \<noteq> 0 \<Longrightarrow> blk (dev s') (unat (indirect x)) = blk (dev s) (unat (indirect x))"
  shows "fblk s' x k = fblk s x k"
  using assms by (simp add: fblk_def)

text \<open>Neither the blocks of the file nor its index block changed.\<close>

lemma map_ok_changed:
  assumes m: "map_ok s x" and c: "changed s s' F B" and f: "F \<inter> blocks_of s x = {}" and i: "indirect x \<noteq> 0 \<Longrightarrow> unat (indirect x) \<notin> B"
  shows "map_ok s' x" "fblk s' x k = fblk s x k" "blocks_of s' x = blocks_of s x"
proof -
  have "fblk s' x k = fblk s x k" for k
    using usedD [OF map_okD(7) [OF m]] changedD(4) [OF c _ i] by (intro fblk_cong) blast
  then have b: "fblk s' x = fblk s x" by blast
  then show "fblk s' x k = fblk s x k" "blocks_of s' x = blocks_of s x" by (simp_all add: blocks_of_def)
  have "used s' d" if "d \<in> blocks_of s x" for d
    using that f usedD [OF map_okD(3) [OF m that]] changed_used [OF c] by auto
  then show "map_ok s' x" using m b \<open>blocks_of s' x = blocks_of s x\<close> by (simp add: map_ok_def)
qed

definition nb :: "sfs_disk_inode \<Rightarrow> nat" where
  "nb x = unat (dblocks x) + (if indirect x = 0 then 0 else 1)"

text \<open>What an operation on the file \<open>x\<close> may do: its bytes become those of \<open>D\<close>, new blocks are zero elsewhere,
  and no block in use outside of the file is touched.\<close>

definition modified ::
  "sfs_fs \<Rightarrow> sfs_disk_inode \<Rightarrow> sfs_fs \<Rightarrow> sfs_disk_inode \<Rightarrow> (nat \<rightharpoonup> u8) \<Rightarrow> bool" where
  "modified s x s' x' D \<longleftrightarrow> fs_ok s' \<and> sblocks (super s') = sblocks (super s) \<and> map_ok s' x' \<and>
     unat (dblocks x) \<le> unat (dblocks x') \<and>
     (\<forall>j < 4096 * unat (dblocks x'). fbyte s' x' j = (case D j of Some v \<Rightarrow> v
        | None \<Rightarrow> if j < 4096 * unat (dblocks x) then fbyte s x j else 0)) \<and>
     dsize x' = dsize x \<and> dtype x' = dtype x \<and> nlinks x' = nlinks x \<and>
     (\<forall>c. in_use s c \<and> c \<notin> blocks_of s x \<longrightarrow> in_use s' c \<and> c \<notin> blocks_of s' x' \<and> blk (dev s') c = blk (dev s) c) \<and>
     card (free s') + nb x' = card (free s) + nb x \<and> (indirect x \<noteq> 0 \<longrightarrow> indirect x' \<noteq> 0) \<and>
     (indirect x' \<noteq> 0 \<longrightarrow> indirect x \<noteq> 0 \<or> 12 < unat (dblocks x')) \<and> (\<forall>j \<in> dom D. j < 4096 * unat (dblocks x'))"

lemma modifiedD:
  assumes "modified s x s' x' D"
  shows "fs_ok s'" "sblocks (super s') = sblocks (super s)" "map_ok s' x'" "unat (dblocks x) \<le> unat (dblocks x')"
    "j < 4096 * unat (dblocks x') \<Longrightarrow> fbyte s' x' j = (case D j of Some v \<Rightarrow> v
        | None \<Rightarrow> if j < 4096 * unat (dblocks x) then fbyte s x j else 0)"
    "dsize x' = dsize x" "dtype x' = dtype x" "nlinks x' = nlinks x"
    "in_use s c \<Longrightarrow> c \<notin> blocks_of s x \<Longrightarrow> in_use s' c \<and> c \<notin> blocks_of s' x' \<and> blk (dev s') c = blk (dev s) c"
    "card (free s') + nb x' = card (free s) + nb x" "indirect x \<noteq> 0 \<Longrightarrow> indirect x' \<noteq> 0"
    "indirect x' \<noteq> 0 \<Longrightarrow> indirect x \<noteq> 0 \<or> 12 < unat (dblocks x')" "D j = Some v \<Longrightarrow> j < 4096 * unat (dblocks x')"
  using assms by (auto simp: modified_def)

lemma modified_trans:
  assumes a: "modified s x t y D" and b: "modified t y u z E"
  shows "modified s x u z (D ++ E)"
proof -
  note A = modifiedD [OF a] and B = modifiedD [OF b]
  have "fbyte u z j = (case (D ++ E) j of Some v \<Rightarrow> v | None \<Rightarrow> if j < 4096 * unat (dblocks x) then fbyte s x j else 0)"
    if j: "j < 4096 * unat (dblocks z)" for j
  proof (cases "E j = None \<and> j < 4096 * unat (dblocks y)")
    case True
    then show ?thesis using B(5) [OF j] A(5) [of j] by (simp add: map_add_def)
  next
    case False
    then have "D j = None \<and> \<not> j < 4096 * unat (dblocks x) \<or> E j \<noteq> None" using A(13) [of j] A(4) by fastforce
    then show ?thesis using B(5) [OF j] False by (auto simp: map_add_def split: option.splits)
  qed
  moreover have "j < 4096 * unat (dblocks z)" if "j \<in> dom (D ++ E)" for j
    using that A(13) [of j] B(13) [of j] B(4) by (auto simp: dom_def map_add_def split: option.splits)
  ultimately show ?thesis using A B unfolding modified_def by (auto split: option.splits)
qed


lemma map_ok_nz: "map_ok s x \<Longrightarrow> k < unat (dblocks x) \<Longrightarrow> fblk s x k \<noteq> 0"
  using usedD [OF map_okD(8)] by fastforce

lemma modified_refl:
  assumes "fs_ok s" and "map_ok s x" and "changed s s' (free s) B" and "\<forall>c \<in> B. \<not> in_use s c"
  shows "modified s x s' x Map.empty"
proof -
  have i: "unat (indirect x) \<notin> B" if "indirect x \<noteq> 0" using usedD [OF map_okD(7) [OF assms(2) that]] assms(4) by blast
  have "free s \<inter> blocks_of s x = {}" using usedD [OF map_okD(3) [OF assms(2)]] by blast
  note m = map_ok_changed [OF assms(2,3) this i]
  have "blk (dev s') c = blk (dev s) c" "in_use s' c" if "in_use s c" for c
    using that assms(4) changedD(4) [OF assms(3)] changed_in_use [OF assms(3)] by (auto simp: in_use_def)
  moreover have "fbyte s' x j = fbyte s x j" if "j < 4096 * unat (dblocks x)" for j
    using calculation(1) usedD [OF map_okD(8) [OF assms(2), of "j div 4096"]] that m(2) by (auto simp: fbyte_def)
  ultimately show ?thesis using m changedD [OF assms(3)] by (simp add: modified_def)
qed

text \<open>One more block, and an index block with it when there was none.\<close>

lemma modified_extend:
  assumes ok: "fs_ok s" and m: "map_ok s x" and n: "n = unat (dblocks x)" "n < 1036" "unat (dblocks x') = n + 1"
    and c: "changed s s' (free s - N) B" and b: "b \<in> free s" "blk (dev s') b = replicate 4096 0"
    and same: "length (direct x') = 12" "dsize x' = dsize x" "dtype x' = dtype x" "nlinks x' = nlinks x"
    and f: "\<And>k. k < 1036 \<Longrightarrow> fblk s' x' k = (if k = n then b else fblk s x k)"
    and i: "indirect x' = indirect x \<and> N = {b} \<or>
      indirect x = 0 \<and> indirect x' \<noteq> 0 \<and> 12 \<le> n \<and> N = {b, unat (indirect x')} \<and> unat (indirect x') \<in> free s \<and> unat (indirect x') \<noteq> b"
    and B: "B \<subseteq> {b, unat (indirect x')}" "b \<in> B"
  shows "modified s x s' x' Map.empty"
proof -
  note M = map_okD [OF m]
  note C = changedD [OF c]
  have old: "c \<notin> N \<and> c \<noteq> b" if "in_use s c" for c using that b(1) i by (auto simp: in_use_def)
  have fk: "fblk s' x' k = fblk s x k" if "k < n" for k using f [of k] that n(2) by simp
  have im: "fblk s' x' ` {..<n + 1} = insert b (fblk s x ` {..<n})"
    using fk f [of n] n(2) by (auto simp: lessThan_Suc image_iff)
  have bo: "blocks_of s' x' = blocks_of s x \<union> N" using im i by (auto simp: blocks_of_def n)
  have Nfree: "N \<subseteq> free s" using i b(1) by auto
  have dis: "N \<inter> blocks_of s x = {}" using Nfree usedD [OF M(3)] by blast
  have us: "used s' c" if "c \<in> blocks_of s x \<union> N" for c
  proof (cases "c \<in> N")
    case True
    then have "c \<in> {2 + nfm s..<unat (sblocks (super s))}" using Nfree fs_okD(7) [OF ok] by blast
    then show ?thesis using True changed_used [OF c] by (simp add: isdata_def)
  next
    case False
    then show ?thesis using that usedD [OF M(3)] changed_used [OF c] by auto
  qed
  have bn: "b \<notin> fblk s x ` {..<n}" using usedD [OF M(8)] b(1) n(1) by blast
  have inj: "inj_on (fblk s' x') {..<n + 1}"
  proof -
    have "inj_on (fblk s' x') {..<n}" using M(5) fk n(1) by (simp add: inj_on_def)
    moreover have "fblk s' x' n \<notin> fblk s' x' ` {..<n}" using bn f [of n] n(2) fk by auto
    ultimately show ?thesis by (simp add: lessThan_Suc)
  qed
  have "map_ok s' x'"
    unfolding map_ok_def n(3)
  proof (intro conjI allI impI)
    show "unat (indirect x') \<notin> fblk s' x' ` {..<n + 1}" if "indirect x' \<noteq> 0"
      using that i im dis M(6) usedD [OF M(7)] b(1) n(1) by (auto simp: blocks_of_def)
    show "fblk s' x' k = 0" if "k < 1036" "n + 1 \<le> k" for k using f [of k] that M(4) [of k] n(1) by simp
  qed (use same(1) n(2) us bo inj in auto)
  moreover have "fbyte s' x' j = (if j < 4096 * n then fbyte s x j else 0)" if "j < 4096 * (n + 1)" for j
  proof (cases "j < 4096 * n")
    case True
    then have k: "j div 4096 < n" by (simp add: less_mult_imp_div_less mult.commute)
    note u = usedD [OF M(8) [OF k [unfolded n(1)]]]
    have "fblk s x (j div 4096) \<in> fblk s x ` {..<unat (dblocks x)}" using k n(1) by simp
    then have "fblk s x (j div 4096) \<noteq> unat (indirect x')"
      using u i M(6) by (cases "indirect x' = 0") auto
    then have "fblk s x (j div 4096) \<notin> B" using B(1) old [of "fblk s x (j div 4096)"] u by blast
    then show ?thesis using C(4) u k fk True by (simp add: fbyte_def)
  next
    case False
    then have "j div 4096 = n" using that by (simp add: div_nat_eqI mult.commute)
    then show ?thesis using False f [of n] n(2) b(2) by (simp add: fbyte_def)
  qed
  moreover have "in_use s' c \<and> c \<notin> blocks_of s' x' \<and> blk (dev s') c = blk (dev s) c" if "in_use s c" "c \<notin> blocks_of s x" for c
  proof -
    have "c \<noteq> unat (indirect x')"
      using that i isdata_pos [of s c] by (cases "indirect x' = 0") (auto simp: blocks_of_def in_use_def)
    then have "c \<notin> B" using B(1) old [OF that(1)] by blast
    then show ?thesis using that old [OF that(1)] bo changed_in_use [OF c] C(4) by (auto simp: in_use_def)
  qed
  moreover have "card (free s') + nb x' = card (free s) + nb x"
  proof -
    have "card (free s) = card (free s - N) + card N" using Nfree fs_okD(9) [OF ok] by (simp add: card_Diff_subset card_mono finite_subset)
    moreover have "nb x' = nb x + card N" using i
    proof
      assume "indirect x' = indirect x \<and> N = {b}"
      then show ?thesis using n by (simp add: nb_def)
    next
      assume "indirect x = 0 \<and> indirect x' \<noteq> 0 \<and> 12 \<le> n \<and> N = {b, unat (indirect x')} \<and> unat (indirect x') \<in> free s \<and> unat (indirect x') \<noteq> b"
      then show ?thesis using n by (simp add: nb_def)
    qed
    ultimately show ?thesis using C(3) by simp
  qed
  ultimately show ?thesis using C same n i by (auto simp: modified_def)
qed

lemma dec32_at: "i + 4 \<le> length b \<Longrightarrow> dec32 (sub b i 4) 0 = dec32 b i"
  by (simp add: dec32_def sub_def)

lemma dec32_paste:
  assumes "4 * i + 4 \<le> length b" and "4 * j + 4 \<le> length b"
  shows "dec32 (paste b (4 * i) (enc32 w)) (4 * j) = (if i = j then w else dec32 b (4 * j))"
proof (cases "i = j")
  case True
  then show ?thesis using assms sub_paste_same [of "4 * i" "enc32 w" b] by (auto intro!: dec32_sub)
next
  case False
  then have "paste b (4 * i) (enc32 w) ! (4 * j + k) = b ! (4 * j + k)" if "k < 4" for k
    using assms that by (subst nth_paste) auto
  from this [of 0] this [of 1] this [of 2] this [of 3] show ?thesis using False by (simp add: dec32_def)
qed

lemma dec32_zero: "4 * j + 4 \<le> n \<Longrightarrow> dec32 (replicate n 0) (4 * j) = 0"
  by (simp add: dec32_def)


section \<open>Looking up and extending the block map\<close>

lemma entry_offset: "index < (1024 :: u32) \<Longrightarrow> unat (index * 4) = 4 * unat index \<and> 4 * unat index < 4096 \<and> 4 * unat index + 4 \<le> 4096"
  by (auto simp: word_less_nat_alt unat_word_ariths)

lemma entry_read:
  assumes ok: "fs_ok s" and e: "in_use s (unat ent)" and i: "index < 1024"
  shows "\<exists>x s'. sfs_rbuf s (enc32 0) 0 4 ent (index * 4) = kret (0, x, s') \<and>
    dec32 x 0 = dec32 (blk (dev s) (unat ent)) (4 * unat index) \<and> writes s s' Map.empty"
proof -
  note o = entry_offset [OF i]
  obtain s' where "sfs_rbuf s (enc32 0) 0 4 ent (index * 4) = kret (0, paste (enc32 0) 0 (sub (blk (dev s) (unat ent)) (4 * unat index) 4), s')"
      "writes s s' Map.empty"
    using sfs_rbuf_ok [of s ent "index * 4" 4 0 "enc32 0"] fs_okD [OF ok] in_use_word [OF e] o by auto
  moreover have "paste (enc32 0) 0 (sub (blk (dev s) (unat ent)) (4 * unat index) 4) = sub (blk (dev s) (unat ent)) (4 * unat index) 4"
    using o by (intro paste_all) simp
  ultimately show ?thesis using o by (simp add: dec32_at)
qed

lemma entry_write:
  assumes ok: "fs_ok s" and e: "in_use s (unat ent)" and i: "index < 1024"
  shows "\<exists>x s'. sfs_wbuf s (enc32 w) 0 4 ent (index * 4) = kret (0, x, s') \<and>
    writes s s' [unat ent \<mapsto> paste (blk (dev s) (unat ent)) (4 * unat index) (enc32 w)]"
  using sfs_wbuf_ok [of s ent "index * 4" 4 0 "enc32 w"] fs_okD [OF ok] in_use_word [OF e] entry_offset [OF i] sub_all [of "enc32 w"]
  by auto

lemma bmap_out_ok: "fs_ok s \<Longrightarrow> in_use s (unat b) \<Longrightarrow> bmap_out s sin b = kret (0, b, s, sin)"
  by (simp add: bmap_out_def inuse_ok)

lemma unat_minus_12: "\<not> i < (12 :: u32) \<Longrightarrow> unat (i - 12) = unat i - 12"
  by (simp add: unat_diff_le word_less_nat_alt)

lemma get_existing:
  assumes ok: "fs_ok s" and m: "map_ok s (din sin)" and i: "unat i < unat (dblocks (din sin))"
  shows "\<exists>b s'. sfs_bmap_get_nolock s sin i create = kret (0, b, s', sin) \<and> unat b = fblk s (din sin) (unat i) \<and>
    writes s s' Map.empty"
proof (cases "i < 12")
  case True
  let ?b = "direct (din sin) ! unat i"
  have f: "fblk s (din sin) (unat i) = unat ?b" using True by (simp add: fblk_def word_less_nat_alt)
  have "in_use s (unat ?b)" using usedD [OF map_okD(8) [OF m i]] f by simp
  then show ?thesis using True f writes_refl [OF fs_okD(1) [OF ok]] bmap_out_ok [OF ok] in_use_word(1)
    by (simp add: sfs_bmap_get_nolock_def Let_def)
next
  case False
  note u = unat_minus_12 [OF False]
  have k: "unat i - 12 < 1024" "i - 12 < 1024" using i map_okD(2) [OF m] False u by (simp_all add: word_less_nat_alt)
  have f: "indirect (din sin) \<noteq> 0" "fblk s (din sin) (unat i) = unat (dec32 (blk (dev s) (unat (indirect (din sin)))) (4 * (unat i - 12)))"
    using map_ok_nz [OF m i] False by (auto simp: fblk_def word_less_nat_alt split: if_splits)
  obtain x s' where x: "sfs_rbuf s (enc32 0) 0 4 (indirect (din sin)) ((i - 12) * 4) = kret (0, x, s')"
      "dec32 x 0 = dec32 (blk (dev s) (unat (indirect (din sin)))) (4 * (unat i - 12))" "writes s s' Map.empty"
    using entry_read [OF ok _ k(2), of "indirect (din sin)"] usedD [OF map_okD(7) [OF m f(1)]] u by auto
  have nz: "dec32 x 0 \<noteq> 0" using map_ok_nz [OF m i] f(2) x(2) by auto
  have "in_use s (unat (dec32 x 0))" using usedD [OF map_okD(8) [OF m i]] f(2) x(2) by simp
  then have "in_use s' (unat (dec32 x 0))" using changed_in_use [OF writes_changed [OF ok x(3)]] by (simp add: in_use_def)
  then show ?thesis using x f k(2) False nz bmap_out_ok [OF writes_fs_ok [OF ok x(3)]]
    by (simp add: sfs_bmap_get_nolock_def sfs_bmap_get_sub_nolock_def Let_def)
qed

lemma load_existing:
  assumes ok: "fs_ok s" and m: "map_ok s (din sin)" and i: "unat i < unat (dblocks (din sin))"
  shows "\<exists>b s'. sfs_bmap_load_nolock s sin i = kret (0, b, s', sin) \<and> unat b = fblk s (din sin) (unat i) \<and>
    writes s s' Map.empty"
proof -
  obtain b s' where b: "sfs_bmap_get_nolock s sin i False = kret (0, b, s', sin)" "unat b = fblk s (din sin) (unat i)"
      "writes s s' Map.empty" using get_existing [OF ok m i] by blast
  have "in_use s (unat b)" using usedD [OF map_okD(8) [OF m i]] b(2) by simp
  then have iu: "in_use s' (unat b)" using changed_in_use [OF writes_changed [OF ok b(3)]] by (simp add: in_use_def)
  moreover have "i \<noteq> dblocks (din sin)" "i \<le> dblocks (din sin)" using i by (auto simp: word_le_nat_alt)
  ultimately show ?thesis using b by (simp add: sfs_bmap_load_nolock_def inuse_ok [OF writes_fs_ok [OF ok b(3)] iu])
qed

definition one_more :: "sfs_inode \<Rightarrow> sfs_inode" where
  "one_more sin = upd_din (\<lambda>d. d\<lparr>dblocks := dblocks d + 1\<rparr>) sin"

text \<open>The outcome of loading the block behind the last one.\<close>

definition loaded :: "sfs_fs \<Rightarrow> sfs_inode \<Rightarrow> u32 \<Rightarrow> bool" where
  "loaded s sin i \<longleftrightarrow>
     (\<exists>b s' sin'. sfs_bmap_load_nolock s sin i = kret (0, b, s', sin') \<and> modified s (din sin) s' (din sin') Map.empty \<and>
        unat (dblocks (din sin')) = unat i + 1 \<and> unat b = fblk s' (din sin') (unat i) \<and>
        ino sin' = ino sin \<and> reclaim_count sin' = reclaim_count sin \<and> sin_sem sin' = sin_sem sin)"

lemma load_direct:
  assumes ok: "fs_ok s" and m: "map_ok s (din sin)" and i: "i = dblocks (din sin)" "i < 12" and f: "free s \<noteq> {}"
  shows "loaded s sin i"
proof -
  let ?x = "din sin" and ?n = "unat i"
  obtain b s' where b: "sfs_block_alloc s = kret (0, b, s')" "unat b \<in> free s" "changed s s' (free s - {unat b}) {unat b}"
      "blk (dev s') (unat b) = replicate 4096 0"
    using block_alloc_ok [OF ok] f by auto
  define x' where "x' = ?x\<lparr>direct := (direct ?x)[?n := b], dblocks := dblocks ?x + 1\<rparr>"
  have n: "?n < 12" using i(2) by (simp add: word_less_nat_alt)
  have d1: "unat (dblocks ?x + 1) = ?n + 1" using i(2) unat_inc [of i 12] i(1) by simp
  have z: "direct ?x ! ?n = 0" using map_okD(4) [OF m, of ?n] n i(1) by (simp add: fblk_def word_unat_eq_iff)
  have ind: "indirect ?x \<noteq> 0 \<Longrightarrow> unat (indirect ?x) \<noteq> unat b" using usedD [OF map_okD(7) [OF m]] b(2) by metis
  have mo: "modified s ?x s' x' Map.empty"
  proof (rule modified_extend [OF ok m _ _ _ b(3,2,4), of ?n])
    show "fblk s' x' k = (if k = ?n then unat b else fblk s ?x k)" if "k < 1036" for k
    proof (cases "k < 12")
      case True
      then show ?thesis using map_okD(1) [OF m] n by (auto simp: fblk_def x'_def nth_list_update)
    next
      case False
      then have "fblk s' x' k = fblk s' ?x k" by (simp add: fblk_def x'_def)
      also have "\<dots> = fblk s ?x k" using changedD(4) [OF b(3)] usedD [OF map_okD(7) [OF m]] ind by (intro fblk_cong) auto
      finally show ?thesis using False n by simp
    qed
  qed (use i n d1 map_okD(1) [OF m] in \<open>simp_all add: x'_def\<close>)
  let ?sin = "(upd_din (\<lambda>d. d\<lparr>direct := (direct d)[?n := b]\<rparr>) sin)\<lparr>dirty := True\<rparr>"
  have dx: "din (one_more ?sin) = x'" by (simp add: one_more_def upd_din_def x'_def)
  have iu: "in_use s' (unat b)" using changed_in_use [OF b(3)] free_isdata [OF ok b(2)] by simp
  have "sfs_bmap_get_nolock s sin i True = kret (0, b, s', ?sin)"
    using i(2) z b(1) bmap_out_ok [OF changedD(1) [OF b(3)] iu] by (simp add: sfs_bmap_get_nolock_def Let_def)
  then have "sfs_bmap_load_nolock s sin i = kret (0, b, s', one_more ?sin)"
    using i(1) by (simp add: sfs_bmap_load_nolock_def inuse_ok [OF changedD(1) [OF b(3)] iu] one_more_def)
  moreover have "fblk s' x' ?n = unat b" using n map_okD(1) [OF m] by (simp add: fblk_def x'_def)
  ultimately show ?thesis unfolding loaded_def using mo dx d1 i(1)
    by (intro exI [of _ b] exI [of _ s'] exI [of _ "one_more ?sin"]) (simp add: one_more_def upd_din_def x'_def)
qed


lemma create_sub_ok:
  assumes ok: "fs_ok s" and e: "in_use s (unat ent)" and i: "index < 1024" and f: "free s \<noteq> {}"
  shows "\<exists>b s'. bmap_create_sub s entp ent (index * 4) = kret (0, ent, b, s') \<and> unat b \<in> free s \<and>
    changed s s' (free s - {unat b}) {unat b, unat ent} \<and> blk (dev s') (unat b) = replicate 4096 0 \<and>
    blk (dev s') (unat ent) = paste (blk (dev s) (unat ent)) (4 * unat index) (enc32 b)"
proof -
  obtain b t where b: "sfs_block_alloc s = kret (0, b, t)" "unat b \<in> free s" "changed s t (free s - {unat b}) {unat b}"
      "blk (dev t) (unat b) = replicate 4096 0"
    using block_alloc_ok [OF ok] f by auto
  have ne: "unat ent \<noteq> unat b" using e b(2) by (auto simp: in_use_def)
  have et: "in_use t (unat ent)" "blk (dev t) (unat ent) = blk (dev s) (unat ent)"
    using changed_in_use [OF b(3)] changedD(4) [OF b(3)] e ne by (auto simp: in_use_def)
  obtain x u where u: "sfs_wbuf t (enc32 b) 0 4 ent (index * 4) = kret (0, x, u)"
      "writes t u [unat ent \<mapsto> paste (blk (dev t) (unat ent)) (4 * unat index) (enc32 b)]"
    using entry_write [OF changedD(1) [OF b(3)] et(1) i] by blast
  have "changed s u (free s - {unat b}) {unat b, unat ent}"
    using changed_trans [OF b(3) writes_changed [OF changedD(1) [OF b(3)] u(2)]] changedD(3) [OF b(3)]
    by (simp add: insert_commute)
  then show ?thesis using b u writesD(7) [OF u(2), of "unat b"] writesD(8) [OF u(2), of "unat ent"] et ne
    by (intro exI [of _ b] exI [of _ u]) (simp add: bmap_create_sub_def)
qed

lemma create_sub_full:
  assumes ok: "fs_ok s" and e: "ent \<noteq> entp \<Longrightarrow> used s (unat ent)" and f: "free s = {}"
  shows "\<exists>s'. bmap_create_sub s entp ent off = kret (- E_NO_MEM, entp, 0, s') \<and>
    changed s s' (if ent = entp then {} else {unat ent}) {}"
proof (cases "ent = entp")
  case True
  then show ?thesis using block_alloc_ok [OF ok] f ok
    by (auto simp: bmap_create_sub_def bmap_cleanup_def changed_def)
next
  case False
  obtain t where "sfs_block_free s ent = kret t" "changed s t (insert (unat ent) (free s)) {}"
    using block_free_ok [OF ok, of ent] usedD [OF e [OF False]] by auto
  then show ?thesis using False block_alloc_ok [OF ok] f by (auto simp: bmap_create_sub_def bmap_cleanup_def)
qed

lemma load_sub:
  assumes ok: "fs_ok s" and m: "map_ok s (din sin)" and i: "i = dblocks (din sin)" "\<not> i < 12" "unat i < 1036"
    and sub: "sfs_bmap_get_sub_nolock s (indirect (din sin)) (i - 12) True = kret (0, ent, b, s')"
    and ent: "ent \<noteq> indirect (din sin) \<Longrightarrow> indirect (din sin) = 0"
    and iu: "fs_ok s'" "in_use s' (unat b)"
    and mo: "modified s (din sin) s' ((din sin)\<lparr>indirect := ent, dblocks := dblocks (din sin) + 1\<rparr>) Map.empty"
    and fb: "fblk s' ((din sin)\<lparr>indirect := ent, dblocks := dblocks (din sin) + 1\<rparr>) (unat i) = unat b"
  shows "loaded s sin i"
proof -
  let ?x = "din sin"
  let ?sin = "if ent \<noteq> indirect ?x then (upd_din (\<lambda>d. d\<lparr>indirect := ent\<rparr>) sin)\<lparr>dirty := True\<rparr> else sin"
  have k: "i - 12 < 1024" using unat_minus_12 [OF i(2)] i by (simp add: word_less_nat_alt)
  have "sfs_bmap_get_nolock s sin i True = kret (0, b, s', ?sin)"
    using i(2) k sub ent bmap_out_ok [OF iu] by (auto simp: sfs_bmap_get_nolock_def Let_def)
  then have "sfs_bmap_load_nolock s sin i = kret (0, b, s', one_more ?sin)"
    using i(1) by (simp add: sfs_bmap_load_nolock_def inuse_ok [OF iu] one_more_def)
  moreover have "din (one_more ?sin) = ?x\<lparr>indirect := ent, dblocks := dblocks ?x + 1\<rparr>" by (auto simp: one_more_def upd_din_def)
  moreover have "unat (dblocks ?x + 1) = unat i + 1"
    using i(1,3) unat_inc [of i 1036] by (simp add: word_less_nat_alt)
  moreover have "ino (one_more ?sin) = ino sin" "reclaim_count (one_more ?sin) = reclaim_count sin"
      "sin_sem (one_more ?sin) = sin_sem sin" by (simp_all add: one_more_def upd_din_def)
  ultimately show ?thesis unfolding loaded_def using mo fb i(1)
    by (intro exI [of _ b] exI [of _ s'] exI [of _ "one_more ?sin"]) simp
qed

lemma load_indirect:
  assumes ok: "fs_ok s" and m: "map_ok s (din sin)" and i: "i = dblocks (din sin)" "\<not> i < 12" "unat i < 1036"
    and e: "indirect (din sin) \<noteq> 0" and f: "free s \<noteq> {}"
  shows "loaded s sin i"
proof -
  let ?x = "din sin" and ?e = "indirect (din sin)" and ?n = "unat i"
  note u = unat_minus_12 [OF i(2)]
  have n: "12 \<le> ?n" "i - 12 < 1024" using i(2,3) u by (simp_all add: word_less_nat_alt)
  note e1 = usedD [OF map_okD(7) [OF m e]]
  obtain x t where x: "sfs_rbuf s (enc32 0) 0 4 ?e ((i - 12) * 4) = kret (0, x, t)"
      "dec32 x 0 = dec32 (blk (dev s) (unat ?e)) (4 * unat (i - 12))" "writes s t Map.empty"
    using entry_read [OF ok _ n(2), of ?e] e1 by blast
  have z: "dec32 x 0 = 0" using map_okD(4) [OF m, of ?n] i e n(1) u x(2) by (simp add: fblk_def word_unat_eq_iff)
  have ct: "changed s t (free s) {}" using writes_changed [OF ok x(3)] by simp
  have et: "in_use t (unat ?e)" using changed_in_use [OF ct] e1 by (simp add: in_use_def)
  obtain b v where b: "bmap_create_sub t ?e ?e ((i - 12) * 4) = kret (0, ?e, b, v)" "unat b \<in> free t"
      "changed t v (free t - {unat b}) {unat b, unat ?e}" "blk (dev v) (unat b) = replicate 4096 0"
      "blk (dev v) (unat ?e) = paste (blk (dev t) (unat ?e)) (4 * unat (i - 12)) (enc32 b)"
    using create_sub_ok [OF changedD(1) [OF ct] et n(2)] f changedD(3) [OF ct] by blast
  have c: "changed s v (free s - {unat b}) {unat b, unat ?e}" using changed_trans [OF ct b(3)] changedD(3) [OF ct] by simp
  have bf: "unat b \<in> free s" using b(2) changedD(3) [OF ct] by simp
  let ?x' = "?x\<lparr>indirect := ?e, dblocks := dblocks ?x + 1\<rparr>"
  have fb: "fblk v ?x' k = (if k = ?n then unat b else fblk s ?x k)" if k: "k < 1036" for k
  proof (cases "k < 12")
    case True
    then show ?thesis using n(1) by (simp add: fblk_def)
  next
    case False
    have "dec32 (blk (dev v) (unat ?e)) (4 * (k - 12)) =
        (if ?n - 12 = k - 12 then b else dec32 (blk (dev s) (unat ?e)) (4 * (k - 12)))"
      unfolding b(5) u using dec32_paste [of "?n - 12" "blk (dev t) (unat ?e)" "k - 12" b] k i(3) writesD(7) [OF x(3)] by simp
    moreover have "?n - 12 = k - 12 \<longleftrightarrow> k = ?n" using False n(1) by auto
    ultimately show ?thesis using False e n(1) by (simp add: fblk_def)
  qed
  have "modified s ?x v ?x' Map.empty"
    by (rule modified_extend [OF ok m _ _ _ c bf b(4), of ?n])
      (use i fb map_okD(1) [OF m] unat_inc [of i 1036] in \<open>simp_all add: word_less_nat_alt\<close>)
  moreover have "sfs_bmap_get_sub_nolock s ?e (i - 12) True = kret (0, ?e, b, v)"
    using n(2) e x(1) z b(1) by (simp add: sfs_bmap_get_sub_nolock_def)
  moreover have "in_use v (unat b)" using changed_in_use [OF c] free_isdata [OF ok bf] by simp
  ultimately show ?thesis using load_sub [OF ok m i, of ?e b v] changedD(1) [OF c] fb [of ?n] i(3) by simp
qed

lemma load_index_block:
  assumes ok: "fs_ok s" and m: "map_ok s (din sin)" and i: "i = dblocks (din sin)" "\<not> i < 12" "unat i < 1036"
    and e: "indirect (din sin) = 0" and f: "2 \<le> card (free s)"
  shows "loaded s sin i"
proof -
  let ?x = "din sin" and ?n = "unat i"
  have n: "?n = 12"
  proof (rule ccontr)
    assume "?n \<noteq> 12"
    then have "12 < unat (dblocks ?x)" using i(1,2) by (simp add: word_less_nat_alt)
    then show False using map_ok_nz [OF m, of 12] e by (simp add: fblk_def)
  qed
  then have i0: "unat (i - 12) = 0" "i - 12 = 0" using i(2) unat_minus_12 [of i] by (simp_all add: word_unat_eq_iff)
  have "free s \<noteq> {}" using f by auto
  then obtain a t where a: "sfs_block_alloc s = kret (0, a, t)" "unat a \<in> free s" "changed s t (free s - {unat a}) {unat a}"
      "blk (dev t) (unat a) = replicate 4096 0"
    using block_alloc_ok [OF ok] by auto
  have a0: "a \<noteq> 0" using isdata_pos [OF free_isdata [OF ok a(2)]] by auto
  have et: "in_use t (unat a)" using changed_in_use [OF a(3)] free_isdata [OF ok a(2)] by simp
  have "card (free t) = card (free s) - 1" using changedD(3) [OF a(3)] a(2) fs_okD(9) [OF ok] by simp
  then have "free t \<noteq> {}" using f by auto
  then obtain b v where b: "bmap_create_sub t 0 a ((i - 12) * 4) = kret (0, a, b, v)" "unat b \<in> free t"
      "changed t v (free t - {unat b}) {unat b, unat a}" "blk (dev v) (unat b) = replicate 4096 0"
      "blk (dev v) (unat a) = paste (replicate 4096 0) 0 (enc32 b)"
    using create_sub_ok [OF changedD(1) [OF a(3)] et, of "i - 12" 0] i0 a(4) by auto
  have bf: "unat b \<in> free s" "unat b \<noteq> unat a" using b(2) changedD(3) [OF a(3)] by auto
  have c: "changed s v (free s - {unat b, unat a}) {unat b, unat a}"
    using changed_trans [OF a(3) b(3)] changedD(3) [OF a(3)] by (simp add: insert_commute Diff_insert2 [symmetric] insert_absorb)
  let ?x' = "?x\<lparr>indirect := a, dblocks := dblocks ?x + 1\<rparr>"
  have fb: "fblk v ?x' k = (if k = ?n then unat b else fblk s ?x k)" if k: "k < 1036" for k
  proof (cases "k < 12")
    case True
    then show ?thesis using n by (simp add: fblk_def)
  next
    case False
    have "dec32 (blk (dev v) (unat a)) (4 * (k - 12)) = (if 0 = k - 12 then b else 0)"
      unfolding b(5) using dec32_paste [of 0 "replicate 4096 0" "k - 12" b] dec32_zero [of "k - 12" 4096] k by simp
    then show ?thesis using False e n a0 by (auto simp: fblk_def)
  qed
  have "modified s ?x v ?x' Map.empty"
    by (rule modified_extend [OF ok m _ _ _ c bf(1) b(4), of ?n])
      (use i fb map_okD(1) [OF m] unat_inc [of i 1036] a0 n e a(2) bf(2) in \<open>simp_all add: word_less_nat_alt\<close>)
  moreover have "sfs_bmap_get_sub_nolock s 0 (i - 12) True = kret (0, a, b, v)"
    using i0 a(1) b(1) by (simp add: sfs_bmap_get_sub_nolock_def)
  moreover have "in_use v (unat b)" using changed_in_use [OF c] free_isdata [OF ok bf(1)] by simp
  ultimately show ?thesis using load_sub [OF ok m i, of a b v] changedD(1) [OF c] fb [of ?n] i(3) e by simp
qed


lemma load_full:
  assumes ok: "fs_ok s" and m: "map_ok s (din sin)" and i: "i = dblocks (din sin)" "unat i < 1036"
    and f: "card (free s) < (if i < 12 \<or> indirect (din sin) \<noteq> 0 then 1 else 2)"
  shows "\<exists>s'. sfs_bmap_load_nolock s sin i = kret (- E_NO_MEM, 0, s', sin) \<and> modified s (din sin) s' (din sin) Map.empty"
proof -
  let ?x = "din sin" and ?e = "indirect (din sin)"
  have fin: "finite (free s)" using fs_okD(9) [OF ok] .
  have k: "i - 12 < 1024" if "\<not> i < 12" using unat_minus_12 [OF that] i(2) that by (simp add: word_less_nat_alt)
  have mo: "modified s ?x s' ?x Map.empty" if "changed s s' (free s) B" "B \<subseteq> free s" for s' B
    using modified_refl [OF ok m that(1)] that(2) by (auto simp: in_use_def)
  have "\<exists>s'. sfs_bmap_get_nolock s sin i True = kret (- E_NO_MEM, 0, s', sin) \<and> modified s ?x s' ?x Map.empty"
  proof (cases "i < 12")
    case True
    have "unat i < 12" using True by (simp add: word_less_nat_alt)
    then have "direct ?x ! unat i = 0" using map_okD(4) [OF m, of "unat i"] i by (simp add: fblk_def word_unat_eq_iff)
    moreover have "free s = {}" using f True fin by simp
    ultimately show ?thesis using True block_alloc_ok [OF ok] mo [of s "{}"] ok
      by (auto simp: sfs_bmap_get_nolock_def changed_def)
  next
    case False
    note u = unat_minus_12 [OF False]
    have "\<exists>s'. sfs_bmap_get_sub_nolock s ?e (i - 12) True = kret (- E_NO_MEM, ?e, 0, s') \<and> modified s ?x s' ?x Map.empty"
    proof (cases "?e = 0")
      case e: False
      note e1 = usedD [OF map_okD(7) [OF m e]]
      obtain x t where x: "sfs_rbuf s (enc32 0) 0 4 ?e ((i - 12) * 4) = kret (0, x, t)"
          "dec32 x 0 = dec32 (blk (dev s) (unat ?e)) (4 * unat (i - 12))" "writes s t Map.empty"
        using entry_read [OF ok _ k [OF False], of ?e] e1 by blast
      have z: "dec32 x 0 = 0" using map_okD(4) [OF m, of "unat i"] i e False u x(2) by (simp add: fblk_def word_unat_eq_iff word_less_nat_alt)
      have fr: "free s = {}" using f e fin by simp
      have ct: "changed s t (free s) {}" using writes_changed [OF ok x(3)] by simp
      obtain v where "bmap_create_sub t ?e ?e ((i - 12) * 4) = kret (- E_NO_MEM, ?e, 0, v)" "changed t v {} {}"
        using create_sub_full [OF changedD(1) [OF ct], of ?e ?e "(i - 12) * 4"] fr changedD(3) [OF ct] by auto
      then show ?thesis using x(1) z e k [OF False] mo [of v "{}"] changed_trans [OF ct] fr
        by (auto simp: sfs_bmap_get_sub_nolock_def)
    next
      case e: True
      show ?thesis
      proof (cases "free s = {}")
        case True
        then show ?thesis using e block_alloc_ok [OF ok] k [OF False] mo [of s "{}"] ok
          by (auto simp: sfs_bmap_get_sub_nolock_def changed_def)
      next
        case nf: False
        then obtain a t where a: "sfs_block_alloc s = kret (0, a, t)" "unat a \<in> free s" "changed s t (free s - {unat a}) {unat a}"
          using block_alloc_ok [OF ok] by auto
        have "card (free s) = 1" using f e nf fin False by (simp add: card_gt_0_iff le_Suc_eq Suc_leI less_2_cases_iff)
        then have one: "free s = {unat a}" using a(2) by (metis card_1_singletonE singletonD)
        have a0: "a \<noteq> 0" using isdata_pos [OF free_isdata [OF ok a(2)]] by auto
        have "used t (unat a)" using changed_used [OF a(3)] free_isdata [OF ok a(2)] fs_okD(7) [OF ok] a(2) by auto
        then obtain v where v: "bmap_create_sub t 0 a ((i - 12) * 4) = kret (- E_NO_MEM, 0, 0, v)" "changed t v {unat a} {}"
          using create_sub_full [OF changedD(1) [OF a(3)], of a 0 "(i - 12) * 4"] changedD(3) [OF a(3)] one a0 by auto
        have "changed s v (free s) {unat a}" using changed_trans [OF a(3) v(2)] one by simp
        then show ?thesis using mo [of v "{unat a}"] a(1,2) v(1) e k [OF False] by (auto simp: sfs_bmap_get_sub_nolock_def)
      qed
    qed
    then show ?thesis using False k [OF False] by (auto simp: sfs_bmap_get_nolock_def Let_def)
  qed
  then show ?thesis using i(1) by (auto simp: sfs_bmap_load_nolock_def)
qed

text \<open>Room for a file of \<open>n\<close> blocks.\<close>

definition room :: "sfs_fs \<Rightarrow> sfs_disk_inode \<Rightarrow> nat \<Rightarrow> bool" where
  "room s x n \<longleftrightarrow> n + (if 12 < n \<or> indirect x \<noteq> 0 then 1 else 0) \<le> card (free s) + nb x"

lemma room_mono: "room s x n \<Longrightarrow> k \<le> n \<Longrightarrow> room s x k"
  by (auto simp: room_def split: if_splits)

lemma room_modified:
  assumes "modified s x s' x' D" and "room s x n"
  shows "room s' x' n"
  using modifiedD(10-12) [OF assms(1)] assms(2) by (auto simp: room_def nb_def split: if_splits)

definition same_sin :: "sfs_inode \<Rightarrow> sfs_inode \<Rightarrow> bool" where
  "same_sin x y \<longleftrightarrow> ino x = ino y \<and> reclaim_count x = reclaim_count y \<and> sin_sem x = sin_sem y"

lemma same_sin_refl [simp]: "same_sin x x"
  by (simp add: same_sin_def)

lemma same_sin_trans [trans]: "same_sin x y \<Longrightarrow> same_sin y z \<Longrightarrow> same_sin x z"
  by (simp add: same_sin_def)

lemma load_ok:
  assumes ok: "fs_ok s" and m: "map_ok s (din sin)" and i: "unat i \<le> unat (dblocks (din sin))" "unat i < 1036"
  shows "\<exists>ret b s' sin'. sfs_bmap_load_nolock s sin i = kret (ret, b, s', sin') \<and> modified s (din sin) s' (din sin') Map.empty \<and>
    same_sin sin' sin \<and>
    (ret = 0 \<and> unat (dblocks (din sin')) = max (unat (dblocks (din sin))) (unat i + 1) \<and> unat b = fblk s' (din sin') (unat i) \<or>
     ret = - E_NO_MEM \<and> sin' = sin \<and> \<not> room s (din sin) (unat i + 1))"
proof (cases "unat i < unat (dblocks (din sin))")
  case True
  obtain b s' where b: "sfs_bmap_load_nolock s sin i = kret (0, b, s', sin)" "unat b = fblk s (din sin) (unat i)" "writes s s' Map.empty"
    using load_existing [OF ok m True] by blast
  have c: "changed s s' (free s) {}" using writes_changed [OF ok b(3)] by simp
  have "fblk s' (din sin) (unat i) = fblk s (din sin) (unat i)" using writesD(7) [OF b(3)] by (intro fblk_cong) simp
  then show ?thesis using b modified_refl [OF ok m c] True
    by (intro exI [of _ "0 :: int"] exI [of _ b] exI [of _ s'] exI [of _ sin]) auto
next
  case False
  then have e: "i = dblocks (din sin)" using i(1) by (simp add: word_unat_eq_iff)
  show ?thesis
  proof (cases "card (free s) < (if i < 12 \<or> indirect (din sin) \<noteq> 0 then 1 else 2)")
    case True
    have "\<not> room s (din sin) (unat i + 1)" using True e by (auto simp: room_def nb_def word_less_nat_alt split: if_splits)
    then show ?thesis using load_full [OF ok m e i(2) True] by fastforce
  next
    case room: False
    have "loaded s sin i"
    proof (cases "i < 12")
      case True
      then show ?thesis using load_direct [OF ok m e] room by fastforce
    next
      case False
      then show ?thesis using load_indirect [OF ok m e _ i(2)] load_index_block [OF ok m e _ i(2)] room
        by (cases "indirect (din sin) = 0") fastforce+
    qed
    then show ?thesis using e unfolding loaded_def same_sin_def by fastforce
  qed
qed

end
