(* ===== verification/Sfs_File.thy ===== *)
theory Sfs_File
  imports Sfs_Map
begin

text \<open>
  Correctness of reading and writing a file of the simple file system: the three phases of
  \<^const>\<open>sfs_io_nolock\<close> (a part of the first block, whole blocks, a part of the last block) are composed
  into one transfer, and the transfer is stated over the contents of the file as a list of bytes.
\<close>


section \<open>Writing\<close>

definition dmap :: "nat \<Rightarrow> bytes \<Rightarrow> nat \<rightharpoonup> u8" where
  "dmap a d = (\<lambda>j. if a \<le> j \<and> j < a + length d then Some (d ! (j - a)) else None)"

lemma dmap_Nil [simp]: "dmap a [] = Map.empty"
  by (auto simp: dmap_def)

lemma dmap_append: "dmap a d ++ dmap (a + length d) e = dmap a (d @ e)"
  by (rule ext) (auto simp: dmap_def map_add_def nth_append)

lemma write_block:
  assumes ok: "fs_ok s" and m: "map_ok s x" and k: "k < unat (dblocks x)" and b: "b = fblk s x k"
    and r: "off + length d \<le> 4096" and w: "writes s s' [b \<mapsto> paste (blk (dev s) b) off d]"
  shows "modified s x s' x (dmap (4096 * k + off) d)"
proof -
  note M = map_okD [OF m]
  have c: "changed s s' (free s) {b}" using writes_changed [OF ok w] by simp
  have "free s \<inter> blocks_of s x = {}" using usedD [OF M(3)] by blast
  moreover have "unat (indirect x) \<notin> {b}" if "indirect x \<noteq> 0" using M(6) [OF that] k b by auto
  ultimately have mc: "map_ok s' x" "\<And>k. fblk s' x k = fblk s x k" "blocks_of s' x = blocks_of s x"
    using map_ok_changed [OF m c] by auto
  have fb: "fbyte s' x j = (case dmap (4096 * k + off) d j of Some v \<Rightarrow> v | None \<Rightarrow> fbyte s x j)"
    if j: "j < 4096 * unat (dblocks x)" for j
  proof (cases "j div 4096 = k")
    case True
    then have jk: "j = 4096 * k + j mod 4096" by auto
    have "fbyte s' x j = paste (blk (dev s) b) off d ! (j mod 4096)"
      using True writesD(8) [OF w, of b] b by (simp add: fbyte_def mc(2))
    also have "\<dots> = (if off \<le> j mod 4096 \<and> j mod 4096 < off + length d then d ! (j mod 4096 - off) else blk (dev s) b ! (j mod 4096))"
      using r by (simp add: nth_paste)
    also have "\<dots> = (case dmap (4096 * k + off) d j of Some v \<Rightarrow> v | None \<Rightarrow> fbyte s x j)"
    proof -
      have "off \<le> j mod 4096 \<and> j mod 4096 < off + length d \<longleftrightarrow> 4096 * k + off \<le> j \<and> j < 4096 * k + off + length d" using jk by linarith
      moreover have "j - (4096 * k + off) = j mod 4096 - off" using jk by linarith
      ultimately show ?thesis using True b by (simp add: dmap_def fbyte_def)
    qed
    finally show ?thesis .
  next
    case False
    have "dmap (4096 * k + off) d j = None"
    proof -
      have "\<not> (4096 * k + off \<le> j \<and> j < 4096 * k + off + length d)" using False r by (auto intro: div_nat_eqI)
      then show ?thesis by (simp add: dmap_def)
    qed
    moreover have "j div 4096 < unat (dblocks x)" using j by (simp add: less_mult_imp_div_less mult.commute)
    moreover have "fblk s x (j div 4096) \<noteq> b" using M(5) False calculation(2) k b by (auto simp: inj_on_def)
    ultimately show ?thesis using writesD(7) [OF w, of "fblk s x (j div 4096)"] by (simp add: fbyte_def mc(2))
  qed
  have bo: "b \<in> blocks_of s x" using k b by (auto simp: blocks_of_def)
  have dm: "j < 4096 * unat (dblocks x)" if "j \<in> dom (dmap (4096 * k + off) d)" for j
  proof -
    have "j < 4096 * k + 4096" using that r by (auto simp: dmap_def split: if_splits)
    also have "\<dots> \<le> 4096 * unat (dblocks x)" using k by simp
    finally show ?thesis .
  qed
  have other: "in_use s' c \<and> c \<notin> blocks_of s' x \<and> blk (dev s') c = blk (dev s) c" if "in_use s c" "c \<notin> blocks_of s x" for c
    using that bo changed_in_use [OF c] changedD(4) [OF c] mc(3) by (auto simp: in_use_def)
  show ?thesis unfolding modified_def using changedD(1-3) [OF c] mc(1) fb dm other by (auto split: option.splits)
qed

text \<open>The outcome of writing a part of the range: everything, or no space for a block of it.\<close>

definition wrote :: "sfs_fs \<Rightarrow> sfs_inode \<Rightarrow> nat \<Rightarrow> bytes \<Rightarrow> sfs_fs \<Rightarrow> sfs_inode \<Rightarrow> bool" where
  "wrote s sin off d s' sin' \<longleftrightarrow> modified s (din sin) s' (din sin') (dmap off d) \<and> same_sin sin' sin \<and>
     unat (dblocks (din sin')) = max (unat (dblocks (din sin))) ((off + length d + 4095) div 4096)"

lemma wrote_trans:
  assumes "wrote s x off d t y" and "wrote t y (off + length d) e u z"
  shows "wrote s x off (d @ e) u z"
proof -
  have "(off + length d + 4095) div 4096 \<le> (off + length d + length e + 4095) div 4096" by (intro div_le_mono) simp
  moreover have "modified s (din x) u (din z) (dmap off (d @ e))"
    using modified_trans assms unfolding wrote_def dmap_append [symmetric] by blast
  moreover have "same_sin z x" using same_sin_trans assms unfolding wrote_def by blast
  ultimately show ?thesis using assms unfolding wrote_def by (simp add: add.assoc)
qed

lemma wrote_refl:
  assumes "modified s (din sin) s' (din sin) Map.empty" and "off \<le> 4096 * unat (dblocks (din sin))"
  shows "wrote s sin off [] s' sin"
proof -
  have "(off + 4095) div 4096 \<le> unat (dblocks (din sin))" using assms(2) by linarith
  then show ?thesis using assms(1) by (simp add: wrote_def)
qed

lemma ceil_part:
  fixes a b c :: nat
  assumes "0 < c" and "b + c \<le> 4096"
  shows "(4096 * a + b + c + 4095) div 4096 = a + 1"
  using assms by (intro div_nat_eqI) auto

lemma step_write:
  assumes ok: "fs_ok s" and m: "map_ok s (din sin)" and i: "unat i \<le> unat (dblocks (din sin))" "unat i < 1036"
    and r: "0 < length d" "off + length d \<le> 4096" and start: "4096 * unat i + off \<le> 4096 * unat (dblocks (din sin))"
    and op: "\<And>t b. fs_ok t \<Longrightarrow> in_use t (unat b) \<Longrightarrow>
      \<exists>u. op t b = kret (0, buf, u) \<and> writes t u [unat b \<mapsto> paste (blk (dev t) (unat b)) off d]"
  shows "\<exists>ret b t y. sfs_bmap_load_nolock s sin i = kret (ret, b, t, y) \<and>
    (ret = 0 \<and> (\<exists>u. op t b = kret (0, buf, u) \<and> wrote s sin (4096 * unat i + off) d u y) \<or>
     ret = - E_NO_MEM \<and> wrote s sin (4096 * unat i + off) [] t y \<and> \<not> room s (din sin) (unat i + 1))"
proof -
  obtain ret b t y where l: "sfs_bmap_load_nolock s sin i = kret (ret, b, t, y)" "modified s (din sin) t (din y) Map.empty"
      "same_sin y sin"
      "ret = 0 \<and> unat (dblocks (din y)) = max (unat (dblocks (din sin))) (unat i + 1) \<and> unat b = fblk t (din y) (unat i) \<or>
       ret = - E_NO_MEM \<and> y = sin \<and> \<not> room s (din sin) (unat i + 1)"
    using load_ok [OF ok m i] by blast
  show ?thesis
  proof (cases "ret = 0")
    case True
    note T = modifiedD(1,3) [OF l(2)]
    have k: "unat i < unat (dblocks (din y))" "unat b = fblk t (din y) (unat i)"
        "unat (dblocks (din y)) = max (unat (dblocks (din sin))) (unat i + 1)" using l(4) True by auto
    have "in_use t (unat b)" using usedD [OF map_okD(8) [OF T(2) k(1)]] k(2) by simp
    then obtain u where u: "op t b = kret (0, buf, u)" "writes t u [unat b \<mapsto> paste (blk (dev t) (unat b)) off d]"
      using op [OF T(1)] by blast
    have mo: "modified t (din y) u (din y) (dmap (4096 * unat i + off) d)" using write_block [OF T k(1,2) r(2) u(2)] .
    have "(4096 * unat i + off + length d + 4095) div 4096 = unat i + 1"
      by (rule ceil_part [OF r(1,2)])
    then have "wrote s sin (4096 * unat i + off) d u y" using modified_trans [OF l(2) mo] l(3) k(3) by (simp add: wrote_def)
    then show ?thesis using l(1) u(1) True by blast
  next
    case False
    then have "y = sin" "ret = - E_NO_MEM" "\<not> room s (din sin) (unat i + 1)" using l(4) by auto
    then show ?thesis using l(1,2) wrote_refl [OF _ start, of s t] by blast
  qed
qed

lemma part_write:
  assumes ok: "fs_ok s" and m: "map_ok s (din sin)" and i: "unat i \<le> unat (dblocks (din sin))" "unat i < 1036"
    and r: "unat off < 4096" "0 < unat len" "unat off + unat len \<le> 4096" and pos: "pos + unat len \<le> length buf"
    and start: "4096 * unat i + unat off \<le> 4096 * unat (dblocks (din sin))"
  shows "\<exists>ret s' sin'. io_part True s sin buf pos i len off = kret (ret, buf, s', sin') \<and>
    (ret = 0 \<and> wrote s sin (4096 * unat i + unat off) (sub buf pos (unat len)) s' sin' \<or>
     ret = - E_NO_MEM \<and> wrote s sin (4096 * unat i + unat off) [] s' sin' \<and> \<not> room s (din sin) (unat i + 1))"
proof -
  have op: "\<exists>u. sfs_wbuf t buf pos len b off = kret (0, buf, u) \<and>
      writes t u [unat b \<mapsto> paste (blk (dev t) (unat b)) (unat off) (sub buf pos (unat len))]"
    if "fs_ok t" "in_use t (unat b)" for t b
    using sfs_wbuf_ok [of t b off len pos buf] fs_okD [OF that(1)] in_use_word [OF that(2)] r pos by blast
  obtain ret b t y where l: "sfs_bmap_load_nolock s sin i = kret (ret, b, t, y)"
    "ret = 0 \<and> (\<exists>u. sfs_wbuf t buf pos len b off = kret (0, buf, u) \<and>
        wrote s sin (4096 * unat i + unat off) (sub buf pos (unat len)) u y) \<or>
     ret = - E_NO_MEM \<and> wrote s sin (4096 * unat i + unat off) [] t y \<and> \<not> room s (din sin) (unat i + 1)"
    using step_write [where op = "\<lambda>t b. sfs_wbuf t buf pos len b off" and d = "sub buf pos (unat len)", OF ok m i _ _ start]
      op r pos by (metis length_sub)
  then show ?thesis by (cases "ret = 0") (auto simp: io_part_def io_buf_op_def)
qed

lemma wblock_one:
  assumes ok: "io_ok s" "0 < io_sem s" and b: "b < sblocks (super s)" "b \<noteq> 0" and pos: "pos + 4096 \<le> length buf"
  shows "\<exists>s'. sfs_wblock s buf pos b 1 = kret (0, buf, s') \<and>
    writes s s' [unat b \<mapsto> paste (blk (dev s) (unat b)) 0 (sub buf pos 4096)]"
proof -
  obtain v where v: "io_sem s = Suc v" using ok(2) gr0_conv_Suc by auto
  obtain t where "sfs_rwblock_nolock (s\<lparr>io_sem := v\<rparr>) buf pos b True True = kret (0, buf, t)"
      "writes (s\<lparr>io_sem := v\<rparr>) t [unat b \<mapsto> sub buf pos 4096]"
    using rwblock_write [of "s\<lparr>io_sem := v\<rparr>" b True pos buf] ok b pos by auto
  then show ?thesis using writes_unlock [OF v, of t] pos
    by (simp add: sfs_wblock_def sfs_rwblock_def lock_sfs_io_ok [OF v] paste_all)
      (subst rwblock_loop.simps, subst rwblock_loop.simps, simp)
qed

lemma sub_append_block: "pos + 4096 * (m + 1) \<le> length buf \<Longrightarrow>
    sub buf pos 4096 @ sub buf (pos + 4096) (4096 * m) = sub buf pos (4096 * (m + 1))"
  using sub_append [of pos 4096 "4096 * m" buf] by simp

lemma wrote_facts:
  assumes "wrote s sin off d s' sin'"
  shows "fs_ok s'" "map_ok s' (din sin')"
    "off + length d \<le> 4096 * unat (dblocks (din sin'))"
proof -
  show "fs_ok s'" "map_ok s' (din sin')" using assms modifiedD(1,3) by (auto simp: wrote_def)
  have "off + length d \<le> 4096 * ((off + length d + 4095) div 4096)" by linarith
  also have "\<dots> \<le> 4096 * unat (dblocks (din sin'))" using assms by (simp add: wrote_def)
  finally show "off + length d \<le> 4096 * unat (dblocks (din sin'))" .
qed

lemma blocks_write:
  assumes "fs_ok s" and "map_ok s (din sin)" and "unat i \<le> unat (dblocks (din sin))" and "unat i + n \<le> 1036"
    and "pos + 4096 * n \<le> length buf"
  shows "\<exists>ret k s' sin'. io_blocks True s sin buf pos i (of_nat n) alen =
      kret (ret, alen + 4096 * of_nat k, pos + 4096 * k, i + of_nat k, buf, s', sin') \<and> k \<le> n \<and>
    wrote s sin (4096 * unat i) (sub buf pos (4096 * k)) s' sin' \<and>
    (ret = 0 \<and> k = n \<or> ret = - E_NO_MEM \<and> k < n \<and> \<not> room s (din sin) (unat i + n))"
  using assms
proof (induction n arbitrary: s sin pos i alen)
  case 0
  have "changed s s (free s) {}" using 0(1) by (simp add: changed_def)
  then have "wrote s sin (4096 * unat i) [] s sin"
    using modified_refl [OF 0(1,2)] 0(3) by (intro wrote_refl) auto
  then show ?case by (subst io_blocks.simps) (simp add: sub_def)
next
  case (Suc n)
  have n: "(of_nat (Suc n) :: u32) \<noteq> 0" "(of_nat (Suc n) :: u32) - 1 = of_nat n"
  proof -
    have "unat (of_nat (Suc n) :: u32) = Suc n" using Suc.prems(4) by (intro unat_nat) simp
    then show "(of_nat (Suc n) :: u32) \<noteq> 0" by (metis nat.distinct(1) unat_0)
  qed simp
  have op: "\<exists>u. sfs_wblock t buf pos b 1 = kret (0, buf, u) \<and> writes t u [unat b \<mapsto> paste (blk (dev t) (unat b)) 0 (sub buf pos 4096)]"
    if "fs_ok t" "in_use t (unat b)" for t b
    using wblock_one [of t b pos buf] fs_okD [OF that(1)] in_use_word [OF that(2)] Suc.prems(5) by simp
  have l4: "length (sub buf pos 4096) = 4096" using Suc.prems(5) by simp
  have si: "unat i < 1036" "4096 * unat i + 0 \<le> 4096 * unat (dblocks (din sin))" using Suc.prems(3,4) by simp_all
  obtain ret b t y where l: "sfs_bmap_load_nolock s sin i = kret (ret, b, t, y)"
    "ret = 0 \<and> (\<exists>u. sfs_wblock t buf pos b 1 = kret (0, buf, u) \<and> wrote s sin (4096 * unat i + 0) (sub buf pos 4096) u y) \<or>
     ret = - E_NO_MEM \<and> wrote s sin (4096 * unat i + 0) [] t y \<and> \<not> room s (din sin) (unat i + 1)"
    using step_write [where op = "\<lambda>t b. sfs_wblock t buf pos b 1" and d = "sub buf pos 4096" and off = 0,
        OF Suc.prems(1,2,3) si(1) _ _ si(2)] op l4 by (metis add_0 order_refl zero_less_numeral)
  show ?case
  proof (cases "ret = 0")
    case False
    then have "\<not> room s (din sin) (unat i + Suc n)" using l(2) room_mono [of s "din sin" "unat i + Suc n" "unat i + 1"] by auto
    then show ?thesis using l False n(1)
      by (subst io_blocks.simps) (intro exI [of _ ret] exI [of _ "0 :: nat"] exI [of _ t] exI [of _ y], auto simp: sub_def)
  next
    case True
    then obtain u where u: "sfs_wblock t buf pos b 1 = kret (0, buf, u)" "wrote s sin (4096 * unat i) (sub buf pos 4096) u y"
      using l(2) by auto
    have i1: "unat (i + 1) = unat i + 1" using Suc.prems(4) unat_inc [of i 1036] by (simp add: word_less_nat_alt)
    note W = wrote_facts [OF u(2)]
    have "unat (i + 1) \<le> unat (dblocks (din y))" using W(3) l4 i1 by simp
    then obtain r k s' z where ih: "io_blocks True u y buf (pos + 4096) (i + 1) (of_nat n) (alen + 4096) =
          kret (r, alen + 4096 + 4096 * of_nat k, pos + 4096 + 4096 * k, i + 1 + of_nat k, buf, s', z)" "k \<le> n"
        "wrote u y (4096 * unat (i + 1)) (sub buf (pos + 4096) (4096 * k)) s' z"
        "r = 0 \<and> k = n \<or> r = - E_NO_MEM \<and> k < n \<and> \<not> room u (din y) (unat (i + 1) + n)"
      using Suc.IH [OF W(1,2), of "i + 1" "pos + 4096" "alen + 4096"] Suc.prems i1 by auto
    have "wrote u y (4096 * unat i + length (sub buf pos 4096)) (sub buf (pos + 4096) (4096 * k)) s' z"
      using ih(3) l4 i1 by (simp add: add.commute)
    from wrote_trans [OF u(2) this] have "wrote s sin (4096 * unat i) (sub buf pos (4096 * (k + 1))) s' z"
      using sub_append_block [of pos k buf] Suc.prems(5) ih(2) by simp
    moreover have "io_blocks True s sin buf pos i (of_nat (Suc n)) alen =
        kret (r, alen + 4096 * of_nat (k + 1), pos + 4096 * (k + 1), i + of_nat (k + 1), buf, s', z)"
      using l(1) True u(1) n ih(1) by (subst io_blocks.simps) (simp add: io_block_op_def algebra_simps)
    moreover have "\<not> room s (din sin) (unat i + Suc n)" if "\<not> room u (din y) (unat (i + 1) + n)"
      using that room_modified u(2) i1 by (auto simp: wrote_def)
    ultimately show ?thesis using ih(2,4) by (intro exI [of _ r] exI [of _ "k + 1"] exI [of _ s'] exI [of _ z]) auto
  qed
qed

lemma end_of_blocks:
  fixes i n e :: nat
  assumes "i + n = e div 4096"
  shows "e = 4096 * i + 4096 * n + e mod 4096"
proof -
  have "4096 * (i + n) + e mod 4096 = e" unfolding assms by simp
  then show ?thesis by (simp only: distrib_left)
qed

lemma ceil_blocks:
  fixes e :: nat
  shows "(e + 4095) div 4096 = e div 4096 + (if e mod 4096 = 0 then 0 else 1)"
proof -
  have "(4096 * q + r + 4095) div 4096 = q + (if r = 0 then 0 else 1)" if "r < 4096" for q r :: nat
    using that by (intro div_nat_eqI) auto
  from this [of "e mod 4096" "e div 4096"] show ?thesis by simp
qed

lemma div_4096: "(x :: u32) div 4096 = of_nat (unat x div 4096)"
proof -
  have "x div 4096 = of_nat (unat (x div 4096))" by simp
  also have "unat (x div 4096) = unat x div 4096" by (simp add: unat_div)
  finally show ?thesis .
qed

lemma part_after:
  assumes w: "wrote s sin a (sub buf pos m) t y" and j: "a + m = 4096 * unat j + unat off" "unat j < 1036"
    and r: "unat off < 4096" "0 < unat len" "unat off + unat len \<le> 4096" and pos: "pos + m + unat len \<le> length buf"
  shows "\<exists>ret s' z. io_part True t y buf (pos + m) j len off = kret (ret, buf, s', z) \<and>
    (ret = 0 \<and> wrote s sin a (sub buf pos (m + unat len)) s' z \<or>
     ret = - E_NO_MEM \<and> wrote s sin a (sub buf pos m) s' z \<and> \<not> room s (din sin) (unat j + 1))"
proof -
  note W = wrote_facts [OF w]
  have l: "length (sub buf pos m) = m" using pos by simp
  have st: "4096 * unat j + unat off \<le> 4096 * unat (dblocks (din y))" using W(3) l j(1) by simp
  then have "unat j \<le> unat (dblocks (din y))" by simp
  then obtain ret s' z where q: "io_part True t y buf (pos + m) j len off = kret (ret, buf, s', z)"
      "ret = 0 \<and> wrote t y (a + length (sub buf pos m)) (sub buf (pos + m) (unat len)) s' z \<or>
       ret = - E_NO_MEM \<and> wrote t y (a + length (sub buf pos m)) [] s' z \<and> \<not> room t (din y) (unat j + 1)"
    using part_write [OF W(1,2) _ j(2) r pos st] l j(1) by auto
  have "\<not> room s (din sin) (unat j + 1)" if "\<not> room t (din y) (unat j + 1)" using that w room_modified by (auto simp: wrote_def)
  then show ?thesis using q wrote_trans [OF w] sub_append [OF pos] by (metis append_Nil2)
qed

lemma tail_write:
  assumes ok: "fs_ok s" and m: "map_ok s (din sin)" and i: "unat i \<le> unat (dblocks (din sin))"
    and e: "unat i + n = unat endpos div 4096" "unat endpos \<le> 4243456" "pos + (unat endpos - 4096 * unat i) \<le> length buf"
  shows "\<exists>ret k s' sin'. io_tail True s sin buf pos i (of_nat n) endpos alen = kret (ret, alen + of_nat k, buf, s', sin') \<and>
    wrote s sin (4096 * unat i) (sub buf pos k) s' sin' \<and>
    (ret = 0 \<and> k = unat endpos - 4096 * unat i \<or>
     ret = - E_NO_MEM \<and> k < unat endpos - 4096 * unat i \<and> \<not> room s (din sin) ((unat endpos + 4095) div 4096))"
proof -
  let ?len = "endpos mod 4096"
  note E = end_of_blocks [OF e(1)]
  have len: "unat ?len = unat endpos mod 4096" by (simp add: unat_mod)
  have p: "unat i + n \<le> 1036" "pos + 4096 * n + unat ?len \<le> length buf" using e E len by simp_all
  then have p': "pos + 4096 * n \<le> length buf" by simp
  obtain ret k t y where b: "io_blocks True s sin buf pos i (of_nat n) alen =
      kret (ret, alen + 4096 * of_nat k, pos + 4096 * k, i + of_nat k, buf, t, y)" "k \<le> n"
      "wrote s sin (4096 * unat i) (sub buf pos (4096 * k)) t y"
      "ret = 0 \<and> k = n \<or> ret = - E_NO_MEM \<and> k < n \<and> \<not> room s (din sin) (unat i + n)"
    using blocks_write [OF ok m i p(1) p'] by blast
  have r: "\<not> room s (din sin) ((unat endpos + 4095) div 4096)" if "\<not> room s (din sin) (unat i + n)"
    using that room_mono [of s "din sin" "(unat endpos + 4095) div 4096" "unat i + n"] e(1) by (auto simp: ceil_blocks)
  show ?thesis
  proof (cases "ret = 0 \<and> ?len \<noteq> 0")
    case False
    then have "?len = 0" if "ret = 0" using that by simp
    then have "unat endpos mod 4096 = 0" if "ret = 0" using that len by simp
    then have "k * 4096 = unat endpos - 4096 * unat i" if "ret = 0" using that b(4) E by auto
    then show ?thesis using False b E r by (intro exI [of _ ret] exI [of _ "4096 * k"] exI [of _ t] exI [of _ y]) (auto simp: io_tail_def mult.commute)
  next
    case True
    have L: "0 < unat endpos mod 4096" using True len by (metis gr0I unat_0 word_unat_eq_iff)
    have k: "k = n" using b(4) True by auto
    have j: "unat (i + of_nat n) = unat i + n" using p(1) by (simp add: unat_word_ariths unat_nat)
    have lt: "4096 * unat i + 4096 * k = 4096 * unat (i + of_nat n) + unat (0 :: u32)" "unat (i + of_nat n) < 1036"
      using e E L j k by (simp, linarith)
    obtain r' s' z where q: "io_part True t y buf (pos + 4096 * n) (i + of_nat n) ?len 0 = kret (r', buf, s', z)"
        "r' = 0 \<and> wrote s sin (4096 * unat i) (sub buf pos (4096 * n + unat ?len)) s' z \<or>
         r' = - E_NO_MEM \<and> wrote s sin (4096 * unat i) (sub buf pos (4096 * n)) s' z \<and> \<not> room s (din sin) (unat i + n + 1)"
      using part_after [OF b(3) lt, of ?len] L len p(2) j k by auto
    have c: "(unat endpos + 4095) div 4096 = unat i + n + 1" using L e(1) by (simp add: ceil_blocks)
    have u: "4096 * n + unat ?len = unat endpos - 4096 * unat i" "4096 * n < unat endpos - 4096 * unat i" using E L len by linarith+
    show ?thesis
    proof (cases "r' = 0")
      case R: True
      have "alen + of_nat (4096 * n + unat ?len) = alen + 4096 * of_nat n + ?len" by simp
      then show ?thesis using b(1) k True q R u(1)
        by (intro exI [of _ "0 :: int"] exI [of _ "4096 * n + unat ?len"] exI [of _ s'] exI [of _ z]) (auto simp: io_tail_def)
    next
      case R: False
      then show ?thesis using b(1) k True q c u(2)
        by (intro exI [of _ r'] exI [of _ "4096 * n"] exI [of _ s'] exI [of _ z]) (auto simp: io_tail_def)
    qed
  qed
qed

text \<open>The blocks after a first part of the range.\<close>

lemma tail_after:
  assumes w: "wrote s sin a (sub buf pos m) t y" and j: "a + m = 4096 * unat j" "unat j \<le> unat endpos div 4096"
    and e: "unat endpos \<le> 4243456" and pos: "pos + (unat endpos - a) \<le> length buf"
  shows "\<exists>ret k s' z. io_tail True t y buf (pos + m) j (of_nat (unat endpos div 4096 - unat j)) endpos alen =
      kret (ret, alen + of_nat k, buf, s', z) \<and> wrote s sin a (sub buf pos (m + k)) s' z \<and>
    (ret = 0 \<and> m + k = unat endpos - a \<or>
     ret = - E_NO_MEM \<and> m + k < unat endpos - a \<and> \<not> room s (din sin) ((unat endpos + 4095) div 4096))"
proof -
  note W = wrote_facts [OF w]
  have le: "4096 * unat j \<le> unat endpos" using j(2) by linarith
  then have pm: "pos + m + (unat endpos - 4096 * unat j) \<le> length buf" using pos j(1) by linarith
  then have l: "length (sub buf pos m) = m" by simp
  have i: "unat j \<le> unat (dblocks (din y))" using W(3) l j(1) by simp
  have n: "unat j + (unat endpos div 4096 - unat j) = unat endpos div 4096" using j(2) by simp
  obtain ret k s' z where k: "io_tail True t y buf (pos + m) j (of_nat (unat endpos div 4096 - unat j)) endpos alen =
        kret (ret, alen + of_nat k, buf, s', z)" "wrote t y (4096 * unat j) (sub buf (pos + m) k) s' z"
      "ret = 0 \<and> k = unat endpos - 4096 * unat j \<or>
       ret = - E_NO_MEM \<and> k < unat endpos - 4096 * unat j \<and> \<not> room t (din y) ((unat endpos + 4095) div 4096)"
    using tail_write [OF W(1,2) i n e pm] by blast
  have "k \<le> unat endpos - 4096 * unat j" using k(3) by auto
  then have "sub buf pos m @ sub buf (pos + m) k = sub buf pos (m + k)" using pm by (intro sub_append) linarith
  then have "wrote s sin a (sub buf pos (m + k)) s' z" using wrote_trans [OF w, of "sub buf (pos + m) k"] k(2) l j(1) by simp
  moreover have "\<not> room s (din sin) ((unat endpos + 4095) div 4096)" if "\<not> room t (din y) ((unat endpos + 4095) div 4096)"
    using that room_modified w by (auto simp: wrote_def)
  moreover have "unat endpos - 4096 * unat j = unat endpos - a - m" using j(1) by simp
  ultimately show ?thesis using k(1,3) le j(1) by (intro exI [of _ ret] exI [of _ k] exI [of _ s'] exI [of _ z]) auto
qed

text \<open>The transfer of a range that starts inside of the file.\<close>

definition transferred :: "sfs_fs \<Rightarrow> sfs_inode \<Rightarrow> bytes \<Rightarrow> nat \<Rightarrow> u32 \<Rightarrow> u32 \<Rightarrow> int \<Rightarrow> u32 \<Rightarrow> sfs_fs \<Rightarrow> sfs_inode \<Rightarrow> bool" where
  "transferred s sin buf pos offset endpos ret alen s' sin' \<longleftrightarrow>
     wrote s sin (unat offset) (sub buf pos (unat alen)) s' sin' \<and>
     (ret = 0 \<and> alen = endpos - offset \<or>
      ret = - E_NO_MEM \<and> alen < endpos - offset \<and> \<not> room s (din sin) ((unat endpos + 4095) div 4096))"

lemma transfer_aligned:
  assumes ok: "fs_ok s" and m: "map_ok s (din sin)" and r: "offset \<le> endpos" "unat endpos \<le> 4243456"
    and st: "unat offset \<le> 4096 * unat (dblocks (din sin))" and pos: "pos + unat (endpos - offset) \<le> length buf"
    and a: "offset mod 4096 = 0"
  shows "\<exists>ret alen s' sin'. io_transfer True s sin buf pos offset endpos = kret (ret, alen, buf, s', sin') \<and>
    transferred s sin buf pos offset endpos ret alen s' sin'"
proof -
  let ?i = "offset div 4096" and ?n = "unat endpos div 4096 - unat offset div 4096"
  have "unat offset mod 4096 = 0" using a unat_mod [of offset 4096] by simp
  then have i: "4096 * unat ?i = unat offset" using mult_div_mod_eq [of 4096 "unat offset"] by (simp add: unat_div)
  have d: "unat (endpos - offset) = unat endpos - unat offset" using r(1) by (simp add: unat_sub_if' word_le_nat_alt)
  have le: "unat offset \<le> unat endpos" using r(1) by (simp add: word_le_nat_alt)
  have n: "endpos div 4096 - offset div 4096 = of_nat ?n"
    using div_le_mono [OF le, of 4096] by (simp add: of_nat_diff div_4096)
  have e: "unat ?i + ?n = unat endpos div 4096" using div_le_mono [OF le, of 4096] by (simp add: unat_div)
  have b: "unat ?i \<le> unat (dblocks (din sin))" using i st by simp
  obtain ret k s' sin' where k: "io_tail True s sin buf pos ?i (of_nat ?n) endpos 0 = kret (ret, 0 + of_nat k, buf, s', sin')"
    "wrote s sin (4096 * unat ?i) (sub buf pos k) s' sin'"
    "ret = 0 \<and> k = unat endpos - 4096 * unat ?i \<or>
     ret = - E_NO_MEM \<and> k < unat endpos - 4096 * unat ?i \<and> \<not> room s (din sin) ((unat endpos + 4095) div 4096)"
    using tail_write [OF ok m b e r(2), of pos buf 0] pos i d by auto
  have "k \<le> unat endpos - unat offset" using k(3) i by auto
  then have u: "unat (of_nat k :: u32) = k" using r(2) by (intro unat_nat) simp
  have "transferred s sin buf pos offset endpos ret (of_nat k) s' sin'"
    using k(2,3) i u d by (auto simp: transferred_def word_less_nat_alt word_unat_eq_iff)
  then show ?thesis using k(1) n a by (auto simp: io_transfer_def Let_def)
qed

lemma first_part:
  fixes offset endpos len :: u32
  assumes "offset < endpos" and "unat endpos \<le> 4243456" and "offset mod 4096 \<noteq> 0"
    and "len = (if endpos div 4096 - offset div 4096 \<noteq> 0 then 4096 - offset mod 4096 else endpos - offset)"
  shows "0 < unat len" "unat (offset mod 4096) + unat len \<le> 4096" "unat offset + unat len \<le> unat endpos"
    "4096 * unat (offset div 4096) + unat (offset mod 4096) = unat offset" "unat (offset div 4096) < 1036"
    "endpos div 4096 - offset div 4096 = 0 \<Longrightarrow> len = endpos - offset"
    "endpos div 4096 - offset div 4096 \<noteq> 0 \<Longrightarrow> unat offset + unat len = 4096 * unat (offset div 4096 + 1)"
    "endpos div 4096 - offset div 4096 \<noteq> 0 \<Longrightarrow> unat (offset div 4096 + 1) = unat (offset div 4096) + 1"
    "endpos div 4096 - offset div 4096 \<noteq> 0 \<Longrightarrow> unat (offset div 4096 + 1) \<le> unat endpos div 4096"
proof -
  let ?q = "unat offset div 4096" and ?r = "unat offset mod 4096" and ?Q = "unat endpos div 4096" and ?R = "unat endpos mod 4096"
  have w: "unat (offset div 4096) = ?q" "unat (endpos div 4096) = ?Q" "unat (offset mod 4096) = ?r" by (simp_all add: unat_div unat_mod)
  have o: "unat offset = 4096 * ?q + ?r" "?r < 4096" "unat endpos = 4096 * ?Q + ?R" "?R < 4096" by simp_all
  have r0: "0 < ?r" using assms(3) w(3) by (metis gr0I unat_0 word_unat_eq_iff)
  have lt: "unat offset < unat endpos" using assms(1) by (simp add: word_less_nat_alt)
  have qQ: "?q \<le> ?Q" using div_le_mono [of "unat offset" "unat endpos" 4096] lt by simp
  have z: "endpos div 4096 - offset div 4096 = 0 \<longleftrightarrow> ?q = ?Q"
    unfolding right_minus_eq unfolding word_unat_eq_iff w by auto
  have l1: "unat (endpos - offset) = unat endpos - unat offset" using lt by (simp add: unat_sub_if')
  have l2: "unat (4096 - offset mod 4096) = 4096 - ?r" using w(3) o(2) by (simp add: unat_sub_if')
  have ll: "unat len = (if ?q = ?Q then unat endpos - unat offset else 4096 - ?r)" using assms(4) z l1 l2 by simp
  have q: "?q < 1036" using o(1) lt assms(2) by linarith
  have s: "unat (offset div 4096 + 1) = ?q + 1" using w(1) q unat_inc [of "offset div 4096" 1036] by (simp add: word_less_nat_alt)
  show "4096 * unat (offset div 4096) + unat (offset mod 4096) = unat offset" "unat (offset div 4096) < 1036" using w q by simp_all
  show "0 < unat len" using ll lt o(2) by simp
  have "unat endpos - unat offset + ?r \<le> 4096" if "?q = ?Q" using o that by linarith
  then show "unat (offset mod 4096) + unat len \<le> 4096" using ll o(2) w(3) by (simp split: if_splits)
  have "unat offset + (4096 - ?r) \<le> unat endpos" if "?q \<noteq> ?Q"
  proof -
    have "?q + 1 \<le> ?Q" using that qQ by simp
    then show ?thesis using o by linarith
  qed
  then show "unat offset + unat len \<le> unat endpos" using ll lt by auto
  show "len = endpos - offset" if "endpos div 4096 - offset div 4096 = 0" using assms(4) that by simp
  show "unat (offset div 4096 + 1) = unat (offset div 4096) + 1" using s w by simp
  show "unat (offset div 4096 + 1) \<le> ?Q" if "endpos div 4096 - offset div 4096 \<noteq> 0" using that z s qQ by simp
  show "unat offset + unat len = 4096 * unat (offset div 4096 + 1)" if "endpos div 4096 - offset div 4096 \<noteq> 0"
  proof -
    have "x = 4096 * q + r \<Longrightarrow> r < 4096 \<Longrightarrow> x + (4096 - r) = 4096 * (q + 1)" for x q r :: nat by simp
    from this [OF o(1,2)] have "unat offset + (4096 - ?r) = 4096 * (?q + 1)" .
    then show ?thesis unfolding s ll using that z by presburger
  qed
qed

lemma transfer_unaligned:
  assumes ok: "fs_ok s" and m: "map_ok s (din sin)" and r: "offset < endpos" "unat endpos \<le> 4243456"
    and st: "unat offset \<le> 4096 * unat (dblocks (din sin))" and pos: "pos + unat (endpos - offset) \<le> length buf"
    and a: "offset mod 4096 \<noteq> 0"
  shows "\<exists>ret alen s' sin'. io_transfer True s sin buf pos offset endpos = kret (ret, alen, buf, s', sin') \<and>
    transferred s sin buf pos offset endpos ret alen s' sin'"
proof -
  let ?i = "offset div 4096" and ?o = "offset mod 4096" and ?n = "endpos div 4096 - offset div 4096"
  define len where "len = (if ?n \<noteq> 0 then 4096 - ?o else endpos - offset)"
  note F = first_part [OF r a len_def]
  have d: "unat (endpos - offset) = unat endpos - unat offset" using r(1) by (simp add: unat_sub_if' word_less_nat_alt)
  have st': "unat ?i \<le> unat (dblocks (din sin))" "4096 * unat ?i + unat ?o \<le> 4096 * unat (dblocks (din sin))" using st F(4) by simp_all
  have o: "unat ?o < 4096" by (simp add: unat_mod)
  have pl: "pos + unat len \<le> length buf" using pos d F(3) by linarith
  obtain ret t y where p: "io_part True s sin buf pos ?i len ?o = kret (ret, buf, t, y)"
    "ret = 0 \<and> wrote s sin (unat offset) (sub buf pos (unat len)) t y \<or>
     ret = - E_NO_MEM \<and> wrote s sin (unat offset) [] t y \<and> \<not> room s (din sin) (unat ?i + 1)"
    using part_write [OF ok m st'(1) F(5) o F(1,2) pl st'(2)] unfolding F(4) by blast
  show ?thesis
  proof (cases "ret = 0")
    case False
    have "unat ?i + 1 \<le> (unat endpos + 4095) div 4096" using F(1,3,4) by linarith
    then have "\<not> room s (din sin) ((unat endpos + 4095) div 4096)" using p(2) False room_mono by blast
    moreover have "0 < endpos - offset" using r(1) d by (simp add: word_less_nat_alt)
    ultimately have "transferred s sin buf pos offset endpos ret 0 t y" using p(2) False by (simp add: transferred_def sub_def)
    then show ?thesis using p(1) a False by (auto simp: io_transfer_def Let_def len_def)
  next
    case True
    then have w: "wrote s sin (unat offset) (sub buf pos (unat len)) t y" using p(2) by simp
    show ?thesis
    proof (cases "?n = 0")
      case n: True
      have "transferred s sin buf pos offset endpos 0 len t y" using w F(6) [OF n] by (simp add: transferred_def)
      then show ?thesis using p(1) a True n by (auto simp: io_transfer_def Let_def len_def)
    next
      case n: False
      note N = F(7-9) [OF n]
      let ?k = "unat endpos div 4096 - unat (?i + 1)"
      have k: "?n - 1 = of_nat ?k" using N(3) by (simp add: of_nat_diff div_4096)
      have q: "pos + (unat endpos - unat offset) \<le> length buf" using pos d by simp
      obtain r' c s' z where c: "io_tail True t y buf (pos + unat len) (?i + 1) (of_nat ?k) endpos len = kret (r', len + of_nat c, buf, s', z)"
          "wrote s sin (unat offset) (sub buf pos (unat len + c)) s' z"
          "r' = 0 \<and> unat len + c = unat endpos - unat offset \<or>
           r' = - E_NO_MEM \<and> unat len + c < unat endpos - unat offset \<and> \<not> room s (din sin) ((unat endpos + 4095) div 4096)"
        using tail_after [OF w N(1,3) r(2) q] by blast
      have "unat len + c \<le> unat endpos - unat offset" using c(3) by auto
      then have "unat (len + of_nat c) = unat len + c" using r(2) by (simp add: unat_word_ariths unat_nat)
      then have "transferred s sin buf pos offset endpos r' (len + of_nat c) s' z"
        using c(2,3) d by (auto simp: transferred_def word_less_nat_alt word_unat_eq_iff)
      then show ?thesis using p(1) a True n c(1) k by (auto simp: io_transfer_def Let_def len_def)
    qed
  qed
qed

section \<open>Reading\<close>

definition fdata :: "sfs_fs \<Rightarrow> sfs_disk_inode \<Rightarrow> nat \<Rightarrow> nat \<Rightarrow> bytes" where
  "fdata s x off n = map (fbyte s x) [off..<off + n]"

lemma fdata_simps [simp]: "length (fdata s x off n) = n" "fdata s x off 0 = []"
  by (simp_all add: fdata_def)

lemma fdata_append: "fdata s x off m @ fdata s x (off + m) n = fdata s x off (m + n)"
  using upt_add_eq_append [of off "off + m" n] by (simp add: fdata_def add.assoc)

lemma fdata_block: "off + n \<le> 4096 \<Longrightarrow> sub (blk (dev s) (fblk s x k)) off n = fdata s x (4096 * k + off) n"
  by (rule nth_equalityI) (auto simp: fdata_def fbyte_def add.assoc)

lemma same_blocks:
  assumes "fs_ok s" and "map_ok s x" and "writes s s' Map.empty"
  shows "fs_ok s'" "map_ok s' x" "fblk s' x = fblk s x" "fdata s' x = fdata s x"
proof -
  have c: "changed s s' (free s) {}" using writes_changed [OF assms(1,3)] by simp
  have "free s \<inter> blocks_of s x = {}" using usedD [OF map_okD(3) [OF assms(2)]] by blast
  then show "fs_ok s'" "map_ok s' x" and f: "fblk s' x = fblk s x"
    using map_ok_changed [OF assms(2) c] changedD(1) [OF c] by auto
  show "fdata s' x = fdata s x"
    using writesD(7) [OF assms(3)] f by (intro ext) (simp add: fdata_def fbyte_def)
qed

lemma read_step:
  assumes ok: "fs_ok s" and m: "map_ok s (din sin)" and i: "unat i < unat (dblocks (din sin))" and r: "off + n \<le> 4096"
    and op: "\<And>t b. fs_ok t \<Longrightarrow> in_use t (unat b) \<Longrightarrow>
      \<exists>u. op t b = kret (0, paste buf pos (sub (blk (dev t) (unat b)) off n), u) \<and> writes t u Map.empty"
  shows "\<exists>b t u. sfs_bmap_load_nolock s sin i = kret (0, b, t, sin) \<and>
    op t b = kret (0, paste buf pos (fdata s (din sin) (4096 * unat i + off) n), u) \<and> writes s u Map.empty"
proof -
  obtain b t where b: "sfs_bmap_load_nolock s sin i = kret (0, b, t, sin)" "unat b = fblk s (din sin) (unat i)" "writes s t Map.empty"
    using load_existing [OF ok m i] by blast
  note T = same_blocks [OF ok m b(3)]
  have "in_use t (unat b)" using usedD [OF map_okD(8) [OF T(2) i]] b(2) T(3) by simp
  then obtain u where u: "op t b = kret (0, paste buf pos (sub (blk (dev t) (unat b)) off n), u)" "writes t u Map.empty"
    using op [OF T(1)] by blast
  have "sub (blk (dev t) (unat b)) off n = fdata s (din sin) (4096 * unat i + off) n"
    using fdata_block [OF r, of t "din sin" "unat i"] T(3,4) b(2) by simp
  then show ?thesis using b(1) u writes_trans [OF b(3) u(2)] by auto
qed

lemma part_read:
  assumes ok: "fs_ok s" and m: "map_ok s (din sin)" and i: "unat i < unat (dblocks (din sin))"
    and r: "unat off < 4096" "unat off + unat len \<le> 4096" and pos: "pos + unat len \<le> length buf"
  shows "\<exists>s'. io_part False s sin buf pos i len off =
      kret (0, paste buf pos (fdata s (din sin) (4096 * unat i + unat off) (unat len)), s', sin) \<and> writes s s' Map.empty"
proof -
  have op: "\<exists>u. sfs_rbuf t buf pos len b off = kret (0, paste buf pos (sub (blk (dev t) (unat b)) (unat off) (unat len)), u) \<and>
      writes t u Map.empty" if "fs_ok t" "in_use t (unat b)" for t b
    using sfs_rbuf_ok [of t b off len pos buf] fs_okD [OF that(1)] in_use_word [OF that(2)] r pos by blast
  from read_step [where op = "\<lambda>t b. sfs_rbuf t buf pos len b off", OF ok m i r(2) op]
  show ?thesis by (auto simp: io_part_def io_buf_op_def)
qed

lemma blocks_read:
  assumes "fs_ok s" and "map_ok s (din sin)" and "unat i + n \<le> unat (dblocks (din sin))" and "pos + 4096 * n \<le> length buf"
  shows "\<exists>s'. io_blocks False s sin buf pos i (of_nat n) alen =
      kret (0, alen + 4096 * of_nat n, pos + 4096 * n, i + of_nat n, paste buf pos (fdata s (din sin) (4096 * unat i) (4096 * n)), s', sin) \<and>
    writes s s' Map.empty"
  using assms
proof (induction n arbitrary: s buf pos i alen)
  case 0
  then show ?case using writes_refl [OF fs_okD(1) [OF 0(1)]] by (subst io_blocks.simps) simp
next
  case (Suc n)
  have d: "unat (dblocks (din sin)) \<le> 1036" using map_okD(2) [OF Suc.prems(2)] .
  have n: "(of_nat (Suc n) :: u32) \<noteq> 0" "(of_nat (Suc n) :: u32) - 1 = of_nat n"
  proof -
    have "unat (of_nat (Suc n) :: u32) = Suc n" using Suc.prems(3) d by (intro unat_nat) simp
    then show "(of_nat (Suc n) :: u32) \<noteq> 0" by (metis nat.distinct(1) unat_0)
  qed simp
  have op: "\<exists>u. sfs_rblock t buf pos b 1 = kret (0, paste buf pos (sub (blk (dev t) (unat b)) 0 4096), u) \<and> writes t u Map.empty"
    if "fs_ok t" "in_use t (unat b)" for t b
    using rblock_one [of t b pos buf] fs_okD [OF that(1)] in_use_word [OF that(2)] Suc.prems(4) sub_all [of "blk (dev t) (unat b)"] by simp
  have i: "unat i < unat (dblocks (din sin))" using Suc.prems(3) by simp
  obtain b t u where l: "sfs_bmap_load_nolock s sin i = kret (0, b, t, sin)"
      "sfs_rblock t buf pos b 1 = kret (0, paste buf pos (fdata s (din sin) (4096 * unat i + 0) 4096), u)" "writes s u Map.empty"
    using read_step [where op = "\<lambda>t b. sfs_rblock t buf pos b 1" and off = 0 and n = 4096, OF Suc.prems(1,2) i _ op] by auto
  let ?buf = "paste buf pos (fdata s (din sin) (4096 * unat i) 4096)"
  note U = same_blocks [OF Suc.prems(1,2) l(3)]
  have i1: "unat (i + 1) = unat i + 1" using i d unat_inc [of i 1036] by (simp add: word_less_nat_alt)
  obtain s' where s': "io_blocks False u sin ?buf (pos + 4096) (i + 1) (of_nat n) (alen + 4096) =
      kret (0, alen + 4096 + 4096 * of_nat n, pos + 4096 + 4096 * n, i + 1 + of_nat n,
        paste ?buf (pos + 4096) (fdata s (din sin) (4096 * unat (i + 1)) (4096 * n)), s', sin)" "writes u s' Map.empty"
    using Suc.IH [OF U(1,2), of "i + 1" "pos + 4096" ?buf "alen + 4096"] Suc.prems(3,4) i1 U(4) by auto
  have "paste ?buf (pos + 4096) (fdata s (din sin) (4096 * unat (i + 1)) (4096 * n)) =
      paste buf pos (fdata s (din sin) (4096 * unat i) (4096 * Suc n))"
    using paste_append [of pos "fdata s (din sin) (4096 * unat i) 4096" "fdata s (din sin) (4096 * unat i + 4096) (4096 * n)" buf]
      fdata_append [of s "din sin" "4096 * unat i" 4096 "4096 * n"] Suc.prems(4) i1 by (simp add: add.commute)
  then show ?case using l n s'(1) writes_trans [OF l(3) s'(2)]
    by (subst io_blocks.simps) (auto simp: io_block_op_def algebra_simps)
qed

lemma tail_read:
  assumes ok: "fs_ok s" and m: "map_ok s (din sin)" and i: "unat endpos \<le> 4096 * unat (dblocks (din sin))"
    and e: "unat i + n = unat endpos div 4096" "pos + (unat endpos - 4096 * unat i) \<le> length buf"
  shows "\<exists>s'. io_tail False s sin buf pos i (of_nat n) endpos alen =
      kret (0, alen + of_nat (unat endpos - 4096 * unat i), paste buf pos (fdata s (din sin) (4096 * unat i) (unat endpos - 4096 * unat i)), s', sin) \<and>
    writes s s' Map.empty"
proof -
  let ?len = "endpos mod 4096"
  note E = end_of_blocks [OF e(1)]
  have len: "unat ?len = unat endpos mod 4096" by (simp add: unat_mod)
  have ne: "unat endpos - 4096 * unat i = 4096 * n + unat ?len" using E len by linarith
  have p: "unat i + n \<le> unat (dblocks (din sin))" "pos + 4096 * n \<le> length buf" using e(2) ne i E by linarith+
  obtain t where t: "io_blocks False s sin buf pos i (of_nat n) alen =
      kret (0, alen + 4096 * of_nat n, pos + 4096 * n, i + of_nat n, paste buf pos (fdata s (din sin) (4096 * unat i) (4096 * n)), t, sin)"
      "writes s t Map.empty"
    using blocks_read [OF ok m p] by blast
  show ?thesis
  proof (cases "?len = 0")
    case True
    then show ?thesis using t ne by (auto simp: io_tail_def)
  next
    case False
    let ?buf = "paste buf pos (fdata s (din sin) (4096 * unat i) (4096 * n))"
    note T = same_blocks [OF ok m t(2)]
    have L: "0 < unat endpos mod 4096" using False len by (metis gr0I unat_0 word_unat_eq_iff)
    have d: "unat (dblocks (din sin)) \<le> 1036" using map_okD(2) [OF m] .
    have j: "unat (i + of_nat n) = unat i + n" using p(1) d by (simp add: unat_word_ariths unat_nat)
    have lt: "unat (i + of_nat n) < unat (dblocks (din sin))" using i E L j by linarith
    have q: "pos + 4096 * n + unat ?len \<le> length ?buf" using e(2) ne p(2) by simp
    obtain s' where s': "io_part False t sin ?buf (pos + 4096 * n) (i + of_nat n) ?len 0 =
        kret (0, paste ?buf (pos + 4096 * n) (fdata s (din sin) (4096 * unat i + 4096 * n) (unat ?len)), s', sin)" "writes t s' Map.empty"
      using part_read [OF T(1,2) lt _ _ q, of 0] len T(4) j by auto
    have "paste ?buf (pos + 4096 * n) (fdata s (din sin) (4096 * unat i + 4096 * n) (unat ?len)) =
        paste buf pos (fdata s (din sin) (4096 * unat i) (4096 * n + unat ?len))"
      using paste_append [of pos "fdata s (din sin) (4096 * unat i) (4096 * n)" "fdata s (din sin) (4096 * unat i + 4096 * n) (unat ?len)" buf]
        fdata_append [of s "din sin" "4096 * unat i" "4096 * n" "unat ?len"] e(2) ne by simp
    then show ?thesis using t(1) False s'(1) writes_trans [OF t(2) s'(2)] unfolding ne by (auto simp: io_tail_def Let_def)
  qed
qed

lemma transfer_read:
  assumes ok: "fs_ok s" and m: "map_ok s (din sin)" and r: "offset < endpos" "unat endpos \<le> 4096 * unat (dblocks (din sin))"
    and pos: "pos + unat (endpos - offset) \<le> length buf"
  shows "\<exists>s'. io_transfer False s sin buf pos offset endpos =
      kret (0, endpos - offset, paste buf pos (fdata s (din sin) (unat offset) (unat (endpos - offset))), s', sin) \<and> writes s s' Map.empty"
proof -
  let ?i = "offset div 4096" and ?o = "offset mod 4096" and ?n = "endpos div 4096 - offset div 4096"
  have d: "unat (endpos - offset) = unat endpos - unat offset" "unat offset < unat endpos"
    using r(1) by (simp_all add: unat_sub_if' word_less_nat_alt)
  have D: "unat endpos \<le> 4243456" using map_okD(2) [OF m] r(2) by linarith
  show ?thesis
  proof (cases "?o = 0")
    case True
    let ?k = "unat endpos div 4096 - unat offset div 4096"
    have "unat offset mod 4096 = 0" using True unat_mod [of offset 4096] by simp
    then have i: "4096 * unat ?i = unat offset" using mult_div_mod_eq [of 4096 "unat offset"] by (simp add: unat_div)
    have le: "unat offset div 4096 \<le> unat endpos div 4096" using d(2) by (intro div_le_mono) simp
    have n: "?n = of_nat ?k" using le by (simp add: of_nat_diff div_4096)
    have e: "unat ?i + ?k = unat endpos div 4096" using le by (simp add: unat_div)
    have q: "pos + (unat endpos - 4096 * unat ?i) \<le> length buf" using pos d i by simp
    have "(of_nat (unat endpos - unat offset) :: u32) = endpos - offset" using d by (metis of_nat_unat ucast_id)
    then show ?thesis using tail_read [OF ok m r(2) e q, of 0] True n i d by (auto simp: io_transfer_def Let_def)
  next
    case a: False
    define len where "len = (if ?n \<noteq> 0 then 4096 - ?o else endpos - offset)"
    note F = first_part [OF r(1) D a len_def]
    have o: "unat ?o < 4096" by (simp add: unat_mod)
    have pl: "pos + unat len \<le> length buf" using pos d F(3) by linarith
    have i: "unat ?i < unat (dblocks (din sin))" using r(2) F(1,3,4) by linarith
    let ?buf = "paste buf pos (fdata s (din sin) (unat offset) (unat len))"
    obtain t where t: "io_part False s sin buf pos ?i len ?o = kret (0, ?buf, t, sin)" "writes s t Map.empty"
      using part_read [OF ok m i o F(2) pl] unfolding F(4) by blast
    show ?thesis
    proof (cases "?n = 0")
      case True
      then show ?thesis using t F(6) a by (auto simp: io_transfer_def Let_def len_def)
    next
      case n: False
      note N = F(7-9) [OF n]
      note T = same_blocks [OF ok m t(2)]
      let ?k = "unat endpos div 4096 - unat (?i + 1)" and ?c = "unat endpos - 4096 * unat (?i + 1)"
      have k: "?n - 1 = of_nat ?k" using N(3) by (simp add: of_nat_diff div_4096)
      have e: "unat (?i + 1) + ?k = unat endpos div 4096" using N(3) by simp
      have q: "pos + unat len + ?c \<le> length ?buf" using pos d N(1) F(3) pl by simp
      obtain s' where s': "io_tail False t sin ?buf (pos + unat len) (?i + 1) (of_nat ?k) endpos len =
          kret (0, len + of_nat ?c, paste ?buf (pos + unat len) (fdata s (din sin) (4096 * unat (?i + 1)) ?c), s', sin)" "writes t s' Map.empty"
        using tail_read [OF T(1,2) r(2) e q] T(4) by auto
      have c: "unat (endpos - offset) = unat len + ?c" using d N(1) F(3) by linarith
      have "len + of_nat ?c = (of_nat (unat len + ?c) :: u32)" by simp
      then have l: "len + of_nat ?c = endpos - offset" using c by (metis of_nat_unat ucast_id)
      have "paste ?buf (pos + unat len) (fdata s (din sin) (4096 * unat (?i + 1)) ?c) =
          paste buf pos (fdata s (din sin) (unat offset) (unat (endpos - offset)))"
        using paste_append [of pos "fdata s (din sin) (unat offset) (unat len)" "fdata s (din sin) (unat offset + unat len) ?c" buf]
          fdata_append [of s "din sin" "unat offset" "unat len" ?c] pos N(1) unfolding c by simp
      then show ?thesis using t(1) a n s'(1) k l writes_trans [OF t(2) s'(2)] by (auto simp: io_transfer_def Let_def len_def)
    qed
  qed
qed

section \<open>Files\<close>

definition file_ok :: "sfs_fs \<Rightarrow> sfs_disk_inode \<Rightarrow> bool" where
  "file_ok s x \<longleftrightarrow> map_ok s x \<and> dtype x = SFS_TYPE_FILE \<and> unat (dblocks x) = (unat (dsize x) + 4095) div 4096"

definition content :: "sfs_fs \<Rightarrow> sfs_disk_inode \<Rightarrow> bytes" where
  "content s x = fdata s x 0 (unat (dsize x))"

lemma file_okD:
  assumes "file_ok s x"
  shows "map_ok s x" "dtype x \<noteq> SFS_TYPE_DIR" "unat (dsize x) \<le> 4096 * unat (dblocks x)" "unat (dsize x) \<le> 4243456"
proof -
  show "map_ok s x" "dtype x \<noteq> SFS_TYPE_DIR" using assms by (simp_all add: file_ok_def)
  have "unat (dsize x) \<le> 4096 * ((unat (dsize x) + 4095) div 4096)" by linarith
  then show "unat (dsize x) \<le> 4096 * unat (dblocks x)" using assms by (simp add: file_ok_def)
  then show "unat (dsize x) \<le> 4243456" using map_okD(2) [OF \<open>map_ok s x\<close>] by linarith
qed

lemma take_drop_content: "off + n \<le> unat (dsize x) \<Longrightarrow> take n (drop off (content s x)) = fdata s x off n"
  by (rule nth_equalityI) (auto simp: content_def fdata_def)

lemma nolock_read:
  assumes ok: "fs_ok s" and f: "file_ok s (din sin)"
    and r: "unat offset + unat alen < 2147483648" "unat offset < 134217728" "pos + unat alen \<le> length buf"
    and n: "n = min (unat alen) (unat (dsize (din sin)) - unat offset)"
  shows "\<exists>s'. sfs_io_nolock s sin buf pos offset alen False =
      kret (0, of_nat n, paste buf pos (take n (drop (unat offset) (content s (din sin)))), s', sin) \<and> writes s s' Map.empty"
proof -
  note F = file_okD [OF f]
  let ?z = "dsize (din sin)"
  have e: "unat (offset + alen) = unat offset + unat alen" using r(1) by (simp add: unat_word_ariths)
  have g: "\<not> (sint offset < 0 \<or> offset \<ge> SFS_MAX_FILE_SIZE \<or> sint offset > sint (offset + alen))"
    using r e by (simp add: sint_unat word_le_nat_alt)
  show ?thesis
  proof (cases "n = 0")
    case True
    then have "offset = offset + alen \<or> ?z \<le> offset" using n e by (auto simp: word_le_nat_alt word_unat_eq_iff min_def split: if_splits)
    then show ?thesis using g True F(2) writes_refl [OF fs_okD(1) [OF ok]] by (auto simp: sfs_io_nolock_def Let_def)
  next
    case False
    then have z: "alen \<noteq> 0" "offset < ?z" using n by (auto simp: word_less_nat_alt)
    define endpos where "endpos = (if offset + alen > ?z then ?z else offset + alen)"
    have u: "unat endpos = unat offset + n"
      using e n z F(4) by (auto simp: endpos_def word_less_nat_alt word_le_nat_alt)
    have lt: "offset < endpos" "unat endpos \<le> 4096 * unat (dblocks (din sin))"
      using u False n F(3) by (auto simp: word_less_nat_alt)
    have un: "unat (of_nat n :: u32) = n" using n r by (intro unat_nat) simp
    have d: "endpos - offset = of_nat n" using u un by (simp add: word_unat_eq_iff unat_sub_if')
    have ep: "(if (if offset + alen > SFS_MAX_FILE_SIZE then SFS_MAX_FILE_SIZE else offset + alen) > ?z then ?z
        else if offset + alen > SFS_MAX_FILE_SIZE then SFS_MAX_FILE_SIZE else offset + alen) = endpos"
      using F(4) by (auto simp: endpos_def word_less_nat_alt word_le_nat_alt)
    have "n \<le> unat alen" using n by simp
    then have q: "pos + unat (endpos - offset) \<le> length buf" using r(3) d un by simp
    obtain s' where s': "io_transfer False s sin buf pos offset endpos =
        kret (0, of_nat n, paste buf pos (fdata s (din sin) (unat offset) n), s', sin)" "writes s s' Map.empty"
      using transfer_read [OF ok F(1) lt q] unfolding d un by blast
    have le: "unat offset + n \<le> unat ?z" using n False by linarith
    then have "take n (drop (unat offset) (content s (din sin))) = fdata s (din sin) (unat offset) n" by (rule take_drop_content)
    moreover have "offset + of_nat n = endpos" using d by (metis add.commute diff_add_cancel)
    then have "\<not> offset + of_nat n > ?z" using le u by (simp add: word_less_nat_alt)
    ultimately show ?thesis using g F(2) z s' ep by (auto simp: sfs_io_nolock_def Let_def simp del: if_split)
  qed
qed

text \<open>What a write of \<open>d\<close> at \<open>off\<close> leaves: the file has the new bytes, every other block in use is untouched.\<close>

definition file_written :: "sfs_fs \<Rightarrow> sfs_disk_inode \<Rightarrow> nat \<Rightarrow> bytes \<Rightarrow> sfs_fs \<Rightarrow> sfs_disk_inode \<Rightarrow> bool" where
  "file_written s x off d s' x' \<longleftrightarrow> fs_ok s' \<and> file_ok s' x' \<and>
     content s' x' = take off (content s x) @ d @ drop (off + length d) (content s x) \<and>
     (\<forall>c. in_use s c \<and> c \<notin> blocks_of s x \<longrightarrow> in_use s' c \<and> c \<notin> blocks_of s' x' \<and> blk (dev s') c = blk (dev s) c)"

definition set_size :: "u32 \<Rightarrow> sfs_inode \<Rightarrow> sfs_inode" where
  "set_size n sin = (if n > dsize (din sin) then (upd_din (\<lambda>d. d\<lparr>dsize := n\<rparr>) sin)\<lparr>dirty := True\<rparr> else sin)"

lemma dsize_cong:
  "fblk s (x\<lparr>dsize := n\<rparr>) k = fblk s x k" "blocks_of s (x\<lparr>dsize := n\<rparr>) = blocks_of s x" "map_ok s (x\<lparr>dsize := n\<rparr>) = map_ok s x"
  "fbyte s (x\<lparr>dsize := n\<rparr>) j = fbyte s x j"
proof -
  have f: "fblk s (x\<lparr>dsize := n\<rparr>) = fblk s x" by (rule ext) (simp add: fblk_def)
  then show "fblk s (x\<lparr>dsize := n\<rparr>) k = fblk s x k" by simp
  show b: "blocks_of s (x\<lparr>dsize := n\<rparr>) = blocks_of s x" by (simp add: blocks_of_def f)
  show "map_ok s (x\<lparr>dsize := n\<rparr>) = map_ok s x" by (simp add: map_ok_def f b)
  show "fbyte s (x\<lparr>dsize := n\<rparr>) j = fbyte s x j" by (simp add: fbyte_def f)
qed

lemma set_size_simps:
  "fblk s (din (set_size n sin)) k = fblk s (din sin) k" "blocks_of s (din (set_size n sin)) = blocks_of s (din sin)"
  "map_ok s (din (set_size n sin)) = map_ok s (din sin)" "fbyte s (din (set_size n sin)) j = fbyte s (din sin) j"
  "dsize (din (set_size n sin)) = max n (dsize (din sin))" "dtype (din (set_size n sin)) = dtype (din sin)"
  "dblocks (din (set_size n sin)) = dblocks (din sin)"
  by (auto simp: set_size_def upd_din_def dsize_cong max_def)

lemma max_ceil: "max (a + 4095 :: nat) (b + 4095) div 4096 = max ((a + 4095) div 4096) ((b + 4095) div 4096)"
  using div_le_mono [of "a + 4095" "b + 4095" 4096] div_le_mono [of "b + 4095" "a + 4095" 4096] by (simp only: max_def) auto

lemma wrote_file:
  assumes f: "file_ok s (din sin)" and w: "wrote s sin (unat offset) d s' sin'"
    and r: "offset \<le> dsize (din sin)" "unat n = unat offset + length d"
  shows "file_written s (din sin) (unat offset) d s' (din (set_size n sin'))"
proof -
  let ?x = "din sin" and ?y = "din (set_size n sin')"
  note W = wrote_facts [OF w]
  have m: "modified s ?x s' (din sin') (dmap (unat offset) d)" using w by (simp add: wrote_def)
  note M = modifiedD [OF m]
  have le: "unat offset \<le> unat (dsize ?x)" using r(1) by (simp add: word_le_nat_alt)
  have z: "unat (dsize ?y) = max (unat offset + length d) (unat (dsize ?x))"
    using r(2) M(6) by (auto simp: set_size_simps max_def word_le_nat_alt)
  have "unat (dblocks ?y) = max ((unat (dsize ?x) + 4095) div 4096) ((unat offset + length d + 4095) div 4096)"
    using w f unfolding wrote_def file_ok_def set_size_simps by metis
  then have "unat (dblocks ?y) = (unat (dsize ?y) + 4095) div 4096" unfolding z max_add_distrib_left max_ceil by (simp only: max.commute)
  then have fo: "file_ok s' ?y" using f W(2) M(7) by (simp add: file_ok_def set_size_simps)
  have "content s' ?y = take (unat offset) (content s ?x) @ d @ drop (unat offset + length d) (content s ?x)"
  proof (rule nth_equalityI)
    show "length (content s' ?y) = length (take (unat offset) (content s ?x) @ d @ drop (unat offset + length d) (content s ?x))"
      using z le by (simp add: content_def max_def)
    show "content s' ?y ! j = (take (unat offset) (content s ?x) @ d @ drop (unat offset + length d) (content s ?x)) ! j"
      if "j < length (content s' ?y)" for j
    proof -
      have j: "j < unat (dsize ?y)" using that by (simp add: content_def)
      then have "j < 4096 * unat (dblocks (din sin'))" using file_okD(3) [OF fo] by (simp add: set_size_simps)
      note B = M(5) [OF this]
      have "j < 4096 * unat (dblocks ?x)" if "dmap (unat offset) d j = None"
        using that j z le file_okD(3) [OF f] by (auto simp: dmap_def split: if_splits)
      with B have "fbyte s' ?y j = (if unat offset \<le> j \<and> j < unat offset + length d then d ! (j - unat offset) else fbyte s ?x j)"
        by (auto simp: set_size_simps dmap_def)
      then show ?thesis using j z le by (auto simp: content_def fdata_def nth_append)
    qed
  qed
  then show ?thesis using fo W(1) M(9) by (auto simp: file_written_def set_size_simps)
qed

lemma nolock_write:
  assumes ok: "fs_ok s" and f: "file_ok s (din sin)"
    and r: "offset \<le> dsize (din sin)" "unat offset + unat alen \<le> 4243456" "pos + unat alen \<le> length buf"
  shows "\<exists>ret n s' sin'. sfs_io_nolock s sin buf pos offset alen True = kret (ret, n, buf, s', sin') \<and> n \<le> alen \<and>
    file_written s (din sin) (unat offset) (sub buf pos (unat n)) s' (din sin') \<and> same_sin sin' sin \<and>
    (ret = 0 \<and> n = alen \<or>
     ret = - E_NO_MEM \<and> n < alen \<and> \<not> room s (din sin) ((unat offset + unat alen + 4095) div 4096))"
proof -
  note F = file_okD [OF f]
  have e: "unat (offset + alen) = unat offset + unat alen" using r(2) by (simp add: unat_word_ariths)
  have g: "\<not> (sint offset < 0 \<or> offset \<ge> SFS_MAX_FILE_SIZE \<or> sint offset > sint (offset + alen))" "\<not> offset + alen > SFS_MAX_FILE_SIZE"
    using r e by (simp_all add: sint_unat word_le_nat_alt word_less_nat_alt)
  have st: "unat offset \<le> 4096 * unat (dblocks (din sin))" using r(1) F(3) by (simp add: word_le_nat_alt)
  show ?thesis
  proof (cases "alen = 0")
    case True
    have "file_written s (din sin) (unat offset) [] s (din sin)" using ok f by (simp add: file_written_def)
    then show ?thesis using g True F(2)
      by (intro exI [of _ "0 :: int"] exI [of _ "0 :: u32"] exI [of _ s] exI [of _ sin]) (auto simp: sfs_io_nolock_def Let_def sub_def)
  next
    case False
    have lt: "offset < offset + alen" using e False by (auto simp: word_less_nat_alt unat_gt_0)
    have q: "unat (offset + alen) \<le> 4243456" "pos + unat (offset + alen - offset) \<le> length buf" using e r by simp_all
    obtain ret n s' sin' where t: "io_transfer True s sin buf pos offset (offset + alen) = kret (ret, n, buf, s', sin')"
        "transferred s sin buf pos offset (offset + alen) ret n s' sin'"
      using transfer_aligned [OF ok F(1) less_imp_le [OF lt] q(1) st q(2)] transfer_unaligned [OF ok F(1) lt q(1) st q(2)] by blast
    have T: "wrote s sin (unat offset) (sub buf pos (unat n)) s' sin'" "n \<le> alen"
      "ret = 0 \<and> n = alen \<or> ret = - E_NO_MEM \<and> n < alen \<and> \<not> room s (din sin) ((unat offset + unat alen + 4095) div 4096)"
      using t(2) e by (auto simp: transferred_def)
    have "unat n \<le> unat alen" using T(2) by (simp add: word_le_nat_alt)
    then have "unat (offset + n) = unat offset + length (sub buf pos (unat n))" using r by (simp add: unat_word_ariths)
    note R = wrote_file [OF f T(1) r(1) this]
    have "sfs_io_nolock s sin buf pos offset alen True = kret (ret, n, buf, s', set_size (offset + n) sin')"
      using g F(2) False t(1) by (auto simp: sfs_io_nolock_def Let_def set_size_def)
    moreover have "same_sin (set_size (offset + n) sin') sin"
      using T(1) by (auto simp: wrote_def same_sin_def set_size_def upd_din_def)
    ultimately show ?thesis using R T by blast
  qed
qed

section \<open>The read and write operations of a file\<close>


text \<open>C12. Reading a file through \<^const>\<open>sfs_io\<close>: the buffer receives the bytes of the file from the
  offset, up to the size of the file, the position in the buffer advances by that many bytes, and neither a block of the
  disk nor the inode changes.\<close>

theorem sfs_read_correct:
  assumes "fs_ok s" and "file_ok s (din sin)" and "0 < sin_sem sin" and "unat (io_offset iob) + unat (io_resid iob) < 2147483648"
    and "unat (io_offset iob) < 134217728" and "io_base iob + unat (io_resid iob) \<le> length (io_buf iob)"
    and "n = min (unat (io_resid iob)) (unat (dsize (din sin)) - unat (io_offset iob))"
  shows "\<exists>s'. sfs_io s sin iob False =
      kret (0, iob\<lparr>io_buf := paste (io_buf iob) (io_base iob) (take n (drop (unat (io_offset iob)) (content s (din sin)))),
        io_base := io_base iob + n, io_offset := io_offset iob + of_nat n, io_resid := io_resid iob - of_nat n\<rparr>, s', sin) \<and>
    writes s s' Map.empty"
proof -
  obtain v where v: "sin_sem sin = Suc v" using assms(3) gr0_conv_Suc by auto
  let ?sin = "sin\<lparr>sin_sem := v\<rparr>" and ?buf = "paste (io_buf iob) (io_base iob) (take n (drop (unat (io_offset iob)) (content s (din sin))))"
  have f: "file_ok s (din ?sin)" "n = min (unat (io_resid iob)) (unat (dsize (din ?sin)) - unat (io_offset iob))"
    using assms(2,7) by simp_all
  obtain s' where r: "sfs_io_nolock s ?sin (io_buf iob) (io_base iob) (io_offset iob) (io_resid iob) False =
      kret (0, of_nat n, ?buf, s', ?sin)" "writes s s' Map.empty"
    using nolock_read [OF assms(1) f(1) assms(4-6) f(2)] by auto
  have n: "n \<le> unat (io_resid iob)" using assms(7) by simp
  then have u: "unat (of_nat n :: u32) = n" using assms(4) by (intro unat_nat) simp
  then have "(of_nat n :: u32) \<le> io_resid iob" using n by (simp add: word_le_nat_alt)
  moreover have "n = 0" if "(of_nat n :: u32) = 0" using u unfolding that by simp
  ultimately show ?thesis using r v u
    by (intro exI [of _ s'], cases "n = 0") (auto simp: sfs_io_def lock_sin_def sem_down_def Let_def unlock_sin_def iobuf_skip_def)
qed

text \<open>A file system of five blocks with one file, of five bytes in block 3, and block 4 free.\<close>

definition demo_fs :: sfs_fs where
  "demo_fs = \<lparr>super = \<lparr>smagic = 0, sblocks = 5, unused_blocks = 1, sinfo = replicate 32 0\<rparr>,
     dev = \<lparr>dbytes = of_nat, dfail = (\<lambda>_. 0), dvalid = True, d_blocks = 5, disk0_buffer = replicate 16384 0, disk0_sem = 1\<rparr>,
     freemap = \<lparr>nbits = 32768, nwords = 1024, bmap = 16 # replicate 1023 0\<rparr>, super_dirty = False,
     sfs_buffer = replicate 4096 0, fs_sem = 1, io_sem = 1\<rparr>"

definition demo_sin :: sfs_inode where
  "demo_sin = \<lparr>din = \<lparr>dsize = 5, dtype = SFS_TYPE_FILE, nlinks = 1, dblocks = 1, direct = 3 # replicate 11 0, indirect = 0\<rparr>,
     ino = 1, dirty = False, reclaim_count = 0, sin_sem = 1\<rparr>"

definition demo_iob :: iobuf where
  "demo_iob = \<lparr>io_buf = [70, 71, 72, 73], io_base = 0, io_offset = 3, io_len = 4, io_resid = 4\<rparr>"

lemma demo_free: "free demo_fs = {4}"
proof -
  have "i \<in> free demo_fs \<longleftrightarrow> i = 4" for i
  proof (cases "i < 32")
    case True
    have "bit (push_bit 4 (1 :: u32)) i \<longleftrightarrow> i = 4" 
      unfolding bit_push_bit_iff using True by (auto simp: bit_1_iff)
    then have "bit (16 :: u32) i \<longleftrightarrow> i = 4" by simp
    then show ?thesis using True by (auto simp: free_bits_def demo_fs_def)
  next
    case False
    then have "\<exists>k. i div 32 = Suc k" by (cases "i div 32") auto
    then show ?thesis using False by (auto simp: free_bits_def demo_fs_def)
  qed
  then show ?thesis by auto
qed

lemma demo_nfm: "nfm demo_fs = 1"
  by (simp add: nfm_def sfs_freemap_blocks_def ROUNDUP_DIV_def demo_fs_def)

lemma demo_fs_ok: "fs_ok demo_fs"
proof -
  have "bitmap_ok (freemap demo_fs)" using demo_free by (simp add: bitmap_ok_def demo_fs_def)
  moreover have "io_ok demo_fs" by (simp add: io_ok_def disk_ok_def drive_ok_def demo_fs_def)
  ultimately show ?thesis using demo_free demo_nfm by (simp add: fs_ok_def) (simp add: demo_fs_def)
qed

lemma demo_file_ok: "file_ok demo_fs (din demo_sin)"
proof -
  have z: "direct (din demo_sin) = 3 # replicate 11 0" "dblocks (din demo_sin) = 1" "indirect (din demo_sin) = 0" "dsize (din demo_sin) = 5"
      "dtype (din demo_sin) = SFS_TYPE_FILE"
    by (simp_all add: demo_sin_def)
  have f: "fblk demo_fs (din demo_sin) 0 = 3" "k \<noteq> 0 \<Longrightarrow> k < 1036 \<Longrightarrow> fblk demo_fs (din demo_sin) k = 0" for k
    by (cases k; simp add: fblk_def z)+
  have b: "blocks_of demo_fs (din demo_sin) = {3}" using f(1) by (auto simp: blocks_of_def z)
  have "used demo_fs 3" using demo_free demo_nfm by (simp add: used_def in_use_def isdata_def) (simp add: demo_fs_def)
  then have "map_ok demo_fs (din demo_sin)" using b f(2) by (simp add: map_ok_def z inj_on_def)
  then show ?thesis by (simp add: file_ok_def z)
qed

lemma demo_content: "content demo_fs (din demo_sin) = [0, 1, 2, 3, 4]"
  by (simp add: content_def fdata_def fbyte_def fblk_def demo_fs_def demo_sin_def upt_rec)


theorem sfs_read_correct_witness:
  "\<exists>iob s'. sfs_io demo_fs demo_sin demo_iob False = kret (0, iob, s', demo_sin) \<and> io_buf iob = [3, 4, 72, 73] \<and> io_resid iob = 2"
proof -
  have z: "sin_sem demo_sin = 1" "dsize (din demo_sin) = 5" "io_offset demo_iob = 3" "io_resid demo_iob = 4" "io_base demo_iob = 0"
      "io_buf demo_iob = [70, 71, 72, 73]"
    by (simp_all add: demo_sin_def demo_iob_def)
  have p: "0 < sin_sem demo_sin" "unat (io_offset demo_iob) + unat (io_resid demo_iob) < 2147483648" "unat (io_offset demo_iob) < 134217728"
      "io_base demo_iob + unat (io_resid demo_iob) \<le> length (io_buf demo_iob)"
      "2 = min (unat (io_resid demo_iob)) (unat (dsize (din demo_sin)) - unat (io_offset demo_iob))"
    by (simp_all add: z)
  have b: "paste (io_buf demo_iob) (io_base demo_iob) (take 2 (drop (unat (io_offset demo_iob)) (content demo_fs (din demo_sin)))) = [3, 4, 72, 73]"
      "io_resid demo_iob - of_nat 2 = 2"
    by (simp_all add: z demo_content paste_def)
  obtain s' iob where "sfs_io demo_fs demo_sin demo_iob False = kret (0, iob, s', demo_sin)" "io_buf iob = [3, 4, 72, 73]" "io_resid iob = 2"
    using sfs_read_correct [of demo_fs demo_sin demo_iob 2, OF demo_fs_ok demo_file_ok p, unfolded b] by auto
  then show ?thesis by blast
qed

end
