(* ===== verification/Sync.thy ===== *)
theory Sync
  imports Sched
begin

text \<open>
  Wait queues, semaphores and monitors: \<^verbatim>\<open>kern/sync/wait.c\<close>, \<^verbatim>\<open>sem.c\<close>, \<^verbatim>\<open>monitor.c\<close>.  A
  wait queue is a circular list with a header \<open>QHead q\<close>; a semaphore and its queue share the
  number \<open>q\<close>.  Interrupts are off in each block between \<^verbatim>\<open>local_intr_save\<close> and
  \<^verbatim>\<open>local_intr_restore\<close>, so the blocks are the atomic steps; what other processes do while a
  process sleeps in \<^verbatim>\<open>schedule\<close> is the argument \<open>resched\<close> of the operations that sleep.
\<close>

section \<open>Wait queues\<close>

record wait_t =
  wproc :: "nat option"
  wakeup_flags :: u32
  wait_queue :: "nat option"

datatype wnode = QHead nat | WLink nat

record sync =
  sc :: sched
  waits :: "nat \<Rightarrow> wait_t"
  wlinks :: "wnode links"
  sem_value :: "nat \<Rightarrow> int"

definition upd_wait :: "nat \<Rightarrow> (wait_t \<Rightarrow> wait_t) \<Rightarrow> sync \<Rightarrow> sync" where
  "upd_wait w f s = s\<lparr>waits := (waits s)(w := f (waits s w))\<rparr>"

definition wait_init :: "nat \<Rightarrow> nat option \<Rightarrow> sync \<Rightarrow> sync" where
  "wait_init w proc s =
     (let s = upd_wait w (\<lambda>r. r\<lparr>wproc := proc, wakeup_flags := WT_INTERRUPTED\<rparr>) s
      in s\<lparr>wlinks := list_init (wlinks s) (WLink w)\<rparr>)"

definition wait_queue_init :: "nat \<Rightarrow> sync \<Rightarrow> sync" where
  "wait_queue_init q s = s\<lparr>wlinks := list_init (wlinks s) (QHead q)\<rparr>"

definition wait_queue_add :: "nat \<Rightarrow> nat \<Rightarrow> sync \<Rightarrow> sync prog" where
  "wait_queue_add q w s =
     kassert (list_empty (wlinks s) (WLink w) \<and> wproc (waits s w) \<noteq> None)
       (let s = upd_wait w (\<lambda>r. r\<lparr>wait_queue := Some q\<rparr>) s
        in kret (s\<lparr>wlinks := list_add_before (wlinks s) (QHead q) (WLink w)\<rparr>))"

text \<open>The assertion shared by the operations on a queued element.\<close>

definition wait_queued :: "nat \<Rightarrow> nat \<Rightarrow> sync \<Rightarrow> bool" where
  "wait_queued q w s \<longleftrightarrow> \<not> list_empty (wlinks s) (WLink w) \<and> wait_queue (waits s w) = Some q"

definition wait_queue_del :: "nat \<Rightarrow> nat \<Rightarrow> sync \<Rightarrow> sync prog" where
  "wait_queue_del q w s =
     kassert (wait_queued q w s) (kret (s\<lparr>wlinks := list_del_init (wlinks s) (WLink w)\<rparr>))"

definition le2wait :: "nat \<Rightarrow> wnode \<Rightarrow> nat option" where
  "le2wait q le = (case le of WLink w \<Rightarrow> Some w | QHead _ \<Rightarrow> None)"

definition wait_queue_next :: "nat \<Rightarrow> nat \<Rightarrow> sync \<Rightarrow> nat option prog" where
  "wait_queue_next q w s =
     kassert (wait_queued q w s) (kret (le2wait q (list_next (wlinks s) (WLink w))))"

definition wait_queue_prev :: "nat \<Rightarrow> nat \<Rightarrow> sync \<Rightarrow> nat option prog" where
  "wait_queue_prev q w s =
     kassert (wait_queued q w s) (kret (le2wait q (list_prev (wlinks s) (WLink w))))"

definition wait_queue_first :: "nat \<Rightarrow> sync \<Rightarrow> nat option" where
  "wait_queue_first q s = le2wait q (list_next (wlinks s) (QHead q))"

definition wait_queue_last :: "nat \<Rightarrow> sync \<Rightarrow> nat option" where
  "wait_queue_last q s = le2wait q (list_prev (wlinks s) (QHead q))"

definition wait_queue_empty :: "nat \<Rightarrow> sync \<Rightarrow> bool" where
  "wait_queue_empty q s \<longleftrightarrow> list_empty (wlinks s) (QHead q)"

definition wait_in_queue :: "nat \<Rightarrow> sync \<Rightarrow> bool" where
  "wait_in_queue w s \<longleftrightarrow> \<not> list_empty (wlinks s) (WLink w)"

definition wakeup_wait ::
  "sched_class \<Rightarrow> (sched \<Rightarrow> nat option) \<Rightarrow> nat \<Rightarrow> nat \<Rightarrow> u32 \<Rightarrow> bool \<Rightarrow> sync \<Rightarrow> sync prog" where
  "wakeup_wait cls km q w flags del s =
     kbind (if del then wait_queue_del q w s else kret s) (\<lambda>s.
       let s = upd_wait w (\<lambda>r. r\<lparr>wakeup_flags := flags\<rparr>) s in
       deref (wproc (waits s w)) (\<lambda>p.
         kbind (wakeup_proc cls km (sc s) p) (\<lambda>c. kret (s\<lparr>sc := c\<rparr>))))"

definition wakeup_first ::
  "sched_class \<Rightarrow> (sched \<Rightarrow> nat option) \<Rightarrow> nat \<Rightarrow> u32 \<Rightarrow> bool \<Rightarrow> sync \<Rightarrow> sync prog" where
  "wakeup_first cls km q flags del s =
     (case wait_queue_first q s of
        None \<Rightarrow> kret s
      | Some w \<Rightarrow> wakeup_wait cls km q w flags del s)"

text \<open>The two \<^verbatim>\<open>do\<close> loops of \<^verbatim>\<open>wakeup_queue\<close>.\<close>

partial_function (option) wakeup_del_loop ::
  "sched_class \<Rightarrow> (sched \<Rightarrow> nat option) \<Rightarrow> nat \<Rightarrow> u32 \<Rightarrow> nat \<Rightarrow> sync \<Rightarrow> sync prog" where
  "wakeup_del_loop cls km q flags w s =
     kbind (wakeup_wait cls km q w flags True s) (\<lambda>s.
       case wait_queue_first q s of
         None \<Rightarrow> kret s
       | Some w \<Rightarrow> wakeup_del_loop cls km q flags w s)"

partial_function (option) wakeup_keep_loop ::
  "sched_class \<Rightarrow> (sched \<Rightarrow> nat option) \<Rightarrow> nat \<Rightarrow> u32 \<Rightarrow> nat \<Rightarrow> sync \<Rightarrow> sync prog" where
  "wakeup_keep_loop cls km q flags w s =
     kbind (wakeup_wait cls km q w flags False s) (\<lambda>s.
       kbind (wait_queue_next q w s) (\<lambda>r.
         case r of
           None \<Rightarrow> kret s
         | Some w \<Rightarrow> wakeup_keep_loop cls km q flags w s))"

definition wakeup_queue ::
  "sched_class \<Rightarrow> (sched \<Rightarrow> nat option) \<Rightarrow> nat \<Rightarrow> u32 \<Rightarrow> bool \<Rightarrow> sync \<Rightarrow> sync prog" where
  "wakeup_queue cls km q flags del s =
     (case wait_queue_first q s of
        None \<Rightarrow> kret s
      | Some w \<Rightarrow> if del then wakeup_del_loop cls km q flags w s
                  else wakeup_keep_loop cls km q flags w s)"

definition wait_current_set :: "nat \<Rightarrow> nat \<Rightarrow> u32 \<Rightarrow> sync \<Rightarrow> sync prog" where
  "wait_current_set q w ws s =
     (let s = wait_init w (Some (current (sc s))) s;
          s = s\<lparr>sc := upd_proc (current (sc s)) (\<lambda>p. p\<lparr>state := PROC_SLEEPING, wait_state := ws\<rparr>) (sc s)\<rparr>
      in wait_queue_add q w s)"

definition wait_current_del :: "nat \<Rightarrow> nat \<Rightarrow> sync \<Rightarrow> sync prog" where
  "wait_current_del q w s = (if wait_in_queue w s then wait_queue_del q w s else kret s)"

section \<open>Semaphores\<close>

definition upd_sem :: "nat \<Rightarrow> (int \<Rightarrow> int) \<Rightarrow> sync \<Rightarrow> sync" where
  "upd_sem q f s = s\<lparr>sem_value := (sem_value s)(q := f (sem_value s q))\<rparr>"

definition sem_init :: "nat \<Rightarrow> int \<Rightarrow> sync \<Rightarrow> sync" where
  "sem_init q v s = wait_queue_init q (upd_sem q (\<lambda>_. v) s)"

definition sem_up :: "sched_class \<Rightarrow> (sched \<Rightarrow> nat option) \<Rightarrow> nat \<Rightarrow> u32 \<Rightarrow> sync \<Rightarrow> sync prog" where
  "sem_up cls km q ws s =
     (case wait_queue_first q s of
        None \<Rightarrow> kret (upd_sem q (\<lambda>v. v + 1) s)
      | Some w \<Rightarrow>
          deref (wproc (waits s w)) (\<lambda>p.
            kassert (wait_state (ptab (sc s) p) = ws) (wakeup_wait cls km q w ws True s)))"

text \<open>\<^verbatim>\<open>__down\<close> up to \<^verbatim>\<open>schedule\<close>: \<open>True\<close> when the semaphore was taken at once.\<close>

definition down_enter :: "nat \<Rightarrow> nat \<Rightarrow> u32 \<Rightarrow> sync \<Rightarrow> (bool \<times> sync) prog" where
  "down_enter q w ws s =
     (if sem_value s q > 0 then kret (True, upd_sem q (\<lambda>v. v - 1) s)
      else kbind (wait_current_set q w ws s) (\<lambda>s. kret (False, s)))"

text \<open>\<^verbatim>\<open>__down\<close> after \<^verbatim>\<open>schedule\<close> has returned.\<close>

definition down_leave :: "nat \<Rightarrow> nat \<Rightarrow> u32 \<Rightarrow> sync \<Rightarrow> (u32 \<times> sync) prog" where
  "down_leave q w ws s =
     kbind (wait_current_del q w s) (\<lambda>s.
       kret (if wakeup_flags (waits s w) \<noteq> ws then wakeup_flags (waits s w) else 0, s))"

definition sem_down ::
  "(sync \<Rightarrow> sync prog) \<Rightarrow> nat \<Rightarrow> nat \<Rightarrow> u32 \<Rightarrow> sync \<Rightarrow> (u32 \<times> sync) prog" where
  "sem_down resched q w ws s =
     kbind (down_enter q w ws s) (\<lambda>(taken, s).
       if taken then kret (0, s) else kbind (resched s) (down_leave q w ws))"

definition up :: "sched_class \<Rightarrow> (sched \<Rightarrow> nat option) \<Rightarrow> nat \<Rightarrow> sync \<Rightarrow> sync prog" where
  "up cls km q = sem_up cls km q WT_KSEM"

definition down :: "(sync \<Rightarrow> sync prog) \<Rightarrow> nat \<Rightarrow> nat \<Rightarrow> sync \<Rightarrow> sync prog" where
  "down resched q w s =
     kbind (sem_down resched q w WT_KSEM s) (\<lambda>(flags, s). kassert (flags = 0) (kret s))"

definition try_down :: "nat \<Rightarrow> sync \<Rightarrow> bool \<times> sync" where
  "try_down q s =
     (if sem_value s q > 0 then (True, upd_sem q (\<lambda>v. v - 1) s) else (False, s))"

section \<open>Monitors\<close>

record condvar =
  cv_sem :: nat
  cv_count :: int

record monitor =
  mutex :: nat
  next_sem :: nat
  next_count :: int
  cv :: "condvar list"

text \<open>The semaphores of the monitor are numbered by the caller; \<open>km_cv\<close> is the answer of
  \<^verbatim>\<open>kmalloc\<close> for the array of condition variables.\<close>

definition monitor_init ::
  "bool \<Rightarrow> nat \<Rightarrow> nat \<Rightarrow> nat list \<Rightarrow> sync \<Rightarrow> (monitor \<times> sync) prog" where
  "monitor_init km_cv m nx cvs s =
     kassert (length cvs > 0)
       (let s = sem_init m 1 s; s = sem_init nx 0 s in
        kassert km_cv
          (kret (\<lparr>mutex = m, next_sem = nx, next_count = 0,
                  cv = map (\<lambda>q. \<lparr>cv_sem = q, cv_count = 0\<rparr>) cvs\<rparr>,
                 fold (\<lambda>q. sem_init q 0) cvs s)))"

definition upd_cv :: "nat \<Rightarrow> (int \<Rightarrow> int) \<Rightarrow> monitor \<Rightarrow> monitor" where
  "upd_cv i f m = m\<lparr>cv := (cv m)[i := (cv m ! i)\<lparr>cv_count := f (cv_count (cv m ! i))\<rparr>]\<rparr>"

definition cond_signal ::
  "sched_class \<Rightarrow> (sched \<Rightarrow> nat option) \<Rightarrow> (monitor \<Rightarrow> sync \<Rightarrow> (monitor \<times> sync) prog) \<Rightarrow>
   nat \<Rightarrow> nat \<Rightarrow> monitor \<times> sync \<Rightarrow> (monitor \<times> sync) prog" where
  "cond_signal cls km resched i w ms =
     (case ms of (m, s) \<Rightarrow>
       if cv_count (cv m ! i) > 0
       then let m = m\<lparr>next_count := next_count m + 1\<rparr> in
            kbind (up cls km (cv_sem (cv m ! i)) s) (\<lambda>s.
            kbind (down_enter (next_sem m) w WT_KSEM s) (\<lambda>(taken, s).
            kbind (if taken then kret (m, s)
                   else kbind (resched m s) (\<lambda>(m, s).
                          kbind (down_leave (next_sem m) w WT_KSEM s) (\<lambda>(flags, s).
                            kassert (flags = 0) (kret (m, s))))) (\<lambda>(m, s).
            kret (m\<lparr>next_count := next_count m - 1\<rparr>, s))))
       else kret (m, s))"

definition cond_wait ::
  "sched_class \<Rightarrow> (sched \<Rightarrow> nat option) \<Rightarrow> (monitor \<Rightarrow> sync \<Rightarrow> (monitor \<times> sync) prog) \<Rightarrow>
   nat \<Rightarrow> nat \<Rightarrow> monitor \<times> sync \<Rightarrow> (monitor \<times> sync) prog" where
  "cond_wait cls km resched i w ms =
     (case ms of (m, s) \<Rightarrow>
       let m = upd_cv i (\<lambda>n. n + 1) m in
       kbind (if next_count m > 0 then up cls km (next_sem m) s else up cls km (mutex m) s) (\<lambda>s.
       kbind (down_enter (cv_sem (cv m ! i)) w WT_KSEM s) (\<lambda>(taken, s).
       kbind (if taken then kret (m, s)
              else kbind (resched m s) (\<lambda>(m, s).
                     kbind (down_leave (cv_sem (cv m ! i)) w WT_KSEM s) (\<lambda>(flags, s).
                       kassert (flags = 0) (kret (m, s))))) (\<lambda>(m, s).
       kret (upd_cv i (\<lambda>n. n - 1) m, s)))))"

section \<open>A wait queue as a list\<close>

definition wq_ok :: "sync \<Rightarrow> nat \<Rightarrow> nat list \<Rightarrow> bool" where
  "wq_ok s q ws \<longleftrightarrow>
     dlist (wlinks s) (QHead q) (map WLink ws) \<and> (\<forall>w \<in> set ws. wait_queue (waits s w) = Some q)"

lemma upd_wait_simps [simp]:
  "waits (upd_wait w f s) = (waits s)(w := f (waits s w))" "wlinks (upd_wait w f s) = wlinks s"
  "sc (upd_wait w f s) = sc s" "sem_value (upd_wait w f s) = sem_value s"
  by (simp_all add: upd_wait_def)

lemma upd_sem_simps [simp]:
  "waits (upd_sem q f s) = waits s" "wlinks (upd_sem q f s) = wlinks s" "sc (upd_sem q f s) = sc s"
  "sem_value (upd_sem q f s) = (sem_value s)(q := f (sem_value s q))"
  by (simp_all add: upd_sem_def)

lemma wq_distinct: "wq_ok s q ws \<Longrightarrow> distinct ws"
  by (auto simp: wq_ok_def dlist_def distinct_map)

lemma wait_queue_first_ok: "wq_ok s q ws \<Longrightarrow> wait_queue_first q s = hd_opt ws"
  using dlist_hd_next [of "wlinks s" "QHead q" "map WLink ws"]
  by (cases ws) (auto simp: wq_ok_def wait_queue_first_def le2wait_def list_next_def)

lemma wq_queued:
  assumes "wq_ok s q (as @ w # bs)"
  shows "wait_queued q w s"
proof -
  have "lnext (wlinks s) (WLink w) = (case map WLink bs of [] \<Rightarrow> QHead q | z # _ \<Rightarrow> z)"
    using dlist_next [of "wlinks s" "QHead q" "map WLink as" "WLink w" "map WLink bs"] assms
    by (simp add: wq_ok_def)
  moreover have "w \<notin> set bs" using wq_distinct [OF assms] by simp
  ultimately have "lnext (wlinks s) (WLink w) \<noteq> WLink w" by (cases bs) auto
  then show ?thesis using assms by (auto simp: wait_queued_def list_empty_def wq_ok_def)
qed

lemma wait_queue_del_ok:
  assumes "wq_ok s q (as @ w # bs)"
  shows "wait_queue_del q w s = kret (s\<lparr>wlinks := list_del_init (wlinks s) (WLink w)\<rparr>)"
    and "wq_ok (s\<lparr>wlinks := list_del_init (wlinks s) (WLink w)\<rparr>) q (as @ bs)"
  using assms wq_queued [OF assms]
    dlist_del_init [of "wlinks s" "QHead q" "map WLink as" "WLink w" "map WLink bs"]
  by (auto simp: wait_queue_del_def wq_ok_def)

lemma wait_current_set_ok:
  assumes ok: "wq_ok s q ws" and w: "w \<notin> set ws"
  shows "\<exists>s'. wait_current_set q w st s = kret s' \<and> wq_ok s' q (ws @ [w]) \<and>
    sc s' = upd_proc (current (sc s)) (\<lambda>p. p\<lparr>state := PROC_SLEEPING, wait_state := st\<rparr>) (sc s) \<and>
    waits s' = (waits s)(w := \<lparr>wproc = Some (current (sc s)), wakeup_flags = WT_INTERRUPTED,
      wait_queue = Some q\<rparr>) \<and> sem_value s' = sem_value s \<and>
    wlinks s' = list_add_before (list_init (wlinks s) (WLink w)) (QHead q) (WLink w)"
proof -
  let ?l = "list_init (wlinks s) (WLink w)"
  have "dlist ?l (QHead q) (map WLink ws)"
    using ok w by (intro dlist_init_other) (auto simp: wq_ok_def)
  then have "dlist (list_add_before ?l (QHead q) (WLink w)) (QHead q) (map WLink (ws @ [w]))"
    using dlist_add_before_head [of ?l "QHead q" "map WLink ws" "WLink w"] w by auto
  moreover have "list_empty ?l (WLink w)" by (simp add: clist_defs)
  ultimately show ?thesis
    using ok w by (auto simp: wait_current_set_def wait_init_def wait_queue_add_def wq_ok_def Let_def)
qed

section \<open>Semaphores and wait queues of a whole system\<close>

text \<open>\<open>S\<close> are the semaphores and \<open>W\<close> the other wait queues of the kernel; a process uses a semaphore as a lock.
  \<open>H q\<close> are the processes that have got semaphore \<open>q\<close> and not yet called \<^verbatim>\<open>up\<close>; \<open>P p = Some (q, w)\<close> says that process \<open>p\<close> has
  put its element \<open>w\<close> into queue \<open>q\<close> and has not yet taken note of being woken (it is inside \<^verbatim>\<open>schedule\<close>, which \<^verbatim>\<open>down\<close>
  or another waiting function called); \<open>ws q\<close> is the contents of queue \<open>q\<close>.\<close>

type_synonym holders = "nat \<Rightarrow> nat set"
type_synonym pending = "nat \<Rightarrow> (nat \<times> nat) option"

definition asleep :: "sync \<Rightarrow> nat \<Rightarrow> bool" where
  "asleep s p \<longleftrightarrow> state (ptab (sc s) p) = PROC_SLEEPING \<and> wait_state (ptab (sc s) p) = WT_KSEM"

definition sync_wait :: "nat set \<Rightarrow> nat set \<Rightarrow> sync \<Rightarrow> holders \<Rightarrow> pending \<Rightarrow> (nat \<Rightarrow> nat list) \<Rightarrow> bool" where
  "sync_wait S W s H P ws \<longleftrightarrow>
     (\<forall>q \<in> S \<union> W. wq_ok s q (ws q) \<and> (\<forall>w \<in> set (ws q). \<exists>p. P p = Some (q, w))) \<and>
     (\<forall>p q w. P p = Some (q, w) \<longrightarrow> q \<in> S \<union> W \<and> wproc (waits s w) = Some p \<and>
       (w \<in> set (ws q) \<or> list_empty (wlinks s) (WLink w)) \<and>
       (q \<in> S \<longrightarrow> (if w \<in> set (ws q) then asleep s p \<and> p \<notin> H q else wakeup_flags (waits s w) = WT_KSEM \<and> p \<in> H q)))"

definition sync_count :: "nat set \<Rightarrow> (nat \<Rightarrow> nat) \<Rightarrow> sync \<Rightarrow> holders \<Rightarrow> (nat \<Rightarrow> nat list) \<Rightarrow> bool" where
  "sync_count S n s H ws \<longleftrightarrow> (\<forall>q \<in> S. finite (H q) \<and> 0 \<le> sem_value s q \<and> (0 < sem_value s q \<longrightarrow> ws q = []) \<and>
     sem_value s q + int (card (H q)) = int (n q))"

text \<open>The atomic steps of the system: the two halves of \<^verbatim>\<open>down\<close>, \<^verbatim>\<open>try_down\<close> and \<^verbatim>\<open>up\<close> on any of the semaphores, waiting on and
  waking any of the other queues, and everything that touches neither queues nor semaphores.  A process that runs code
  of its own is current and runnable; while it waits in one queue it does not enter another; its wait element is on its own
  stack, so that no other waiting process uses it; and nothing else wakes the sleepers of the semaphores, whose
  wait state is not interruptible.\<close>

definition runs_free :: "sync \<Rightarrow> pending \<Rightarrow> nat \<Rightarrow> bool" where
  "runs_free s P p \<longleftrightarrow> p = current (sc s) \<and> state (ptab (sc s) p) = PROC_RUNNABLE \<and> P p = None"

definition runs_woken :: "sync \<Rightarrow> pending \<Rightarrow> nat \<Rightarrow> nat \<Rightarrow> nat \<Rightarrow> bool" where
  "runs_woken s P p q w \<longleftrightarrow> p = current (sc s) \<and> state (ptab (sc s) p) = PROC_RUNNABLE \<and> P p = Some (q, w)"

definition own_element :: "pending \<Rightarrow> nat \<Rightarrow> bool" where
  "own_element P w \<longleftrightarrow> (\<forall>p q. P p \<noteq> Some (q, w))"

inductive sync_step ::
  "sched_class \<Rightarrow> (sched \<Rightarrow> nat option) \<Rightarrow> nat set \<Rightarrow> nat set \<Rightarrow>
   sync \<times> holders \<times> pending \<Rightarrow> sync \<times> holders \<times> pending \<Rightarrow> bool"
  for cls :: sched_class and km :: "sched \<Rightarrow> nat option" and S W :: "nat set"
where
  enter: "q \<in> S \<Longrightarrow> runs_free s P p \<Longrightarrow> p \<notin> H q \<Longrightarrow> down_enter q w WT_KSEM s = kret (True, s') \<Longrightarrow>
    sync_step cls km S W (s, H, P) (s', H(q := insert p (H q)), P)"
| block: "q \<in> S \<Longrightarrow> runs_free s P p \<Longrightarrow> p \<notin> H q \<Longrightarrow> own_element P w \<Longrightarrow> down_enter q w WT_KSEM s = kret (False, s') \<Longrightarrow>
    sync_step cls km S W (s, H, P) (s', H, P(p \<mapsto> (q, w)))"
| return: "q \<in> S \<Longrightarrow> runs_woken s P p q w \<Longrightarrow> down_leave q w WT_KSEM s = kret (flags, s') \<Longrightarrow>
    sync_step cls km S W (s, H, P) (s', H, P(p := None))"
| attempt: "q \<in> S \<Longrightarrow> runs_free s P p \<Longrightarrow> p \<notin> H q \<Longrightarrow> try_down q s = (r, s') \<Longrightarrow>
    sync_step cls km S W (s, H, P) (s', if r then H(q := insert p (H q)) else H, P)"
| leave: "q \<in> S \<Longrightarrow> p \<in> H q \<Longrightarrow> (\<And>w. P p \<noteq> Some (q, w)) \<Longrightarrow> up cls km q s = kret s' \<Longrightarrow>
    sync_step cls km S W (s, H, P)
      (s', H(q := (H q - {p}) \<union> set_option (Option.bind (wait_queue_first q s) (\<lambda>w. wproc (waits s w)))), P)"
| wait: "q \<in> W - S \<Longrightarrow> runs_free s P p \<Longrightarrow> own_element P w \<Longrightarrow> wait_current_set q w st s = kret s' \<Longrightarrow>
    sync_step cls km S W (s, H, P) (s', H, P(p \<mapsto> (q, w)))"
| unwait: "q \<in> W - S \<Longrightarrow> runs_woken s P p q w \<Longrightarrow> wait_current_del q w s = kret s' \<Longrightarrow>
    sync_step cls km S W (s, H, P) (s', H, P(p := None))"
| wake: "q \<in> W - S \<Longrightarrow> wakeup_queue cls km q flags del s = kret s' \<Longrightarrow> sync_step cls km S W (s, H, P) (s', H, P)"
| wake_first: "q \<in> W - S \<Longrightarrow> wakeup_first cls km q flags del s = kret s' \<Longrightarrow> sync_step cls km S W (s, H, P) (s', H, P)"
| other: "waits s' = waits s \<Longrightarrow> wlinks s' = wlinks s \<Longrightarrow> sem_value s' = sem_value s \<Longrightarrow>
    (\<And>p. asleep s p \<Longrightarrow> asleep s' p) \<Longrightarrow> sync_step cls km S W (s, H, P) (s', H, P)"

section \<open>The invariant of the system\<close>

lemma sync_waitD:
  assumes "sync_wait S W s H P ws"
  shows "q \<in> S \<union> W \<Longrightarrow> wq_ok s q (ws q)" "q \<in> S \<union> W \<Longrightarrow> w \<in> set (ws q) \<Longrightarrow> \<exists>p. P p = Some (q, w)"
    "P p = Some (q, w) \<Longrightarrow> q \<in> S \<union> W" "P p = Some (q, w) \<Longrightarrow> wproc (waits s w) = Some p"
    "P p = Some (q, w) \<Longrightarrow> w \<notin> set (ws q) \<Longrightarrow> list_empty (wlinks s) (WLink w)"
    "P p = Some (q, w) \<Longrightarrow> q \<in> S \<Longrightarrow> w \<in> set (ws q) \<Longrightarrow> asleep s p \<and> p \<notin> H q"
    "P p = Some (q, w) \<Longrightarrow> q \<in> S \<Longrightarrow> w \<notin> set (ws q) \<Longrightarrow> wakeup_flags (waits s w) = WT_KSEM \<and> p \<in> H q"
    "P p = Some (q, w) \<Longrightarrow> P p' = Some (q', w) \<Longrightarrow> p' = p \<and> q' = q"
proof -
  note d = assms [unfolded sync_wait_def]
  show "q \<in> S \<union> W \<Longrightarrow> wq_ok s q (ws q)" "q \<in> S \<union> W \<Longrightarrow> w \<in> set (ws q) \<Longrightarrow> \<exists>p. P p = Some (q, w)" using d by blast+
  show "P p = Some (q, w) \<Longrightarrow> q \<in> S \<union> W" "P p = Some (q, w) \<Longrightarrow> wproc (waits s w) = Some p"
    "P p = Some (q, w) \<Longrightarrow> w \<notin> set (ws q) \<Longrightarrow> list_empty (wlinks s) (WLink w)" using d by blast+
  show "P p = Some (q, w) \<Longrightarrow> q \<in> S \<Longrightarrow> w \<in> set (ws q) \<Longrightarrow> asleep s p \<and> p \<notin> H q"
    "P p = Some (q, w) \<Longrightarrow> q \<in> S \<Longrightarrow> w \<notin> set (ws q) \<Longrightarrow> wakeup_flags (waits s w) = WT_KSEM \<and> p \<in> H q" using d by presburger+
  show "P p = Some (q, w) \<Longrightarrow> P p' = Some (q', w) \<Longrightarrow> p' = p \<and> q' = q" using d by (metis option.inject prod.inject)
qed

text \<open>A step that changes the memory of the links only in the ring of one queue and at entries that no waiting process
  uses keeps the other queues.\<close>

lemma other_queue:
  assumes wq: "wq_ok s q xs" and ok: "wq_ok s r ys" and "q \<noteq> r"
    and l: "\<And>z. z \<notin> R \<Longrightarrow> z \<notin> set (QHead q # map WLink xs) \<Longrightarrow> lnext l z = lnext (wlinks s) z \<and> lprev l z = lprev (wlinks s) z"
    and R: "R \<inter> set (QHead r # map WLink ys) = {}"
  shows "dlist l (QHead r) (map WLink ys)"
proof -
  have d: "dlist (wlinks s) (QHead q) (map WLink xs)" "dlist (wlinks s) (QHead r) (map WLink ys)" using wq ok by (simp_all add: wq_ok_def)
  have "QHead r \<notin> set (QHead q # map WLink xs)" using \<open>q \<noteq> r\<close> by auto
  note apart = dlist_disjoint [OF d this]
  show ?thesis by (rule dlist_frame [OF d(2)]) (use l R apart in blast)
qed

lemma wq_ok_cong:
  "wq_ok s q xs \<Longrightarrow> wlinks s' = wlinks s \<Longrightarrow> (\<And>w. w \<in> set xs \<Longrightarrow> wait_queue (waits s' w) = wait_queue (waits s w)) \<Longrightarrow> wq_ok s' q xs"
  by (simp add: wq_ok_def)

lemma wait_queue_next_ok:
  assumes "wq_ok s q (as @ w # bs)"
  shows "wait_queue_next q w s = kret (hd_opt bs)"
  using wq_queued [OF assms] assms
    dlist_next [of "wlinks s" "QHead q" "map WLink as" "WLink w" "map WLink bs"]
  by (cases bs) (auto simp: wait_queue_next_def le2wait_def list_next_def wq_ok_def)

text \<open>A process joins a queue.\<close>

lemma join_wait:
  assumes ok: "sync_wait S W s H P ws" and q: "q \<in> S \<union> W" and free: "runs_free s P p" and own: "own_element P w"
    and sem: "q \<in> S \<Longrightarrow> st = WT_KSEM \<and> p \<notin> H q" and run: "wait_current_set q w st s = kret s'"
  shows "sync_wait S W s' H (P(p \<mapsto> (q, w))) (ws(q := ws q @ [w]))" "sem_value s' = sem_value s"
proof -
  note D = sync_waitD [OF ok]
  have p: "p = current (sc s)" "state (ptab (sc s) p) = PROC_RUNNABLE" "P p = None" using free by (auto simp: runs_free_def)
  have nw: "w \<notin> set (ws r)" if "r \<in> S \<union> W" for r using D(2) [OF that, of w] own by (auto simp: own_element_def)
  let ?l = "list_add_before (list_init (wlinks s) (WLink w)) (QHead q) (WLink w)"
  obtain t where t: "wait_current_set q w st s = kret t" "wq_ok t q (ws q @ [w])" "wlinks t = ?l"
      "sc t = upd_proc p (\<lambda>p. p\<lparr>state := PROC_SLEEPING, wait_state := st\<rparr>) (sc s)"
      "waits t = (waits s)(w := \<lparr>wproc = Some p, wakeup_flags = WT_INTERRUPTED, wait_queue = Some q\<rparr>)" "sem_value t = sem_value s"
    using wait_current_set_ok [OF D(1) [OF q] nw [OF q], of st] unfolding p(1) by blast
  have s': "s' = t" using run t(1) by simp
  show "sem_value s' = sem_value s" using t(6) s' by simp
  have i: "dlist (list_init (wlinks s) (WLink w)) (QHead q) (map WLink (ws q))"
    using D(1) [OF q] nw [OF q] by (intro dlist_init_other) (auto simp: wq_ok_def)
  have l: "lnext ?l z = lnext (wlinks s) z \<and> lprev ?l z = lprev (wlinks s) z"
    if "z \<notin> {WLink w}" "z \<notin> set (QHead q # map WLink (ws q))" for z
    using ring_add [OF i that(2), of "WLink w"] that(1) by (simp add: list_init_def)
  have wq: "wq_ok t r ((ws(q := ws q @ [w])) r)" if r: "r \<in> S \<union> W" for r
  proof (cases "r = q")
    case False
    have "dlist ?l (QHead r) (map WLink (ws r))"
      using other_queue [OF D(1) [OF q] D(1) [OF r] _ l] False nw [OF r] by auto
    then show ?thesis using D(1) [OF r] nw [OF r] False t(3,5) by (auto simp: wq_ok_def)
  qed (use t(2) in simp)
  have old: "r \<in> S \<union> W \<and> v \<noteq> w \<and> wproc (waits t v) = Some x \<and> (v \<in> set (ws r) \<or> list_empty (wlinks t) (WLink v)) \<and>
      (r \<in> S \<longrightarrow> (if v \<in> set (ws r) then asleep t x \<and> x \<notin> H r else wakeup_flags (waits t v) = WT_KSEM \<and> x \<in> H r))"
    if P: "P x = Some (r, v)" for x r v
  proof -
    have v: "v \<noteq> w" "x \<noteq> p" using P own p(3) by (auto simp: own_element_def)
    have "list_empty ?l (WLink v)" if "v \<notin> set (ws r)"
    proof -
      have "v \<notin> set (ws q)" using D(2) [OF q, of v] D(8) [OF P] that by auto
      then show ?thesis using l [of "WLink v"] v(1) D(5) [OF P that] by (auto simp: list_empty_def)
    qed
    moreover have "asleep t x = asleep s x" using v(2) by (simp add: asleep_def t(4))
    ultimately show ?thesis using D(3,4,6,7) [OF P] v(1) by (auto simp: t(3,5))
  qed
  have new: "asleep t p" if "q \<in> S" using sem [OF that] by (simp add: asleep_def t(4))
  show "sync_wait S W s' H (P(p \<mapsto> (q, w))) (ws(q := ws q @ [w]))"
    unfolding sync_wait_def s'
  proof (intro conjI ballI allI impI)
    fix r assume r: "r \<in> S \<union> W"
    then show "wq_ok t r ((ws(q := ws q @ [w])) r)" by (rule wq)
    fix v assume v: "v \<in> set ((ws(q := ws q @ [w])) r)"
    show "\<exists>x. (P(p \<mapsto> (q, w))) x = Some (r, v)"
    proof (cases "r = q \<and> v = w")
      case False
      then obtain x where "P x = Some (r, v)" using D(2) [OF r, of v] v by (auto split: if_splits)
      then show ?thesis using p(3) by (intro exI [of _ x]) auto
    qed auto
  next
    fix x r v assume x: "(P(p \<mapsto> (q, w))) x = Some (r, v)"
    show "r \<in> S \<union> W" "wproc (waits t v) = Some x" "v \<in> set ((ws(q := ws q @ [w])) r) \<or> list_empty (wlinks t) (WLink v)"
      using x old [of x r v] q by (auto simp: t(5) split: if_splits)
    show "if v \<in> set ((ws(q := ws q @ [w])) r) then asleep t x \<and> x \<notin> H r else wakeup_flags (waits t v) = WT_KSEM \<and> x \<in> H r" if "r \<in> S"
      using x old [of x r v] that new sem by (auto split: if_splits)
  qed
qed

text \<open>A process that was woken takes note of it: its element leaves the queue unless it was taken out already.\<close>

lemma leave_wait:
  assumes ok: "sync_wait S W s H P ws" and P: "P p = Some (q, w)" and st: "q \<in> S \<Longrightarrow> w \<notin> set (ws q)"
    and run: "wait_current_del q w s = kret s'"
  shows "sync_wait S W s' H (P(p := None)) (ws(q := remove1 w (ws q)))" "sem_value s' = sem_value s" "waits s' = waits s"
    "w \<notin> set (ws q) \<Longrightarrow> s' = s"
proof -
  note D = sync_waitD [OF ok]
  note q = D(3) [OF P]
  have s': "s' = (if w \<in> set (ws q) then s\<lparr>wlinks := list_del_init (wlinks s) (WLink w)\<rparr> else s)"
  proof (cases "w \<in> set (ws q)")
    case True
    then obtain as bs where ws: "ws q = as @ w # bs" by (meson split_list)
    then have "wait_in_queue w s" using wq_queued [of s q as w bs] D(1) [OF q] by (simp add: wait_queued_def wait_in_queue_def)
    then show ?thesis using run wait_queue_del_ok(1) [of s q as w bs] D(1) [OF q] ws by (simp add: wait_current_del_def)
  next
    case False
    then show ?thesis using run D(5) [OF P] by (simp add: wait_current_del_def wait_in_queue_def)
  qed
  then show "sem_value s' = sem_value s" "waits s' = waits s" "w \<notin> set (ws q) \<Longrightarrow> s' = s" by simp_all
  have sc: "asleep s' x = asleep s x" for x by (simp add: s' asleep_def)
  have dist: "distinct (ws q)" using wq_distinct [OF D(1) [OF q]] .
  have l: "lnext (wlinks s') z = lnext (wlinks s) z \<and> lprev (wlinks s') z = lprev (wlinks s) z"
    if "z \<notin> set (QHead q # map WLink (ws q))" for z
    using ring_del [of "wlinks s" "QHead q" "map WLink (ws q)" "WLink w" z] D(1) [OF q] that by (auto simp: s' wq_ok_def)
  have wq: "wq_ok s' r ((ws(q := remove1 w (ws q))) r)" if r: "r \<in> S \<union> W" for r
  proof (cases "r = q")
    case True
    show ?thesis
    proof (cases "w \<in> set (ws q)")
      case in_q: True
      then obtain as bs where ws: "ws q = as @ w # bs" by (meson split_list)
      then have "remove1 w (ws q) = as @ bs" using dist by (simp add: remove1_append)
      then show ?thesis using wait_queue_del_ok(2) [of s q as w bs] D(1) [OF q] ws True in_q by (simp add: s')
    qed (use True D(1) [OF q] in \<open>simp add: s' remove1_idem\<close>)
  next
    case False
    have "dlist (wlinks s') (QHead r) (map WLink (ws r))"
      using other_queue [OF D(1) [OF q] D(1) [OF r], of "{}" "wlinks s'"] False l by auto
    then show ?thesis using D(1) [OF r] False by (simp add: wq_ok_def s')
  qed
  have mem: "v \<in> set ((ws(q := remove1 w (ws q))) r) \<longleftrightarrow> v \<in> set (ws r)" if "v \<noteq> w" for v r
    using that dist by auto
  have emp: "list_empty (wlinks s') (WLink v)" if x: "P x = Some (r, v)" "v \<notin> set (ws r)" for x r v
  proof -
    have "v \<notin> set (ws q)" using D(2) [OF q, of v] D(8) [OF x(1)] x(2) by auto
    then show ?thesis using l [of "WLink v"] D(5) [OF x] by (auto simp: list_empty_def)
  qed
  show "sync_wait S W s' H (P(p := None)) (ws(q := remove1 w (ws q)))"
    unfolding sync_wait_def
  proof (intro conjI ballI allI impI)
    fix r assume r: "r \<in> S \<union> W"
    then show "wq_ok s' r ((ws(q := remove1 w (ws q))) r)" by (rule wq)
    fix v assume v: "v \<in> set ((ws(q := remove1 w (ws q))) r)"
    have "v \<in> set (ws r)" using v set_remove1_subset [of w "ws q"] by (auto split: if_splits)
    then obtain x where x: "P x = Some (r, v)" using D(2) [OF r] by blast
    moreover have "x \<noteq> p" using v x P dist by (auto split: if_splits)
    ultimately show "\<exists>x. (P(p := None)) x = Some (r, v)" by (intro exI [of _ x]) simp
  next
    fix x r v assume "(P(p := None)) x = Some (r, v)"
    then have x: "x \<noteq> p" "P x = Some (r, v)" by (simp_all split: if_splits)
    then have v: "v \<noteq> w" using D(8) [OF P] by blast
    show "r \<in> S \<union> W" "wproc (waits s' v) = Some x" using D(3,4) [OF x(2)] by (simp_all add: s')
    show "v \<in> set ((ws(q := remove1 w (ws q))) r) \<or> list_empty (wlinks s') (WLink v)" using emp [OF x(2)] mem [OF v] by blast
    show "if v \<in> set ((ws(q := remove1 w (ws q))) r) then asleep s' x \<and> x \<notin> H r
        else wakeup_flags (waits s' v) = WT_KSEM \<and> x \<in> H r" if "r \<in> S"
      unfolding mem [OF v] sc using D(6,7) [OF x(2) that] by (auto simp: s')
  qed
qed

context sched_ops
begin

text \<open>One element of a queue is woken.  Its process becomes a holder when the queue belongs to a semaphore.\<close>

lemma wake_wait:
  assumes ok: "sync_wait S W s H P ws" and q: "q \<in> S \<union> W" and ws: "ws q = as @ w # bs"
    and sem: "q \<in> S \<Longrightarrow> del \<and> flags = WT_KSEM" and run: "wakeup_wait cls km q w flags del s = kret s'"
  shows "\<exists>r. P r = Some (q, w) \<and> wproc (waits s w) = Some r \<and> state (ptab (sc s') r) = PROC_RUNNABLE \<and>
    wakeup_flags (waits s' w) = flags \<and> sem_value s' = sem_value s \<and>
    sync_wait S W s' (if q \<in> S then H(q := insert r (H q)) else H) P (if del then ws(q := as @ bs) else ws)"
proof -
  note D = sync_waitD [OF ok]
  have wq: "wq_ok s q (as @ w # bs)" using D(1) [OF q] ws by simp
  then have dist: "w \<notin> set (as @ bs)" using wq_distinct by fastforce
  obtain r where r: "P r = Some (q, w)" using D(2) [OF q, of w] ws by auto
  let ?l = "if del then list_del_init (wlinks s) (WLink w) else wlinks s"
  obtain c where c: "wakeup_proc cls km (sc s) r = kret c"
      "s' = (upd_wait w (\<lambda>x. x\<lparr>wakeup_flags := flags\<rparr>) (s\<lparr>wlinks := ?l\<rparr>))\<lparr>sc := c\<rparr>"
    using run wait_queue_del_ok(1) [OF wq] D(4) [OF r]
    by (cases del) (auto simp: wakeup_wait_def Let_def kbind_eq_kret)
  note C = wakeup_core [OF c(1)]
  let ?H = "if q \<in> S then H(q := insert r (H q)) else H" and ?ws = "if del then ws(q := as @ bs) else ws"
  have l: "lnext ?l z = lnext (wlinks s) z \<and> lprev ?l z = lprev (wlinks s) z" if "z \<notin> set (QHead q # map WLink (ws q))" for z
    using ring_del [of "wlinks s" "QHead q" "map WLink (ws q)" "WLink w" z] wq that by (auto simp: ws wq_ok_def)
  have "wq_ok s' x (?ws x) \<and> (\<forall>v \<in> set (?ws x). \<exists>p. P p = Some (x, v))" if x: "x \<in> S \<union> W" for x
  proof (cases "x = q")
    case True
    have "wq_ok s' q (?ws q)"
      using wq wait_queue_del_ok(2) [OF wq] by (cases del) (auto simp: c(2) ws wq_ok_def)
    then show ?thesis using True D(2) [OF q] ws by auto
  next
    case False
    have "dlist ?l (QHead x) (map WLink (ws x))"
      using other_queue [OF D(1) [OF q] D(1) [OF x], of "{}" ?l] False l by auto
    then show ?thesis using D(1,2) [OF x] False by (auto simp: wq_ok_def c(2))
  qed
  moreover have "x \<in> S \<union> W \<and> wproc (waits s' v) = Some p \<and> (v \<in> set (?ws x) \<or> list_empty (wlinks s') (WLink v)) \<and>
      (x \<in> S \<longrightarrow> (if v \<in> set (?ws x) then asleep s' p \<and> p \<notin> ?H x else wakeup_flags (waits s' v) = WT_KSEM \<and> p \<in> ?H x))"
    if p: "P p = Some (x, v)" for p x v
  proof (cases "v = w")
    case True
    then have "x = q" "p = r" using D(8) [OF r] p by blast+
    then show ?thesis using True D(4) [OF r] sem q ws dist by (cases del) (auto simp: c(2) clist_defs)
  next
    case False
    then have n: "p \<noteq> r" using r p by auto
    have "asleep s p \<Longrightarrow> asleep s' p" using C(2) [OF n] by (simp add: asleep_def c(2) core_def)
    moreover have "v \<in> set (?ws x) \<longleftrightarrow> v \<in> set (ws x)" using False ws by auto
    moreover have "list_empty (wlinks s') (WLink v)" if "v \<notin> set (ws x)"
    proof -
      have "v \<notin> set (ws q)" using D(2) [OF q, of v] D(8) [OF p] that by auto
      then have "WLink v \<notin> set (QHead q # map WLink (ws q))" by auto
      then show ?thesis using l [of "WLink v"] D(5) [OF p that] by (simp add: list_empty_def c(2))
    qed
    ultimately show ?thesis using D(3,4,6,7) [OF p] n False by (auto simp: c(2))
  qed
  ultimately have "sync_wait S W s' ?H P ?ws" unfolding sync_wait_def by blast
  then show ?thesis using r D(4) [OF r] C(1) by (intro exI [of _ r]) (auto simp: c(2))
qed

lemma wake_loops:
  assumes q: "q \<in> W - S"
  shows "sync_wait S W s H P ws \<Longrightarrow> ws q = w # bs \<Longrightarrow> wakeup_del_loop cls km q flags w s = kret s' \<Longrightarrow>
      \<exists>ws'. sync_wait S W s' H P ws' \<and> sem_value s' = sem_value s \<and> (\<forall>x \<in> S. ws' x = ws x)"
    and "sync_wait S W s H P ws \<Longrightarrow> ws q = as @ w # bs \<Longrightarrow> wakeup_keep_loop cls km q flags w s = kret s' \<Longrightarrow>
      sync_wait S W s' H P ws \<and> sem_value s' = sem_value s"
proof -
  have q': "q \<in> S \<union> W" "q \<notin> S" using q by auto
  show "sync_wait S W s H P ws \<Longrightarrow> ws q = w # bs \<Longrightarrow> wakeup_del_loop cls km q flags w s = kret s' \<Longrightarrow>
      \<exists>ws'. sync_wait S W s' H P ws' \<and> sem_value s' = sem_value s \<and> (\<forall>x \<in> S. ws' x = ws x)"
  proof (induction bs arbitrary: s w ws)
    case Nil
    obtain t where t: "wakeup_wait cls km q w flags True s = kret t"
        "(case wait_queue_first q t of None \<Rightarrow> kret t | Some w \<Rightarrow> wakeup_del_loop cls km q flags w t) = kret s'"
      using Nil(3) by (subst (asm) wakeup_del_loop.simps) (auto simp: kbind_eq_kret)
    have k: "sem_value t = sem_value s" "sync_wait S W t H P (ws(q := []))"
      using wake_wait [OF Nil(1) q'(1), of "[]" w "[]" True flags km t] Nil(2) t(1) q'(2) by auto
    have "wait_queue_first q t = None" using wait_queue_first_ok [OF sync_waitD(1) [OF k(2) q'(1)]] by simp
    then have "s' = t" using t(2) by simp
    moreover have "\<forall>x \<in> S. (ws(q := [])) x = ws x" using q'(2) by auto
    ultimately show ?case using k by blast
  next
    case (Cons v bs)
    obtain t where t: "wakeup_wait cls km q w flags True s = kret t"
        "(case wait_queue_first q t of None \<Rightarrow> kret t | Some w \<Rightarrow> wakeup_del_loop cls km q flags w t) = kret s'"
      using Cons.prems(3) by (subst (asm) wakeup_del_loop.simps) (auto simp: kbind_eq_kret)
    have k: "sem_value t = sem_value s" "sync_wait S W t H P (ws(q := v # bs))"
      using wake_wait [OF Cons.prems(1) q'(1), of "[]" w "v # bs" True flags km t] Cons.prems(2) t(1) q'(2) by auto
    have "wait_queue_first q t = Some v" using wait_queue_first_ok [OF sync_waitD(1) [OF k(2) q'(1)]] by simp
    with Cons.IH [OF k(2), of v] t(2) k(1) q'(2) show ?case by fastforce
  qed
  show "sync_wait S W s H P ws \<Longrightarrow> ws q = as @ w # bs \<Longrightarrow> wakeup_keep_loop cls km q flags w s = kret s' \<Longrightarrow>
      sync_wait S W s' H P ws \<and> sem_value s' = sem_value s"
  proof (induction bs arbitrary: s w as)
    case Nil
    obtain t r where t: "wakeup_wait cls km q w flags False s = kret t" "wait_queue_next q w t = kret r"
        "(case r of None \<Rightarrow> kret t | Some w \<Rightarrow> wakeup_keep_loop cls km q flags w t) = kret s'"
      using Nil(3) by (subst (asm) wakeup_keep_loop.simps) (auto simp: kbind_eq_kret)
    have k: "sem_value t = sem_value s" "sync_wait S W t H P ws"
      using wake_wait [OF Nil(1) q'(1) Nil(2), of False flags km t] t(1) q'(2) by auto
    have "r = None" using wait_queue_next_ok [of t q as w "[]"] sync_waitD(1) [OF k(2) q'(1)] Nil(2) t(2) by simp
    then show ?case using t(3) k by simp
  next
    case (Cons v bs)
    obtain t r where t: "wakeup_wait cls km q w flags False s = kret t" "wait_queue_next q w t = kret r"
        "(case r of None \<Rightarrow> kret t | Some w \<Rightarrow> wakeup_keep_loop cls km q flags w t) = kret s'"
      using Cons.prems(3) by (subst (asm) wakeup_keep_loop.simps) (auto simp: kbind_eq_kret)
    have k: "sem_value t = sem_value s" "sync_wait S W t H P ws"
      using wake_wait [OF Cons.prems(1) q'(1) Cons.prems(2), of False flags km t] t(1) q'(2) by auto
    have "r = Some v" using wait_queue_next_ok [of t q as w "v # bs"] sync_waitD(1) [OF k(2) q'(1)] Cons.prems(2) t(2) by simp
    with Cons.IH [OF k(2), of "as @ [w]" v] t(3) k(1) Cons.prems(2) show ?case by simp
  qed
qed

lemma wakeup_queue_wait:
  assumes ok: "sync_wait S W s H P ws" and q: "q \<in> W - S"
    and run: "wakeup_queue cls km q flags del s = kret s' \<or> wakeup_first cls km q flags del s = kret s'"
  shows "\<exists>ws'. sync_wait S W s' H P ws' \<and> sem_value s' = sem_value s \<and> (\<forall>x \<in> S. ws' x = ws x)"
proof -
  have q': "q \<in> S \<union> W" "q \<notin> S" using q by auto
  have f: "wait_queue_first q s = hd_opt (ws q)" using wait_queue_first_ok [OF sync_waitD(1) [OF ok q'(1)]] .
  show ?thesis
  proof (cases "ws q")
    case Nil
    then have "s' = s" using run f by (auto simp: wakeup_queue_def wakeup_first_def)
    then show ?thesis using ok by blast
  next
    case (Cons w bs)
    then have "wait_queue_first q s = Some w" using f by simp
    with run consider "wakeup_del_loop cls km q flags w s = kret s'" | "wakeup_keep_loop cls km q flags w s = kret s'"
      | "wakeup_wait cls km q w flags del s = kret s'" by (auto simp: wakeup_queue_def wakeup_first_def split: if_splits)
    then show ?thesis
    proof cases
      case 1
      then show ?thesis using wake_loops(1) [OF q ok Cons] by blast
    next
      case 2
      then show ?thesis using wake_loops(2) [OF q ok, of "[]" w bs km flags s'] Cons by auto
    next
      case 3
      have "sem_value s' = sem_value s" "sync_wait S W s' H P (if del then ws(q := bs) else ws)"
        using wake_wait [OF ok q'(1), of "[]" w bs del flags km s'] Cons 3 q'(2) by (auto simp del: fun_upd_apply)
      moreover have "\<forall>x \<in> S. (if del then ws(q := bs) else ws) x = ws x" using q'(2) by auto
      ultimately show ?thesis by blast
    qed
  qed
qed

end

definition sync_ok :: "nat set \<Rightarrow> nat set \<Rightarrow> (nat \<Rightarrow> nat) \<Rightarrow> sync \<Rightarrow> holders \<Rightarrow> pending \<Rightarrow> (nat \<Rightarrow> nat list) \<Rightarrow> bool" where
  "sync_ok S W n s H P ws \<longleftrightarrow> sync_wait S W s H P ws \<and> sync_count S n s H ws"

lemma sync_wait_cong:
  assumes "sync_wait S W s H P ws" and "waits s' = waits s" and "wlinks s' = wlinks s" and "\<And>p. asleep s p \<Longrightarrow> asleep s' p"
    and "\<And>p q w. P p = Some (q, w) \<Longrightarrow> q \<in> S \<Longrightarrow> p \<in> H' q \<longleftrightarrow> p \<in> H q"
  shows "sync_wait S W s' H' P ws"
proof -
  note D = sync_waitD [OF assms(1)]
  show ?thesis
    unfolding sync_wait_def
  proof (intro conjI ballI allI impI)
    fix q assume q: "q \<in> S \<union> W"
    show "wq_ok s' q (ws q)" using D(1) [OF q] assms(2,3) by (simp add: wq_ok_def)
    show "\<exists>p. P p = Some (q, w)" if "w \<in> set (ws q)" for w using D(2) [OF q that] .
  next
    fix p q w assume p: "P p = Some (q, w)"
    show "q \<in> S \<union> W" "wproc (waits s' w) = Some p" "w \<in> set (ws q) \<or> list_empty (wlinks s') (WLink w)"
      using D(3,4,5) [OF p] assms(2,3) by auto
    show "if w \<in> set (ws q) then asleep s' p \<and> p \<notin> H' q else wakeup_flags (waits s' w) = WT_KSEM \<and> p \<in> H' q" if "q \<in> S"
      using D(6,7) [OF p that] assms(2) assms(4) [of p] assms(5) [OF p that] by auto
  qed
qed

text \<open>A process takes a semaphore whose value is positive.\<close>

lemma take_sem:
  assumes ok: "sync_ok S W n s H P ws" and q: "q \<in> S" and v: "0 < sem_value s q" and p: "P p = None" "p \<notin> H q"
  shows "sync_ok S W n (upd_sem q (\<lambda>v. v - 1) s) (H(q := insert p (H q))) P ws"
proof -
  have w: "sync_wait S W s H P ws" and c: "sync_count S n s H ws" using ok by (simp_all add: sync_ok_def)
  have "sync_wait S W (upd_sem q (\<lambda>v. v - 1) s) (H(q := insert p (H q))) P ws"
    by (rule sync_wait_cong [OF w]) (use p in \<open>auto simp: asleep_def\<close>)
  then show ?thesis using c q v p(2) by (auto simp: sync_ok_def sync_count_def)
qed

context sched_ops
begin

lemma up_wait:
  assumes ok: "sync_ok S W n s H P ws" and q: "q \<in> S" and p: "p \<in> H q" "\<And>w. P p \<noteq> Some (q, w)"
    and run: "up cls km q s = kret s'"
  shows "case ws q of
       [] \<Rightarrow> s' = upd_sem q (\<lambda>v. v + 1) s \<and> sync_ok S W n s' (H(q := H q - {p})) P ws
     | w # bs \<Rightarrow> \<exists>r. P r = Some (q, w) \<and> wproc (waits s w) = Some r \<and> state (ptab (sc s') r) = PROC_RUNNABLE \<and>
         wakeup_flags (waits s' w) = WT_KSEM \<and> sync_ok S W n s' (H(q := insert r (H q - {p}))) P (ws(q := bs))"
proof -
  have q': "q \<in> S \<union> W" using q by simp
  have w: "sync_wait S W s H P ws" and c: "sync_count S n s H ws" using ok by (simp_all add: sync_ok_def)
  have f: "wait_queue_first q s = hd_opt (ws q)" using wait_queue_first_ok [OF sync_waitD(1) [OF w q']] .
  have fin: "finite (H q)" "0 < card (H q)" using c q p(1) by (auto simp: sync_count_def card_gt_0_iff)
  show ?thesis
  proof (cases "ws q")
    case Nil
    then have s': "s' = upd_sem q (\<lambda>v. v + 1) s" using run f by (simp add: up_def sem_up_def)
    have "sync_wait S W s' (H(q := H q - {p})) P ws"
      by (rule sync_wait_cong [OF w]) (use p(2) in \<open>auto simp: asleep_def s'\<close>)
    moreover have "sync_count S n s' (H(q := H q - {p})) ws"
      using c q p(1) fin Nil by (auto simp: sync_count_def s' card_Diff_singleton of_nat_diff)
    ultimately show ?thesis using Nil s' by (simp add: sync_ok_def)
  next
    case (Cons v bs)
    have g: "sync_wait S W s (H(q := H q - {p})) P ws" by (rule sync_wait_cong [OF w]) (use p(2) in auto)
    obtain r where r0: "P r = Some (q, v)" using sync_waitD(2) [OF w q', of v] Cons by auto
    note D = sync_waitD(4,6) [OF w r0]
    have "wakeup_wait cls km q v WT_KSEM True s = kret s'"
      using run f Cons D(1) by (auto simp: up_def sem_up_def kassert_eq_kret)
    with wake_wait [OF g q', of "[]" v bs True WT_KSEM km s'] Cons q r0 sync_waitD(4) [OF w]
    have k: "state (ptab (sc s') r) = PROC_RUNNABLE" "wakeup_flags (waits s' v) = WT_KSEM" "sem_value s' = sem_value s"
        "sync_wait S W s' (H(q := insert r (H q - {p}))) P (ws(q := bs))"
      using D(1) by auto
    have "r \<notin> H q" using D(2) Cons q by simp
    then have "card (insert r (H q - {p})) = card (H q)" using fin p(1) card_Suc_Diff1 [of "H q" p] by auto
    then have "sync_count S n s' (H(q := insert r (H q - {p}))) (ws(q := bs))"
      using c q Cons k(3) by (auto simp: sync_count_def)
    then show ?thesis using Cons r0 D(1) k by (auto simp: sync_ok_def)
  qed
qed

lemma sync_step_ok:
  assumes step: "sync_step cls km S W (s, H, P) (s', H', P')" and ok: "sync_ok S W n s H P ws"
  shows "\<exists>ws'. sync_ok S W n s' H' P' ws'"
proof -
  have w: "sync_wait S W s H P ws" and c: "sync_count S n s H ws" using ok by (simp_all add: sync_ok_def)
  show ?thesis
    using step
  proof (cases rule: sync_step.cases)
    case (enter q p v)
    then have "0 < sem_value s q" "s' = upd_sem q (\<lambda>v. v - 1) s"
      by (auto simp: down_enter_def kbind_eq_kret split: if_splits)
    then show ?thesis using take_sem [OF ok, of q p] enter by (auto simp: runs_free_def)
  next
    case (block q p v)
    then have r: "wait_current_set q v WT_KSEM s = kret s'" "\<not> 0 < sem_value s q"
      by (auto simp: down_enter_def kbind_eq_kret split: if_splits)
    have "q \<in> S \<union> W" using block by simp
    note j = join_wait [OF w this _ _ _ r(1), of p]
    have "sync_wait S W s' H (P(p \<mapsto> (q, v))) (ws(q := ws q @ [v]))" "sem_value s' = sem_value s" using j block by auto
    moreover from this have "sync_count S n s' H (ws(q := ws q @ [v]))" using c r(2) by (auto simp: sync_count_def)
    ultimately show ?thesis using block by (auto simp: sync_ok_def)
  next
    case (return q p v fl)
    have P: "P p = Some (q, v)" "state (ptab (sc s) p) = PROC_RUNNABLE" using return by (auto simp: runs_woken_def)
    have nq: "v \<notin> set (ws q)" using sync_waitD(6) [OF w P(1)] P(2) return(3) by (auto simp: asleep_def)
    have r: "wait_current_del q v s = kret s'" using return by (auto simp: down_leave_def kbind_eq_kret)
    note l = leave_wait [OF w P(1) nq r]
    have "ws(q := remove1 v (ws q)) = ws" using nq by (simp add: remove1_idem)
    then show ?thesis using l(1) l(4) [OF nq] c return by (auto simp: sync_ok_def)
  next
    case (attempt q p r)
    show ?thesis
    proof (cases r)
      case True
      then have "0 < sem_value s q" "s' = upd_sem q (\<lambda>v. v - 1) s" using attempt by (auto simp: try_down_def split: if_splits)
      then show ?thesis using take_sem [OF ok, of q p] attempt True by (auto simp: runs_free_def)
    next
      case False
      then have "s' = s" using attempt by (auto simp: try_down_def split: if_splits)
      then show ?thesis using ok attempt False by auto
    qed
  next
    case (leave q p)
    have f: "wait_queue_first q s = hd_opt (ws q)" using wait_queue_first_ok [OF sync_waitD(1) [OF w, of q]] leave by simp
    show ?thesis
      using up_wait [OF ok leave(3,4,5,6)] f leave(1,2) by (cases "ws q") auto
  next
    case (wait q p v st)
    then have q: "q \<in> S \<union> W" "q \<notin> S" by auto
    have "sync_wait S W s' H (P(p \<mapsto> (q, v))) (ws(q := ws q @ [v]))" "sem_value s' = sem_value s"
      using join_wait [OF w q(1), of p v st s'] wait by auto
    moreover from this have "sync_count S n s' H (ws(q := ws q @ [v]))" using c q(2) by (auto simp: sync_count_def)
    ultimately show ?thesis using wait by (auto simp: sync_ok_def)
  next
    case (unwait q p v)
    then have q: "q \<notin> S" "P p = Some (q, v)" by (auto simp: runs_woken_def)
    have "sync_wait S W s' H (P(p := None)) (ws(q := remove1 v (ws q)))" "sem_value s' = sem_value s"
      using leave_wait [OF w q(2), of s'] q(1) unwait by auto
    moreover from this have "sync_count S n s' H (ws(q := remove1 v (ws q)))" using c q(1) by (auto simp: sync_count_def)
    ultimately show ?thesis using unwait by (auto simp: sync_ok_def)
  next
    case (wake q fl del)
    then show ?thesis using wakeup_queue_wait [OF w, of q km fl del s'] c by (fastforce simp: sync_ok_def sync_count_def)
  next
    case (wake_first q fl del)
    then show ?thesis using wakeup_queue_wait [OF w, of q km fl del s'] c by (fastforce simp: sync_ok_def sync_count_def)
  next
    case other
    then have "sync_wait S W s' H P ws" by (intro sync_wait_cong [OF w]) auto
    then show ?thesis using c other by (auto simp: sync_ok_def sync_count_def)
  qed
qed

lemma sync_reach_ok:
  assumes "(sync_step cls km S W)\<^sup>*\<^sup>* (s, H, P) (s', H', P')" and "sync_ok S W n s H P ws"
  shows "\<exists>ws'. sync_ok S W n s' H' P' ws'"
  using assms
proof (induction "(s', H', P')" arbitrary: s' H' P' rule: rtranclp_induct)
  case base
  then show ?case by blast
next
  case (step y)
  obtain t K Q where y: "y = (t, K, Q)" by (cases y)
  then obtain ws1 where "sync_ok S W n t K Q ws1" using step by blast
  then show ?case using sync_step_ok step.hyps(2) y by blast
qed

end

context sched_ops
begin

lemma down_returns:
  assumes "sync_wait S W s H P ws" and "q \<in> S" and "P p = Some (q, w)" and "w \<notin> set (ws q)"
  shows "p \<in> H q \<and> down_leave q w WT_KSEM s = kret (0, s)"
  using sync_waitD(5,7) [OF assms(1,3)] assms(2,4) by (simp add: down_leave_def wait_current_del_def wait_in_queue_def)

lemma up_ok:
  assumes ok: "sync_ok S W n s H P ws" and q: "q \<in> S" and p: "p \<in> H q" "\<And>w. P p \<noteq> Some (q, w)"
    and si: "sched_inv sane A (sc s)" and km: "km_fresh km" and A: "\<And>r w. P r = Some (q, w) \<Longrightarrow> r \<in> A"
  shows "case ws q of
       [] \<Rightarrow> \<exists>s'. up cls km q s = kret s' \<and> sc s' = sc s \<and> sem_value s' q = sem_value s q + 1 \<and>
         sync_ok S W n s' (H(q := H q - {p})) P ws
     | w # bs \<Rightarrow> \<exists>r. P r = Some (q, w) \<and>
         (if wake_starved km (sc s) r then up cls km q s = null_deref
          else \<exists>s'. up cls km q s = kret s' \<and> sched_inv sane A (sc s') \<and> state (ptab (sc s') r) = PROC_RUNNABLE \<and>
            down_leave q w WT_KSEM s' = kret (0, s') \<and> sync_ok S W n s' (H(q := insert r (H q - {p}))) P (ws(q := bs)))"
proof -
  have w: "sync_wait S W s H P ws" using ok by (simp add: sync_ok_def)
  have q': "q \<in> S \<union> W" using q by simp
  note wq = sync_waitD(1) [OF w q']
  show ?thesis
  proof (cases "ws q")
    case Nil
    have run: "up cls km q s = kret (upd_sem q (\<lambda>v. v + 1) s)"
      using wait_queue_first_ok [OF wq] Nil by (simp add: up_def sem_up_def)
    from up_wait [OF ok q p run] have "sync_ok S W n (upd_sem q (\<lambda>v. v + 1) s) (H(q := H q - {p})) P ws" unfolding Nil by simp
    then show ?thesis unfolding Nil list.case run by (intro exI [of _ "upd_sem q (\<lambda>v. v + 1) s"]) simp
  next
    case (Cons v bs)
    obtain r where r: "P r = Some (q, v)" using sync_waitD(2) [OF w q', of v] Cons by auto
    note D = sync_waitD(4,6) [OF w r]
    have a: "asleep s r" "state (ptab (sc s) r) \<noteq> PROC_ZOMBIE" using D(2) q Cons by (auto simp: asleep_def)
    let ?t = "upd_wait v (\<lambda>x. x\<lparr>wakeup_flags := WT_KSEM\<rparr>) (s\<lparr>wlinks := list_del_init (wlinks s) (WLink v)\<rparr>)"
    have u: "up cls km q s = kbind (wakeup_proc cls km (sc s) r) (\<lambda>c. kret (?t\<lparr>sc := c\<rparr>))"
      using wait_queue_first_ok [OF wq] Cons D(1) a(1) wait_queue_del_ok(1) [of s q "[]" v bs] wq
      by (simp add: up_def sem_up_def wakeup_wait_def Let_def asleep_def)
    show ?thesis
    proof (cases "wake_starved km (sc s) r")
      case True
      then have "up cls km q s = null_deref" unfolding u using wakeup_starved [OF a(2) km] by (simp add: null_deref_def)
      then show ?thesis unfolding Cons list.case using r True by (intro exI [of _ r]) simp
    next
      case False
      then obtain c where c: "wakeup_proc cls km (sc s) r = kret c" "sched_inv sane A c"
        using wakeup_ok [OF si km_ok_total [OF km] A [OF r] a(2)] wakeup_starved [OF a(2) km] by auto
      then have run: "up cls km q s = kret (?t\<lparr>sc := c\<rparr>)" unfolding u by simp
      obtain r' where r': "P r' = Some (q, v)" "state (ptab c r') = PROC_RUNNABLE"
          "sync_ok S W n (?t\<lparr>sc := c\<rparr>) (H(q := insert r' (H q - {p}))) P (ws(q := bs))"
        using up_wait [OF ok q p run] unfolding Cons list.case by (elim exE conjE) (rule that, simp_all del: fun_upd_apply)
      have e: "r' = r" using sync_waitD(8) [OF w r r'(1)] by simp
      have "v \<notin> set bs" using wq_distinct [OF wq] Cons by simp
      then have "down_leave q v WT_KSEM (?t\<lparr>sc := c\<rparr>) = kret (0, ?t\<lparr>sc := c\<rparr>)"
        using down_returns [of S W "?t\<lparr>sc := c\<rparr>" "H(q := insert r' (H q - {p}))" P "ws(q := bs)" q r v] r' q r
        by (simp add: sync_ok_def)
      then show ?thesis
        unfolding Cons list.case run using r False c(2) r' unfolding e by (intro exI [of _ r]) (simp del: fun_upd_apply)
    qed
  qed
qed

end

section \<open>Contracts of the semaphores\<close>

text \<open>After the initialisation of the semaphores and queues.\<close>

definition sems_start :: "nat set \<Rightarrow> nat set \<Rightarrow> (nat \<Rightarrow> nat) \<Rightarrow> sync \<Rightarrow> bool" where
  "sems_start S W n s \<longleftrightarrow> (\<forall>q \<in> S \<union> W. wq_ok s q []) \<and> (\<forall>q \<in> S. sem_value s q = int (n q))"

lemma sems_start_ok: "sems_start S W n s \<Longrightarrow> sync_ok S W n s (\<lambda>_. {}) (\<lambda>_. None) (\<lambda>_. [])"
  by (simp add: sems_start_def sync_ok_def sync_wait_def sync_count_def)

lemma sem_init_start:
  assumes "sems_start S W n s"
  shows "sems_start (insert q S) W (n(q := v)) (sem_init q (int v) s)"
    and "sems_start S (insert q W) n (wait_queue_init q s)"
proof -
  have "wq_ok (s\<lparr>wlinks := list_init (wlinks s) (QHead q)\<rparr>) r []" if "r = q \<or> wq_ok s r []" for r
    using that dlist_init [of "wlinks s" "QHead q"] dlist_init_other [of "wlinks s" "QHead r" "[]" "QHead q"]
    by (cases "r = q") (auto simp: wq_ok_def)
  then show "sems_start (insert q S) W (n(q := v)) (sem_init q (int v) s)" "sems_start S (insert q W) n (wait_queue_init q s)"
    using assms by (auto simp: sems_start_def sem_init_def wait_queue_init_def upd_sem_def wq_ok_def)
qed

text \<open>Process 1 of the small system runs; the queues are to be initialised.\<close>

definition small_sync :: sync where
  "small_sync = \<lparr>sc = small_sched,
     waits = (\<lambda>_. \<lparr>wproc = None, wakeup_flags = 0, wait_queue = None\<rparr>),
     wlinks = \<lparr>lnext = (\<lambda>x. x), lprev = (\<lambda>x. x)\<rparr>, sem_value = (\<lambda>_. 0)\<rparr>"

text \<open>C10. Mutual exclusion in a kernel with any number of semaphores that processes use as locks and of other wait queues: whatever the
  interleaving of \<^verbatim>\<open>down\<close> (its two halves), \<^verbatim>\<open>try_down\<close> and \<^verbatim>\<open>up\<close> on the semaphores, of waiting on and waking the other queues,
  and of code that uses neither, at most \<open>n\<close> processes hold a semaphore that was initialised with \<open>n\<close>; its
  value is \<open>n\<close> minus the number of holders, never negative, and positive only when nobody waits; and a process that runs again inside
  \<^verbatim>\<open>down\<close> is a holder and returns with no flags, so that the assertion of \<^verbatim>\<open>down\<close> holds.\<close>

theorem sem_mutual_exclusion:
  assumes cls: "cls = default_sched_class \<or> cls = cfs_sched_class" and start: "sems_start S W n s"
    and reach: "(sync_step cls km S W)\<^sup>*\<^sup>* (s, (\<lambda>_. {}), (\<lambda>_. None)) (s', H, P)" and q: "q \<in> S"
  shows "finite (H q) \<and> card (H q) \<le> n q \<and> sem_value s' q = int (n q) - int (card (H q)) \<and>
    (\<exists>ws. wq_ok s' q ws \<and> (0 < sem_value s' q \<longrightarrow> ws = [])) \<and>
    (\<forall>p w. P p = Some (q, w) \<and> state (ptab (sc s') p) = PROC_RUNNABLE \<longrightarrow>
      p \<in> H q \<and> down_leave q w WT_KSEM s' = kret (0, s'))"
proof -
  have "\<exists>ws. sync_ok S W n s' H P ws"
    using cls
  proof
    assume "cls = default_sched_class"
    then show ?thesis using stride_class.sync_reach_ok [OF _ sems_start_ok [OF start]] reach by simp
  next
    assume "cls = cfs_sched_class"
    then show ?thesis using cfs_class.sync_reach_ok [OF _ sems_start_ok [OF start]] reach by simp
  qed
  then obtain ws where ok: "sync_wait S W s' H P ws" "sync_count S n s' H ws" by (auto simp: sync_ok_def)
  have "p \<in> H q \<and> down_leave q w WT_KSEM s' = kret (0, s')"
    if "P p = Some (q, w)" "state (ptab (sc s') p) = PROC_RUNNABLE" for p w
    using stride_class.down_returns [OF ok(1) q that(1)] sync_waitD(6) [OF ok(1) that(1) q] that(2) by (auto simp: asleep_def)
  moreover have "wq_ok s' q (ws q)" using sync_waitD(1) [OF ok(1)] q by simp
  moreover have "finite (H q)" "0 \<le> sem_value s' q" "0 < sem_value s' q \<longrightarrow> ws q = []" "sem_value s' q + int (card (H q)) = int (n q)"
    using ok(2) q by (auto simp: sync_count_def)
  ultimately show ?thesis by auto
qed

text \<open>A mutex 3, a semaphore 4 with value 0 and a plain queue 5; process 1 takes the mutex and then waits for semaphore 4.\<close>

theorem sem_mutual_exclusion_witness:
  "\<exists>s' H P. (sync_step default_sched_class fresh_node {4, 3} {5})\<^sup>*\<^sup>*
      (wait_queue_init 5 (sem_init 4 (int 0) (sem_init 3 (int 1) small_sync)), (\<lambda>_. {}), (\<lambda>_. None)) (s', H, P) \<and>
    H 3 = {1} \<and> P 1 = Some (4, 7) \<and> sem_value s' 3 = 0"
proof -
  let ?step = "sync_step default_sched_class fresh_node {4, 3} {5}"
  let ?s = "wait_queue_init 5 (sem_init 4 (int 0) (sem_init 3 (int 1) small_sync))"
  let ?t = "upd_sem 3 (\<lambda>v. v - 1) ?s"
  have "sems_start {} {} (\<lambda>_. 0) small_sync" by (simp add: sems_start_def)
  from sem_init_start(2) [OF sem_init_start(1) [OF sem_init_start(1) [OF this]]]
  have start: "sems_start {4, 3} {5} ((\<lambda>_. 0)(3 := 1, 4 := 0)) ?s" .
  have c: "current (sc ?s) = 1" "state (ptab (sc ?s) 1) = PROC_RUNNABLE" "sem_value ?s 3 = 1" "sem_value ?s 4 = 0"
    by (simp_all add: sem_init_def wait_queue_init_def small_sync_def small_sched_def)
  have 1: "?step (?s, (\<lambda>_. {}), (\<lambda>_. None)) (?t, (\<lambda>_. {})(3 := insert 1 {}), (\<lambda>_. None))"
    using sync_step.enter [of 3 "{4, 3}" ?s "\<lambda>_. None" 1 "\<lambda>_. {}" 7 ?t] c by (simp add: runs_free_def down_enter_def)
  have wq: "wq_ok ?t 4 []" using start by (simp add: sems_start_def wq_ok_def)
  obtain u where u: "wait_current_set 4 7 WT_KSEM ?t = kret u" using wait_current_set_ok [OF wq, of 7 WT_KSEM] by auto
  then have "down_enter 4 7 WT_KSEM ?t = kret (False, u)" using c(4) by (simp add: down_enter_def)
  then have 2: "?step (?t, (\<lambda>_. {})(3 := insert 1 {}), (\<lambda>_. None)) (u, (\<lambda>_. {})(3 := insert 1 {}), (\<lambda>_. None)(1 \<mapsto> (4, 7)))"
    using sync_step.block [of 4 "{4, 3}" ?t "\<lambda>_. None" 1 "(\<lambda>_. {})(3 := insert 1 {})" 7 u] c by (simp add: runs_free_def own_element_def)
  from 1 2 have r: "?step\<^sup>*\<^sup>* (?s, (\<lambda>_. {}), (\<lambda>_. None)) (u, (\<lambda>_. {})(3 := insert 1 {}), (\<lambda>_. None)(1 \<mapsto> (4, 7)))" by simp
  have "sem_value u 3 = 0" using sem_mutual_exclusion [OF _ start r, of 3] by simp
  show ?thesis by (intro exI conjI, rule r) (simp_all add: \<open>sem_value u 3 = 0\<close>)
qed

text \<open>C24. \<^verbatim>\<open>up\<close> by a process that holds the semaphore: with no waiter it increments the value; with waiters it passes the
  semaphore to the first of the queue, which becomes runnable and whose \<^verbatim>\<open>down\<close> will return normally, and the caller is no
  longer a holder.  It fails only when the woken process needs a queue node of the scheduler and \<^verbatim>\<open>kmalloc\<close> answers NULL.\<close>

theorem up_passes_on:
  assumes cls: "(cls, sane) \<in> set sched_classes" and km: "km_fresh km" and ok: "sync_ok S W n s H P ws" and q: "q \<in> S"
    and p: "p \<in> H q" "\<forall>w. P p \<noteq> Some (q, w)" and si: "sched_inv sane A (sc s)" and A: "\<forall>r w. P r = Some (q, w) \<longrightarrow> r \<in> A"
  shows "case ws q of
       [] \<Rightarrow> \<exists>s'. up cls km q s = kret s' \<and> sc s' = sc s \<and> sem_value s' q = sem_value s q + 1 \<and>
         sync_ok S W n s' (H(q := H q - {p})) P ws
     | w # bs \<Rightarrow> \<exists>r. P r = Some (q, w) \<and>
         (if wake_starved km (sc s) r then up cls km q s = null_deref
          else \<exists>s'. up cls km q s = kret s' \<and> sched_inv sane A (sc s') \<and> state (ptab (sc s') r) = PROC_RUNNABLE \<and>
            down_leave q w WT_KSEM s' = kret (0, s') \<and> sync_ok S W n s' (H(q := insert r (H q - {p}))) P (ws(q := bs)))"
proof -
  consider "cls = default_sched_class" "sane = stride_sane" | "cls = cfs_sched_class" "sane = cfs_sane"
    using cls by (auto simp: sched_classes_def)
  then show ?thesis
  proof cases
    case 1
    show ?thesis unfolding 1 by (rule stride_class.up_ok [OF ok q p(1) _ _ km]) (use p(2) si A 1 in auto)
  next
    case 2
    show ?thesis unfolding 2 by (rule cfs_class.up_ok [OF ok q p(1) _ _ km]) (use p(2) si A 2 in auto)
  qed
qed

text \<open>Process 2 waits with its element 8 for semaphore 3, which process 1 holds.\<close>

definition wait_sync :: sync where
  "wait_sync = small_sync\<lparr>sc := upd_proc 2 (\<lambda>p. p\<lparr>wait_state := WT_KSEM\<rparr>) small_sched,
     waits := (\<lambda>_. \<lparr>wproc = Some 2, wakeup_flags = WT_INTERRUPTED, wait_queue = Some 3\<rparr>),
     wlinks := \<lparr>lnext = (\<lambda>x. x)(QHead 3 := WLink 8, WLink 8 := QHead 3),
                lprev = (\<lambda>x. x)(QHead 3 := WLink 8, WLink 8 := QHead 3)\<rparr>\<rparr>"

lemma wait_sync_inv:
  "sched_inv stride_sane {0, 1, 2} (sc wait_sync)" "wq_ok wait_sync 3 [8]"
  "sync_ok {3} {} (\<lambda>_. 1) wait_sync (\<lambda>_. {1}) [2 \<mapsto> (3, 8)] (\<lambda>_. [8])"
proof -
  let ?c = "sc wait_sync"
  have c: "current ?c = 1" "idleproc ?c = 0" "rq ?c = rq small_sched"
    "\<And>p. state (ptab ?c p) = state (ptab small_sched p)" "\<And>p. pid (ptab ?c p) = pid (ptab small_sched p)"
    "\<And>p. stride_prior (ptab ?c p) = stride_prior (ptab small_sched p)"
    by (simp_all add: wait_sync_def small_sched_def)
  then have "waiting {0, 1, 2} ?c = waiting {0, 1, 2} small_sched"
    by (auto simp: waiting_def small_sched_def)
  then show "sched_inv stride_sane {0, 1, 2} ?c"
    using small_sched_inv(1) c unfolding sched_inv_def stride_sane_def by simp
  show "wq_ok wait_sync 3 [8]" by (simp add: wait_sync_def wq_ok_def dlist_def)
  then show "sync_ok {3} {} (\<lambda>_. 1) wait_sync (\<lambda>_. {1}) [2 \<mapsto> (3, 8)] (\<lambda>_. [8])"
    by (auto simp: sync_ok_def sync_wait_def sync_count_def wait_sync_def small_sync_def asleep_def small_sched_def split: if_splits)
qed

theorem up_passes_on_witness:
  "\<exists>s'. up default_sched_class fresh_node 3 wait_sync = kret s' \<and> state (ptab (sc s') 2) = PROC_RUNNABLE \<and>
    down_leave 3 8 WT_KSEM s' = kret (0, s')"
proof -
  have c: "(default_sched_class, stride_sane) \<in> set sched_classes" by (simp add: sched_classes_def)
  have n: "\<not> wake_starved fresh_node (sc wait_sync) r" for r by (simp add: wake_starved_def fresh_node_def)
  have e: "[2 \<mapsto> (3, 8)] r = Some (q, w) \<longleftrightarrow> r = 2 \<and> q = 3 \<and> w = 8" for r q w :: nat by auto
  show ?thesis
    using up_passes_on [OF c km_fresh_fresh_node wait_sync_inv(3) _ _ _ wait_sync_inv(1), of 3 1] unfolding e if_not_P [OF n]
    by (auto simp del: fun_upd_apply)
qed

section \<open>Waking a whole queue\<close>

definition wakeable :: "nat set \<Rightarrow> sync \<Rightarrow> nat list \<Rightarrow> bool" where
  "wakeable A s ws \<longleftrightarrow> (\<forall>w \<in> set ws. \<exists>p \<in> A. wproc (waits s w) = Some p \<and>
     state (ptab (sc s) p) \<noteq> PROC_ZOMBIE)"

definition awake :: "sync \<Rightarrow> u32 \<Rightarrow> nat list \<Rightarrow> bool" where
  "awake s flags ws \<longleftrightarrow> (\<forall>w \<in> set ws. wakeup_flags (waits s w) = flags \<and>
     state (ptab (sc s) (the (wproc (waits s w)))) = PROC_RUNNABLE)"

definition queue_links :: "bool \<Rightarrow> nat \<Rightarrow> sync \<Rightarrow> wnode links" where
  "queue_links del w s = (if del then list_del_init (wlinks s) (WLink w) else wlinks s)"

context sched_ops
begin

lemma wakeup_wait_ok:
  assumes ok: "wq_ok s q (as @ w # bs)" and si: "sched_inv sane A (sc s)" and km: "km_ok km"
    and wk: "wakeable A s (as @ w # bs)"
  shows "\<exists>s'. wakeup_wait cls km q w flags del s = kret s' \<and> wlinks s' = queue_links del w s \<and>
    wq_ok s' q (if del then as @ bs else as @ w # bs) \<and> sched_inv sane A (sc s') \<and>
    wakeable A s' (as @ w # bs) \<and> awake s' flags [w] \<and>
    (\<forall>v. wproc (waits s' v) = wproc (waits s v)) \<and>
    (\<forall>v. v \<noteq> w \<longrightarrow> waits s' v = waits s v) \<and>
    (\<forall>p. state (ptab (sc s) p) = PROC_RUNNABLE \<longrightarrow> state (ptab (sc s') p) = PROC_RUNNABLE)"
proof -
  obtain p where p: "p \<in> A" "wproc (waits s w) = Some p" "state (ptab (sc s) p) \<noteq> PROC_ZOMBIE"
    using wk by (auto simp: wakeable_def)
  obtain c where c: "wakeup_proc cls km (sc s) p = kret c" "sched_inv sane A c"
    "state (ptab c p) = PROC_RUNNABLE" "\<And>x. x \<noteq> p \<Longrightarrow> core (ptab c x) = core (ptab (sc s) x)"
    using wakeup_ok [OF si km p(1,3)] by auto
  have st: "x = p \<and> state (ptab c x) = PROC_RUNNABLE \<or> state (ptab c x) = state (ptab (sc s) x)" for x
    using c(3) c(4) [of x] by (cases "x = p") (auto simp: core_def)
  let ?s = "(upd_wait w (\<lambda>x. x\<lparr>wakeup_flags := flags\<rparr>) (s\<lparr>wlinks := queue_links del w s\<rparr>))\<lparr>sc := c\<rparr>"
  have "(if del then wait_queue_del q w s else kret s) = kret (s\<lparr>wlinks := queue_links del w s\<rparr>)"
    using wait_queue_del_ok(1) [OF ok] by (simp add: queue_links_def)
  then have run: "wakeup_wait cls km q w flags del s = kret ?s"
    unfolding wakeup_wait_def using p(2) c(1) by (simp add: Let_def)
  have wq: "wq_ok ?s q (if del then as @ bs else as @ w # bs)"
    using ok wait_queue_del_ok(2) [OF ok] by (auto simp: wq_ok_def queue_links_def)
  have "wakeable A ?s (as @ w # bs)"
    unfolding wakeable_def
  proof
    fix v assume "v \<in> set (as @ w # bs)"
    then obtain x where "x \<in> A" "wproc (waits s v) = Some x" "state (ptab (sc s) x) \<noteq> PROC_ZOMBIE"
      using wk unfolding wakeable_def by blast
    then show "\<exists>x \<in> A. wproc (waits ?s v) = Some x \<and> state (ptab (sc ?s) x) \<noteq> PROC_ZOMBIE"
      using st [of x] by auto
  qed
  moreover have "awake ?s flags [w]" using p c(3) by (simp add: awake_def)
  moreover have "\<forall>x. state (ptab (sc s) x) = PROC_RUNNABLE \<longrightarrow> state (ptab (sc ?s) x) = PROC_RUNNABLE"
    using st by (metis sync.select_convs(1) sync.update_convs(1) sync.surjective)
  ultimately show ?thesis using run wq c(2) by (intro exI [of _ ?s]) auto
qed

lemma awake_mono:
  assumes "awake s flags ws" and "\<And>w. w \<in> set ws \<Longrightarrow> waits s' w = waits s w"
    and "\<And>p. state (ptab (sc s) p) = PROC_RUNNABLE \<Longrightarrow> state (ptab (sc s') p) = PROC_RUNNABLE"
  shows "awake s' flags ws"
  using assms by (auto simp: awake_def)

lemma wakeup_del_loop_ok:
  assumes "wq_ok s q (w # ws)" and "sched_inv sane A (sc s)" and km: "km_ok km"
    and "wakeable A s (w # ws)"
  shows "\<exists>s'. wakeup_del_loop cls km q flags w s = kret s' \<and> wq_ok s' q [] \<and>
    sched_inv sane A (sc s') \<and> awake s' flags (w # ws) \<and> (\<forall>v. v \<notin> set (w # ws) \<longrightarrow> waits s' v = waits s v) \<and>
    (\<forall>p. state (ptab (sc s) p) = PROC_RUNNABLE \<longrightarrow> state (ptab (sc s') p) = PROC_RUNNABLE)"
  using assms(1,2,4)
proof (induction ws arbitrary: s w)
  case Nil
  obtain s' where s': "wakeup_wait cls km q w flags True s = kret s'" "wq_ok s' q []"
    "sched_inv sane A (sc s')" "awake s' flags [w]" "\<forall>v. v \<noteq> w \<longrightarrow> waits s' v = waits s v"
    "\<forall>p. state (ptab (sc s) p) = PROC_RUNNABLE \<longrightarrow> state (ptab (sc s') p) = PROC_RUNNABLE"
    using wakeup_wait_ok [of s q "[]" w "[]" A km flags True] Nil km by auto
  then show ?case
    using wait_queue_first_ok [OF s'(2)] by (auto simp: wakeup_del_loop.simps [of cls km q flags w s])
next
  case (Cons v ws)
  obtain t where t: "wakeup_wait cls km q w flags True s = kret t" "wq_ok t q (v # ws)"
    "sched_inv sane A (sc t)" "wakeable A t (w # v # ws)" "awake t flags [w]"
    "\<forall>u. u \<noteq> w \<longrightarrow> waits t u = waits s u"
    "\<forall>p. state (ptab (sc s) p) = PROC_RUNNABLE \<longrightarrow> state (ptab (sc t) p) = PROC_RUNNABLE"
    using wakeup_wait_ok [of s q "[]" w "v # ws" A km flags True] Cons.prems km by auto
  have "wakeable A t (v # ws)" using t(4) by (simp add: wakeable_def)
  from Cons.IH [OF t(2,3) this] obtain s' where s': "wakeup_del_loop cls km q flags v t = kret s'"
    "wq_ok s' q []" "sched_inv sane A (sc s')" "awake s' flags (v # ws)"
    "\<forall>u. u \<notin> set (v # ws) \<longrightarrow> waits s' u = waits t u"
    "\<forall>p. state (ptab (sc t) p) = PROC_RUNNABLE \<longrightarrow> state (ptab (sc s') p) = PROC_RUNNABLE" by blast
  have "w \<notin> set (v # ws)" using wq_distinct [OF Cons.prems(1)] by simp
  then have "awake s' flags [w]" using awake_mono [OF t(5)] s'(5,6) by auto
  then have "awake s' flags (w # v # ws)" using s'(4) by (simp add: awake_def)
  moreover have "wakeup_del_loop cls km q flags w s = kret s'"
    using t(1) s'(1) wait_queue_first_ok [OF t(2)] by (simp add: wakeup_del_loop.simps [of cls km q flags w s])
  ultimately show ?case using s' t by auto
qed

lemma wakeup_keep_loop_ok:
  assumes "wq_ok s q (as @ w # ws)" and "sched_inv sane A (sc s)" and km: "km_ok km"
    and "wakeable A s (as @ w # ws)"
  shows "\<exists>s'. wakeup_keep_loop cls km q flags w s = kret s' \<and> wq_ok s' q (as @ w # ws) \<and>
    sched_inv sane A (sc s') \<and> awake s' flags (w # ws) \<and> (\<forall>v. v \<notin> set (w # ws) \<longrightarrow> waits s' v = waits s v) \<and>
    (\<forall>p. state (ptab (sc s) p) = PROC_RUNNABLE \<longrightarrow> state (ptab (sc s') p) = PROC_RUNNABLE)"
  using assms(1,2,4)
proof (induction ws arbitrary: s w as)
  case Nil
  obtain s' where s': "wakeup_wait cls km q w flags False s = kret s'" "wq_ok s' q (as @ [w])"
    "sched_inv sane A (sc s')" "awake s' flags [w]" "\<forall>v. v \<noteq> w \<longrightarrow> waits s' v = waits s v"
    "\<forall>p. state (ptab (sc s) p) = PROC_RUNNABLE \<longrightarrow> state (ptab (sc s') p) = PROC_RUNNABLE"
    using wakeup_wait_ok [of s q as w "[]" A km flags False] Nil km by auto
  then show ?case
    using wait_queue_next_ok [of s' q as w "[]"] by (auto simp: wakeup_keep_loop.simps [of cls km q flags w s])
next
  case (Cons v ws)
  obtain t where t: "wakeup_wait cls km q w flags False s = kret t" "wq_ok t q (as @ w # v # ws)"
    "sched_inv sane A (sc t)" "wakeable A t (as @ w # v # ws)" "awake t flags [w]"
    "\<forall>u. u \<noteq> w \<longrightarrow> waits t u = waits s u"
    "\<forall>p. state (ptab (sc s) p) = PROC_RUNNABLE \<longrightarrow> state (ptab (sc t) p) = PROC_RUNNABLE"
    using wakeup_wait_ok [of s q as w "v # ws" A km flags False] Cons.prems km by auto
  have pre: "wq_ok t q ((as @ [w]) @ v # ws)" "wakeable A t ((as @ [w]) @ v # ws)" using t by simp_all
  from Cons.IH [OF pre(1) t(3) pre(2)] obtain s' where s': "wakeup_keep_loop cls km q flags v t = kret s'"
    "wq_ok s' q (as @ w # v # ws)" "sched_inv sane A (sc s')" "awake s' flags (v # ws)"
    "\<forall>u. u \<notin> set (v # ws) \<longrightarrow> waits s' u = waits t u"
    "\<forall>p. state (ptab (sc t) p) = PROC_RUNNABLE \<longrightarrow> state (ptab (sc s') p) = PROC_RUNNABLE" by auto
  have "w \<notin> set (v # ws)" using wq_distinct [OF Cons.prems(1)] by simp
  then have "awake s' flags [w]" using awake_mono [OF t(5)] s'(5,6) by auto
  then have "awake s' flags (w # v # ws)" using s'(4) by (simp add: awake_def)
  moreover have "wakeup_keep_loop cls km q flags w s = kret s'"
    using t(1) s'(1) wait_queue_next_ok [OF t(2)]
    by (simp add: wakeup_keep_loop.simps [of cls km q flags w s])
  ultimately show ?case using s' t by auto
qed

lemma wakeup_queue_ok:
  assumes "wq_ok s q ws" and "sched_inv sane A (sc s)" and "km_ok km" and "wakeable A s ws"
  shows "\<exists>s'. wakeup_queue cls km q flags del s = kret s' \<and> wq_ok s' q (if del then [] else ws) \<and>
    sched_inv sane A (sc s') \<and> awake s' flags ws"
proof (cases ws)
  case Nil
  then show ?thesis
    using assms wait_queue_first_ok [OF assms(1)] by (auto simp: wakeup_queue_def awake_def)
next
  case (Cons w ws')
  then have w: "wait_queue_first q s = Some w" using wait_queue_first_ok [OF assms(1)] by simp
  show ?thesis
    using wakeup_del_loop_ok [of s q w ws' A km flags] wakeup_keep_loop_ok [of s q "[]" w ws' A km flags]
      assms w unfolding Cons wakeup_queue_def by (cases del) auto
qed

end

text \<open>C36. \<^verbatim>\<open>wakeup_queue\<close> returns, as long as \<^verbatim>\<open>kmalloc\<close> has memory for the queue nodes of the scheduler: every waiting process of the queue is runnable and carries the
  wakeup flags, and the queue is emptied when \<^verbatim>\<open>del\<close> is set and unchanged otherwise.\<close>

theorem wakeup_queue_wakes_all:
  assumes cls: "(cls, sane) \<in> set sched_classes" and km: "km_ok km" and wq: "wq_ok s q ws"
    and si: "sched_inv sane A (sc s)" and wk: "wakeable A s ws"
  shows "\<exists>s'. wakeup_queue cls km q flags del s = kret s' \<and> wq_ok s' q (if del then [] else ws) \<and>
    sched_inv sane A (sc s') \<and> awake s' flags ws"
proof -
  consider "cls = default_sched_class" "sane = stride_sane" | "cls = cfs_sched_class" "sane = cfs_sane"
    using cls by (auto simp: sched_classes_def)
  then show ?thesis
  proof cases
    case 1
    then show ?thesis using stride_class.wakeup_queue_ok [OF wq _ km wk] si by simp
  next
    case 2
    then show ?thesis using cfs_class.wakeup_queue_ok [OF wq _ km wk] si by simp
  qed
qed

theorem wakeup_queue_wakes_all_witness:
  "\<exists>s'. wakeup_queue default_sched_class fresh_node 3 WT_KBD True wait_sync = kret s' \<and>
    wq_ok s' 3 [] \<and> awake s' WT_KBD [8]"
proof -
  have c: "(default_sched_class, stride_sane) \<in> set sched_classes" by (simp add: sched_classes_def)
  have "wakeable {0, 1, 2} wait_sync [8]"
    by (simp add: wakeable_def wait_sync_def small_sched_def)
  then show ?thesis
    using wakeup_queue_wakes_all [OF c km_ok_fresh_node wait_sync_inv(2,1), of WT_KBD True] by auto
qed

end
