(* ===== verification/Pages.thy ===== *)
theory Pages
  imports Clist
begin

text \<open>
  Page descriptors (\<^verbatim>\<open>struct Page\<close> of \<^verbatim>\<open>kern/mm/memlayout.h\<close>), their flag bits and the
  state shared by the physical memory managers.  The array \<^verbatim>\<open>pages[]\<close> is a function from
  indices to descriptors; a pointer into the array is its index, so \<^verbatim>\<open>page + k\<close> is addition.
  The field \<^verbatim>\<open>zone_num\<close> is never read by the kernel and is left out; the two link fields of a
  descriptor live in separate memories of type \<open>links\<close>.
\<close>

section \<open>Page descriptors\<close>

record page =
  page_ref :: int
  flags :: u32
  property :: u32

abbreviation (input) PG_reserved :: nat where "PG_reserved \<equiv> 0"
abbreviation (input) PG_property :: nat where "PG_property \<equiv> 1"

definition SetPageReserved :: "page \<Rightarrow> page" where
  "SetPageReserved p = p\<lparr>flags := set_bit PG_reserved (flags p)\<rparr>"

definition PageReserved :: "page \<Rightarrow> bool" where
  "PageReserved p = bit (flags p) PG_reserved"

definition SetPageProperty :: "page \<Rightarrow> page" where
  "SetPageProperty p = p\<lparr>flags := set_bit PG_property (flags p)\<rparr>"

definition ClearPageProperty :: "page \<Rightarrow> page" where
  "ClearPageProperty p = p\<lparr>flags := unset_bit PG_property (flags p)\<rparr>"

definition PageProperty :: "page \<Rightarrow> bool" where
  "PageProperty p = bit (flags p) PG_property"

definition set_page_ref :: "page \<Rightarrow> int \<Rightarrow> page" where
  "set_page_ref p v = p\<lparr>page_ref := v\<rparr>"

lemma SetPageProperty_simps [simp]:
  "PageProperty (SetPageProperty p)"
  "PageReserved (SetPageProperty p) = PageReserved p"
  "property (SetPageProperty p) = property p"
  "page_ref (SetPageProperty p) = page_ref p"
  by (simp_all add: SetPageProperty_def PageProperty_def PageReserved_def bit_simps)

lemma ClearPageProperty_simps [simp]:
  "\<not> PageProperty (ClearPageProperty p)"
  "PageReserved (ClearPageProperty p) = PageReserved p"
  "property (ClearPageProperty p) = property p"
  "page_ref (ClearPageProperty p) = page_ref p"
  by (simp_all add: ClearPageProperty_def PageProperty_def PageReserved_def bit_simps)

lemma PageFlags_upd [simp]:
  "PageProperty (p\<lparr>property := v\<rparr>) = PageProperty p"
  "PageReserved (p\<lparr>property := v\<rparr>) = PageReserved p"
  "PageProperty (p\<lparr>page_ref := r\<rparr>) = PageProperty p"
  "PageReserved (p\<lparr>page_ref := r\<rparr>) = PageReserved p"
  "\<not> PageProperty (p\<lparr>flags := 0\<rparr>)"
  "\<not> PageReserved (p\<lparr>flags := 0\<rparr>)"
  by (simp_all add: PageProperty_def PageReserved_def)

lemma SetPageReserved_simps [simp]: "PageReserved (SetPageReserved p)"
  by (simp add: SetPageReserved_def PageReserved_def bit_simps)

section \<open>The free area\<close>

text \<open>The free list is threaded through the \<^verbatim>\<open>page_link\<close> fields: \<open>Head\<close> is
  \<^verbatim>\<open>free_area.free_list\<close> and \<open>Link i\<close> the field of page \<open>i\<close>; \<^verbatim>\<open>le2page\<close> inverts \<open>Link\<close>.\<close>

record pmm =
  pages :: "nat \<Rightarrow> page"
  free_list :: "lnode links"
  nr_free :: u32

section \<open>Lists of disjoint blocks\<close>

text \<open>A block is a start index with a length taken from \<open>sz\<close>.  \<open>gap c\<close> says that one block
  lies before another; with \<open>c\<close> set they are also not adjacent, so that a list of blocks is
  fully merged.\<close>

definition gap :: "bool \<Rightarrow> (nat \<Rightarrow> nat) \<Rightarrow> nat \<Rightarrow> nat \<Rightarrow> bool" where
  "gap c sz a b \<longleftrightarrow> (if c then a + sz a < b else a + sz a \<le> b)"

definition fblocks :: "bool \<Rightarrow> (nat \<Rightarrow> nat) \<Rightarrow> nat \<Rightarrow> nat list \<Rightarrow> bool" where
  "fblocks c sz N xs \<longleftrightarrow>
     sorted_wrt (gap c sz) xs \<and> (\<forall>a \<in> set xs. 0 < sz a \<and> a + sz a \<le> N)"

definition extent :: "(nat \<Rightarrow> nat) \<Rightarrow> nat \<Rightarrow> nat set" where
  "extent sz a = {a ..< a + sz a}"

definition cover :: "(nat \<Rightarrow> nat) \<Rightarrow> nat list \<Rightarrow> nat set" where
  "cover sz xs = (\<Union>a \<in> set xs. extent sz a)"

lemma cover_simps [simp]:
  "cover sz [] = {}"
  "cover sz (a # xs) = extent sz a \<union> cover sz xs"
  "cover sz (xs @ ys) = cover sz xs \<union> cover sz ys"
  by (auto simp: cover_def)

lemma cover_cong: "(\<And>a. a \<in> set xs \<Longrightarrow> sz' a = sz a) \<Longrightarrow> cover sz' xs = cover sz xs"
  by (auto simp: cover_def extent_def)

lemma gap_le: "gap c sz a b \<Longrightarrow> a + sz a \<le> b"
  by (auto simp: gap_def split: if_splits)

lemma fblocks_cong:
  assumes "\<And>a. a \<in> set xs \<Longrightarrow> sz' a = sz a"
  shows "fblocks c sz' N xs = fblocks c sz N xs"
proof -
  have "sorted_wrt (gap c sz') xs = sorted_wrt (gap c sz) xs"
    using assms by (induction xs) (auto simp: gap_def)
  with assms show ?thesis by (simp add: fblocks_def)
qed

lemma fblocks_Nil [simp]: "fblocks c sz N []"
  by (simp add: fblocks_def)

lemma fblocks_append:
  "fblocks c sz N (xs @ ys) \<longleftrightarrow>
     fblocks c sz N xs \<and> fblocks c sz N ys \<and> (\<forall>a \<in> set xs. \<forall>b \<in> set ys. gap c sz a b)"
  by (auto simp: fblocks_def sorted_wrt_append)

lemma fblocks_Cons:
  "fblocks c sz N (a # xs) \<longleftrightarrow>
     0 < sz a \<and> a + sz a \<le> N \<and> (\<forall>b \<in> set xs. gap c sz a b) \<and> fblocks c sz N xs"
  by (auto simp: fblocks_def)

lemma fblocks_weaken: "fblocks c sz N xs \<Longrightarrow> fblocks False sz N xs"
  by (induction xs) (auto simp: fblocks_Cons gap_def split: if_splits)

lemma fblocks_member: "fblocks c sz N xs \<Longrightarrow> a \<in> set xs \<Longrightarrow> 0 < sz a \<and> a + sz a \<le> N"
  by (simp add: fblocks_def)

lemma fblocks_distinct: "fblocks c sz N xs \<Longrightarrow> distinct xs"
  by (induction xs) (fastforce simp: fblocks_Cons dest: gap_le)+

lemma fblocks_before:
  "fblocks c sz N xs \<Longrightarrow> a \<in> set xs \<Longrightarrow> b \<in> set xs \<Longrightarrow> a < b \<Longrightarrow> a + sz a \<le> b"
  by (induction xs) (fastforce simp: fblocks_Cons dest: gap_le)+

lemma fblocks_sum_le:
  "fblocks c sz N xs \<Longrightarrow> (\<And>a. a \<in> set xs \<Longrightarrow> a + sz a \<le> M) \<Longrightarrow> sum_list (map sz xs) \<le> M"
proof (induction xs arbitrary: M rule: rev_induct)
  case Nil
  then show ?case by simp
next
  case (snoc a xs)
  have "sum_list (map sz xs) \<le> a"
    using snoc.prems by (intro snoc.IH) (auto simp: fblocks_append dest: gap_le)
  moreover have "a + sz a \<le> M" using snoc.prems by simp
  ultimately show ?case by simp
qed

lemma fblocks_sum_bound: "fblocks c sz N xs \<Longrightarrow> sum_list (map sz xs) \<le> N"
  using fblocks_sum_le fblocks_member by metis

lemma fblocks_disjoint:
  "fblocks c sz N (xs @ a # ys) \<Longrightarrow> extent sz a \<inter> (cover sz xs \<union> cover sz ys) = {}"
  by (fastforce simp: fblocks_append fblocks_Cons cover_def extent_def dest: gap_le)

lemma cover_bound: "fblocks c sz N xs \<Longrightarrow> cover sz xs \<subseteq> {..<N}"
  by (auto simp: cover_def extent_def dest: fblocks_member)

lemma card_cover: "fblocks c sz N xs \<Longrightarrow> card (cover sz xs) = sum_list (map sz xs)"
proof (induction xs)
  case Nil
  then show ?case by simp
next
  case (Cons a xs)
  have "extent sz a \<inter> cover sz xs = {}"
    using fblocks_disjoint [of c sz N "[]" a xs] Cons.prems by simp
  then show ?case
    using Cons by (simp add: card_Un_disjoint fblocks_Cons cover_def extent_def)
qed

text \<open>In a fully merged list, consecutive covered indices lie in one block.\<close>

lemma merged_run:
  assumes "fblocks True sz N xs" and "0 < n" and "{p ..< p + n} \<subseteq> cover sz xs"
  shows "\<exists>a \<in> set xs. a \<le> p \<and> p + n \<le> a + sz a"
  using assms
proof (induction n)
  case 0
  then show ?case by simp
next
  case (Suc n)
  show ?case
  proof (cases "n = 0")
    case True
    then show ?thesis using Suc.prems by (auto simp: cover_def extent_def)
  next
    case False
    with Suc obtain a where a: "a \<in> set xs" "a \<le> p" "p + n \<le> a + sz a"
      by (auto simp: subset_iff)
    have "p + n \<in> cover sz xs" using Suc.prems(3) by auto
    then obtain b where b: "b \<in> set xs" "b \<le> p + n" "p + n < b + sz b"
      by (auto simp: cover_def extent_def)
    have "a = b"
    proof (rule ccontr)
      assume "a \<noteq> b"
      with a(1) b(1) Suc.prems(1) have "a + sz a < b \<or> b + sz b < a"
        by (induction xs) (auto simp: fblocks_Cons gap_def)
      with a b False show False by auto
    qed
    with a b show ?thesis by auto
  qed
qed

end
