(* ===== verification/Pmm_Manager.thy ===== *)
theory Pmm_Manager
  imports Pages
begin

text \<open>
  The interface \<^verbatim>\<open>struct pmm_manager\<close> of \<^verbatim>\<open>kern/mm/pmm.h\<close>, as a locale.  \<open>ok s F\<close> relates a
  manager state to the set \<open>F\<close> of free page indices; the laws say what allocation and
  deallocation do to that set.  The client lemma proved here covers every sequence of
  requests: no request panics, blocks handed out never overlap, and no page is lost.
\<close>

section \<open>Runs of requests\<close>

datatype pmm_req = ReqAlloc u32 | ReqFree nat

definition block :: "nat \<times> u32 \<Rightarrow> nat set" where
  "block b = {fst b ..< fst b + unat (snd b)}"

text \<open>\<open>live\<close> lists the blocks a client holds; \<open>ReqFree k\<close> returns the \<open>k\<close>-th of them.\<close>

fun pmm_run ::
  "('s \<Rightarrow> u32 \<Rightarrow> (nat option \<times> 's) prog) \<Rightarrow> ('s \<Rightarrow> nat \<Rightarrow> u32 \<Rightarrow> 's prog) \<Rightarrow>
   pmm_req list \<Rightarrow> 's \<Rightarrow> (nat \<times> u32) list \<Rightarrow> ('s \<times> (nat \<times> u32) list) prog" where
  "pmm_run alloc free [] s live = kret (s, live)"
| "pmm_run alloc free (ReqAlloc n # rs) s live =
     kbind (alloc s n) (\<lambda>(r, s').
       pmm_run alloc free rs s' (case r of None \<Rightarrow> live | Some p \<Rightarrow> (p, n) # live))"
| "pmm_run alloc free (ReqFree k # rs) s live =
     (if k < length live
      then kbind (free s (fst (live ! k)) (snd (live ! k))) (\<lambda>s'.
             pmm_run alloc free rs s' (take k live @ drop (Suc k) live))
      else pmm_run alloc free rs s live)"

definition req_ok :: "pmm_req \<Rightarrow> bool" where
  "req_ok r = (case r of ReqAlloc n \<Rightarrow> 0 < n | ReqFree _ \<Rightarrow> True)"

definition live_ok :: "nat set \<Rightarrow> nat set \<Rightarrow> (nat \<times> u32) list \<Rightarrow> bool" where
  "live_ok M F live \<longleftrightarrow>
     (\<forall>b \<in> set live. 0 < snd b \<and> block b \<subseteq> M - F) \<and>
     sorted_wrt (\<lambda>a b. block a \<inter> block b = {}) live"

definition held :: "(nat \<times> u32) list \<Rightarrow> nat set" where
  "held live = (\<Union>b \<in> set live. block b)"

lemma live_ok_remove:
  assumes "live_ok M F (xs @ b # ys)"
  shows "live_ok M (F \<union> block b) (xs @ ys)"
    and "F \<union> held (xs @ b # ys) = F \<union> block b \<union> held (xs @ ys)"
proof -
  have "\<And>a. a \<in> set xs \<union> set ys \<Longrightarrow> block a \<inter> block b = {}"
    using assms by (auto simp: live_ok_def sorted_wrt_append)
  then show "live_ok M (F \<union> block b) (xs @ ys)"
    using assms by (auto simp: live_ok_def sorted_wrt_append)
  show "F \<union> held (xs @ b # ys) = F \<union> block b \<union> held (xs @ ys)"
    by (auto simp: held_def)
qed

lemma live_ok_add:
  assumes "live_ok M F live" and "block b \<subseteq> F" and "F \<subseteq> M" and "0 < snd b"
  shows "live_ok M (F - block b) (b # live)"
    and "F - block b \<union> held (b # live) = F \<union> held live"
  using assms by (fastforce simp: live_ok_def held_def)+

section \<open>The interface\<close>

locale pmm_manager =
  fixes ok :: "'s \<Rightarrow> nat set \<Rightarrow> bool"
    and managed :: "nat set"
    and alloc :: "'s \<Rightarrow> u32 \<Rightarrow> (nat option \<times> 's) prog"
    and free :: "'s \<Rightarrow> nat \<Rightarrow> u32 \<Rightarrow> 's prog"
    and nr :: "'s \<Rightarrow> u32"
  assumes alloc_law: "ok s F \<Longrightarrow> 0 < n \<Longrightarrow> \<exists>r s'. alloc s n = kret (r, s') \<and>
      (case r of
         None \<Rightarrow> s' = s \<and> (\<forall>p. \<not> block (p, n) \<subseteq> F)
       | Some p \<Rightarrow> block (p, n) \<subseteq> F \<and> ok s' (F - block (p, n)))"
    and free_law: "ok s F \<Longrightarrow> 0 < n \<Longrightarrow> block (p, n) \<subseteq> managed - F \<Longrightarrow>
      \<exists>s'. free s p n = kret s' \<and> ok s' (F \<union> block (p, n))"
    and nr_law: "ok s F \<Longrightarrow> unat (nr s) = card F"
    and ok_managed: "ok s F \<Longrightarrow> F \<subseteq> managed"
begin

lemma alloc_free_restores:
  assumes "ok s F" and "0 < n" and "alloc s n = kret (Some p, s')"
  shows "\<exists>s''. free s' p n = kret s'' \<and> ok s'' F"
proof -
  have b: "block (p, n) \<subseteq> F" and ok': "ok s' (F - block (p, n))"
    using alloc_law [OF assms(1,2)] assms(3) by auto
  have "block (p, n) \<subseteq> managed - (F - block (p, n))"
    using b ok_managed [OF assms(1)] by auto
  from free_law [OF ok' assms(2) this] b show ?thesis
    by (auto simp: Un_absorb2)
qed

lemma run_safe:
  assumes "ok s F" and "live_ok managed F live" and "\<forall>r \<in> set rs. req_ok r"
  shows "\<exists>s' live' F'. pmm_run alloc free rs s live = kret (s', live') \<and>
    ok s' F' \<and> live_ok managed F' live' \<and> F' \<union> held live' = F \<union> held live"
  using assms
proof (induction rs arbitrary: s F live)
  case Nil
  then show ?case by auto
next
  case (Cons r rs)
  show ?case
  proof (cases r)
    case (ReqAlloc n)
    then have n: "0 < n" using Cons.prems(3) by (simp add: req_ok_def)
    obtain q s1 where a: "alloc s n = kret (q, s1)" and
      q: "case q of None \<Rightarrow> s1 = s | Some p \<Rightarrow> block (p, n) \<subseteq> F \<and> ok s1 (F - block (p, n))"
      using alloc_law [OF Cons.prems(1) n] by (auto split: option.splits)
    show ?thesis
    proof (cases q)
      case None
      then show ?thesis using Cons a q ReqAlloc by simp
    next
      case (Some p)
      with q have b: "block (p, n) \<subseteq> F" and ok1: "ok s1 (F - block (p, n))" by auto
      note L = live_ok_add [OF Cons.prems(2) b ok_managed [OF Cons.prems(1)]]
      show ?thesis
        using Cons.IH [OF ok1 L(1)] L(2) Cons.prems(3) n a Some ReqAlloc by simp
    qed
  next
    case (ReqFree k)
    show ?thesis
    proof (cases "k < length live")
      case True
      let ?b = "live ! k" and ?l = "take k live @ drop (Suc k) live"
      have split: "live = take k live @ ?b # drop (Suc k) live"
        using True by (rule id_take_nth_drop)
      have b: "0 < snd ?b" "block (fst ?b, snd ?b) \<subseteq> managed - F"
        using Cons.prems(2) True by (auto simp: live_ok_def)
      obtain s1 where f: "free s (fst ?b) (snd ?b) = kret s1" and ok1: "ok s1 (F \<union> block ?b)"
        using free_law [OF Cons.prems(1) b] by auto
      note L = live_ok_remove [of managed F "take k live" ?b "drop (Suc k) live",
          folded split, OF Cons.prems(2)]
      show ?thesis
        using Cons.IH [OF ok1 L(1)] L(2) Cons.prems(3) f True ReqFree by simp
    next
      case False
      then show ?thesis using Cons ReqFree by simp
    qed
  qed
qed

end

end
