(* ===== verification/Default_Pmm.thy ===== *)
theory Default_Pmm
  imports Pmm_Manager
begin

text \<open>
  The default physical memory manager, \<^verbatim>\<open>kern/mm/default_pmm.c\<close>: a free list of blocks of
  consecutive pages in address order, with first-fit, best-fit and worst-fit allocation and a
  deallocation that merges adjacent blocks.  \<open>pmm_inv\<close> is the representation invariant;
  the lemmas show that every operation returns without a panic from a state of the invariant,
  restores it, and changes the set of free pages by exactly the pages requested or returned.
\<close>

section \<open>Operations\<close>

definition default_init :: "pmm \<Rightarrow> pmm" where
  "default_init s = s\<lparr>free_list := list_init (free_list s) Head, nr_free := 0\<rparr>"

fun init_pages :: "nat \<Rightarrow> nat \<Rightarrow> (nat \<Rightarrow> page) \<Rightarrow> (nat \<Rightarrow> page) prog" where
  "init_pages 0 p pg = kret pg"
| "init_pages (Suc k) p pg =
     kassert (PageReserved (pg p))
       (let pg = pg(p := (pg p)\<lparr>flags := 0, property := 0\<rparr>);
            pg = pg(p := set_page_ref (pg p) 0)
        in init_pages k (Suc p) pg)"

definition default_init_memmap :: "pmm \<Rightarrow> nat \<Rightarrow> u32 \<Rightarrow> pmm prog" where
  "default_init_memmap s base n =
     kassert (n > 0)
       (kbind (init_pages (unat n) base (pages s)) (\<lambda>pg.
          let pg = pg(base := (pg base)\<lparr>property := n\<rparr>);
              pg = pg(base := SetPageProperty (pg base))
          in kret (s\<lparr>pages := pg, nr_free := nr_free s + n,
                     free_list := list_add_before (free_list s) Head (Link base)\<rparr>)))"

text \<open>The search loops of the three allocation policies.\<close>

partial_function (option) first_fit_loop :: "pmm \<Rightarrow> u32 \<Rightarrow> lnode \<Rightarrow> nat option prog" where
  "first_fit_loop s num le =
     (case list_next (free_list s) le of
        Head \<Rightarrow> kret None
      | Link ptr \<Rightarrow>
          if property (pages s ptr) \<ge> num then kret (Some ptr)
          else first_fit_loop s num (Link ptr))"

partial_function (option) best_fit_loop ::
  "pmm \<Rightarrow> u32 \<Rightarrow> nat option \<Rightarrow> u32 \<Rightarrow> lnode \<Rightarrow> nat option prog" where
  "best_fit_loop s num page legal_page_min_size le =
     (case list_next (free_list s) le of
        Head \<Rightarrow> kret page
      | Link ptr \<Rightarrow>
          if property (pages s ptr) \<ge> num \<and> property (pages s ptr) < legal_page_min_size
          then best_fit_loop s num (Some ptr) (property (pages s ptr)) (Link ptr)
          else best_fit_loop s num page legal_page_min_size (Link ptr))"

partial_function (option) worst_fit_loop ::
  "pmm \<Rightarrow> u32 \<Rightarrow> nat option \<Rightarrow> u32 \<Rightarrow> lnode \<Rightarrow> nat option prog" where
  "worst_fit_loop s num page max_page_size le =
     (case list_next (free_list s) le of
        Head \<Rightarrow> kret page
      | Link ptr \<Rightarrow>
          if property (pages s ptr) \<ge> num \<and> property (pages s ptr) \<ge> max_page_size
          then worst_fit_loop s num (Some ptr) (property (pages s ptr)) (Link ptr)
          else worst_fit_loop s num page max_page_size (Link ptr))"

text \<open>The common tail of the three policies: unlink the block, put the rest of a larger block
  in its place through the stale links of the unlinked entry, and unlink once more.\<close>

definition alloc_take :: "pmm \<Rightarrow> nat \<Rightarrow> u32 \<Rightarrow> pmm" where
  "alloc_take s page num =
     (let fl = list_del (free_list s) (Link page);
          p = page + unat num;
          split = (property (pages s page) > num);
          pg = (if split
                then (pages s)(p := SetPageProperty
                       ((pages s p)\<lparr>property := property (pages s page) - num\<rparr>))
                else pages s);
          fl = (if split then list_add_after fl (Link page) (Link p) else fl);
          fl = list_del fl (Link page);
          pg = pg(page := ClearPageProperty (pg page))
      in s\<lparr>pages := pg, free_list := fl, nr_free := nr_free s - num\<rparr>)"

definition alloc_finish :: "pmm \<Rightarrow> u32 \<Rightarrow> nat option \<Rightarrow> (nat option \<times> pmm) prog" where
  "alloc_finish s num page =
     (case page of
        None \<Rightarrow> kret (None, s)
      | Some p \<Rightarrow> kret (Some p, alloc_take s p num))"

definition default_alloc_pages :: "pmm \<Rightarrow> u32 \<Rightarrow> (nat option \<times> pmm) prog" where
  "default_alloc_pages s num =
     kassert (num > 0)
       (if num > nr_free s then kret (None, s)
        else kbind (first_fit_loop s num Head) (alloc_finish s num))"

text \<open>\<^verbatim>\<open>int legal_page_min_size = 0x7ffffffff\<close> does not fit an \<^verbatim>\<open>int\<close>: the initialiser keeps
  the low 32 bits, and the comparison with the unsigned \<^verbatim>\<open>property\<close> is unsigned.\<close>

definition default_alloc_pages_best_fit :: "pmm \<Rightarrow> u32 \<Rightarrow> (nat option \<times> pmm) prog" where
  "default_alloc_pages_best_fit s num =
     kassert (num > 0)
       (if num > nr_free s then kret (None, s)
        else kbind (best_fit_loop s num None (word_of_int 0x7ffffffff) Head)
               (alloc_finish s num))"

definition default_alloc_pages_worst_fit :: "pmm \<Rightarrow> u32 \<Rightarrow> (nat option \<times> pmm) prog" where
  "default_alloc_pages_worst_fit s num =
     kassert (num > 0)
       (if num > nr_free s then kret (None, s)
        else kbind (worst_fit_loop s num None 0 Head) (alloc_finish s num))"

fun free_prepare :: "nat \<Rightarrow> nat \<Rightarrow> (nat \<Rightarrow> page) \<Rightarrow> (nat \<Rightarrow> page) prog" where
  "free_prepare 0 ptr pg = kret pg"
| "free_prepare (Suc k) ptr pg =
     kassert (\<not> PageReserved (pg ptr) \<and> \<not> PageProperty (pg ptr))
       (let pg = pg(ptr := (pg ptr)\<lparr>flags := 0\<rparr>);
            pg = pg(ptr := set_page_ref (pg ptr) 0)
        in free_prepare k (Suc ptr) pg)"

definition merge_right :: "pmm \<Rightarrow> nat \<Rightarrow> nat \<Rightarrow> pmm" where
  "merge_right s base ptr =
     (let pg = pages s;
          pg = pg(base := (pg base)\<lparr>property := property (pg base) + property (pg ptr)\<rparr>);
          pg = pg(ptr := ClearPageProperty (pg ptr))
      in s\<lparr>pages := pg, free_list := list_del (free_list s) (Link ptr)\<rparr>)"

definition merge_left :: "pmm \<Rightarrow> nat \<Rightarrow> nat \<Rightarrow> pmm" where
  "merge_left s base ptr =
     (let pg = pages s;
          pg = pg(ptr := (pg ptr)\<lparr>property := property (pg ptr) + property (pg base)\<rparr>);
          pg = pg(base := ClearPageProperty (pg base))
      in s\<lparr>pages := pg, free_list := list_del (free_list s) (Link ptr)\<rparr>)"

partial_function (option) merge_loop :: "pmm \<Rightarrow> nat \<Rightarrow> lnode \<Rightarrow> (pmm \<times> nat) prog" where
  "merge_loop s base le =
     (case list_next (free_list s) le of
        Head \<Rightarrow> kret (s, base)
      | Link ptr \<Rightarrow>
          if base + unat (property (pages s base)) = ptr
          then merge_loop (merge_right s base ptr) base (Link ptr)
          else if ptr + unat (property (pages s ptr)) = base
          then merge_loop (merge_left s base ptr) ptr (Link ptr)
          else merge_loop s base (Link ptr))"

partial_function (option) place_loop :: "pmm \<Rightarrow> nat \<Rightarrow> lnode \<Rightarrow> lnode prog" where
  "place_loop s base le =
     (case list_next (free_list s) le of
        Head \<Rightarrow> kret Head
      | Link ptr \<Rightarrow>
          if base + unat (property (pages s base)) \<le> ptr
          then kassert (base + unat (property (pages s base)) \<noteq> ptr) (kret (Link ptr))
          else place_loop s base (Link ptr))"

definition default_free_pages :: "pmm \<Rightarrow> nat \<Rightarrow> u32 \<Rightarrow> pmm prog" where
  "default_free_pages s base num =
     kassert (num > 0)
       (kbind (free_prepare (unat num) base (pages s)) (\<lambda>pg.
          let pg = pg(base := (pg base)\<lparr>property := num\<rparr>);
              pg = pg(base := SetPageProperty (pg base))
          in kbind (merge_loop (s\<lparr>pages := pg\<rparr>) base Head) (\<lambda>(s, base).
               let s = s\<lparr>nr_free := nr_free s + num\<rparr>
               in kbind (place_loop s base Head) (\<lambda>le.
                    kret (s\<lparr>free_list := list_add_before (free_list s) le (Link base)\<rparr>)))))"

definition default_nr_free_pages :: "pmm \<Rightarrow> u32" where
  "default_nr_free_pages s = nr_free s"

section \<open>The representation invariant\<close>

definition bsize :: "pmm \<Rightarrow> nat \<Rightarrow> nat" where
  "bsize s i = unat (property (pages s i))"

text \<open>\<open>pmm_inv c N s xs\<close>: the free list of \<open>s\<close> represents the block heads \<open>xs\<close>, blocks are
  in address order, disjoint and below \<open>N\<close> (with \<open>c\<close>: fully merged), exactly the block heads
  carry the property flag, no free page is reserved, and \<^verbatim>\<open>nr_free\<close> counts the free pages.\<close>

definition pmm_inv :: "bool \<Rightarrow> nat \<Rightarrow> pmm \<Rightarrow> nat list \<Rightarrow> bool" where
  "pmm_inv c N s xs \<longleftrightarrow>
     N < 2 ^ 32 - 1 \<and>
     dlist (free_list s) Head (map Link xs) \<and>
     fblocks c (bsize s) N xs \<and>
     (\<forall>i < N. PageProperty (pages s i) \<longleftrightarrow> i \<in> set xs) \<and>
     (\<forall>i \<in> cover (bsize s) xs. \<not> PageReserved (pages s i)) \<and>
     unat (nr_free s) = sum_list (map (bsize s) xs)"

definition free_set :: "pmm \<Rightarrow> nat list \<Rightarrow> nat set" where
  "free_set s xs = cover (bsize s) xs"

section \<open>Searching the free list\<close>

lemma first_fit_loop_find:
  assumes "dlist (free_list s) Head (map Link (ds @ rs))"
    and "lnext (free_list s) le = first_entry rs"
  shows "first_fit_loop s num le = kret (find (\<lambda>p. num \<le> property (pages s p)) rs)"
  using assms
proof (induction rs arbitrary: ds le)
  case Nil
  then show ?case by (simp add: first_fit_loop.simps [of s num le] list_next_def)
next
  case (Cons r rs)
  have "first_fit_loop s num (Link r) = kret (find (\<lambda>p. num \<le> property (pages s p)) rs)"
    using Cons.prems(1) by (intro Cons.IH [of "ds @ [r]"]) (auto simp: link_next)
  then show ?case
    using Cons.prems(2) by (simp add: first_fit_loop.simps [of s num le] list_next_def)
qed

text \<open>What the other two searches compute, as functions of the list of blocks.\<close>

fun best_scan :: "(nat \<Rightarrow> u32) \<Rightarrow> u32 \<Rightarrow> nat option \<Rightarrow> u32 \<Rightarrow> nat list \<Rightarrow> nat option" where
  "best_scan sz num page m [] = page"
| "best_scan sz num page m (r # rs) =
     (if num \<le> sz r \<and> sz r < m then best_scan sz num (Some r) (sz r) rs
      else best_scan sz num page m rs)"

fun worst_scan :: "(nat \<Rightarrow> u32) \<Rightarrow> u32 \<Rightarrow> nat option \<Rightarrow> u32 \<Rightarrow> nat list \<Rightarrow> nat option" where
  "worst_scan sz num page m [] = page"
| "worst_scan sz num page m (r # rs) =
     (if num \<le> sz r \<and> m \<le> sz r then worst_scan sz num (Some r) (sz r) rs
      else worst_scan sz num page m rs)"

lemma best_fit_loop_scan:
  assumes "dlist (free_list s) Head (map Link (ds @ rs))"
    and "lnext (free_list s) le = first_entry rs"
  shows "best_fit_loop s num page m le =
    kret (best_scan (\<lambda>p. property (pages s p)) num page m rs)"
  using assms
proof (induction rs arbitrary: ds le page m)
  case Nil
  then show ?case by (simp add: best_fit_loop.simps [of s num page m le] list_next_def)
next
  case (Cons r rs)
  have "best_fit_loop s num page m (Link r) =
      kret (best_scan (\<lambda>p. property (pages s p)) num page m rs)" for page m
    using Cons.prems(1) by (intro Cons.IH [of "ds @ [r]"]) (auto simp: link_next)
  then show ?case
    using Cons.prems(2) by (simp add: best_fit_loop.simps [of s num page m le] list_next_def)
qed

lemma worst_fit_loop_scan:
  assumes "dlist (free_list s) Head (map Link (ds @ rs))"
    and "lnext (free_list s) le = first_entry rs"
  shows "worst_fit_loop s num page m le =
    kret (worst_scan (\<lambda>p. property (pages s p)) num page m rs)"
  using assms
proof (induction rs arbitrary: ds le page m)
  case Nil
  then show ?case by (simp add: worst_fit_loop.simps [of s num page m le] list_next_def)
next
  case (Cons r rs)
  have "worst_fit_loop s num page m (Link r) =
      kret (worst_scan (\<lambda>p. property (pages s p)) num page m rs)" for page m
    using Cons.prems(1) by (intro Cons.IH [of "ds @ [r]"]) (auto simp: link_next)
  then show ?case
    using Cons.prems(2) by (simp add: worst_fit_loop.simps [of s num page m le] list_next_def)
qed

lemma best_scan_cases:
  "best_scan sz num page m rs = page \<and> (\<forall>p \<in> set rs. num \<le> sz p \<longrightarrow> m \<le> sz p) \<or>
   (\<exists>q \<in> set rs. best_scan sz num page m rs = Some q \<and> num \<le> sz q \<and> sz q < m \<and>
      (\<forall>p \<in> set rs. num \<le> sz p \<longrightarrow> sz q \<le> sz p))"
proof (induction rs arbitrary: page m)
  case Nil
  then show ?case by simp
next
  case (Cons r rs)
  show ?case
  proof (cases "num \<le> sz r \<and> sz r < m")
    case True
    then show ?thesis using Cons.IH [of "Some r" "sz r"] by (auto 4 3)
  next
    case False
    then show ?thesis using Cons.IH [of page m] by (auto 4 3 simp: not_less)
  qed
qed

lemma worst_scan_cases:
  "worst_scan sz num page m rs = page \<and> (\<forall>p \<in> set rs. num \<le> sz p \<longrightarrow> sz p < m) \<or>
   (\<exists>q \<in> set rs. worst_scan sz num page m rs = Some q \<and> num \<le> sz q \<and> m \<le> sz q \<and>
      (\<forall>p \<in> set rs. num \<le> sz p \<longrightarrow> sz p \<le> sz q))"
proof (induction rs arbitrary: page m)
  case Nil
  then show ?case by simp
next
  case (Cons r rs)
  show ?case
  proof (cases "num \<le> sz r \<and> m \<le> sz r")
    case True
    then show ?thesis using Cons.IH [of "Some r" "sz r"] by (auto 4 3)
  next
    case False
    then show ?thesis using Cons.IH [of page m] by (auto 4 3 simp: not_le)
  qed
qed

section \<open>Taking a block\<close>

lemma pmm_inv_parts:
  assumes "pmm_inv c N s xs"
  shows "dlist (free_list s) Head (map Link xs)" and "fblocks c (bsize s) N xs"
    and "\<And>i. i < N \<Longrightarrow> PageProperty (pages s i) \<longleftrightarrow> i \<in> set xs"
    and "\<And>i. i \<in> cover (bsize s) xs \<Longrightarrow> \<not> PageReserved (pages s i)"
    and "unat (nr_free s) = sum_list (map (bsize s) xs)" and "N < 2 ^ 32 - 1"
  using assms by (simp_all add: pmm_inv_def)

lemma pmm_inv_weaken: "pmm_inv c N s xs \<Longrightarrow> pmm_inv False N s xs"
  by (auto simp: pmm_inv_def intro: fblocks_weaken)

lemma alloc_take_reserved [simp]:
  "PageReserved (pages (alloc_take s a num) i) = PageReserved (pages s i)"
  by (simp add: alloc_take_def Let_def)

lemma alloc_take_ref [simp]: "page_ref (pages (alloc_take s a num) i) = page_ref (pages s i)"
  by (simp add: alloc_take_def Let_def)

lemma alloc_take_property:
  "PageProperty (pages (alloc_take s a num) i) \<longleftrightarrow>
     i \<noteq> a \<and> (PageProperty (pages s i) \<or> num < property (pages s a) \<and> i = a + unat num)"
  by (simp add: alloc_take_def Let_def)

lemma alloc_take_nr_free [simp]: "nr_free (alloc_take s a num) = nr_free s - num"
  by (simp add: alloc_take_def Let_def)

lemma alloc_take_bsize:
  "num \<noteq> 0 \<Longrightarrow> bsize (alloc_take s a num) =
     (if num < property (pages s a) then (bsize s)(a + unat num := bsize s a - unat num)
      else bsize s)"
  by (auto simp: alloc_take_def Let_def bsize_def fun_eq_iff unat_diff_le word_less_nat_alt)

lemma alloc_take_exact:
  assumes inv: "pmm_inv c N s (xs @ a # ys)" and sz: "property (pages s a) = num"
  shows "pmm_inv c N (alloc_take s a num) (xs @ ys)"
    and "free_set (alloc_take s a num) (xs @ ys) =
      free_set s (xs @ a # ys) - {a ..< a + unat num}"
proof -
  note I = pmm_inv_parts [OF inv]
  let ?s = "alloc_take s a num"
  have a: "a \<notin> set (xs @ ys)" "a < N"
    using fblocks_distinct [OF I(2)] fblocks_member [OF I(2), of a] by auto
  have bs: "bsize ?s = bsize s"
    using sz by (auto simp: alloc_take_def Let_def bsize_def fun_eq_iff)
  have dl: "dlist (free_list s) Head (map Link xs @ Link a # map Link ys)"
    using I(1) by simp
  have "free_list ?s = list_del (free_list s) (Link a)"
    using sz list_del_twice [OF dl] by (simp add: alloc_take_def Let_def)
  then have 1: "dlist (free_list ?s) Head (map Link (xs @ ys))"
    using dlist_del [OF dl] by simp
  have 2: "fblocks c (bsize ?s) N (xs @ ys)"
    using I(2) by (auto simp: bs fblocks_append fblocks_Cons)
  have 3: "PageProperty (pages ?s i) \<longleftrightarrow> i \<in> set (xs @ ys)" if "i < N" for i
    using I(3) [OF that] a sz by (auto simp: alloc_take_property)
  have 4: "\<not> PageReserved (pages ?s i)" if "i \<in> cover (bsize ?s) (xs @ ys)" for i
    using I(4) [of i] that by (auto simp: bs)
  have "num \<le> nr_free s"
    using I(5) sz by (simp add: word_le_nat_alt bsize_def)
  then have 5: "unat (nr_free ?s) = sum_list (map (bsize ?s) (xs @ ys))"
    using I(5) sz by (simp add: bs unat_sub bsize_def)
  show "pmm_inv c N ?s (xs @ ys)"
    using 1 2 3 4 5 I(6) by (simp add: pmm_inv_def)
  show "free_set ?s (xs @ ys) = free_set s (xs @ a # ys) - {a ..< a + unat num}"
    using fblocks_disjoint [OF I(2)] sz
    by (auto simp: free_set_def bs extent_def bsize_def)
qed

lemma alloc_take_split:
  assumes inv: "pmm_inv c N s (xs @ a # ys)"
    and sz: "num < property (pages s a)" and pos: "0 < num"
  shows "pmm_inv c N (alloc_take s a num) (xs @ (a + unat num) # ys)"
    and "free_set (alloc_take s a num) (xs @ (a + unat num) # ys) =
      free_set s (xs @ a # ys) - {a ..< a + unat num}"
proof -
  note I = pmm_inv_parts [OF inv]
  let ?s = "alloc_take s a num" and ?p = "a + unat num"
  have n: "0 < unat num" "unat num < bsize s a"
    using sz pos by (simp_all add: bsize_def word_less_nat_alt unat_gt_0)
  have a: "a \<notin> set (xs @ ys)" "a + bsize s a \<le> N"
    using fblocks_distinct [OF I(2)] fblocks_member [OF I(2), of a] by auto
  have p: "?p \<notin> set (xs @ a # ys)"
    using n fblocks_before [OF I(2), of a ?p] by auto
  have bs: "bsize ?s = (bsize s)(?p := bsize s a - unat num)"
    using sz pos by (simp add: alloc_take_bsize)
  have same: "\<And>i. i \<in> set (xs @ ys) \<Longrightarrow> bsize ?s i = bsize s i"
    using p by (auto simp: bs)
  have dl: "dlist (free_list s) Head (map Link xs @ Link a # map Link ys)"
    using I(1) by simp
  have 1: "dlist (free_list ?s) Head (map Link (xs @ ?p # ys))"
    using dlist_replace [OF dl, of "Link ?p"] p sz by (auto simp: alloc_take_def Let_def)
  have 2: "fblocks c (bsize ?s) N (xs @ ?p # ys)"
  proof -
    have "fblocks c (bsize ?s) N xs \<longleftrightarrow> fblocks c (bsize s) N xs"
      "fblocks c (bsize ?s) N ys \<longleftrightarrow> fblocks c (bsize s) N ys"
      using same by (auto intro!: fblocks_cong)
    then have "fblocks c (bsize ?s) N xs" "fblocks c (bsize ?s) N ys"
      using I(2) by (simp_all add: fblocks_append fblocks_Cons)
    moreover have "gap c (bsize ?s) x ?p" "gap c (bsize ?s) x y" "gap c (bsize ?s) ?p y"
      if "x \<in> set xs" "y \<in> set ys" for x y
      using I(2) that n same [of x] by (auto simp: bs fblocks_append fblocks_Cons gap_def)
    ultimately show ?thesis
      using n a(2) I(2) same
      by (auto simp: bs fblocks_append fblocks_Cons gap_def split: if_splits)
  qed
  have cov: "cover (bsize ?s) (xs @ ?p # ys) = cover (bsize s) (xs @ a # ys) - {a ..< ?p}"
  proof -
    have "cover (bsize ?s) xs = cover (bsize s) xs" "cover (bsize ?s) ys = cover (bsize s) ys"
      using same by (auto intro!: cover_cong)
    moreover have "extent (bsize ?s) ?p = extent (bsize s) a - {a ..< ?p}"
      using n by (auto simp: bs extent_def)
    moreover have "{a ..< ?p} \<subseteq> extent (bsize s) a" using n by (auto simp: extent_def)
    ultimately show ?thesis using fblocks_disjoint [OF I(2)] by auto
  qed
  have 3: "PageProperty (pages ?s i) \<longleftrightarrow> i \<in> set (xs @ ?p # ys)" if "i < N" for i
    using I(3) [OF that] a(1) p sz n(1) by (auto simp: alloc_take_property)
  have 4: "\<not> PageReserved (pages ?s i)" if "i \<in> cover (bsize ?s) (xs @ ?p # ys)" for i
    using I(4) [of i] that unfolding cov by simp
  have "sum_list (map (bsize ?s) xs) = sum_list (map (bsize s) xs)"
    "sum_list (map (bsize ?s) ys) = sum_list (map (bsize s) ys)"
    using same by (auto intro!: arg_cong [where f = sum_list])
  moreover have "bsize ?s ?p = bsize s a - unat num" by (simp add: bs)
  moreover have "unat num \<le> unat (nr_free s)" using I(5) n by simp
  ultimately have 5: "unat (nr_free ?s) = sum_list (map (bsize ?s) (xs @ ?p # ys))"
    using I(5) n by (simp add: unat_diff_le)
  show "pmm_inv c N ?s (xs @ ?p # ys)"
    using 1 2 3 4 5 I(6) by (simp add: pmm_inv_def)
  show "free_set ?s (xs @ ?p # ys) = free_set s (xs @ a # ys) - {a ..< ?p}"
    using cov by (simp add: free_set_def)
qed

section \<open>Merging a returned block\<close>

text \<open>The state of the merging loop, as arithmetic on blocks: \<open>ds\<close> are the entries the loop has
  passed, \<open>rs\<close> the ones it has still to visit, and \<open>base\<close> is the block being returned.\<close>

definition merging :: "bool \<Rightarrow> (nat \<Rightarrow> nat) \<Rightarrow> nat \<Rightarrow> nat \<Rightarrow> nat list \<Rightarrow> nat list \<Rightarrow> bool" where
  "merging c sz N base ds rs \<longleftrightarrow>
     fblocks c sz N (ds @ rs) \<and> 0 < sz base \<and> base + sz base \<le> N \<and>
     (\<forall>d \<in> set (ds @ rs). d + sz d \<le> base \<or> base + sz base \<le> d) \<and>
     (\<forall>d \<in> set ds. base + sz base \<noteq> d \<and> (c \<longrightarrow> d + sz d \<noteq> base))"

lemma merging_notin: "merging c sz N base ds rs \<Longrightarrow> base \<notin> set (ds @ rs)"
  unfolding merging_def by (metis add_le_same_cancel1 leD)

lemma merging_right:
  assumes m: "merging c sz N base ds (r # rs)" and r: "base + sz base = r"
  shows "merging c (sz(base := sz base + sz r)) N base ds rs"
proof -
  let ?sz = "sz(base := sz base + sz r)"
  have nb: "base \<notin> set (ds @ rs)" using merging_notin [OF m] by simp
  have fb: "fblocks c sz N (ds @ rs)" and gaps: "\<And>d. d \<in> set ds \<Longrightarrow> d + sz d \<le> r"
    "\<And>d. d \<in> set rs \<Longrightarrow> r + sz r \<le> d" and r1: "0 < sz r" "r + sz r \<le> N"
    using m by (auto simp: merging_def fblocks_append fblocks_Cons dest: gap_le)
  have "fblocks c ?sz N (ds @ rs) \<longleftrightarrow> fblocks c sz N (ds @ rs)"
    using nb by (intro fblocks_cong) auto
  moreover have "d + sz d \<le> base \<or> base + (sz base + sz r) \<le> d" if "d \<in> set (ds @ rs)" for d
    using that m gaps [of d] r fblocks_member [OF fb, of d] by (fastforce simp: merging_def)
  moreover have "base + (sz base + sz r) \<noteq> d" "c \<longrightarrow> d + sz d \<noteq> base" if "d \<in> set ds" for d
    using that m gaps(1) [of d] r r1 by (auto simp: merging_def)
  ultimately show ?thesis
    using fb nb r r1 unfolding merging_def by (auto simp: fun_upd_def)
qed

lemma merging_left:
  assumes m: "merging c sz N base ds (r # rs)" and r: "r + sz r = base"
  shows "merging c (sz(r := sz r + sz base)) N r ds rs"
proof -
  let ?sz = "sz(r := sz r + sz base)"
  have fb: "fblocks c sz N (ds @ rs)" and gaps: "\<And>d. d \<in> set ds \<Longrightarrow> gap c sz d r"
    "\<And>d. d \<in> set rs \<Longrightarrow> r + sz r \<le> d" and r1: "0 < sz r" "base + sz base \<le> N"
    using m by (auto simp: merging_def fblocks_append fblocks_Cons dest: gap_le)
  have nr: "r \<notin> set (ds @ rs)"
    using m fblocks_distinct [of c sz N "ds @ r # rs"] by (auto simp: merging_def)
  have "fblocks c ?sz N (ds @ rs) \<longleftrightarrow> fblocks c sz N (ds @ rs)"
    using nr by (intro fblocks_cong) auto
  moreover have "d + sz d \<le> r \<or> r + (sz r + sz base) \<le> d" if "d \<in> set (ds @ rs)" for d
  proof (cases "d \<in> set ds")
    case True
    then show ?thesis using gap_le [OF gaps(1)] by auto
  next
    case False
    with that have d: "d \<in> set rs" by simp
    with m have "d + sz d \<le> base \<or> base + sz base \<le> d" by (simp add: merging_def)
    then show ?thesis using gaps(2) [OF d] fblocks_member [OF fb that] r by linarith
  qed
  moreover have "r + (sz r + sz base) \<noteq> d" "c \<longrightarrow> d + sz d \<noteq> r" if "d \<in> set ds" for d
    using that m gaps(1) [OF that] r by (auto simp: merging_def gap_def)
  ultimately show ?thesis
    using fb nr r r1 unfolding merging_def by (auto simp: fun_upd_def)
qed

lemma merging_skip:
  assumes "merging c sz N base ds (r # rs)" and "base + sz base \<noteq> r" and "r + sz r \<noteq> base"
  shows "merging c sz N base (ds @ [r]) rs"
  using assms by (auto simp: merging_def)

text \<open>After the loop the returned block has a unique place in the list.\<close>

lemma merging_place:
  assumes m: "merging c sz N base xs []"
  obtains bs as where "xs = bs @ as" and "\<And>b. b \<in> set bs \<Longrightarrow> b + sz b \<le> base"
    and "\<And>a. a \<in> set as \<Longrightarrow> base + sz base < a" and "fblocks c sz N (bs @ base # as)"
proof
  let ?bs = "takeWhile (\<lambda>d. d < base) xs" and ?as = "dropWhile (\<lambda>d. d < base) xs"
  have fb: "fblocks c sz N xs" using m by (simp add: merging_def)
  show split: "xs = ?bs @ ?as" by simp
  show bs: "b + sz b \<le> base" if "b \<in> set ?bs" for b
  proof -
    have "b < base" "b \<in> set xs" using that by (auto dest: set_takeWhileD)
    with m show ?thesis by (fastforce simp: merging_def)
  qed
  show as: "base + sz base < a" if "a \<in> set ?as" for a
  proof -
    have a: "a \<in> set xs" using that by (rule set_dropWhileD)
    have "sorted xs" using fb
      by (induction xs) (fastforce simp: fblocks_Cons dest: gap_le)+
    then have "\<not> a < base" using that
      by (induction xs) (auto split: if_splits)
    with a m fblocks_member [OF fb a] show ?thesis
      by (fastforce simp: merging_def)
  qed
  have "fblocks c sz N (?bs @ ?as)" using fb by simp
  then have parts: "fblocks c sz N ?bs" "fblocks c sz N ?as"
      "\<forall>b \<in> set ?bs. \<forall>a \<in> set ?as. gap c sz b a"
    unfolding fblocks_append by blast+
  have "gap c sz b base" if "b \<in> set ?bs" for b
    using bs [OF that] m set_takeWhileD [OF that] by (auto simp: gap_def merging_def)
  moreover have "gap c sz base a" if "a \<in> set ?as" for a
    using as [OF that] by (simp add: gap_def)
  ultimately show "fblocks c sz N (?bs @ base # ?as)"
    using parts m by (simp add: fblocks_append fblocks_Cons merging_def)
qed

section \<open>Returning a block\<close>

definition merge_inv ::
  "bool \<Rightarrow> nat \<Rightarrow> pmm \<Rightarrow> nat \<Rightarrow> nat list \<Rightarrow> nat list \<Rightarrow> nat set \<Rightarrow> nat \<Rightarrow> bool" where
  "merge_inv c N s base ds rs U T \<longleftrightarrow>
     N < 2 ^ 32 - 1 \<and>
     dlist (free_list s) Head (map Link (ds @ rs)) \<and>
     merging c (bsize s) N base ds rs \<and>
     (\<forall>i < N. PageProperty (pages s i) \<longleftrightarrow> i \<in> set (ds @ rs) \<or> i = base) \<and>
     cover (bsize s) (ds @ rs) \<union> extent (bsize s) base = U \<and>
     sum_list (map (bsize s) (ds @ rs)) + bsize s base = T"

lemma merge_reserved [simp]:
  "PageReserved (pages (merge_right s base r) i) = PageReserved (pages s i)"
  "PageReserved (pages (merge_left s base r) i) = PageReserved (pages s i)"
  "nr_free (merge_right s base r) = nr_free s"
  "nr_free (merge_left s base r) = nr_free s"
  "free_list (merge_right s base r) = list_del (free_list s) (Link r)"
  "free_list (merge_left s base r) = list_del (free_list s) (Link r)"
  by (simp_all add: merge_right_def merge_left_def Let_def)

lemma bsize_merge:
  assumes "bsize s base + bsize s r < 2 ^ 32" and "base \<noteq> r"
  shows "bsize (merge_right s base r) = (bsize s)(base := bsize s base + bsize s r)"
    and "bsize (merge_left s base r) = (bsize s)(r := bsize s r + bsize s base)"
proof -
  have "unat (property (pages s base) + property (pages s r)) = bsize s base + bsize s r"
    using assms(1) by (simp add: bsize_def unat_add_noov)
  then show "bsize (merge_right s base r) = (bsize s)(base := bsize s base + bsize s r)"
    and "bsize (merge_left s base r) = (bsize s)(r := bsize s r + bsize s base)"
    using assms(2)
    by (simp_all add: merge_right_def merge_left_def Let_def bsize_def fun_eq_iff add.commute)
qed

lemma sum_list_upd:
  "a \<notin> set xs \<Longrightarrow> sum_list (map (f(a := v)) xs) = sum_list (map f xs)"
  by (induction xs) auto

lemma cover_upd: "a \<notin> set xs \<Longrightarrow> cover (f(a := v)) xs = cover f xs"
  by (rule cover_cong) auto

lemma merge_right_inv:
  assumes m: "merge_inv c N s base ds (r # rs) U T" and r: "base + bsize s base = r"
  shows "merge_inv c N (merge_right s base r) base ds rs U T"
proof -
  have mg: "merging c (bsize s) N base ds (r # rs)" using m by (simp add: merge_inv_def)
  have nb: "base \<notin> set (ds @ r # rs)" using merging_notin [OF mg] .
  have nr: "r \<notin> set (ds @ rs)"
    using mg fblocks_distinct [of c "bsize s" N "ds @ r # rs"] by (auto simp: merging_def)
  have "r + bsize s r \<le> N" using mg by (auto simp: merging_def fblocks_append fblocks_Cons)
  then have bs: "bsize (merge_right s base r) = (bsize s)(base := bsize s base + bsize s r)"
    using r m nb by (intro bsize_merge) (auto simp: merge_inv_def)
  have "dlist (free_list s) Head (map Link ds @ Link r # map Link rs)"
    using m by (simp add: merge_inv_def)
  then have "dlist (list_del (free_list s) (Link r)) Head (map Link (ds @ rs))"
    using dlist_del by fastforce
  moreover have "merging c (bsize (merge_right s base r)) N base ds rs"
    unfolding bs by (rule merging_right [OF mg r])
  moreover have "PageProperty (pages (merge_right s base r) i) \<longleftrightarrow> i \<in> set (ds @ rs) \<or> i = base"
    if "i < N" for i
    using that m nb nr by (auto simp: merge_inv_def merge_right_def Let_def)
  moreover have "extent ((bsize s)(base := bsize s base + bsize s r)) base =
      extent (bsize s) base \<union> extent (bsize s) r"
    using r by (auto simp: extent_def)
  ultimately show ?thesis
    using m nb by (auto simp: merge_inv_def bs cover_upd sum_list_upd)
qed

lemma merge_left_inv:
  assumes m: "merge_inv c N s base ds (r # rs) U T" and r: "r + bsize s r = base"
  shows "merge_inv c N (merge_left s base r) r ds rs U T"
proof -
  have mg: "merging c (bsize s) N base ds (r # rs)" using m by (simp add: merge_inv_def)
  have nb: "base \<notin> set (ds @ r # rs)" using merging_notin [OF mg] .
  have nr: "r \<notin> set (ds @ rs)"
    using mg fblocks_distinct [of c "bsize s" N "ds @ r # rs"] by (auto simp: merging_def)
  have "base + bsize s base \<le> N" using mg by (auto simp: merging_def)
  then have bs: "bsize (merge_left s base r) = (bsize s)(r := bsize s r + bsize s base)"
    using r m nb by (intro bsize_merge) (auto simp: merge_inv_def)
  have "dlist (free_list s) Head (map Link ds @ Link r # map Link rs)"
    using m by (simp add: merge_inv_def)
  then have "dlist (list_del (free_list s) (Link r)) Head (map Link (ds @ rs))"
    using dlist_del by fastforce
  moreover have "merging c (bsize (merge_left s base r)) N r ds rs"
    unfolding bs by (rule merging_left [OF mg r])
  moreover have "PageProperty (pages (merge_left s base r) i) \<longleftrightarrow> i \<in> set (ds @ rs) \<or> i = r"
    if "i < N" for i
    using that m nb nr by (auto simp: merge_inv_def merge_left_def Let_def)
  moreover have "extent ((bsize s)(r := bsize s r + bsize s base)) r =
      extent (bsize s) base \<union> extent (bsize s) r"
    using r by (auto simp: extent_def)
  ultimately show ?thesis
    using m nr by (auto simp: merge_inv_def bs cover_upd sum_list_upd)
qed

lemma merge_skip_inv:
  assumes "merge_inv c N s base ds (r # rs) U T"
    and "base + bsize s base \<noteq> r" and "r + bsize s r \<noteq> base"
  shows "merge_inv c N s base (ds @ [r]) rs U T"
  using assms by (auto simp: merge_inv_def intro: merging_skip)

lemma merge_loop_ok:
  assumes "merge_inv c N s base ds rs U T" and "lnext (free_list s) le = first_entry rs"
  shows "\<exists>s' base' xs. merge_loop s base le = kret (s', base') \<and>
    merge_inv c N s' base' xs [] U T \<and> nr_free s' = nr_free s \<and>
    (\<forall>i. PageReserved (pages s' i) = PageReserved (pages s i))"
  using assms
proof (induction rs arbitrary: s base ds le)
  case Nil
  then have "merge_loop s base le = kret (s, base)"
    by (simp add: merge_loop.simps [of s base le] list_next_def)
  with Nil show ?case by auto
next
  case (Cons r rs)
  note m = Cons.prems(1)
  have dl: "dlist (free_list s) Head (map Link ds @ Link r # map Link rs)"
    using m by (simp add: merge_inv_def)
  have nx: "lnext (free_list s) (Link r) = first_entry rs"
    using dl by (auto intro!: link_next [of _ ds])
  have nx': "lnext (list_del (free_list s) (Link r)) (Link r) = first_entry rs"
    using nx list_del_stale(1) [OF dl] by simp
  have step: "merge_loop s base le =
      (if base + bsize s base = r then merge_loop (merge_right s base r) base (Link r)
       else if r + bsize s r = base then merge_loop (merge_left s base r) r (Link r)
       else merge_loop s base (Link r))"
    using Cons.prems(2) by (simp add: merge_loop.simps [of s base le] list_next_def bsize_def)
  consider (right) "base + bsize s base = r"
    | (left) "base + bsize s base \<noteq> r" "r + bsize s r = base"
    | (skip) "base + bsize s base \<noteq> r" "r + bsize s r \<noteq> base" by blast
  then show ?case
  proof cases
    case right
    then show ?thesis
      using Cons.IH [OF merge_right_inv [OF m right]] nx' step by simp
  next
    case left
    then show ?thesis
      using Cons.IH [OF merge_left_inv [OF m left(2)]] nx' step by simp
  next
    case skip
    then show ?thesis
      using Cons.IH [OF merge_skip_inv [OF m skip]] nx step by simp
  qed
qed

lemma place_loop_ok:
  assumes "dlist (free_list s) Head (map Link (ds @ bs @ as))"
    and "lnext (free_list s) le = first_entry (bs @ as)"
    and "\<And>b. b \<in> set bs \<Longrightarrow> b < base + bsize s base"
    and "\<And>a. a \<in> set as \<Longrightarrow> base + bsize s base < a"
  shows "place_loop s base le = kret (first_entry as)"
  using assms
proof (induction bs arbitrary: ds le)
  case Nil
  show ?case
  proof (cases as)
    case Nil
    with Nil.prems(2) show ?thesis by (simp add: place_loop.simps [of s base le] list_next_def)
  next
    case (Cons a as')
    then have "base + bsize s base < a" using Nil.prems(4) by simp
    with Cons Nil.prems(2) show ?thesis
      by (simp add: place_loop.simps [of s base le] list_next_def bsize_def)
  qed
next
  case (Cons b bs)
  have "place_loop s base (Link b) = kret (first_entry as)"
    using Cons.prems by (intro Cons.IH [of "ds @ [b]"]) (auto simp: link_next)
  then show ?case
    using Cons.prems(2) Cons.prems(3) [of b]
    by (simp add: place_loop.simps [of s base le] list_next_def bsize_def)
qed

lemma free_prepare_ok:
  assumes "\<And>i. p \<le> i \<Longrightarrow> i < p + k \<Longrightarrow> \<not> PageReserved (pg i) \<and> \<not> PageProperty (pg i)"
  shows "free_prepare k p pg = kret (\<lambda>i. if p \<le> i \<and> i < p + k
    then set_page_ref ((pg i)\<lparr>flags := 0\<rparr>) 0 else pg i)"
  using assms
proof (induction k arbitrary: p pg)
  case 0
  then show ?case by (auto simp: fun_eq_iff)
next
  case (Suc k)
  let ?pg = "pg(p := set_page_ref ((pg p)\<lparr>flags := 0\<rparr>) 0)"
  have "free_prepare (Suc k) p pg = free_prepare k (Suc p) ?pg"
    using Suc.prems [of p] by (simp add: Let_def)
  also have "\<dots> = kret (\<lambda>i. if Suc p \<le> i \<and> i < Suc p + k
      then set_page_ref ((?pg i)\<lparr>flags := 0\<rparr>) 0 else ?pg i)"
    using Suc.prems by (intro Suc.IH) auto
  finally show ?case by (auto simp: fun_eq_iff)
qed

lemma set_page_ref_simps [simp]:
  "PageReserved (set_page_ref p v) = PageReserved p"
  "PageProperty (set_page_ref p v) = PageProperty p"
  "property (set_page_ref p v) = property p"
  "flags (set_page_ref p v) = flags p"
  by (simp_all add: set_page_ref_def)

definition freed_pages :: "pmm \<Rightarrow> nat \<Rightarrow> u32 \<Rightarrow> nat \<Rightarrow> page" where
  "freed_pages s base num =
     (let pg = (\<lambda>i. if base \<le> i \<and> i < base + unat num
                 then set_page_ref ((pages s i)\<lparr>flags := 0\<rparr>) 0 else pages s i)
      in pg(base := SetPageProperty ((pg base)\<lparr>property := num\<rparr>)))"

lemma freed_pages_simps:
  "PageProperty (freed_pages s base num i) \<longleftrightarrow>
     i = base \<or> \<not> (base \<le> i \<and> i < base + unat num) \<and> PageProperty (pages s i)"
  "0 < num \<Longrightarrow> PageReserved (freed_pages s base num i) \<longleftrightarrow>
     \<not> (base \<le> i \<and> i < base + unat num) \<and> PageReserved (pages s i)"
  "property (freed_pages s base num i) = (if i = base then num else property (pages s i))"
  by (auto simp: freed_pages_def Let_def unat_gt_0)

lemma bsize_freed: "bsize (s\<lparr>pages := freed_pages s base num\<rparr>) = (bsize s)(base := unat num)"
  by (auto simp: bsize_def freed_pages_simps)

lemma disjoint_block_sides:
  assumes "0 < (n::nat)" and "{a ..< a + m} \<inter> {b ..< b + n} = {}" and "0 < m"
  shows "a + m \<le> b \<or> b + n \<le> a"
proof (rule ccontr)
  assume "\<not> ?thesis"
  then have "max a b \<in> {a ..< a + m} \<inter> {b ..< b + n}" using assms(1,3) by auto
  with assms(2) show False by blast
qed

lemma freed_merge_inv:
  assumes inv: "pmm_inv c N s xs" and pos: "0 < num"
    and dis: "{base ..< base + unat num} \<inter> free_set s xs = {}" and le: "base + unat num \<le> N"
  shows "merge_inv c N (s\<lparr>pages := freed_pages s base num\<rparr>) base [] xs
    (free_set s xs \<union> {base ..< base + unat num}) (unat (nr_free s) + unat num)"
proof -
  note I = pmm_inv_parts [OF inv]
  have n: "0 < unat num" using pos by (simp add: unat_gt_0)
  have sides: "d + bsize s d \<le> base \<or> base + unat num \<le> d" if "d \<in> set xs" for d
  proof (rule disjoint_block_sides [OF n])
    show "{d ..< d + bsize s d} \<inter> {base ..< base + unat num} = {}"
      using that dis unfolding free_set_def cover_def extent_def by blast
    show "0 < bsize s d" using fblocks_member [OF I(2) that] by simp
  qed
  have head: "i \<in> set xs \<Longrightarrow> i \<in> free_set s xs" for i
    using fblocks_member [OF I(2), of i] by (auto simp: free_set_def cover_def extent_def)
  have out: "i \<in> set xs \<Longrightarrow> \<not> (base \<le> i \<and> i < base + unat num)" for i
    using head [of i] dis by (auto simp: disjoint_iff)
  have nb: "base \<notin> set xs" using out [of base] n by auto
  have fb: "fblocks c ((bsize s)(base := unat num)) N xs"
    using I(2) nb by (metis (no_types, lifting) fblocks_cong fun_upd_apply)
  have "merging c ((bsize s)(base := unat num)) N base [] xs"
    using fb n le sides nb by (auto simp: merging_def)
  moreover have "PageProperty (freed_pages s base num i) \<longleftrightarrow> i \<in> set xs \<or> i = base"
    if "i < N" for i
    using I(3) [OF that] out [of i] by (auto simp: freed_pages_simps)
  ultimately show ?thesis
    using I(1,5,6) nb
    by (simp add: merge_inv_def bsize_freed free_set_def cover_upd sum_list_upd extent_def)
qed

lemma placed_inv:
  assumes m: "merge_inv c N s base xs [] U (unat (nr_free s))"
    and U: "\<And>i. i \<in> U \<Longrightarrow> \<not> PageReserved (pages s i)"
  shows "\<exists>le ys. place_loop s base Head = kret le \<and>
    pmm_inv c N (s\<lparr>free_list := list_add_before (free_list s) le (Link base)\<rparr>) ys \<and>
    free_set (s\<lparr>free_list := list_add_before (free_list s) le (Link base)\<rparr>) ys = U"
proof -
  have mg: "merging c (bsize s) N base xs []" and dl: "dlist (free_list s) Head (map Link xs)"
    using m by (simp_all add: merge_inv_def)
  have nb: "base \<notin> set xs" using merging_notin [OF mg] by simp
  obtain bs as where xs: "xs = bs @ as" and bs: "\<And>b. b \<in> set bs \<Longrightarrow> b + bsize s b \<le> base"
    and as: "\<And>a. a \<in> set as \<Longrightarrow> base + bsize s base < a"
    and fb: "fblocks c (bsize s) N (bs @ base # as)"
    using merging_place [OF mg] by blast
  have "b < base + bsize s base" if "b \<in> set bs" for b
    using bs [OF that] mg by (auto simp: merging_def)
  then have pl: "place_loop s base Head = kret (first_entry as)"
    using place_loop_ok [of s "[]" bs as Head base] dl as head_next [OF dl] xs by simp
  let ?fl = "list_add_before (free_list s) (first_entry as) (Link base)"
  have "dlist ?fl Head (map Link (bs @ base # as))"
  proof (cases as)
    case Nil
    then show ?thesis
      using dlist_add_before_head [OF dl, of "Link base"] nb xs by auto
  next
    case (Cons a as')
    then show ?thesis
      using dlist_add_before [of "free_list s" Head "map Link bs" "Link a" "map Link as'" "Link base"]
        dl nb xs by auto
  qed
  moreover have bse: "bsize (s\<lparr>free_list := f\<rparr>) = bsize s" for f
    by (simp add: bsize_def fun_eq_iff)
  moreover have cov: "cover (bsize s) (bs @ base # as) = U"
    using m xs by (auto simp: merge_inv_def)
  moreover have "sum_list (map (bsize s) (bs @ base # as)) = unat (nr_free s)"
    using m xs by (simp add: merge_inv_def)
  ultimately have "pmm_inv c N (s\<lparr>free_list := ?fl\<rparr>) (bs @ base # as)"
    using m fb U xs by (auto simp: pmm_inv_def merge_inv_def)
  then show ?thesis
    using pl cov bse by (auto simp: free_set_def)
qed

lemma default_free_pages_ok:
  assumes inv: "pmm_inv c N s xs" and pos: "0 < num"
    and dis: "{base ..< base + unat num} \<inter> free_set s xs = {}" and le: "base + unat num \<le> N"
    and res: "\<And>i. i \<in> {base ..< base + unat num} \<Longrightarrow> \<not> PageReserved (pages s i)"
  shows "\<exists>s' ys. default_free_pages s base num = kret s' \<and> pmm_inv c N s' ys \<and>
    free_set s' ys = free_set s xs \<union> {base ..< base + unat num} \<and>
    (\<forall>i. PageReserved (pages s' i) = PageReserved (pages s i))"
proof -
  note I = pmm_inv_parts [OF inv]
  let ?s1 = "s\<lparr>pages := freed_pages s base num\<rparr>"
  let ?U = "free_set s xs \<union> {base ..< base + unat num}"
  have m1: "merge_inv c N ?s1 base [] xs ?U (unat (nr_free s) + unat num)"
    by (rule freed_merge_inv [OF inv pos dis le])
  have head: "i \<in> set xs \<Longrightarrow> i \<in> free_set s xs" for i
    using fblocks_member [OF I(2), of i] by (auto simp: free_set_def cover_def extent_def)
  have "\<not> PageProperty (pages s i)" if "base \<le> i" "i < base + unat num" for i
    using that I(3) [of i] head [of i] dis le by (auto simp: disjoint_iff)
  then have prep: "default_free_pages s base num =
      kbind (merge_loop ?s1 base Head) (\<lambda>(s, base).
        let s = s\<lparr>nr_free := nr_free s + num\<rparr>
        in kbind (place_loop s base Head) (\<lambda>le.
             kret (s\<lparr>free_list := list_add_before (free_list s) le (Link base)\<rparr>)))"
    using pos res by (simp add: default_free_pages_def free_prepare_ok freed_pages_def Let_def)
  obtain s2 b2 ys where ml: "merge_loop ?s1 base Head = kret (s2, b2)"
    and m2: "merge_inv c N s2 b2 ys [] ?U (unat (nr_free s) + unat num)"
    and nf: "nr_free s2 = nr_free s"
    and r2: "\<And>i. PageReserved (pages s2 i) = PageReserved (pages ?s1 i)"
    using merge_loop_ok [OF m1, of Head] head_next [OF I(1)] by auto
  let ?s3 = "s2\<lparr>nr_free := nr_free s2 + num\<rparr>"
  have r3: "PageReserved (pages ?s3 i) = PageReserved (pages s i)" for i
    using r2 [of i] res [of i] pos by (auto simp: freed_pages_simps)
  have "unat (nr_free s) + unat num \<le> N"
  proof -
    have mg: "merging c (bsize s2) N b2 ys []" using m2 by (simp add: merge_inv_def)
    obtain bs as where "ys = bs @ as" "fblocks c (bsize s2) N (bs @ b2 # as)"
      using merging_place [OF mg] by blast
    with m2 show ?thesis
      using fblocks_sum_bound [of c "bsize s2" N "bs @ b2 # as"] by (simp add: merge_inv_def)
  qed
  then have nr3: "unat (nr_free ?s3) = unat (nr_free s) + unat num"
    using I(6) by (simp add: nf unat_add_noov)
  have bs3: "bsize ?s3 = bsize s2" by (simp add: bsize_def fun_eq_iff)
  have m3: "merge_inv c N ?s3 b2 ys [] ?U (unat (nr_free ?s3))"
    using m2 unfolding nr3 by (simp add: merge_inv_def bs3)
  have "\<not> PageReserved (pages ?s3 i)" if "i \<in> ?U" for i
    using that I(4) [of i] res [of i] r3 [of i] by (auto simp: free_set_def)
  from placed_inv [OF m3 this] obtain le zs where
    "place_loop ?s3 b2 Head = kret le"
    "pmm_inv c N (?s3\<lparr>free_list := list_add_before (free_list ?s3) le (Link b2)\<rparr>) zs"
    "free_set (?s3\<lparr>free_list := list_add_before (free_list ?s3) le (Link b2)\<rparr>) zs = ?U"
    by blast
  with r3 show ?thesis unfolding prep ml by (auto simp: Let_def)
qed

section \<open>The allocation policies\<close>

text \<open>The three allocators share everything but the search.  \<open>fit_policy\<close> is what the shared
  part needs of a search: it returns a block that is large enough, or reports that there is
  none.\<close>

definition alloc_with :: "(pmm \<Rightarrow> u32 \<Rightarrow> nat option prog) \<Rightarrow> pmm \<Rightarrow> u32 \<Rightarrow>
  (nat option \<times> pmm) prog" where
  "alloc_with pick s num =
     kassert (num > 0)
       (if num > nr_free s then kret (None, s) else kbind (pick s num) (alloc_finish s num))"

definition pmm_ok :: "nat \<Rightarrow> nat set \<Rightarrow> pmm \<Rightarrow> nat set \<Rightarrow> bool" where
  "pmm_ok N M s F \<longleftrightarrow>
     M \<subseteq> {..<N} \<and> F \<subseteq> M \<and> (\<forall>i \<in> M. \<not> PageReserved (pages s i)) \<and>
     (\<exists>xs. pmm_inv True N s xs \<and> F = free_set s xs)"

lemma pmm_ok_nr: "pmm_ok N M s F \<Longrightarrow> unat (nr_free s) = card F"
  by (auto simp: pmm_ok_def free_set_def pmm_inv_def card_cover)

lemma pmm_ok_free:
  assumes ok: "pmm_ok N M s F" and pos: "0 < n" and b: "block (p, n) \<subseteq> M - F"
  shows "\<exists>s'. default_free_pages s p n = kret s' \<and> pmm_ok N M s' (F \<union> block (p, n))"
proof -
  obtain xs where xs: "pmm_inv True N s xs" "F = free_set s xs"
    using ok by (auto simp: pmm_ok_def)
  have n: "0 < unat n" using pos by (simp add: unat_gt_0)
  have r: "{p ..< p + unat n} \<subseteq> M - F" using b by (simp add: block_def)
  have "p + unat n - 1 \<in> {p ..< p + unat n}" using n by auto
  then have "p + unat n - 1 \<in> {..<N}" using r ok unfolding pmm_ok_def by blast
  then have le: "p + unat n \<le> N" using n by simp
  have dis: "{p ..< p + unat n} \<inter> free_set s xs = {}" using r xs(2) by blast
  have res: "\<not> PageReserved (pages s i)" if "i \<in> {p ..< p + unat n}" for i
    using that r ok unfolding pmm_ok_def by blast
  obtain s' ys where
    "default_free_pages s p n = kret s'" "pmm_inv True N s' ys"
    "free_set s' ys = free_set s xs \<union> {p ..< p + unat n}"
    "\<forall>i. PageReserved (pages s' i) = PageReserved (pages s i)"
    using default_free_pages_ok [OF xs(1) pos dis le res] by blast
  with ok r xs(2) show ?thesis by (auto simp: pmm_ok_def block_def)
qed

lemma pmm_ok_take:
  assumes ok: "pmm_ok N M s F" and inv: "pmm_inv True N s xs" and F: "F = free_set s xs"
    and a: "a \<in> set xs" "n \<le> property (pages s a)" and pos: "0 < n"
  shows "block (a, n) \<subseteq> F" and "pmm_ok N M (alloc_take s a n) (F - block (a, n))"
proof -
  obtain us vs where split: "xs = us @ a # vs" using a(1) by (meson split_list)
  have "unat n \<le> bsize s a" using a(2) by (simp add: bsize_def word_le_nat_alt)
  then show "block (a, n) \<subseteq> F"
    by (auto simp: F split free_set_def extent_def block_def)
  have "\<exists>ys. pmm_inv True N (alloc_take s a n) ys \<and>
      free_set (alloc_take s a n) ys = F - block (a, n)"
  proof (cases "property (pages s a) = n")
    case True
    then show ?thesis
      using alloc_take_exact [of True N s us a vs n] inv F by (auto simp: split block_def)
  next
    case False
    then have "n < property (pages s a)" using a(2) by simp
    then show ?thesis
      using alloc_take_split [of True N s us a vs n] inv F pos by (auto simp: split block_def)
  qed
  then show "pmm_ok N M (alloc_take s a n) (F - block (a, n))"
    using ok by (auto simp: pmm_ok_def)
qed

text \<open>When no block is large enough there is no run of free pages of that length.\<close>

lemma no_fit_no_run:
  assumes inv: "pmm_inv True N s xs" and small: "\<And>a. a \<in> set xs \<Longrightarrow> property (pages s a) < n"
    and pos: "0 < n"
  shows "\<not> block (p, n) \<subseteq> free_set s xs"
proof
  assume "block (p, n) \<subseteq> free_set s xs"
  then obtain a where "a \<in> set xs" "a \<le> p" "p + unat n \<le> a + bsize s a"
    using merged_run [OF pmm_inv_parts(2) [OF inv], of "unat n" p] pos
    by (auto simp: block_def free_set_def unat_gt_0)
  with small [of a] show False by (simp add: bsize_def word_less_nat_alt)
qed

lemma small_nr_no_fit:
  assumes inv: "pmm_inv c N s xs" and "nr_free s < n" and a: "a \<in> set xs"
  shows "property (pages s a) < n"
proof -
  have "bsize s a \<le> sum_list (map (bsize s) xs)" using a by (simp add: member_le_sum_list)
  with assms(2) pmm_inv_parts(5) [OF inv] show ?thesis
    by (simp add: bsize_def word_less_nat_alt)
qed

locale fit_policy =
  fixes pick :: "pmm \<Rightarrow> u32 \<Rightarrow> nat option prog"
  assumes pick_law: "pmm_inv c N s xs \<Longrightarrow> \<exists>r. pick s num = kret r \<and>
    (case r of
       None \<Rightarrow> \<forall>p \<in> set xs. property (pages s p) < num
     | Some p \<Rightarrow> p \<in> set xs \<and> num \<le> property (pages s p))"
begin

lemma alloc_with_ok:
  assumes ok: "pmm_ok N M s F" and pos: "0 < n"
  shows "\<exists>r s'. alloc_with pick s n = kret (r, s') \<and>
    (case r of
       None \<Rightarrow> s' = s \<and> (\<forall>p. \<not> block (p, n) \<subseteq> F)
     | Some p \<Rightarrow> block (p, n) \<subseteq> F \<and> pmm_ok N M s' (F - block (p, n)))"
proof -
  obtain xs where inv: "pmm_inv True N s xs" and F: "F = free_set s xs"
    using ok by (auto simp: pmm_ok_def)
  obtain r where r: "pick s n = kret r" "case r of
       None \<Rightarrow> \<forall>p \<in> set xs. property (pages s p) < n
     | Some p \<Rightarrow> p \<in> set xs \<and> n \<le> property (pages s p)"
    using pick_law [OF inv] by blast
  consider (less) "nr_free s < n" | (none) "\<not> nr_free s < n" "r = None"
    | (some) a where "\<not> nr_free s < n" "r = Some a" by (cases r) auto
  then show ?thesis
  proof cases
    case less
    then have "alloc_with pick s n = kret (None, s)" using pos by (simp add: alloc_with_def)
    then show ?thesis
      using no_fit_no_run [OF inv small_nr_no_fit [OF inv less] pos] F by auto
  next
    case none
    then have "alloc_with pick s n = kret (None, s)"
      using pos r by (simp add: alloc_with_def alloc_finish_def)
    then show ?thesis using no_fit_no_run [OF inv _ pos] F r none by auto
  next
    case some
    then have "alloc_with pick s n = kret (Some a, alloc_take s a n)"
      using pos r by (simp add: alloc_with_def alloc_finish_def)
    then show ?thesis using pmm_ok_take [OF ok inv F _ _ pos, of a] r some by auto
  qed
qed

end

sublocale fit_policy \<subseteq> mgr: pmm_manager "pmm_ok N M" M "alloc_with pick" default_free_pages
  default_nr_free_pages for N M
  by unfold_locales
    (use alloc_with_ok pmm_ok_free in \<open>auto simp: pmm_ok_nr default_nr_free_pages_def pmm_ok_def\<close>)

definition first_pick :: "pmm \<Rightarrow> u32 \<Rightarrow> nat option prog" where
  "first_pick s num = first_fit_loop s num Head"

definition best_pick :: "pmm \<Rightarrow> u32 \<Rightarrow> nat option prog" where
  "best_pick s num = best_fit_loop s num None (word_of_int 0x7ffffffff) Head"

definition worst_pick :: "pmm \<Rightarrow> u32 \<Rightarrow> nat option prog" where
  "worst_pick s num = worst_fit_loop s num None 0 Head"

lemma alloc_policies:
  "alloc_with first_pick = default_alloc_pages"
  "alloc_with best_pick = default_alloc_pages_best_fit"
  "alloc_with worst_pick = default_alloc_pages_worst_fit"
  by (simp_all add: fun_eq_iff alloc_with_def first_pick_def best_pick_def worst_pick_def
      default_alloc_pages_def default_alloc_pages_best_fit_def default_alloc_pages_worst_fit_def)

lemma first_pick_scan:
  "pmm_inv c N s xs \<Longrightarrow> first_pick s num = kret (find (\<lambda>p. num \<le> property (pages s p)) xs)"
  using first_fit_loop_find [of s "[]" xs Head num] pmm_inv_parts(1) [of c N s xs]
    head_next [of "free_list s" xs] by (simp add: first_pick_def)

lemma best_pick_scan:
  "pmm_inv c N s xs \<Longrightarrow> best_pick s num =
     kret (best_scan (\<lambda>p. property (pages s p)) num None (word_of_int 0x7ffffffff) xs)"
  using best_fit_loop_scan [of s "[]" xs Head num None "word_of_int 0x7ffffffff"]
    pmm_inv_parts(1) [of c N s xs] head_next [of "free_list s" xs]
  by (simp add: best_pick_def)

lemma worst_pick_scan:
  "pmm_inv c N s xs \<Longrightarrow> worst_pick s num =
     kret (worst_scan (\<lambda>p. property (pages s p)) num None 0 xs)"
  using worst_fit_loop_scan [of s "[]" xs Head num None 0]
    pmm_inv_parts(1) [of c N s xs] head_next [of "free_list s" xs]
  by (simp add: worst_pick_def)

text \<open>No block reaches the initial value of the best-fit minimum.\<close>

lemma property_lt_max:
  assumes inv: "pmm_inv c N s xs" and "p \<in> set xs"
  shows "property (pages s p) < word_of_int 0x7ffffffff"
proof -
  have "bsize s p \<le> N" using fblocks_member [OF pmm_inv_parts(2) [OF inv] assms(2)] by simp
  then show ?thesis
    using pmm_inv_parts(6) [OF inv] by (simp add: bsize_def word_less_nat_alt)
qed

lemma find_fit:
  "case find P xs of None \<Rightarrow> \<forall>p \<in> set xs. \<not> P p | Some p \<Rightarrow> p \<in> set xs \<and> P p"
  by (auto simp: find_None_iff find_Some_iff split: option.splits)

interpretation first_fit: fit_policy first_pick
  rewrites "alloc_with first_pick = default_alloc_pages"
proof unfold_locales
  fix c N s xs num
  assume "pmm_inv c N s xs"
  then show "\<exists>r. first_pick s num = kret r \<and> (case r of
       None \<Rightarrow> \<forall>p \<in> set xs. property (pages s p) < num
     | Some p \<Rightarrow> p \<in> set xs \<and> num \<le> property (pages s p))"
    using find_fit [of xs "\<lambda>p. num \<le> property (pages s p)"]
    by (auto simp: first_pick_scan not_le split: option.splits)
qed (rule alloc_policies)

interpretation best_fit: fit_policy best_pick
  rewrites "alloc_with best_pick = default_alloc_pages_best_fit"
proof unfold_locales
  fix c N s xs num
  assume inv: "pmm_inv c N s xs"
  then show "\<exists>r. best_pick s num = kret r \<and> (case r of
       None \<Rightarrow> \<forall>p \<in> set xs. property (pages s p) < num
     | Some p \<Rightarrow> p \<in> set xs \<and> num \<le> property (pages s p))"
    using best_scan_cases [of "\<lambda>p. property (pages s p)" num None "word_of_int 0x7ffffffff" xs]
      property_lt_max [OF inv]
    by (auto simp: best_pick_scan not_le [symmetric])
qed (rule alloc_policies)

interpretation worst_fit: fit_policy worst_pick
  rewrites "alloc_with worst_pick = default_alloc_pages_worst_fit"
proof unfold_locales
  fix c N s xs num
  assume inv: "pmm_inv c N s xs"
  then show "\<exists>r. worst_pick s num = kret r \<and> (case r of
       None \<Rightarrow> \<forall>p \<in> set xs. property (pages s p) < num
     | Some p \<Rightarrow> p \<in> set xs \<and> num \<le> property (pages s p))"
    using worst_scan_cases [of "\<lambda>p. property (pages s p)" num None 0 xs]
    by (auto simp: worst_pick_scan not_le [symmetric])
qed (rule alloc_policies)

section \<open>Handing memory to the manager\<close>

lemma init_pages_ok:
  assumes "\<And>i. p \<le> i \<Longrightarrow> i < p + k \<Longrightarrow> PageReserved (pg i)"
  shows "init_pages k p pg = kret (\<lambda>i. if p \<le> i \<and> i < p + k
    then set_page_ref ((pg i)\<lparr>flags := 0, property := 0\<rparr>) 0 else pg i)"
  using assms
proof (induction k arbitrary: p pg)
  case 0
  then show ?case by (auto simp: fun_eq_iff)
next
  case (Suc k)
  let ?pg = "pg(p := set_page_ref ((pg p)\<lparr>flags := 0, property := 0\<rparr>) 0)"
  have "init_pages (Suc k) p pg = init_pages k (Suc p) ?pg"
    using Suc.prems [of p] by (simp add: Let_def)
  also have "\<dots> = kret (\<lambda>i. if Suc p \<le> i \<and> i < Suc p + k
      then set_page_ref ((?pg i)\<lparr>flags := 0, property := 0\<rparr>) 0 else ?pg i)"
    using Suc.prems by (intro Suc.IH) auto
  finally show ?case by (auto simp: fun_eq_iff)
qed

lemma default_init_ok:
  assumes "N < 2 ^ 32 - 1" and "\<And>i. i < N \<Longrightarrow> \<not> PageProperty (pages s i)"
  shows "pmm_ok N {} (default_init s) {}"
proof -
  have "pmm_inv True N (default_init s) []"
    using assms by (simp add: pmm_inv_def default_init_def dlist_init)
  then show ?thesis by (auto simp: pmm_ok_def free_set_def intro!: exI [of _ "[]"])
qed

lemma default_init_memmap_inv:
  assumes inv: "pmm_inv c N s xs" and pos: "0 < n" and le: "base + unat n \<le> N"
    and res: "\<And>i. i \<in> block (base, n) \<Longrightarrow> PageReserved (pages s i)"
    and below: "\<And>a. a \<in> set xs \<Longrightarrow> gap c (bsize s) a base"
  shows "\<exists>s'. default_init_memmap s base n = kret s' \<and> pmm_inv c N s' (xs @ [base]) \<and>
    free_set s' (xs @ [base]) = free_set s xs \<union> block (base, n) \<and>
    (\<forall>i. PageReserved (pages s' i) \<longleftrightarrow> PageReserved (pages s i) \<and> i \<notin> block (base, n))"
proof -
  note I = pmm_inv_parts [OF inv]
  have n: "0 < unat n" using pos by (simp add: unat_gt_0)
  let ?pg = "\<lambda>i. if base \<le> i \<and> i < base + unat n
    then set_page_ref ((pages s i)\<lparr>flags := 0, property := 0\<rparr>) 0 else pages s i"
  let ?pg' = "?pg(base := SetPageProperty ((?pg base)\<lparr>property := n\<rparr>))"
  define t where "t = s\<lparr>pages := ?pg', nr_free := nr_free s + n,
              free_list := list_add_before (free_list s) Head (Link base)\<rparr>"
  have t: "nr_free t = nr_free s + n" "free_list t = list_add_before (free_list s) Head (Link base)"
    "\<And>i. PageProperty (pages t i) \<longleftrightarrow> i = base \<or> i \<notin> block (base, n) \<and> PageProperty (pages s i)"
    "\<And>i. PageReserved (pages t i) \<longleftrightarrow> PageReserved (pages s i) \<and> i \<notin> block (base, n)"
    "\<And>i. i < base \<Longrightarrow> bsize t i = bsize s i" "bsize t base = unat n"
    using n by (auto simp: t_def bsize_def block_def)
  have run: "default_init_memmap s base n = kret t"
    using pos res by (simp add: t_def default_init_memmap_def init_pages_ok block_def Let_def)
  have lt: "a + bsize s a \<le> base" "a < base" if "a \<in> set xs" for a
    using gap_le [OF below [OF that]] fblocks_member [OF I(2) that] by auto
  have nb: "base \<notin> set xs" using lt by auto
  have same: "bsize t a = bsize s a" if "a \<in> set xs" for a
    using lt(2) [OF that] by (rule t(5))
  have fx: "fblocks c (bsize t) N xs" using I(2) same fblocks_cong by blast
  have cov: "cover (bsize t) (xs @ [base]) = free_set s xs \<union> block (base, n)"
    using same cover_cong [of xs "bsize t" "bsize s"]
    by (simp add: free_set_def block_def extent_def t(6))
  have sm: "sum_list (map (bsize t) (xs @ [base])) = unat (nr_free s) + unat n"
    using same I(5) t(6) by (simp cong: map_cong)
  have fb: "fblocks c (bsize t) N (xs @ [base])"
    using fx below n le same t(6) by (simp add: fblocks_append fblocks_Cons gap_def split: if_splits)
  have "unat (nr_free t) = unat (nr_free s) + unat n"
    using fblocks_sum_bound [OF fb] I(6) unfolding sm by (simp add: t(1) unat_add_noov)
  moreover have "dlist (free_list t) Head (map Link (xs @ [base]))"
    using dlist_add_before_head [OF I(1), of "Link base"] nb by (auto simp: t(2))
  moreover have "PageProperty (pages t i) \<longleftrightarrow> i \<in> set (xs @ [base])" if "i < N" for i
    using I(3) [OF that] lt(2) [of i] by (auto simp: t(3) block_def)
  moreover have "\<not> PageReserved (pages t i)" if "i \<in> cover (bsize t) (xs @ [base])" for i
    using that I(4) [of i] t(4) [of i] unfolding cov by (auto simp: free_set_def)
  ultimately have "pmm_inv c N t (xs @ [base])"
    using I(6) fb sm by (simp add: pmm_inv_def)
  then show ?thesis using run cov t(4) by (auto simp: free_set_def)
qed

lemma default_init_memmap_ok:
  assumes ok: "pmm_ok N M s F" and pos: "0 < n" and le: "base + unat n \<le> N"
    and res: "\<And>i. i \<in> block (base, n) \<Longrightarrow> PageReserved (pages s i)"
    and below: "\<And>i. i \<in> F \<Longrightarrow> Suc i < base"
  shows "\<exists>s'. default_init_memmap s base n = kret s' \<and>
    pmm_ok N (M \<union> block (base, n)) s' (F \<union> block (base, n))"
proof -
  obtain xs where inv: "pmm_inv True N s xs" and F: "F = free_set s xs"
    using ok by (auto simp: pmm_ok_def)
  have "gap True (bsize s) a base" if "a \<in> set xs" for a
  proof -
    have "0 < bsize s a" using fblocks_member [OF pmm_inv_parts(2) [OF inv] that] by simp
    then have "a + bsize s a - 1 \<in> F"
      using that by (auto simp: F free_set_def cover_def extent_def intro!: bexI [of _ a])
    with below [of "a + bsize s a - 1"] \<open>0 < bsize s a\<close> show ?thesis by (simp add: gap_def)
  qed
  from default_init_memmap_inv [OF inv pos le res this] show ?thesis
    using ok le F by (fastforce simp: pmm_ok_def block_def)
qed

section \<open>Properties\<close>

text \<open>A boot state for the witnesses: a hundred reserved pages, of which six become free.\<close>

definition raw_pmm :: pmm where
  "raw_pmm = \<lparr>pages = (\<lambda>i. \<lparr>page_ref = 0, flags = 1, property = 0\<rparr>),
              free_list = \<lparr>lnext = (\<lambda>_. Head), lprev = (\<lambda>_. Head)\<rparr>, nr_free = 0\<rparr>"

lemma raw_pmm_flags:
  "PageReserved (pages raw_pmm i)" "\<not> PageProperty (pages raw_pmm i)"
  by (simp_all add: raw_pmm_def PageReserved_def PageProperty_def bit_1_iff)

lemma default_init_pages [simp]: "pages (default_init s) = pages s"
  by (simp add: default_init_def)

lemma booted:
  "\<exists>s. default_init_memmap (default_init raw_pmm) 2 6 = kret s \<and>
     pmm_ok 100 (block (2, 6)) s (block (2, 6))"
  using default_init_memmap_ok [of 100 "{}" "default_init raw_pmm" "{}" 6 2]
    default_init_ok [of 100 raw_pmm]
  by (simp add: raw_pmm_flags)

text \<open>C5. Every sequence of allocation and deallocation requests to the installed manager
  (best fit) runs without a failing assertion and without an endless loop; at every point the
  blocks in use are pairwise disjoint and disjoint from the free pages, and no page is lost or
  invented: free pages and held pages together never change.\<close>

theorem default_pmm_run_safe:
  assumes "pmm_ok N M s F" and "live_ok M F live" and "\<forall>r \<in> set rs. req_ok r"
  shows "\<exists>s' live' F'.
    pmm_run default_alloc_pages_best_fit default_free_pages rs s live = kret (s', live') \<and>
    pmm_ok N M s' F' \<and> live_ok M F' live' \<and> F' \<union> held live' = F \<union> held live"
  by (rule best_fit.mgr.run_safe [OF assms])

theorem default_pmm_run_safe_witness:
  "\<exists>s s' live' F'. default_init_memmap (default_init raw_pmm) 2 6 = kret s \<and>
     pmm_run default_alloc_pages_best_fit default_free_pages
       [ReqAlloc 2, ReqAlloc 3, ReqFree 1, ReqAlloc 1] s [] = kret (s', live') \<and>
     F' \<union> held live' = {2 ..< 8}"
proof -
  obtain s where s: "default_init_memmap (default_init raw_pmm) 2 6 = kret s"
    "pmm_ok 100 (block (2, 6)) s (block (2, 6))"
    using booted by blast
  have "live_ok (block (2, 6)) (block (2, 6)) []" by (simp add: live_ok_def)
  moreover have "\<forall>r \<in> set [ReqAlloc 2, ReqAlloc 3, ReqFree 1, ReqAlloc 1]. req_ok r"
    by (simp add: req_ok_def)
  moreover have "block (2, 6) \<union> held [] = {2 ..< 8}" by (simp add: block_def held_def)
  ultimately show ?thesis using default_pmm_run_safe [OF s(2)] s(1) by metis
qed

text \<open>C16. Allocation is totally correct for each of the three policies: it returns; it answers
  NULL, leaving the state alone, exactly when there is no run of \<open>n\<close> consecutive free pages;
  otherwise the run it returns was free and is taken out of the free pages.\<close>

theorem default_alloc_correct:
  assumes "pmm_ok N M s F" and "0 < n"
    and "alloc \<in> {default_alloc_pages, default_alloc_pages_best_fit, default_alloc_pages_worst_fit}"
  shows "\<exists>r s'. alloc s n = kret (r, s') \<and>
    (case r of
       None \<Rightarrow> s' = s \<and> (\<forall>p. \<not> block (p, n) \<subseteq> F)
     | Some p \<Rightarrow> block (p, n) \<subseteq> F \<and> pmm_ok N M s' (F - block (p, n)))"
  using assms(3) first_fit.alloc_with_ok [OF assms(1,2)] best_fit.alloc_with_ok [OF assms(1,2)]
    worst_fit.alloc_with_ok [OF assms(1,2)] by blast

theorem default_alloc_correct_witness:
  "\<exists>s p s'. default_init_memmap (default_init raw_pmm) 2 6 = kret s \<and>
     default_alloc_pages_best_fit s 4 = kret (Some p, s') \<and> block (p, 4) \<subseteq> block (2, 6)"
proof -
  obtain s where s: "default_init_memmap (default_init raw_pmm) 2 6 = kret s"
    "pmm_ok 100 (block (2, 6)) s (block (2, 6))"
    using booted by blast
  have "block (2, 4) \<subseteq> block (2, 6)" by (simp add: block_def)
  with default_alloc_correct [OF s(2), of 4 default_alloc_pages_best_fit] s(1)
  show ?thesis by (fastforce split: option.splits)
qed

text \<open>C15. Deallocation is totally correct: returning a block of managed pages that is not free
  passes every assertion of the routine, and afterwards exactly the old free pages and the
  pages of the block are free, again in a fully merged, ordered free list.\<close>

theorem default_free_correct:
  assumes "pmm_ok N M s F" and "0 < n" and "block (p, n) \<subseteq> M - F"
  shows "\<exists>s'. default_free_pages s p n = kret s' \<and> pmm_ok N M s' (F \<union> block (p, n)) \<and>
    unat (default_nr_free_pages s') = card F + unat n"
proof -
  obtain s' where s': "default_free_pages s p n = kret s'" "pmm_ok N M s' (F \<union> block (p, n))"
    using best_fit.mgr.free_law [OF assms] by blast
  have "finite F" using assms(1) by (auto simp: pmm_ok_def intro: finite_subset)
  moreover have "F \<inter> block (p, n) = {}" using assms(3) by blast
  ultimately have "card (F \<union> block (p, n)) = card F + unat n"
    by (simp add: card_Un_disjoint block_def)
  with s' best_fit.mgr.nr_law [OF s'(2)] show ?thesis by simp
qed

theorem default_free_correct_witness:
  "\<exists>s p s' s''. default_init_memmap (default_init raw_pmm) 2 6 = kret s \<and>
     default_alloc_pages_best_fit s 4 = kret (Some p, s') \<and> default_free_pages s' p 4 = kret s''"
proof -
  obtain s where s: "default_init_memmap (default_init raw_pmm) 2 6 = kret s"
    "pmm_ok 100 (block (2, 6)) s (block (2, 6))"
    using booted by blast
  have "block (2, 4) \<subseteq> block (2, 6)" by (simp add: block_def)
  with best_fit.mgr.alloc_law [OF s(2), of 4] obtain p s' where
    a: "default_alloc_pages_best_fit s 4 = kret (Some p, s')" "block (p, 4) \<subseteq> block (2, 6)"
    "pmm_ok 100 (block (2, 6)) s' (block (2, 6) - block (p, 4))"
    by (fastforce split: option.splits)
  have "block (p, 4) \<subseteq> block (2, 6) - (block (2, 6) - block (p, 4))" using a(2) by blast
  from default_free_correct [OF a(3) _ this] a s show ?thesis by fastforce
qed

text \<open>C37. Best fit is best: the block the installed allocator cuts from is the smallest among
  the free blocks that are large enough.\<close>

theorem best_fit_minimal:
  assumes "pmm_inv c N s xs" and "default_alloc_pages_best_fit s n = kret (Some p, s')"
  shows "p \<in> set xs \<and> n \<le> property (pages s p) \<and>
    (\<forall>q \<in> set xs. n \<le> property (pages s q) \<longrightarrow> property (pages s p) \<le> property (pages s q))"
  using assms(2) best_scan_cases [of "\<lambda>p. property (pages s p)" n None "word_of_int 0x7ffffffff" xs]
  by (auto simp: alloc_policies(2) [symmetric] alloc_with_def best_pick_scan [OF assms(1)]
      alloc_finish_def split: if_splits option.splits)

theorem best_fit_minimal_witness:
  "\<exists>s xs p s'. default_init_memmap (default_init raw_pmm) 2 6 = kret s \<and>
     default_alloc_pages_best_fit s 4 = kret (Some p, s') \<and> p \<in> set xs \<and>
     4 \<le> property (pages s p)"
proof -
  obtain s where s: "default_init_memmap (default_init raw_pmm) 2 6 = kret s"
    "pmm_ok 100 (block (2, 6)) s (block (2, 6))"
    using booted by blast
  have "block (2, 4) \<subseteq> block (2, 6)" by (simp add: block_def)
  with best_fit.mgr.alloc_law [OF s(2), of 4] obtain p s' where
    a: "default_alloc_pages_best_fit s 4 = kret (Some p, s')"
    by (fastforce split: option.splits)
  obtain xs where "pmm_inv True 100 s xs" using s(2) by (auto simp: pmm_ok_def)
  from best_fit_minimal [OF this a] a s show ?thesis by blast
qed

text \<open>C38. Handing a range of reserved pages to a manager whose free pages all lie below it adds
  exactly that range to the managed and to the free pages.\<close>

theorem default_init_memmap_correct:
  assumes "pmm_ok N M s F" and "0 < n" and "base + unat n \<le> N"
    and "\<forall>i \<in> block (base, n). PageReserved (pages s i)" and "\<forall>i \<in> F. Suc i < base"
  shows "\<exists>s'. default_init_memmap s base n = kret s' \<and>
    pmm_ok N (M \<union> block (base, n)) s' (F \<union> block (base, n))"
  using default_init_memmap_ok [OF assms(1-3)] assms(4,5) by blast

theorem default_init_memmap_correct_witness:
  "\<exists>s. default_init_memmap (default_init raw_pmm) 2 6 = kret s \<and>
     pmm_ok 100 (block (2, 6)) s (block (2, 6))"
  using default_init_memmap_correct [of 100 "{}" "default_init raw_pmm" "{}" 6 2]
    default_init_ok [of 100 raw_pmm]
  by (simp add: raw_pmm_flags)

end
