(* ===== verification/Swap.thy ===== *)
theory Swap
  imports Default_Pmm
begin

text \<open>
  Physical memory as the virtual memory code sees it, and page replacement: the address macros of
  \<^verbatim>\<open>kern/mm/mmu.h\<close>, the conversions of \<^verbatim>\<open>kern/mm/pmm.h\<close>, \<^verbatim>\<open>kern/fs/swap/swapfs.c\<close>,
  the three policies of \<^verbatim>\<open>kern/mm/swap_fifo.c\<close>, \<^verbatim>\<open>kern/mm/swap.c\<close>, and \<^verbatim>\<open>alloc_pages\<close> of
  \<^verbatim>\<open>kern/mm/pmm.c\<close>, which calls them.

  The state \<open>mem\<close> holds the page allocator of \<open>Default_Pmm\<close>, the contents of the frames (1024
  words each), and the globals of the swap code.  A kernel virtual address that \<^verbatim>\<open>KADDR\<close> or
  \<^verbatim>\<open>page2kva\<close> returns is the number of its frame, a \<^verbatim>\<open>pte_t *\<close> is a frame and an index.  The
  swap device is a page-indexed store; \<open>ide_err\<close> is what a transfer at an offset answers, which is
  up to the hardware.  \<open>tlb\<close> records the addresses invalidated with \<^verbatim>\<open>invlpg\<close>.
\<close>

unbundle bit_operations_syntax

section \<open>Addresses (\<^verbatim>\<open>kern/mm/mmu.h\<close>, \<^verbatim>\<open>kern/mm/memlayout.h\<close>)\<close>

abbreviation (input) PGSIZE :: u32 where "PGSIZE \<equiv> 0x1000"
abbreviation (input) PTSIZE :: u32 where "PTSIZE \<equiv> 0x400000"
abbreviation (input) PTE_P :: u32 where "PTE_P \<equiv> 0x001"
abbreviation (input) PTE_W :: u32 where "PTE_W \<equiv> 0x002"
abbreviation (input) PTE_U :: u32 where "PTE_U \<equiv> 0x004"
abbreviation (input) PTE_A :: u32 where "PTE_A \<equiv> 0x020"
abbreviation (input) PTE_D :: u32 where "PTE_D \<equiv> 0x040"
abbreviation (input) PTE_USER :: u32 where "PTE_USER \<equiv> 0x007"

definition PDX :: "u32 \<Rightarrow> nat" where
  "PDX la = unat (drop_bit 22 la AND 0x3FF)"

definition PTX :: "u32 \<Rightarrow> nat" where
  "PTX la = unat (drop_bit 12 la AND 0x3FF)"

definition PPN :: "u32 \<Rightarrow> u32" where
  "PPN la = drop_bit 12 la"

definition PGOFF :: "u32 \<Rightarrow> u32" where
  "PGOFF la = la AND 0xFFF"

definition PTE_ADDR :: "u32 \<Rightarrow> u32" where
  "PTE_ADDR pte = pte AND NOT 0xFFF"

definition present :: "u32 \<Rightarrow> bool" where
  "present e \<longleftrightarrow> e AND PTE_P \<noteq> 0"

definition USER_ACCESS :: "u32 \<Rightarrow> u32 \<Rightarrow> bool" where
  "USER_ACCESS start end \<longleftrightarrow> 0x00200000 \<le> start \<and> start < end \<and> end \<le> 0xB0000000"

section \<open>Memory\<close>

text \<open>\<^verbatim>\<open>sm_priv\<close> of a \<^verbatim>\<open>struct mm_struct\<close> is null or the address of \<^verbatim>\<open>pra_list_head\<close>;
  replacement code reads only this field and the page directory.\<close>

record swap_mm =
  sw_pgdir :: nat
  sw_priv :: bool

record mem =
  mgr :: pmm
  npage :: u32
  frame :: "nat \<Rightarrow> nat \<Rightarrow> u32"
  cr3 :: nat
  tlb :: "u32 list"
  pra_list :: "lnode links"
  pra_vaddr :: "nat \<Rightarrow> u32"
  swap_init_ok :: bool
  check_mm_struct :: "swap_mm option"
  max_swap_offset :: u32
  swap_dev :: "u32 \<Rightarrow> nat \<Rightarrow> u32"
  ide_err :: "u32 \<Rightarrow> int"

definition KADDR :: "mem \<Rightarrow> u32 \<Rightarrow> nat prog" where
  "KADDR s pa = (if npage s \<le> PPN pa then kpanic (Panic ''KADDR'') else kret (unat (PPN pa)))"

definition page2pa :: "nat \<Rightarrow> u32" where
  "page2pa p = push_bit 12 (of_nat p)"

definition pa2page :: "mem \<Rightarrow> u32 \<Rightarrow> nat prog" where
  "pa2page s pa = (if npage s \<le> PPN pa then kpanic (Panic ''pa2page'') else kret (unat (PPN pa)))"

definition page2kva :: "mem \<Rightarrow> nat \<Rightarrow> nat prog" where
  "page2kva s p = KADDR s (page2pa p)"

definition pte2page :: "mem \<Rightarrow> u32 \<Rightarrow> nat prog" where
  "pte2page s pte =
     (if \<not> present pte then kpanic (Panic ''pte2page'') else pa2page s (PTE_ADDR pte))"

definition pde2page :: "mem \<Rightarrow> u32 \<Rightarrow> nat prog" where
  "pde2page s pde = pa2page s (PTE_ADDR pde)"

type_synonym pte_ptr = "nat \<times> nat"

definition pte_read :: "mem \<Rightarrow> pte_ptr \<Rightarrow> u32" where
  "pte_read s ptep = frame s (fst ptep) (snd ptep)"

definition pte_write :: "mem \<Rightarrow> pte_ptr \<Rightarrow> u32 \<Rightarrow> mem" where
  "pte_write s ptep v =
     s\<lparr>frame := (frame s)(fst ptep := (frame s (fst ptep))(snd ptep := v))\<rparr>"

definition tlb_invalidate :: "mem \<Rightarrow> nat \<Rightarrow> u32 \<Rightarrow> mem" where
  "tlb_invalidate s pgdir la = (if cr3 s = pgdir then s\<lparr>tlb := la # tlb s\<rparr> else s)"

text \<open>\<open>get_pte0\<close> is \<^verbatim>\<open>get_pte(pgdir, la, 0)\<close>, the only form the replacement code uses.\<close>

definition get_pte0 :: "mem \<Rightarrow> nat \<Rightarrow> u32 \<Rightarrow> pte_ptr option prog" where
  "get_pte0 s pgdir la =
     (let pde = frame s pgdir (PDX la) in
      if \<not> present pde then kret None
      else kbind (KADDR s (PTE_ADDR pde)) (\<lambda>t. kret (Some (t, PTX la))))"

definition free_pages :: "mem \<Rightarrow> nat \<Rightarrow> u32 \<Rightarrow> mem prog" where
  "free_pages s base n = kbind (default_free_pages (mgr s) base n) (\<lambda>m. kret (s\<lparr>mgr := m\<rparr>))"

definition nr_free_pages :: "mem \<Rightarrow> u32" where
  "nr_free_pages s = default_nr_free_pages (mgr s)"

section \<open>The swap area (\<^verbatim>\<open>kern/fs/swap/swapfs.c\<close>)\<close>

definition swap_offset :: "mem \<Rightarrow> u32 \<Rightarrow> u32 prog" where
  "swap_offset s entry =
     (let off = drop_bit 8 entry in
      if \<not> (0 < off \<and> off < max_swap_offset s) then kpanic (Panic ''invalid swap_entry_t'')
      else kret off)"

definition swapfs_read :: "mem \<Rightarrow> u32 \<Rightarrow> nat \<Rightarrow> (int \<times> mem) prog" where
  "swapfs_read s entry page =
     kbind (swap_offset s entry) (\<lambda>off.
     kbind (page2kva s page) (\<lambda>k.
       if ide_err s off \<noteq> 0 then kret (ide_err s off, s)
       else kret (0, s\<lparr>frame := (frame s)(k := swap_dev s off)\<rparr>)))"

definition swapfs_write :: "mem \<Rightarrow> u32 \<Rightarrow> nat \<Rightarrow> (int \<times> mem) prog" where
  "swapfs_write s entry page =
     kbind (swap_offset s entry) (\<lambda>off.
     kbind (page2kva s page) (\<lambda>k.
       if ide_err s off \<noteq> 0 then kret (ide_err s off, s)
       else kret (0, s\<lparr>swap_dev := (swap_dev s)(off := frame s k)\<rparr>)))"

section \<open>Replacement policies (\<^verbatim>\<open>kern/mm/swap_fifo.c\<close>)\<close>

definition fifo_init_mm :: "mem \<Rightarrow> swap_mm \<Rightarrow> int \<times> swap_mm \<times> mem" where
  "fifo_init_mm s mm =
     (0, mm\<lparr>sw_priv := True\<rparr>, s\<lparr>pra_list := list_init (pra_list s) Head\<rparr>)"

definition fifo_map_swappable :: "mem \<Rightarrow> swap_mm option \<Rightarrow> u32 \<Rightarrow> nat \<Rightarrow> (int \<times> mem) prog" where
  "fifo_map_swappable s mm addr page = deref mm (\<lambda>m.
     kassert (sw_priv m) (kret (0, s\<lparr>pra_list := list_add (pra_list s) Head (Link page)\<rparr>)))"

text \<open>\<open>take_victim\<close> is the tail the policies share: unlink the entry and store its page.  The
  list head is embedded in no page, so \<^verbatim>\<open>le2page\<close> of the head is not a page.\<close>

definition take_victim :: "mem \<Rightarrow> lnode \<Rightarrow> (int \<times> nat \<times> mem) prog" where
  "take_victim s le = (case le of
     Head \<Rightarrow> kpanic (Panic ''le2page of the list head'')
   | Link p \<Rightarrow> kret (0, p, s\<lparr>pra_list := list_del (pra_list s) le\<rparr>))"

definition fifo_swap_out_victim ::
  "mem \<Rightarrow> swap_mm option \<Rightarrow> int \<Rightarrow> (int \<times> nat \<times> mem) prog" where
  "fifo_swap_out_victim s mm in_tick = deref mm (\<lambda>m.
     kassert (sw_priv m) (kassert (in_tick = 0) (
     let le = list_prev (pra_list s) Head in
     kassert (Head \<noteq> le) (take_victim s le))))"

text \<open>The four scans of \<^verbatim>\<open>_enhanced_clock\<close> share a loop: \<open>pick\<close> is the test on the entry and
  \<open>miss\<close> the write after a failed test.  The loop answers the entry it stopped at, which is the
  head when no entry passed.\<close>

partial_function (option) clock_scan ::
  "(u32 \<Rightarrow> bool) \<Rightarrow> (u32 \<Rightarrow> u32) \<Rightarrow> nat \<Rightarrow> mem \<Rightarrow> lnode \<Rightarrow> (lnode \<times> mem) prog" where
  "clock_scan pick miss pgdir s le = (case le of
     Head \<Rightarrow> kret (Head, s)
   | Link p \<Rightarrow> kbind (get_pte0 s pgdir (pra_vaddr s p)) (\<lambda>r. deref r (\<lambda>ptep.
       if pick (pte_read s ptep) then kret (le, s)
       else (let s = pte_write s ptep (miss (pte_read s ptep)) in
             clock_scan pick miss pgdir s (list_next (pra_list s) le)))))"

definition enhanced_clock :: "mem \<Rightarrow> swap_mm option \<Rightarrow> int \<Rightarrow> (int \<times> nat \<times> mem) prog" where
  "enhanced_clock s mm in_tick = deref mm (\<lambda>m.
     kassert (sw_priv m) (kassert (in_tick = 0) (
     let le = list_prev (pra_list s) Head; d = sw_pgdir m in
     kassert (Head \<noteq> le) (
     kbind (clock_scan (\<lambda>e. e AND PTE_A = 0 \<and> e AND PTE_D = 0) (\<lambda>e. e) d s le) (\<lambda>(le, s).
     if le \<noteq> Head then take_victim s le else
     kbind (clock_scan (\<lambda>e. e AND PTE_A = 0 \<and> e AND PTE_D \<noteq> 0) (\<lambda>e. e XOR PTE_A) d s
              (list_next (pra_list s) le)) (\<lambda>(le, s).
     if le \<noteq> Head then take_victim s le else
     kbind (clock_scan (\<lambda>e. e AND PTE_D = 0) (\<lambda>e. e) d s (list_next (pra_list s) le)) (\<lambda>(le, s).
     if le \<noteq> Head then take_victim s le else
     kbind (clock_scan (\<lambda>e. e AND PTE_D \<noteq> 0) (\<lambda>e. e) d s (list_next (pra_list s) le)) (\<lambda>(le, s).
     if le \<noteq> Head then take_victim s le
     else kpanic (Panic ''no return value'')))))))))"

text \<open>The loop of \<^verbatim>\<open>_extended_clock\<close>: the answer is the entry to evict at once, if any.\<close>

partial_function (option) extended_scan ::
  "nat \<Rightarrow> mem \<Rightarrow> lnode \<Rightarrow> (lnode option \<times> mem) prog" where
  "extended_scan pgdir s le = (case le of
     Head \<Rightarrow> kret (None, s)
   | Link p \<Rightarrow> kbind (get_pte0 s pgdir (pra_vaddr s p)) (\<lambda>r. deref r (\<lambda>ptep.
       if pte_read s ptep < 0x1000 then kret (None, s)
       else if pte_read s ptep AND PTE_D = 0 then kret (Some le, s)
       else (let s = pte_write s ptep (pte_read s ptep AND 0xffffffbf) in
             extended_scan pgdir s (list_next (pra_list s) le)))))"

definition extended_clock :: "mem \<Rightarrow> swap_mm option \<Rightarrow> int \<Rightarrow> (int \<times> nat \<times> mem) prog" where
  "extended_clock s mm in_tick = deref mm (\<lambda>m.
     kassert (sw_priv m) (kassert (in_tick = 0) (
     let le = list_prev (pra_list s) Head in
     kassert (Head \<noteq> le) (
     kbind (extended_scan (sw_pgdir m) s le) (\<lambda>(r, s). case r of
       Some le \<Rightarrow> take_victim s le
     | None \<Rightarrow> (let le = list_prev (pra_list s) Head in
         kassert (Head \<noteq> le) (take_victim s le)))))))"

section \<open>Swapping out, and the page allocator (\<^verbatim>\<open>swap.c\<close>, \<^verbatim>\<open>pmm.c\<close>)\<close>

text \<open>The loop counter runs from 0 to \<open>n\<close>; the recursion is on what is left of it.\<close>

fun swap_out_loop ::
  "(mem \<Rightarrow> swap_mm option \<Rightarrow> int \<Rightarrow> (int \<times> nat \<times> mem) prog) \<Rightarrow>
   nat \<Rightarrow> nat \<Rightarrow> mem \<Rightarrow> swap_mm option \<Rightarrow> int \<Rightarrow> (nat \<times> mem) prog" where
  "swap_out_loop victim 0 i s mm in_tick = kret (i, s)"
| "swap_out_loop victim (Suc k) i s mm in_tick =
     kbind (victim s mm in_tick) (\<lambda>(r, page, s).
     if r \<noteq> 0 then kret (i, s)
     else (let v = pra_vaddr s page in
       deref mm (\<lambda>m.
       kbind (get_pte0 s (sw_pgdir m) v) (\<lambda>ptr. deref ptr (\<lambda>ptep.
       kassert (present (pte_read s ptep)) (
       let entry = push_bit 8 (v div PGSIZE + 1) in
       kbind (swapfs_write s entry page) (\<lambda>(e, s).
       if e \<noteq> 0
       then kbind (fifo_map_swappable s mm v page) (\<lambda>(_, s).
              swap_out_loop victim k (Suc i) s mm in_tick)
       else kbind (free_pages (pte_write s ptep entry) page 1) (\<lambda>s.
              swap_out_loop victim k (Suc i) (tlb_invalidate s (sw_pgdir m) v) mm in_tick))))))))"

definition swap_out :: "mem \<Rightarrow> swap_mm option \<Rightarrow> u32 \<Rightarrow> int \<Rightarrow> (nat \<times> mem) prog" where
  "swap_out s mm n in_tick = swap_out_loop fifo_swap_out_victim (unat n) 0 s mm in_tick"

partial_function (option) alloc_pages :: "mem \<Rightarrow> u32 \<Rightarrow> (nat option \<times> mem) prog" where
  "alloc_pages s n =
     kbind (default_alloc_pages_best_fit (mgr s) n) (\<lambda>(page, m).
     let s = s\<lparr>mgr := m\<rparr> in
     if page \<noteq> None \<or> 1 < n \<or> \<not> swap_init_ok s then kret (page, s)
     else kbind (swap_out s (check_mm_struct s) n 0) (\<lambda>(_, s). alloc_pages s n))"

definition swap_in :: "mem \<Rightarrow> swap_mm \<Rightarrow> u32 \<Rightarrow> (int \<times> nat \<times> mem) prog" where
  "swap_in s mm addr =
     kbind (alloc_pages s 1) (\<lambda>(r, s).
     case r of None \<Rightarrow> kpanic AssertFail
     | Some result \<Rightarrow>
         kbind (get_pte0 s (sw_pgdir mm) addr) (\<lambda>ptr. deref ptr (\<lambda>ptep.
         kbind (swapfs_read s (pte_read s ptep) result) (\<lambda>(_, s).
           kret (0, result, s)))))"
section \<open>Entries and addresses\<close>

lemma present_bit: "present e \<longleftrightarrow> bit e 0"
  by (simp add: present_def and_one_eq bit_0 odd_iff_mod_2_eq_one)

lemma present_soft: "e AND NOT 0x60 = e' AND NOT 0x60 \<Longrightarrow> present e = present e'"
  for e e' :: u32
proof -
  assume "e AND NOT 0x60 = e' AND NOT 0x60"
  then have "bit (e AND NOT 0x60) 0 = bit (e' AND NOT 0x60) 0" by simp
  then show ?thesis by (simp add: present_bit bit_simps)
qed

lemma get_pte0_frame:
  assumes "frame s' pgdir = frame s pgdir" and "npage s' = npage s"
  shows "get_pte0 s' pgdir la = get_pte0 s pgdir la"
  using assms by (simp add: get_pte0_def KADDR_def Let_def)

lemma get_pte0_upd [simp]:
  "get_pte0 (s\<lparr>mgr := a\<rparr>) pgdir la = get_pte0 s pgdir la"
  "get_pte0 (s\<lparr>pra_list := b\<rparr>) pgdir la = get_pte0 s pgdir la"
  "get_pte0 (s\<lparr>swap_dev := c\<rparr>) pgdir la = get_pte0 s pgdir la"
  "get_pte0 (s\<lparr>tlb := e\<rparr>) pgdir la = get_pte0 s pgdir la"
  by (auto intro: get_pte0_frame)

lemma pte_read_upd [simp]:
  "pte_read (s\<lparr>mgr := a\<rparr>) q = pte_read s q"
  "pte_read (s\<lparr>pra_list := b\<rparr>) q = pte_read s q"
  "pte_read (s\<lparr>swap_dev := c\<rparr>) q = pte_read s q"
  "pte_read (s\<lparr>tlb := e\<rparr>) q = pte_read s q"
  "pte_read (pte_write s q v) q = v"
  by (simp_all add: pte_read_def pte_write_def)

lemma pte_write_simps [simp]:
  "mgr (pte_write s q v) = mgr s" "npage (pte_write s q v) = npage s"
  "pra_list (pte_write s q v) = pra_list s" "pra_vaddr (pte_write s q v) = pra_vaddr s"
  "swap_init_ok (pte_write s q v) = swap_init_ok s" "swap_dev (pte_write s q v) = swap_dev s"
  "check_mm_struct (pte_write s q v) = check_mm_struct s"
  "max_swap_offset (pte_write s q v) = max_swap_offset s"
  "ide_err (pte_write s q v) = ide_err s" "cr3 (pte_write s q v) = cr3 s"
  "tlb (pte_write s q v) = tlb s"
  "f \<noteq> fst q \<Longrightarrow> frame (pte_write s q v) f = frame s f"
  by (simp_all add: pte_write_def)

lemma pte_write_same: "pte_write s q (pte_read s q) = s"
  by (simp add: pte_write_def pte_read_def)

lemma tlb_invalidate_simps [simp]:
  "mgr (tlb_invalidate s d la) = mgr s" "npage (tlb_invalidate s d la) = npage s"
  "frame (tlb_invalidate s d la) = frame s"
  "pra_list (tlb_invalidate s d la) = pra_list s"
  "pra_vaddr (tlb_invalidate s d la) = pra_vaddr s"
  "swap_init_ok (tlb_invalidate s d la) = swap_init_ok s"
  "swap_dev (tlb_invalidate s d la) = swap_dev s" "ide_err (tlb_invalidate s d la) = ide_err s"
  "check_mm_struct (tlb_invalidate s d la) = check_mm_struct s"
  "max_swap_offset (tlb_invalidate s d la) = max_swap_offset s"
  "cr3 (tlb_invalidate s d la) = cr3 s"
  "get_pte0 (tlb_invalidate s d la) pgdir v = get_pte0 s pgdir v"
  "pte_read (tlb_invalidate s d la) q = pte_read s q"
  by (simp_all add: tlb_invalidate_def)

section \<open>The list of swappable pages\<close>

definition pra :: "mem \<Rightarrow> nat list \<Rightarrow> bool" where
  "pra s ps \<longleftrightarrow> dlist (pra_list s) Head (map Link ps)"

text \<open>Every swappable page is mapped by the directory \<open>d\<close>, through page tables that are neither
  the directory nor swappable themselves.\<close>

definition pra_ok :: "mem \<Rightarrow> nat \<Rightarrow> nat list \<Rightarrow> bool" where
  "pra_ok s d ps \<longleftrightarrow> pra s ps \<and> (\<forall>p \<in> set ps. \<exists>q. get_pte0 s d (pra_vaddr s p) = kret (Some q) \<and>
     present (pte_read s q) \<and> fst q \<notin> set (d # ps))"

text \<open>\<open>soft_eq d ps s s'\<close>: the states differ in the list and in accessed and dirty bits only, and
  the directory and the swappable pages are untouched.\<close>

definition soft_eq :: "nat \<Rightarrow> nat list \<Rightarrow> mem \<Rightarrow> mem \<Rightarrow> bool" where
  "soft_eq d ps s s' \<longleftrightarrow> s'\<lparr>frame := frame s, pra_list := pra_list s\<rparr> = s \<and>
     (\<forall>f \<in> set (d # ps). frame s' f = frame s f) \<and>
     (\<forall>f i. frame s' f i AND NOT 0x60 = frame s f i AND NOT 0x60)"

lemma soft_eqD:
  assumes "soft_eq d ps s s'"
  shows "mgr s' = mgr s" "npage s' = npage s" "cr3 s' = cr3 s" "tlb s' = tlb s"
    "pra_vaddr s' = pra_vaddr s" "swap_init_ok s' = swap_init_ok s"
    "check_mm_struct s' = check_mm_struct s" "max_swap_offset s' = max_swap_offset s"
    "swap_dev s' = swap_dev s" "ide_err s' = ide_err s"
    "f \<in> set (d # ps) \<Longrightarrow> frame s' f = frame s f"
    "get_pte0 s' d v = get_pte0 s d v"
    "present (pte_read s' q) = present (pte_read s q)"
proof -
  have s: "s = s'\<lparr>frame := frame s, pra_list := pra_list s\<rparr>" using assms by (simp add: soft_eq_def)
  show "mgr s' = mgr s" by (subst s) simp
  show np: "npage s' = npage s" by (subst s) simp
  show "cr3 s' = cr3 s" by (subst s) simp
  show "tlb s' = tlb s" by (subst s) simp
  show "pra_vaddr s' = pra_vaddr s" by (subst s) simp
  show "swap_init_ok s' = swap_init_ok s" by (subst s) simp
  show "check_mm_struct s' = check_mm_struct s" by (subst s) simp
  show "max_swap_offset s' = max_swap_offset s" by (subst s) simp
  show "swap_dev s' = swap_dev s" by (subst s) simp
  show "ide_err s' = ide_err s" by (subst s) simp
  show "f \<in> set (d # ps) \<Longrightarrow> frame s' f = frame s f" using assms by (auto simp: soft_eq_def)
  show "get_pte0 s' d v = get_pte0 s d v"
    using assms by (intro get_pte0_frame np) (simp add: soft_eq_def)
  show "present (pte_read s' q) = present (pte_read s q)"
    using assms by (intro present_soft) (simp add: soft_eq_def pte_read_def)
qed

lemma soft_eq_refl [simp]: "soft_eq d ps s s"
  by (simp add: soft_eq_def)

lemma soft_eq_list [simp]: "soft_eq d ps s (s\<lparr>pra_list := l\<rparr>)"
  by (simp add: soft_eq_def)

lemma soft_eq_trans:
  assumes "soft_eq d ps s s'" and "soft_eq d ps s' s''"
  shows "soft_eq d ps s s''"
proof -
  have "s''\<lparr>frame := frame s, pra_list := pra_list s\<rparr> =
      (s''\<lparr>frame := frame s', pra_list := pra_list s'\<rparr>)\<lparr>frame := frame s, pra_list := pra_list s\<rparr>"
    by simp
  also have "\<dots> = s" using assms by (simp add: soft_eq_def)
  finally show ?thesis using assms by (simp add: soft_eq_def)
qed

lemma soft_eq_write:
  assumes "fst q \<notin> set (d # ps)" and "v AND NOT 0x60 = pte_read s q AND NOT 0x60"
  shows "soft_eq d ps s (pte_write s q v)"
  using assms by (auto simp: soft_eq_def pte_write_def pte_read_def)

lemma pra_ok_soft:
  assumes "pra_ok s d ps" and "soft_eq d ps s s'" and "pra s' ps'" and "set ps' \<subseteq> set ps"
  shows "pra_ok s' d ps'"
  using assms unfolding pra_ok_def by (auto simp: soft_eqD [OF assms(2)]) blast+

definition pte_at :: "mem \<Rightarrow> nat \<Rightarrow> u32 \<Rightarrow> u32" where
  "pte_at s d v = (case get_pte0 s d v of Some (Inr (Some q)) \<Rightarrow> pte_read s q | _ \<Rightarrow> 0)"

lemma pte_at_eq: "get_pte0 s d v = kret (Some q) \<Longrightarrow> pte_at s d v = pte_read s q"
  by (simp add: pte_at_def kret_def)

lemma pra_okD:
  assumes "pra_ok s d ps" and "p \<in> set ps"
  obtains q where "get_pte0 s d (pra_vaddr s p) = kret (Some q)" "present (pte_read s q)"
    "fst q \<notin> set (d # ps)"
  using assms by (auto simp: pra_ok_def)

lemma pra_next: "pra s (xs @ p # ys) \<Longrightarrow> list_next (pra_list s) (Link p) = first_entry ys"
  by (simp add: pra_def list_next_def link_next)

lemma pra_first: "pra s ps \<Longrightarrow> list_next (pra_list s) Head = first_entry ps"
  by (simp add: pra_def list_next_def head_next)

lemma pra_last: "pra s ps \<Longrightarrow> ps \<noteq> [] \<Longrightarrow> list_prev (pra_list s) Head = Link (last ps)"
  using dlist_hd_prev [of "pra_list s" Head "map Link ps"]
  by (simp add: pra_def list_prev_def last_map)

lemma pra_distinct: "pra s ps \<Longrightarrow> distinct ps"
  by (auto simp: pra_def dlist_def distinct_map)

lemma pra_same: "pra_list s' = pra_list s \<Longrightarrow> pra s' ps = pra s ps"
  by (simp add: pra_def)

lemma pra_del:
  assumes "pra s ps" and "p \<in> set ps" and "pra_list s' = list_del (pra_list s) (Link p)"
  shows "pra s' (remove1 p ps)"
proof -
  obtain xs ys where ps: "ps = xs @ p # ys" "p \<notin> set xs"
    using split_list_first [OF assms(2)] by blast
  show ?thesis using assms dlist_del [of "pra_list s" Head "map Link xs" "Link p" "map Link ys"]
    by (simp add: ps pra_def remove1_append)
qed

lemma take_victim_ok:
  assumes "pra_ok s d ps" and "soft_eq d ps s0 s" and "p \<in> set ps"
  shows "\<exists>s'. take_victim s (Link p) = kret (0, p, s') \<and> soft_eq d ps s0 s' \<and>
    pra s' (remove1 p ps)"
  using assms soft_eq_trans [OF assms(2), of "s\<lparr>pra_list := list_del (pra_list s) (Link p)\<rparr>"]
  by (auto simp: take_victim_def pra_ok_def intro: pra_del)

subsection \<open>The scans\<close>

lemma clock_scan_find:
  assumes "pra_ok s d (xs @ ys)"
  shows "clock_scan pick (\<lambda>e. e) d s (first_entry ys) =
    kret (case find (\<lambda>p. pick (pte_at s d (pra_vaddr s p))) ys of None \<Rightarrow> Head | Some p \<Rightarrow> Link p, s)"
  using assms
proof (induction ys arbitrary: xs)
  case Nil
  then show ?case by (subst clock_scan.simps) simp
next
  case (Cons p ys)
  obtain q where q: "get_pte0 s d (pra_vaddr s p) = kret (Some q)"
    by (rule pra_okD [OF Cons.prems, of p]) auto
  have "list_next (pra_list s) (Link p) = first_entry ys"
    using Cons.prems by (auto simp: pra_ok_def intro: pra_next)
  with q Cons.IH [of "xs @ [p]"] Cons.prems show ?case
    by (subst clock_scan.simps) (simp add: pte_at_eq [OF q] pte_write_same)
qed

lemma clock_scan_soft:
  assumes "pra_ok s d ps" and "ps = xs @ ys"
    and miss: "\<forall>e. miss e AND NOT 0x60 = e AND NOT 0x60"
  shows "\<exists>r s'. clock_scan pick miss d s (first_entry ys) = kret (r, s') \<and> soft_eq d ps s s' \<and>
    pra_list s' = pra_list s \<and> r \<in> insert Head (Link ` set ps)"
  using assms(1,2)
proof (induction ys arbitrary: xs s)
  case Nil
  then show ?case by (subst clock_scan.simps) simp
next
  case (Cons p ys)
  obtain q where q: "get_pte0 s d (pra_vaddr s p) = kret (Some q)" "fst q \<notin> set (d # ps)"
    using Cons.prems(2) by (auto intro: pra_okD [OF Cons.prems(1), of p])
  define s1 where "s1 = pte_write s q (miss (pte_read s q))"
  have s1: "soft_eq d ps s s1" unfolding s1_def by (rule soft_eq_write) (use q miss in auto)
  have l1: "pra_list s1 = pra_list s" by (simp add: s1_def)
  have p1: "pra s1 ps" using Cons.prems(1) by (simp add: pra_ok_def pra_same [OF l1])
  have n1: "list_next (pra_list s1) (Link p) = first_entry ys"
    using p1 Cons.prems(2) by (auto intro: pra_next)
  obtain r s' where r: "clock_scan pick miss d s1 (first_entry ys) = kret (r, s')"
      "soft_eq d ps s1 s'" "pra_list s' = pra_list s1" "r \<in> insert Head (Link ` set ps)"
    using Cons.IH [OF pra_ok_soft [OF Cons.prems(1) s1 p1 subset_refl], of "xs @ [p]"] Cons.prems(2)
    by auto
  show ?case
  proof (cases "pick (pte_read s q)")
    case True
    then show ?thesis using Cons.prems(2) by (subst clock_scan.simps) (simp add: q)
  next
    case False
    then have "clock_scan pick miss d s (first_entry (p # ys)) = kret (r, s')"
      using r(1) by (subst clock_scan.simps) (simp add: q n1 s1_def [symmetric])
    then show ?thesis using r soft_eq_trans [OF s1 r(2)] l1 by auto
  qed
qed
section \<open>The interface \<^verbatim>\<open>struct swap_manager\<close>\<close>

definition victim_spec :: "nat \<Rightarrow> nat list \<Rightarrow> mem \<Rightarrow> (int \<times> nat \<times> mem) prog \<Rightarrow> bool" where
  "victim_spec d ps s m \<longleftrightarrow> (\<exists>p s'. m = kret (0, p, s') \<and> p \<in> set ps \<and> soft_eq d ps s s' \<and>
     pra s' (remove1 p ps))"

lemma victim_spec_take:
  assumes "pra_ok s d ps" and "soft_eq d ps s0 s" and "p \<in> set ps"
  shows "victim_spec d ps s0 (take_victim s (Link p))"
  using take_victim_ok [OF assms] assms(3) unfolding victim_spec_def by blast

locale swap_manager =
  fixes victim :: "mem \<Rightarrow> swap_mm option \<Rightarrow> int \<Rightarrow> (int \<times> nat \<times> mem) prog"
  assumes victim_law: "pra_ok s (sw_pgdir m) ps \<Longrightarrow> ps \<noteq> [] \<Longrightarrow> sw_priv m \<Longrightarrow>
    victim_spec (sw_pgdir m) ps s (victim s (Some m) 0)"

lemma fifo_victim_eq:
  assumes "pra s ps" and "ps \<noteq> []" and "sw_priv m"
  shows "fifo_swap_out_victim s (Some m) 0 = take_victim s (Link (last ps))"
  using assms by (simp add: fifo_swap_out_victim_def pra_last)

interpretation fifo: swap_manager fifo_swap_out_victim
proof
  fix s ps and m :: swap_mm
  assume ok: "pra_ok s (sw_pgdir m) ps" and ne: "ps \<noteq> []" and priv: "sw_priv m"
  then have "fifo_swap_out_victim s (Some m) 0 = take_victim s (Link (last ps))"
    by (intro fifo_victim_eq) (auto simp: pra_ok_def)
  then show "victim_spec (sw_pgdir m) ps s (fifo_swap_out_victim s (Some m) 0)"
    using victim_spec_take [OF ok soft_eq_refl, of "last ps"] ne by simp
qed

lemma extended_scan_last:
  assumes "pra_ok s d ps" and "ps \<noteq> []"
  shows "\<exists>r s'. extended_scan d s (Link (last ps)) = kret (r, s') \<and> soft_eq d ps s s' \<and>
    pra_list s' = pra_list s \<and> r \<in> {None, Some (Link (last ps))}"
proof -
  have ps: "ps = butlast ps @ [last ps]" using assms(2) by simp
  obtain q where q: "get_pte0 s d (pra_vaddr s (last ps)) = kret (Some q)" "fst q \<notin> set (d # ps)"
    using assms(2) by (auto intro: pra_okD [OF assms(1), of "last ps"])
  have nx: "list_next (pra_list s) (Link (last ps)) = Head"
    using pra_next [of s "butlast ps" "last ps" "[]"] assms by (simp add: pra_ok_def)
  have mask: "(0xffffffbf :: u32) AND NOT 0x60 = NOT 0x60" by code_simp
  have w: "soft_eq d ps s (pte_write s q (pte_read s q AND 0xffffffbf))"
    by (rule soft_eq_write [OF q(2)]) (simp only: and.assoc mask)
  show ?thesis
    using w by (subst extended_scan.simps, simp add: q(1), subst extended_scan.simps) (simp add: nx)
qed

lemma extended_clock_eq:
  assumes ok: "pra_ok s (sw_pgdir m) ps" and ne: "ps \<noteq> []" and priv: "sw_priv m"
  shows "\<exists>s'. extended_clock s (Some m) 0 = take_victim s' (Link (last ps)) \<and>
    soft_eq (sw_pgdir m) ps s s' \<and> pra_list s' = pra_list s"
proof -
  obtain r s' where r: "extended_scan (sw_pgdir m) s (Link (last ps)) = kret (r, s')"
      "soft_eq (sw_pgdir m) ps s s'" "pra_list s' = pra_list s" "r \<in> {None, Some (Link (last ps))}"
    using extended_scan_last [OF ok ne] by blast
  have l: "list_prev (pra_list s) Head = Link (last ps)"
    using ok ne by (auto simp: pra_ok_def intro: pra_last)
  from r(4) have "extended_clock s (Some m) 0 = take_victim s' (Link (last ps))"
    by (auto simp: extended_clock_def priv l r(1,3))
  then show ?thesis using r by blast
qed

interpretation extended: swap_manager extended_clock
proof
  fix s ps and m :: swap_mm
  assume a: "pra_ok s (sw_pgdir m) ps" "ps \<noteq> []" "sw_priv m"
  then obtain s' where s': "extended_clock s (Some m) 0 = take_victim s' (Link (last ps))"
      "soft_eq (sw_pgdir m) ps s s'" "pra_list s' = pra_list s"
    using extended_clock_eq by blast
  have "pra_ok s' (sw_pgdir m) ps"
    using a(1) by (intro pra_ok_soft [OF a(1) s'(2)]) (auto simp: pra_same [OF s'(3)] pra_ok_def)
  from victim_spec_take [OF this s'(2), of "last ps"] a(2)
  show "victim_spec (sw_pgdir m) ps s (extended_clock s (Some m) 0)" by (simp add: s'(1))
qed

text \<open>The two last scans cover every entry, so the function never runs past its end.\<close>

lemma clock_rest:
  assumes ok: "pra_ok s d ps" and ne: "ps \<noteq> []" and s0: "soft_eq d ps s0 s"
  shows "victim_spec d ps s0 (
     kbind (clock_scan (\<lambda>e. e AND PTE_D = 0) (\<lambda>e. e) d s (list_next (pra_list s) Head)) (\<lambda>(le, s).
     if le \<noteq> Head then take_victim s le else
     kbind (clock_scan (\<lambda>e. e AND PTE_D \<noteq> 0) (\<lambda>e. e) d s (list_next (pra_list s) le)) (\<lambda>(le, s).
     if le \<noteq> Head then take_victim s le
     else kpanic (Panic ''no return value''))))"
proof -
  let ?D = "\<lambda>p. pte_at s d (pra_vaddr s p) AND PTE_D"
  have f: "list_next (pra_list s) Head = first_entry ps"
    using ok by (simp add: pra_ok_def pra_first)
  note scan = clock_scan_find [of s d "[]" ps, simplified, OF ok]
  show ?thesis
  proof (cases "find (\<lambda>p. ?D p = 0) ps")
    case (Some p)
    then have "p \<in> set ps" by (auto simp: find_Some_iff)
    with Some show ?thesis using victim_spec_take [OF ok s0] by (simp add: f scan)
  next
    case None
    then have "find (\<lambda>p. ?D p \<noteq> 0) ps = Some (hd ps)"
      using ne by (cases ps) (auto simp: find_None_iff)
    with None show ?thesis using victim_spec_take [OF ok s0, of "hd ps"] ne
      by (simp add: f scan)
  qed
qed

interpretation enhanced: swap_manager enhanced_clock
proof
  fix s ps and m :: swap_mm
  assume ok: "pra_ok s (sw_pgdir m) ps" and ne: "ps \<noteq> []" and priv: "sw_priv m"
  let ?d = "sw_pgdir m"
  let ?first = "\<lambda>e :: u32. e AND PTE_A = 0 \<and> e AND PTE_D = 0"
  have l: "list_prev (pra_list s) Head = first_entry [last ps]"
    using ok ne by (simp add: pra_ok_def pra_last)
  have f: "list_next (pra_list s) Head = first_entry ps"
    using ok by (simp add: pra_ok_def pra_first)
  have scan1: "clock_scan ?first (\<lambda>e. e) ?d s (first_entry [last ps]) = kret (
      if ?first (pte_at s ?d (pra_vaddr s (last ps))) then Link (last ps) else Head, s)"
    using clock_scan_find [of s ?d "butlast ps" "[last ps]" ?first] ok ne by simp
  have soft: "\<forall>e::u32. (e XOR PTE_A) AND NOT 0x60 = e AND NOT 0x60"
    by (simp add: bit.conj_xor_distrib2)
  obtain r s1 where r: "clock_scan (\<lambda>e. e AND PTE_A = 0 \<and> e AND PTE_D \<noteq> 0) (\<lambda>e. e XOR PTE_A) ?d s
        (first_entry ps) = kret (r, s1)" "soft_eq ?d ps s s1" "pra_list s1 = pra_list s"
      "r \<in> insert Head (Link ` set ps)"
    using clock_scan_soft [OF ok _ soft, of "[]" ps "\<lambda>e. e AND PTE_A = 0 \<and> e AND PTE_D \<noteq> 0"]
    by auto
  have ok1: "pra_ok s1 ?d ps"
    using ok by (intro pra_ok_soft [OF ok r(2)]) (auto simp: pra_same [OF r(3)] pra_ok_def)
  show "victim_spec ?d ps s (enhanced_clock s (Some m) 0)"
  proof (cases "?first (pte_at s ?d (pra_vaddr s (last ps)))")
    case True
    then show ?thesis using victim_spec_take [OF ok soft_eq_refl, of "last ps"] ne scan1
      by (simp add: enhanced_clock_def priv l)
  next
    case False
    then have miss: "clock_scan ?first (\<lambda>e. e) ?d s (Link (last ps)) = kret (Head, s)"
      using scan1 by auto
    note rest = clock_rest [OF ok1 ne r(2)]
    from r(4) show ?thesis
    proof
      assume h: "r = Head"
      show ?thesis using rest
        by (simp add: enhanced_clock_def Let_def priv l miss r(1) [unfolded h] f r(3))
    next
      assume "r \<in> Link ` set ps"
      then obtain p where p: "r = Link p" "p \<in> set ps" by auto
      show ?thesis using victim_spec_take [OF ok1 r(2) p(2)]
        by (simp add: enhanced_clock_def Let_def priv l miss r(1) [unfolded p(1)] f r(3))
    qed
  qed
qed
section \<open>Swapping out one page\<close>

declare swap_out_loop.simps(2) [simp del]

text \<open>\<open>swap_slot v\<close> is the offset in the swap area for virtual address \<open>v\<close>; \<open>swap_ready\<close> says that
  the victim can be written and released.\<close>

definition swap_slot :: "u32 \<Rightarrow> u32" where
  "swap_slot v = v div PGSIZE + 1"

definition swap_ready :: "nat set \<Rightarrow> mem \<Rightarrow> nat \<Rightarrow> nat list \<Rightarrow> nat set \<Rightarrow> bool" where
  "swap_ready M s d ps F \<longleftrightarrow> pra_ok s d ps \<and> pmm_ok (unat (npage s)) M (mgr s) F \<and>
     unat (npage s) \<le> 2 ^ 20 \<and> (\<forall>p \<in> set ps. p \<in> M - F \<and> p < unat (npage s) \<and>
       swap_slot (pra_vaddr s p) < max_swap_offset s \<and> ide_err s (swap_slot (pra_vaddr s p)) = 0)"

lemma unat_swap_slot: "unat (swap_slot v) = unat v div 4096 + 1"
proof -
  have "unat v < 4294967296" by simp
  then have "unat v div 4096 + 1 < 4294967296" by linarith
  then show ?thesis unfolding swap_slot_def
    by (subst unat_add_noov) (simp_all add: unat_div)
qed

lemma swap_slot_entry: "drop_bit 8 (push_bit 8 (swap_slot v)) = swap_slot v"
proof -
  have "unat v < 4294967296" by simp
  then have "unat (swap_slot v) \<le> 1048576" 
    unfolding unat_swap_slot by linarith
  then show ?thesis
    by (subst word_unat_eq_iff) (simp add: unat_drop_bit_eq drop_bit_eq_div push_bit_eq_mult unat_word_ariths)
qed

lemma swap_slot_pos: "0 < swap_slot v"
  by (simp add: word_less_nat_alt unat_swap_slot)

lemma PPN_page2pa: "p < 2 ^ 20 \<Longrightarrow> PPN (page2pa p) = of_nat p"
  by (subst word_unat_eq_iff) (simp add: PPN_def page2pa_def unat_drop_bit_eq drop_bit_eq_div
      push_bit_eq_mult unat_word_ariths unat_of_nat)

lemma page2kva_ok:
  assumes "p < unat (npage s)" and "unat (npage s) \<le> 2 ^ 20"
  shows "page2kva s p = kret p"
proof -
  have "unat (of_nat p :: u32) = p" using assms by (simp add: unat_of_nat)
  moreover have "p < 2 ^ 20" using assms by simp
  ultimately show ?thesis using assms(1)
    by (simp add: page2kva_def KADDR_def PPN_page2pa word_le_nat_alt)
qed
context swap_manager
begin

lemma swap_out_one:
  assumes ok: "swap_ready M s (sw_pgdir m) ps F" and ne: "ps \<noteq> []" and priv: "sw_priv m"
  shows "\<exists>p s1 s2 q. victim s (Some m) 0 = kret (0, p, s1) \<and>
    swap_out_loop victim 1 0 s (Some m) 0 = kret (1, s2) \<and>
    p \<in> set ps \<and> pra s2 (remove1 p ps) \<and>
    pmm_ok (unat (npage s)) M (mgr s2) (insert p F) \<and>
    get_pte0 s2 (sw_pgdir m) (pra_vaddr s p) = kret (Some q) \<and>
    pte_read s2 q = push_bit 8 (swap_slot (pra_vaddr s p)) \<and>
    swap_dev s2 = (swap_dev s)(swap_slot (pra_vaddr s p) := frame s p) \<and>
    npage s2 = npage s \<and> max_swap_offset s2 = max_swap_offset s \<and> ide_err s2 = ide_err s \<and>
    swap_init_ok s2 = swap_init_ok s \<and> pra_vaddr s2 = pra_vaddr s"
proof -
  let ?d = "sw_pgdir m"
  have pok: "pra_ok s ?d ps" and np: "unat (npage s) \<le> 2 ^ 20"
    and mok: "pmm_ok (unat (npage s)) M (mgr s) F" using ok by (auto simp: swap_ready_def)
  obtain p s1 where v: "victim s (Some m) 0 = kret (0, p, s1)" "p \<in> set ps"
      "soft_eq ?d ps s s1" "pra s1 (remove1 p ps)"
    using victim_law [OF pok ne priv] by (auto simp: victim_spec_def)
  note eq = soft_eqD [OF v(3)]
  obtain q where q: "get_pte0 s ?d (pra_vaddr s p) = kret (Some q)" "present (pte_read s q)"
      "fst q \<notin> set (?d # ps)" by (rule pra_okD [OF pok v(2)])
  have p: "p \<in> M - F" "p < unat (npage s)" "swap_slot (pra_vaddr s p) < max_swap_offset s"
      "ide_err s (swap_slot (pra_vaddr s p)) = 0" using ok v(2) by (auto simp: swap_ready_def)
  have kva: "page2kva s1 p = kret p" using p(2) np by (intro page2kva_ok) (simp_all add: eq)
  let ?slot = "swap_slot (pra_vaddr s p)"
  have wr: "swapfs_write s1 (push_bit 8 ?slot) p =
      kret (0, s1\<lparr>swap_dev := (swap_dev s)(?slot := frame s p)\<rparr>)"
    using p v(2) by (simp add: swapfs_write_def swap_offset_def Let_def swap_slot_entry swap_slot_pos
        kva eq)
  obtain m' where fr: "default_free_pages (mgr s) p 1 = kret m'"
      "pmm_ok (unat (npage s)) M m' (F \<union> block (p, 1))"
    using best_fit.mgr.free_law [OF mok, of 1 p] p(1) by (auto simp: block_def)
  define s2 where "s2 = tlb_invalidate
    ((pte_write (s1\<lparr>swap_dev := (swap_dev s)(?slot := frame s p)\<rparr>) q (push_bit 8 ?slot))\<lparr>mgr := m'\<rparr>)
    ?d (pra_vaddr s p)"
  have "swap_out_loop victim 1 0 s (Some m) 0 = kret (1, s2)"
    unfolding One_nat_def swap_out_loop.simps(2) v(1)
    by (simp add: Let_def q eq swap_slot_def [symmetric] wr free_pages_def fr(1) s2_def)
  moreover have "block (p, 1) = {p}" by (auto simp: block_def)
  moreover have "get_pte0 s2 ?d (pra_vaddr s p) = kret (Some q)"
  proof -
    have "get_pte0 s2 ?d (pra_vaddr s p) = get_pte0 s1 ?d (pra_vaddr s p)"
      using q(3) by (intro get_pte0_frame) (simp_all add: s2_def)
    then show ?thesis by (simp add: eq q(1))
  qed
  ultimately show ?thesis
    using v(1,2,4) fr(2) by - (rule exI [of _ p], rule exI [of _ s1], rule exI [of _ s2], rule exI [of _ q],
        simp add: s2_def eq pra_def)
qed

text \<open>What went out comes back: reading the entry left in the page table restores the page.\<close>

lemma swap_out_in:
  assumes ok: "swap_ready M s (sw_pgdir m) ps F" and ne: "ps \<noteq> []" and priv: "sw_priv m"
  shows "\<exists>p s1 s2 n s3. victim s (Some m) 0 = kret (0, p, s1) \<and> p \<in> set ps \<and>
    swap_out_loop victim 1 0 s (Some m) 0 = kret (1, s2) \<and>
    swap_in s2 m (pra_vaddr s p) = kret (0, n, s3) \<and> n \<in> insert p F \<and> frame s3 n = frame s p"
proof -
  let ?d = "sw_pgdir m"
  obtain p s1 s2 q where o: "victim s (Some m) 0 = kret (0, p, s1)"
      "swap_out_loop victim 1 0 s (Some m) 0 = kret (1, s2)" "p \<in> set ps"
      "pmm_ok (unat (npage s)) M (mgr s2) (insert p F)"
      "get_pte0 s2 ?d (pra_vaddr s p) = kret (Some q)"
      "pte_read s2 q = push_bit 8 (swap_slot (pra_vaddr s p))"
      "swap_dev s2 = (swap_dev s)(swap_slot (pra_vaddr s p) := frame s p)"
      "npage s2 = npage s" "max_swap_offset s2 = max_swap_offset s" "ide_err s2 = ide_err s"
    using swap_out_one [OF assms] by blast
  have slot: "swap_slot (pra_vaddr s p) < max_swap_offset s"
      "ide_err s (swap_slot (pra_vaddr s p)) = 0" "unat (npage s) \<le> 2 ^ 20"
    using ok o(3) by (auto simp: swap_ready_def)
  obtain n m' where a: "default_alloc_pages_best_fit (mgr s2) 1 = kret (Some n, m')"
      "block (n, 1) \<subseteq> insert p F" "pmm_ok (unat (npage s)) M m' (insert p F - block (n, 1))"
  proof -
    have "block (p, 1) \<subseteq> insert p F" by (auto simp: block_def)
    with best_fit.mgr.alloc_law [OF o(4), of 1] that show thesis
      by (force split: option.splits)
  qed
  have n: "n \<in> insert p F" using a(2) by (auto simp: block_def)
  have "insert p F \<subseteq> {..< unat (npage s)}"
    using o(4) by (auto simp: pmm_ok_def)
  then have kva: "page2kva (s2\<lparr>mgr := m'\<rparr>) n = kret n"
    using n slot(3) by (intro page2kva_ok) (auto simp: o(8))
  have "alloc_pages s2 1 = kret (Some n, s2\<lparr>mgr := m'\<rparr>)"
    by (subst alloc_pages.simps) (simp add: a(1))
  then have "swap_in s2 m (pra_vaddr s p) = kret (0, n, (s2\<lparr>mgr := m'\<rparr>)\<lparr>frame :=
      (frame s2)(n := frame s p)\<rparr>)"
    using slot by (simp add: swap_in_def o(5-10) swapfs_read_def swap_offset_def Let_def
        swap_slot_entry swap_slot_pos kva)
  then show ?thesis using o(1-3) n
    by - (rule exI [of _ p], rule exI [of _ s1], rule exI [of _ s2], rule exI [of _ n], simp)
qed

end
section \<open>The allocator\<close>

lemma alloc_page_free:
  assumes "pmm_ok N M (mgr s) F" and "F \<noteq> {}"
  shows "\<exists>p m. alloc_pages s 1 = kret (Some p, s\<lparr>mgr := m\<rparr>) \<and> p \<in> F \<and> pmm_ok N M m (F - {p}) \<and>
    default_alloc_pages_best_fit (mgr s) 1 = kret (Some p, m)"
proof -
  have b: "block (p, 1) = {p}" for p by (auto simp: block_def)
  with assms(2) have "\<not> (\<forall>p. \<not> block (p, 1) \<subseteq> F)" by auto
  with best_fit.mgr.alloc_law [OF assms(1), of 1] obtain p m where
    a: "default_alloc_pages_best_fit (mgr s) 1 = kret (Some p, m)" "block (p, 1) \<subseteq> F"
      "pmm_ok N M m (F - block (p, 1))" by (auto split: option.splits)
  then show ?thesis by (subst alloc_pages.simps) (simp add: b)
qed

lemma alloc_page_none:
  assumes "pmm_ok N M (mgr s) {}"
  shows "default_alloc_pages_best_fit (mgr s) 1 = kret (None, mgr s)"
  using best_fit.mgr.alloc_law [OF assms, of 1] by (auto simp: block_def split: option.splits)

lemma alloc_exhausted:
  assumes "pmm_ok N M (mgr s) {}" and "swap_init_ok s \<longrightarrow> check_mm_struct s = None"
  shows "alloc_pages s 1 = (if swap_init_ok s then null_deref else kret (None, s))"
  using alloc_page_none [OF assms(1)] assms(2)
  by (subst alloc_pages.simps) (simp add: swap_out_def swap_out_loop.simps(2) [of _ 0, simplified]
      fifo_swap_out_victim_def null_deref_def)

section \<open>Properties\<close>

text \<open>A full machine for the witnesses: pages 2 to 7 are managed and in use, page 3 is mapped at
  virtual address 0x1000 by the directory in frame 10 through the table in frame 11.\<close>

lemma exhausted: "\<exists>m. pmm_ok 100 (block (2, 6)) m {}"
proof -
  obtain s where s: "pmm_ok 100 (block (2, 6)) s (block (2, 6))" using booted by blast
  have "\<not> (\<forall>p. \<not> block (p, 6) \<subseteq> block (2, 6))" by blast
  then obtain p s' where "block (p, 6) \<subseteq> block (2, 6)"
      "pmm_ok 100 (block (2, 6)) s' (block (2, 6) - block (p, 6))"
    using best_fit.mgr.alloc_law [OF s, of 6] by (auto split: option.splits)
  moreover from this(1) have "block (p, 6) = block (2, 6)"
    by (intro card_subset_eq) (simp_all add: block_def)
  ultimately show ?thesis by auto
qed

definition full_mem :: "pmm \<Rightarrow> mem" where
  "full_mem m = \<lparr>mgr = m, npage = 100,
     frame = (\<lambda>f i. if f = 10 \<and> i = 0 then 0xB007 else if f = 11 \<and> i = 1 then 0x3007
                    else if f = 3 then of_nat i else 0),
     cr3 = 10, tlb = [],
     pra_list = \<lparr>lnext = (\<lambda>e. if e = Head then Link 3 else Head),
                 lprev = (\<lambda>e. if e = Head then Link 3 else Head)\<rparr>,
     pra_vaddr = (\<lambda>_. 0x1000), swap_init_ok = True,
     check_mm_struct = Some \<lparr>sw_pgdir = 10, sw_priv = True\<rparr>,
     max_swap_offset = 1024, swap_dev = (\<lambda>_ _. 0), ide_err = (\<lambda>_. 0)\<rparr>"

lemma full_mem_ready:
  assumes "pmm_ok 100 (block (2, 6)) m {}"
  shows "swap_ready (block (2, 6)) (full_mem m) 10 [3] {}"
proof -
  have "get_pte0 (full_mem m) 10 0x1000 = kret (Some (11, 1))" by code_simp
  moreover have "present (pte_read (full_mem m) (11, 1))" by code_simp
  moreover have "swap_slot 0x1000 < 1024" by code_simp
  ultimately show ?thesis using assms
    by (auto simp: swap_ready_def pra_ok_def pra_def full_mem_def dlist_def block_def)
qed

definition swap_policies ::
  "(mem \<Rightarrow> swap_mm option \<Rightarrow> int \<Rightarrow> (int \<times> nat \<times> mem) prog) list" where
  "swap_policies = [fifo_swap_out_victim, enhanced_clock, extended_clock]"

text \<open>C11. With each of the three replacement policies, a page that is swapped out comes back
  unchanged: \<^verbatim>\<open>swap_out\<close> evicts one swappable page, and \<^verbatim>\<open>swap_in\<close> at its virtual address then
  returns a frame with the contents the page had.  Both calls return.\<close>

theorem swap_roundtrip:
  assumes "victim \<in> set swap_policies"
    and "swap_ready M s (sw_pgdir m) ps F" and "ps \<noteq> []" and "sw_priv m"
  shows "\<exists>p s1 s2 n s3. victim s (Some m) 0 = kret (0, p, s1) \<and> p \<in> set ps \<and>
    swap_out_loop victim 1 0 s (Some m) 0 = kret (1, s2) \<and>
    swap_in s2 m (pra_vaddr s p) = kret (0, n, s3) \<and> n \<in> insert p F \<and> frame s3 n = frame s p"
proof -
  from assms(1) consider "victim = fifo_swap_out_victim" | "victim = enhanced_clock"
    | "victim = extended_clock" by (auto simp: swap_policies_def)
  then show ?thesis
    by cases (use fifo.swap_out_in enhanced.swap_out_in extended.swap_out_in assms in simp_all)
qed

theorem swap_roundtrip_witness:
  "\<exists>mg s2 n s3. swap_out_loop enhanced_clock 1 0 (full_mem mg)
       (Some \<lparr>sw_pgdir = 10, sw_priv = True\<rparr>) 0 = kret (1, s2) \<and>
     swap_in s2 \<lparr>sw_pgdir = 10, sw_priv = True\<rparr> 0x1000 = kret (0, n, s3) \<and>
     (\<forall>i < 1024. frame s3 n i = of_nat i)"
proof -
  obtain mg where "pmm_ok 100 (block (2, 6)) mg {}" using exhausted by blast
  then have r: "swap_ready (block (2, 6)) (full_mem mg)
      (sw_pgdir \<lparr>sw_pgdir = 10, sw_priv = True\<rparr>) [3] {}" by (simp add: full_mem_ready)
  have "enhanced_clock \<in> set swap_policies" by (simp add: swap_policies_def)
  from swap_roundtrip [OF this r] show ?thesis by (fastforce simp: full_mem_def)
qed



text \<open>C33. In the running kernel \<^verbatim>\<open>check_mm_struct\<close> is NULL once the boot checks are over; an
  allocation of one page on an exhausted machine then dereferences it inside \<^verbatim>\<open>swap_out\<close> instead of
  reporting failure.\<close>

theorem alloc_pages_null:
  assumes "pmm_ok N M (mgr s) {}" and "swap_init_ok s" and "check_mm_struct s = None"
  shows "alloc_pages s 1 = null_deref"
  using alloc_exhausted [OF assms(1)] assms(2,3) by simp

theorem alloc_pages_null_witness:
  "\<exists>mg. alloc_pages ((full_mem mg)\<lparr>check_mm_struct := None\<rparr>) 1 = null_deref"
proof -
  obtain mg where "pmm_ok 100 (block (2, 6)) mg {}" using exhausted by blast
  then show ?thesis
    using alloc_pages_null [of 100 "block (2, 6)" "(full_mem mg)\<lparr>check_mm_struct := None\<rparr>"]
    by (auto simp: full_mem_def)
qed

text \<open>C31. The policy called \<^verbatim>\<open>_extended_clock\<close> is first-in-first-out: it evicts the same page as
  \<^verbatim>\<open>_fifo_swap_out_victim\<close> and leaves the same list, whatever the dirty bits are.\<close>

theorem extended_clock_is_fifo:
  assumes "pra_ok s (sw_pgdir m) ps" and "ps \<noteq> []" and "sw_priv m"
  shows "\<exists>s1 s2. fifo_swap_out_victim s (Some m) 0 = kret (0, last ps, s1) \<and>
    extended_clock s (Some m) 0 = kret (0, last ps, s2) \<and> pra_list s2 = pra_list s1"
proof -
  have "pra s ps" using assms(1) by (simp add: pra_ok_def)
  from fifo_victim_eq [OF this assms(2,3)] extended_clock_eq [OF assms]
  show ?thesis by (auto simp: take_victim_def)
qed

theorem extended_clock_is_fifo_witness:
  "\<exists>mg s1 s2. fifo_swap_out_victim (full_mem mg) (Some \<lparr>sw_pgdir = 10, sw_priv = True\<rparr>) 0 =
       kret (0, 3, s1) \<and>
     extended_clock (full_mem mg) (Some \<lparr>sw_pgdir = 10, sw_priv = True\<rparr>) 0 = kret (0, 3, s2)"
proof -
  obtain mg where "pmm_ok 100 (block (2, 6)) mg {}" using exhausted by blast
  then have "pra_ok (full_mem mg) (sw_pgdir \<lparr>sw_pgdir = 10, sw_priv = True\<rparr>) [3]"
    using full_mem_ready by (simp add: swap_ready_def)
  from extended_clock_is_fifo [OF this] show ?thesis by fastforce
qed

end
