(* ===== verification/Paging.thy ===== *)
theory Paging
  imports Swap
begin

text \<open>
  Page tables: the second half of \<^verbatim>\<open>kern/mm/pmm.c\<close>.  The abstraction of the page directories in
  use is the function \<open>vpte\<close> from directories and virtual page numbers to entries; \<open>paging_ok\<close> is the
  invariant that ties it to the frames, the page allocator and the reference counts.  The lemmas give,
  for each operation, its effect on \<open>vpte\<close> and the exact set of free frames afterwards: a frame is
  released when, and only when, its last mapping goes away.
\<close>

unbundle bit_operations_syntax

section \<open>Reference counts (\<^verbatim>\<open>kern/mm/pmm.h\<close>)\<close>

definition page_ref_of :: "mem \<Rightarrow> nat \<Rightarrow> int" where
  "page_ref_of s p = page_ref (pages (mgr s) p)"

definition put_page_ref :: "mem \<Rightarrow> nat \<Rightarrow> int \<Rightarrow> mem" where
  "put_page_ref s p v =
     s\<lparr>mgr := (mgr s)\<lparr>pages := (pages (mgr s))(p := set_page_ref (pages (mgr s) p) v)\<rparr>\<rparr>"

definition page_ref_inc :: "mem \<Rightarrow> nat \<Rightarrow> int \<times> mem" where
  "page_ref_inc s p = (let v = page_ref_of s p + 1 in (v, put_page_ref s p v))"

definition page_ref_dec :: "mem \<Rightarrow> nat \<Rightarrow> int \<times> mem" where
  "page_ref_dec s p = (let v = page_ref_of s p - 1 in (v, put_page_ref s p v))"

section \<open>Page tables (\<^verbatim>\<open>kern/mm/pmm.c\<close>)\<close>

definition get_pte :: "mem \<Rightarrow> nat \<Rightarrow> u32 \<Rightarrow> bool \<Rightarrow> (pte_ptr option \<times> mem) prog" where
  "get_pte s pgdir la create =
     kbind (if \<not> present (frame s pgdir (PDX la))
            then if \<not> create then kret (False, s)
              else kbind (alloc_pages s 1) (\<lambda>(r, s). case r of
                None \<Rightarrow> kret (False, s)
              | Some page \<Rightarrow>
                  let s = put_page_ref s page 1; pa = page2pa page in
                  kbind (KADDR s pa) (\<lambda>k.
                    let s = s\<lparr>frame := (frame s)(k := (\<lambda>_. 0))\<rparr> in
                    kret (True, pte_write s (pgdir, PDX la) (pa OR PTE_U OR PTE_W OR PTE_P))))
            else kret (True, s))
       (\<lambda>(ok, s). if \<not> ok then kret (None, s)
         else kbind (KADDR s (PTE_ADDR (frame s pgdir (PDX la)))) (\<lambda>t.
                kret (Some (t, PTX la), s)))"

definition get_page :: "mem \<Rightarrow> nat \<Rightarrow> u32 \<Rightarrow> (nat option \<times> pte_ptr option) prog" where
  "get_page s pgdir la =
     kbind (get_pte s pgdir la False) (\<lambda>(r, s). case r of
       None \<Rightarrow> kret (None, r)
     | Some ptep \<Rightarrow>
         if present (pte_read s ptep)
         then kbind (pte2page s (pte_read s ptep)) (\<lambda>p. kret (Some p, r))
         else kret (None, r))"

definition page_remove_pte :: "mem \<Rightarrow> nat \<Rightarrow> u32 \<Rightarrow> pte_ptr \<Rightarrow> mem prog" where
  "page_remove_pte s pgdir la ptep =
     (if present (pte_read s ptep)
      then kbind (pte2page s (pte_read s ptep)) (\<lambda>page.
        let (r, s) = page_ref_dec s page in
        kbind (if r = 0 then free_pages s page 1 else kret s) (\<lambda>s.
          kret (tlb_invalidate (pte_write s ptep 0) pgdir la)))
      else kret s)"

definition page_remove :: "mem \<Rightarrow> nat \<Rightarrow> u32 \<Rightarrow> mem prog" where
  "page_remove s pgdir la =
     kbind (get_pte s pgdir la False) (\<lambda>(r, s). case r of
       None \<Rightarrow> kret s
     | Some ptep \<Rightarrow> page_remove_pte s pgdir la ptep)"

definition page_insert :: "mem \<Rightarrow> nat \<Rightarrow> nat \<Rightarrow> u32 \<Rightarrow> u32 \<Rightarrow> (int \<times> mem) prog" where
  "page_insert s pgdir page la perm =
     kbind (get_pte s pgdir la True) (\<lambda>(r, s). case r of
       None \<Rightarrow> kret (- E_NO_MEM, s)
     | Some ptep \<Rightarrow>
         let (_, s) = page_ref_inc s page in
         kbind (if present (pte_read s ptep)
                then kbind (pte2page s (pte_read s ptep)) (\<lambda>p.
                  if p = page then kret (snd (page_ref_dec s page))
                  else page_remove_pte s pgdir la ptep)
                else kret s)
           (\<lambda>s. kret (0, tlb_invalidate
                  (pte_write s ptep (page2pa page OR PTE_P OR perm)) pgdir la)))"

text \<open>The loops are \<^verbatim>\<open>do\<close> loops whose \<^verbatim>\<open>continue\<close> goes to the test.\<close>

partial_function (option) unmap_loop :: "mem \<Rightarrow> nat \<Rightarrow> u32 \<Rightarrow> u32 \<Rightarrow> mem prog" where
  "unmap_loop s pgdir start end =
     kbind (get_pte s pgdir start False) (\<lambda>(r, s).
     kbind (case r of
              None \<Rightarrow> kret (ROUNDDOWN (start + PTSIZE) PTSIZE, s)
            | Some ptep \<Rightarrow>
                kbind (if pte_read s ptep \<noteq> 0 then page_remove_pte s pgdir start ptep else kret s)
                  (\<lambda>s. kret (start + PGSIZE, s)))
       (\<lambda>(start, s). if start \<noteq> 0 \<and> start < end then unmap_loop s pgdir start end else kret s))"

definition unmap_range :: "mem \<Rightarrow> nat \<Rightarrow> u32 \<Rightarrow> u32 \<Rightarrow> mem prog" where
  "unmap_range s pgdir start end =
     kassert (start mod PGSIZE = 0 \<and> end mod PGSIZE = 0) (kassert (USER_ACCESS start end)
       (unmap_loop s pgdir start end))"

partial_function (option) exit_loop :: "mem \<Rightarrow> nat \<Rightarrow> u32 \<Rightarrow> u32 \<Rightarrow> mem prog" where
  "exit_loop s pgdir start end =
     (let pde_idx = PDX start in
      kbind (if present (frame s pgdir pde_idx)
             then kbind (pde2page s (frame s pgdir pde_idx)) (\<lambda>p.
                  kbind (free_pages s p 1) (\<lambda>s. kret (pte_write s (pgdir, pde_idx) 0)))
             else kret s)
        (\<lambda>s. let start = start + PTSIZE in
             if start \<noteq> 0 \<and> start < end then exit_loop s pgdir start end else kret s))"

definition exit_range :: "mem \<Rightarrow> nat \<Rightarrow> u32 \<Rightarrow> u32 \<Rightarrow> mem prog" where
  "exit_range s pgdir start end =
     kassert (start mod PGSIZE = 0 \<and> end mod PGSIZE = 0) (kassert (USER_ACCESS start end)
       (exit_loop s pgdir (ROUNDDOWN start PTSIZE) end))"

text \<open>The body of \<^verbatim>\<open>copy_range\<close> for a present entry; \<open>e\<close> is the entry of the source.\<close>

definition copy_page :: "mem \<Rightarrow> nat \<Rightarrow> u32 \<Rightarrow> pte_ptr \<Rightarrow> (int \<times> mem) prog" where
  "copy_page s to start ptep =
     kbind (get_pte s to start True) (\<lambda>(r, s). case r of
       None \<Rightarrow> kret (- E_NO_MEM, s)
     | Some nptep \<Rightarrow>
         let e = pte_read s ptep; perm = e AND PTE_USER in
         kbind (pte2page s e) (\<lambda>page.
         kbind (alloc_pages s 1) (\<lambda>(np, s). case np of
           None \<Rightarrow> kpanic AssertFail
         | Some newp \<Rightarrow>
             kbind (page2kva s page) (\<lambda>src. kbind (page2kva s newp) (\<lambda>dst.
             let s = s\<lparr>frame := (frame s)(dst := frame s src)\<rparr> in
             kbind (page_insert s to newp start perm) (\<lambda>(ret, s).
               kassert (ret = 0) (kret (0, s))))))))"

partial_function (option) copy_loop :: "mem \<Rightarrow> nat \<Rightarrow> nat \<Rightarrow> u32 \<Rightarrow> u32 \<Rightarrow> (int \<times> mem) prog" where
  "copy_loop s to from start end =
     kbind (get_pte s from start False) (\<lambda>(r, s).
     kbind (case r of
              None \<Rightarrow> kret (0, ROUNDDOWN (start + PTSIZE) PTSIZE, s)
            | Some ptep \<Rightarrow>
                kbind (if present (pte_read s ptep) then copy_page s to start ptep else kret (0, s))
                  (\<lambda>(ret, s). kret (ret, start + PGSIZE, s)))
       (\<lambda>(ret, start, s).
          if ret \<noteq> 0 then kret (ret, s)
          else if start \<noteq> 0 \<and> start < end then copy_loop s to from start end else kret (0, s)))"

definition copy_range :: "mem \<Rightarrow> nat \<Rightarrow> nat \<Rightarrow> u32 \<Rightarrow> u32 \<Rightarrow> bool \<Rightarrow> (int \<times> mem) prog" where
  "copy_range s to from start end share =
     kassert (start mod PGSIZE = 0 \<and> end mod PGSIZE = 0) (kassert (USER_ACCESS start end)
       (copy_loop s to from start end))"

definition pgdir_alloc_page :: "mem \<Rightarrow> nat \<Rightarrow> u32 \<Rightarrow> u32 \<Rightarrow> (nat option \<times> mem) prog" where
  "pgdir_alloc_page s pgdir la perm =
     kbind (alloc_pages s 1) (\<lambda>(r, s). case r of
       None \<Rightarrow> kret (None, s)
     | Some page \<Rightarrow>
         kbind (page_insert s pgdir page la perm) (\<lambda>(ret, s).
         if ret \<noteq> 0 then kbind (free_pages s page 1) (\<lambda>s. kret (None, s))
         else if swap_init_ok s \<and> check_mm_struct s \<noteq> None
         then kbind (fifo_map_swappable s (check_mm_struct s) la page) (\<lambda>(_, s).
           let s = s\<lparr>pra_vaddr := (pra_vaddr s)(page := la)\<rparr> in
           kassert (page_ref_of s page = 1) (kret (Some page, s)))
         else kret (Some page, s)))"

fun boot_map_loop :: "nat \<Rightarrow> mem \<Rightarrow> nat \<Rightarrow> u32 \<Rightarrow> u32 \<Rightarrow> u32 \<Rightarrow> mem prog" where
  "boot_map_loop 0 s pgdir la pa perm = kret s"
| "boot_map_loop (Suc n) s pgdir la pa perm =
     kbind (get_pte s pgdir la True) (\<lambda>(r, s). case r of
       None \<Rightarrow> kpanic AssertFail
     | Some ptep \<Rightarrow> boot_map_loop n (pte_write s ptep (pa OR PTE_P OR perm)) pgdir
                      (la + PGSIZE) (pa + PGSIZE) perm)"

definition boot_map_segment :: "mem \<Rightarrow> nat \<Rightarrow> u32 \<Rightarrow> u32 \<Rightarrow> u32 \<Rightarrow> u32 \<Rightarrow> mem prog" where
  "boot_map_segment s pgdir la sz pa perm =
     kassert (PGOFF la = PGOFF pa) (
       let n = ROUNDUP (sz + PGOFF la) PGSIZE div PGSIZE in
       boot_map_loop (unat n) s pgdir (ROUNDDOWN la PGSIZE) (ROUNDDOWN pa PGSIZE) perm)"

definition boot_alloc_page :: "mem \<Rightarrow> (nat \<times> mem) prog" where
  "boot_alloc_page s = kbind (alloc_pages s 1) (\<lambda>(r, s). case r of
     None \<Rightarrow> kpanic (Panic ''boot_alloc_page failed.'')
   | Some p \<Rightarrow> kbind (page2kva s p) (\<lambda>k. kret (k, s)))"

section \<open>Reading a table (\<^verbatim>\<open>print_pgdir\<close>)\<close>

definition perm2str :: "u32 \<Rightarrow> string" where
  "perm2str perm =
     [if perm AND PTE_U \<noteq> 0 then CHR ''u'' else CHR ''-'', CHR ''r'',
      if perm AND PTE_W \<noteq> 0 then CHR ''w'' else CHR ''-'']"

function scan_while :: "(nat \<Rightarrow> bool) \<Rightarrow> nat \<Rightarrow> nat \<Rightarrow> nat" where
  "scan_while P right start = (if start < right \<and> P start then scan_while P right (Suc start) else start)"
  by auto
termination by (relation "measure (\<lambda>(P, right, start). right - start)") auto

declare scan_while.simps [simp del]

text \<open>The answer is the permission and, when it was stored, the run of entries that have it.\<close>

definition get_pgtable_items :: "nat \<Rightarrow> nat \<Rightarrow> (nat \<Rightarrow> u32) \<Rightarrow> u32 \<times> (nat \<times> nat) option" where
  "get_pgtable_items right start table =
     (if right \<le> start then (0, None)
      else let l = scan_while (\<lambda>i. \<not> present (table i)) right start in
        if l < right then
          let perm = table l AND PTE_USER;
              r = scan_while (\<lambda>i. table i AND PTE_USER = perm) right (Suc l)
          in (perm, Some (l, r))
        else (0, None))"

lemma scan_while_spec:
  assumes "start \<le> right"
  shows "start \<le> scan_while P right start" "scan_while P right start \<le> right"
    "\<forall>i. start \<le> i \<and> i < scan_while P right start \<longrightarrow> P i"
    "scan_while P right start < right \<longrightarrow> \<not> P (scan_while P right start)"
proof -
  have "start \<le> right \<Longrightarrow> start \<le> scan_while P right start \<and> scan_while P right start \<le> right \<and>
      (\<forall>i. start \<le> i \<and> i < scan_while P right start \<longrightarrow> P i) \<and>
      (scan_while P right start < right \<longrightarrow> \<not> P (scan_while P right start))"
  proof (induction P right start rule: scan_while.induct)
    case (1 P right start)
    show ?case
    proof (cases "start < right \<and> P start")
      case True
      then have e: "scan_while P right start = scan_while P right (Suc start)"
        by (subst scan_while.simps) simp
      have "P i" if "start \<le> i" "i < scan_while P right (Suc start)" for i
        using 1(1) [OF True] True that by (cases "i = start") auto
      then show ?thesis unfolding e using 1(1) [OF True] True by auto
    next
      case False
      then have "scan_while P right start = start" by (subst scan_while.simps) auto
      then show ?thesis using 1(2) False by auto
    qed
  qed
  then show "start \<le> scan_while P right start" "scan_while P right start \<le> right"
    "\<forall>i. start \<le> i \<and> i < scan_while P right start \<longrightarrow> P i"
    "scan_while P right start < right \<longrightarrow> \<not> P (scan_while P right start)" using assms by auto
qed

text \<open>The run is the first one at or after \<open>start\<close>, and it is as long as possible.\<close>

lemma get_pgtable_items_run:
  assumes "get_pgtable_items right start table = (perm, Some (l, r))"
  shows "start \<le> l" "l < r" "r \<le> right" "\<forall>i. start \<le> i \<and> i < l \<longrightarrow> \<not> present (table i)"
    "\<forall>i. l \<le> i \<and> i < r \<longrightarrow> table i AND PTE_USER = perm" "r < right \<longrightarrow> table r AND PTE_USER \<noteq> perm"
proof -
  let ?l = "scan_while (\<lambda>i. \<not> present (table i)) right start"
  have l: "start < right" "?l < right" "l = ?l" "perm = table l AND PTE_USER"
    and r: "r = scan_while (\<lambda>i. table i AND PTE_USER = perm) right (Suc l)"
    using assms by (auto simp: get_pgtable_items_def Let_def split: if_splits)
  note L = scan_while_spec [of start right "\<lambda>i. \<not> present (table i)", folded l(3)]
  note R = scan_while_spec [of "Suc l" right "\<lambda>i. table i AND PTE_USER = perm", folded r]
  have "start \<le> right" "Suc l \<le> right" using l by auto
  then show "start \<le> l" "l < r" "r \<le> right" "\<forall>i. start \<le> i \<and> i < l \<longrightarrow> \<not> present (table i)"
    "r < right \<longrightarrow> table r AND PTE_USER \<noteq> perm"
    using L R by auto
  show "\<forall>i. l \<le> i \<and> i < r \<longrightarrow> table i AND PTE_USER = perm"
    using R(3) l(4) \<open>Suc l \<le> right\<close> by (metis Suc_leI le_neq_implies_less)
qed

section \<open>Page numbers\<close>

text \<open>\<open>vpn la\<close> is the virtual page number of an address.\<close>

definition vpn :: "u32 \<Rightarrow> nat" where
  "vpn la = unat la div 4096"

lemma mask10: "(0x3FF :: u32) = mask 10" and mask12: "(0xFFF :: u32) = mask 12"
  by (simp_all add: mask_eq_exp_minus_1)

lemma PDX_vpn: "PDX la = vpn la div 1024"
proof -
  have "unat la < 4294967296" by simp
  then have "unat la div 4194304 < 1024" by linarith
  then show ?thesis
    by (simp add: PDX_def vpn_def mask10 drop_bit_eq_div unat_div unat_mod
        div_mult2_eq [symmetric] take_bit_eq_mod flip: take_bit_eq_mask)
qed

lemma PTX_vpn: "PTX la = vpn la mod 1024"
  by (simp add: PTX_def vpn_def mask10 drop_bit_eq_div take_bit_eq_mod unat_div unat_mod
      flip: take_bit_eq_mask)

lemma PTX_less [simp]: "PTX la < 1024"
  by (simp add: PTX_vpn)

lemma PPN_PTE_ADDR [simp]: "PPN (PTE_ADDR e) = PPN e"
  by (rule bit_eqI) (auto simp: PPN_def PTE_ADDR_def mask12 bit_simps dest: bit_imp_le_length)

lemma unat_PPN: "unat (PPN a) = vpn a"
  by (simp add: PPN_def vpn_def unat_div drop_bit_eq_div)

lemma PPN_entry:
  assumes "p < 2 ^ 20" and "perm < 0x1000"
  shows "PPN (page2pa p OR perm) = of_nat p"
proof -
  have "drop_bit 12 perm = 0" using assms(2)
    by (simp add: word_less_nat_alt word_unat_eq_iff unat_div drop_bit_eq_div)
  then show ?thesis using PPN_page2pa [OF assms(1)] by (simp add: PPN_def drop_bit_or)
qed

lemma or_less_page:
  assumes "a < 0x1000" and "b < (0x1000 :: u32)"
  shows "a OR b < 0x1000"
proof -
  have "take_bit 12 a = a" "take_bit 12 b = b"
    using assms by (simp_all add: word_less_nat_alt take_bit_eq_mod word_unat_eq_iff unat_mod)
  then have "take_bit 12 (a OR b) = a OR b" by (simp add: take_bit_or)
  then have "unat (a OR b) mod 4096 = unat (a OR b)"
    by (simp add: take_bit_eq_mod word_unat_eq_iff unat_mod)
  then have "unat (a OR b) < 4096" by (metis mod_less_divisor zero_less_numeral)
  then show ?thesis by (simp add: word_less_nat_alt)
qed

lemma present_or: "present (a OR b) \<longleftrightarrow> present a \<or> present b"
  by (simp add: present_bit bit_simps)

lemma present_simps [simp]: "present PTE_P" "present PTE_USER" "\<not> present 0"
  by code_simp+

section \<open>The allocator and reference counts\<close>

lemma best_fit_ref:
  assumes "default_alloc_pages_best_fit m n = kret (r, m')"
  shows "page_ref (pages m' i) = page_ref (pages m i)"
  using assms by (auto simp: default_alloc_pages_best_fit_def kbind_eq_kret alloc_finish_def
      alloc_take_ref split: if_splits option.splits)

lemma merge_ref:
  "page_ref (pages (merge_right m base ptr) i) = page_ref (pages m i)"
  "page_ref (pages (merge_left m base ptr) i) = page_ref (pages m i)"
  by (simp_all add: merge_right_def merge_left_def Let_def)

lemma merge_loop_ref:
  assumes "merge_loop m base le = kret (m', b)"
  shows "page_ref (pages m' i) = page_ref (pages m i)"
proof -
  define P where "P = (\<lambda>(m :: pmm) (base :: nat) (le :: lnode) (y :: panic + pmm \<times> nat).
    \<forall>m' b. y = Inr (m', b) \<longrightarrow> page_ref (pages m' i) = page_ref (pages m i))"
  have "P m base le y" if "merge_loop m base le = Some y" for y
  proof (rule merge_loop.raw_induct [OF _ that, of P])
    fix rec m base le y
    assume IH: "\<And>m base le y. rec m base le = Some y \<Longrightarrow> P m base le y"
      and eq: "(case list_next (free_list m) le of Head \<Rightarrow> kret (m, base)
        | Link ptr \<Rightarrow> if base + unat (property (pages m base)) = ptr
            then rec (merge_right m base ptr) base (Link ptr)
            else if ptr + unat (property (pages m ptr)) = base
            then rec (merge_left m base ptr) ptr (Link ptr)
            else rec m base (Link ptr)) = Some y"
    show "P m base le y"
    proof (cases "list_next (free_list m) le")
      case Head
      then show ?thesis using eq by (auto simp: kret_def P_def)
    next
      case (Link ptr)
      then show ?thesis using eq by (auto split: if_splits dest!: IH simp: merge_ref P_def)
    qed
  qed
  then show ?thesis using assms by (simp add: kret_def P_def)
qed

lemma free_prepare_ref:
  "free_prepare k p pg = kret pg' \<Longrightarrow>
    page_ref (pg' i) = (if p \<le> i \<and> i < p + k then 0 else page_ref (pg i))"
proof (induction k arbitrary: p pg)
  case (Suc k)
  from Suc.IH [of "Suc p"] Suc.prems show ?case
    by (auto simp: Let_def set_page_ref_def split: if_splits)
qed simp

lemma free_page_ref:
  assumes "default_free_pages m p 1 = kret m'"
  shows "page_ref (pages m' i) = (if i = p then 0 else page_ref (pages m i))"
proof -
  obtain pg m1 b le where fp: "free_prepare 1 p (pages m) = kret pg" and
    m1: "merge_loop (m\<lparr>pages := pg(p := SetPageProperty ((pg p)\<lparr>property := 1\<rparr>))\<rparr>) p Head = kret (m1, b)"
    and m': "pages m' = pages m1"
    using assms unfolding default_free_pages_def Let_def kassert_eq_kret kbind_eq_kret
    by (auto simp: kbind_eq_kret)
  show ?thesis using merge_loop_ref [OF m1, of i] free_prepare_ref [OF fp, of i]
    by (cases "i = p") (auto simp: m')
qed

text \<open>The manager's invariant does not depend on the counts.\<close>

lemma pmm_ok_ref:
  assumes "pmm_ok N M m F"
  shows "pmm_ok N M (m\<lparr>pages := (pages m)(p := set_page_ref (pages m p) v)\<rparr>) F"
proof -
  let ?m = "m\<lparr>pages := (pages m)(p := set_page_ref (pages m p) v)\<rparr>"
  have s: "bsize ?m = bsize m" by (simp add: fun_eq_iff bsize_def set_page_ref_def)
  have f: "PageReserved (pages ?m i) = PageReserved (pages m i)"
      "PageProperty (pages ?m i) = PageProperty (pages m i)" for i
    by (simp_all add: set_page_ref_def)
  have "pmm_inv c N ?m xs = pmm_inv c N m xs" for c xs
    unfolding pmm_inv_def s f by simp
  then show ?thesis using assms unfolding pmm_ok_def f free_set_def s by blast
qed

lemma put_page_ref_simps [simp]:
  "npage (put_page_ref s p v) = npage s" "frame (put_page_ref s p v) = frame s"
  "cr3 (put_page_ref s p v) = cr3 s" "tlb (put_page_ref s p v) = tlb s"
  "swap_init_ok (put_page_ref s p v) = swap_init_ok s"
  "check_mm_struct (put_page_ref s p v) = check_mm_struct s"
  "page_ref_of (put_page_ref s p v) q = (if q = p then v else page_ref_of s q)"
  by (simp_all add: put_page_ref_def page_ref_of_def set_page_ref_def)

lemma pmm_ok_put [simp]: "pmm_ok N M (mgr s) F \<Longrightarrow> pmm_ok N M (mgr (put_page_ref s p v)) F"
  by (simp add: put_page_ref_def pmm_ok_ref)

lemma page_ref_of_upd [simp]:
  "page_ref_of (pte_write s q v) p = page_ref_of s p"
  "page_ref_of (tlb_invalidate s d la) p = page_ref_of s p"
  "page_ref_of (s\<lparr>frame := f\<rparr>) p = page_ref_of s p"
  "page_ref_of (s\<lparr>pra_list := l\<rparr>) p = page_ref_of s p"
  "page_ref_of (s\<lparr>pra_vaddr := w\<rparr>) p = page_ref_of s p"
  by (simp_all add: page_ref_of_def)

lemma alloc_page_ok:
  assumes "pmm_ok N M (mgr s) F" and "F \<noteq> {}"
  shows "\<exists>p m. alloc_pages s 1 = kret (Some p, s\<lparr>mgr := m\<rparr>) \<and> p \<in> F \<and> pmm_ok N M m (F - {p}) \<and>
    (\<forall>q. page_ref_of (s\<lparr>mgr := m\<rparr>) q = page_ref_of s q)"
  using alloc_page_free [OF assms] best_fit_ref by (fastforce simp: page_ref_of_def)

lemma free_page_ok:
  assumes "pmm_ok N M (mgr s) F" and "p \<in> M - F"
  shows "\<exists>m. free_pages s p 1 = kret (s\<lparr>mgr := m\<rparr>) \<and> pmm_ok N M m (insert p F) \<and>
    (\<forall>q. page_ref_of (s\<lparr>mgr := m\<rparr>) q = (if q = p then 0 else page_ref_of s q))"
proof -
  have b: "block (p, 1) = {p}" by (auto simp: block_def)
  obtain m where "default_free_pages (mgr s) p 1 = kret m" "pmm_ok N M m (insert p F)"
    using best_fit.mgr.free_law [OF assms(1), of 1 p] assms(2) by (auto simp: b)
  then show ?thesis using free_page_ref [of "mgr s" p m] by (auto simp: free_pages_def page_ref_of_def)
qed

section \<open>Address spaces\<close>

text \<open>\<open>D\<close> is the set of page directories in use.  The user part of a directory has 704 entries, so
  a user slot is a directory with a virtual page number below \<open>user_pages\<close>.  \<open>vpte s d v\<close> is the
  entry that translates page \<open>v\<close>, 0 when its table is missing; \<open>pmap\<close> the frame a slot maps.\<close>

definition user_pages :: nat where
  "user_pages = 720896"

definition slots :: "nat set \<Rightarrow> (nat \<times> nat) set" where
  "slots D = D \<times> {..<user_pages}"

definition tabs :: "mem \<Rightarrow> nat set \<Rightarrow> (nat \<times> nat) set" where
  "tabs s D = {x. fst x \<in> D \<and> snd x < 704 \<and> present (frame s (fst x) (snd x))}"

definition tab :: "mem \<Rightarrow> nat \<times> nat \<Rightarrow> nat" where
  "tab s x = unat (PPN (frame s (fst x) (snd x)))"

definition vpte :: "mem \<Rightarrow> nat \<Rightarrow> nat \<Rightarrow> u32" where
  "vpte s d v = (if present (frame s d (v div 1024))
                 then frame s (tab s (d, v div 1024)) (v mod 1024) else 0)"

definition pmap :: "mem \<Rightarrow> nat \<times> nat \<Rightarrow> nat option" where
  "pmap s x = (let e = vpte s (fst x) (snd x) in
     if present e then Some (unat (PPN e)) else None)"

definition mapped :: "mem \<Rightarrow> nat set \<Rightarrow> nat set" where
  "mapped s D = {q. \<exists>x \<in> slots D. pmap s x = Some q}"

definition users :: "mem \<Rightarrow> nat set \<Rightarrow> nat \<Rightarrow> (nat \<times> nat) set" where
  "users s D q = {x \<in> slots D. pmap s x = Some q}"

text \<open>Page tables are private to their directory entry; mapped frames are in use and are not page
  tables; the reference count of a frame is the number of slots that map it, plus what \<open>k\<close> says is
  pending inside an operation.\<close>

definition paging_okx :: "(nat \<Rightarrow> int) \<Rightarrow> nat set \<Rightarrow> nat set \<Rightarrow> mem \<Rightarrow> nat set \<Rightarrow> bool" where
  "paging_okx k M D s F \<longleftrightarrow> pmm_ok (unat (npage s)) M (mgr s) F \<and> unat (npage s) \<le> 2 ^ 20 \<and>
     finite D \<and> D \<inter> F = {} \<and> tab s ` tabs s D \<subseteq> M - F - D \<and> inj_on (tab s) (tabs s D) \<and>
     mapped s D \<subseteq> M - F - D - tab s ` tabs s D \<and>
     (\<forall>q \<in> M - D - tab s ` tabs s D. page_ref_of s q = int (card (users s D q)) + k q)"

abbreviation paging_ok :: "nat set \<Rightarrow> nat set \<Rightarrow> mem \<Rightarrow> nat set \<Rightarrow> bool" where
  "paging_ok \<equiv> paging_okx (\<lambda>_. 0)"

lemma paging_okD:
  assumes "paging_okx k M D s F"
  shows "pmm_ok (unat (npage s)) M (mgr s) F" "unat (npage s) \<le> 2 ^ 20" "finite D" "D \<inter> F = {}"
    "tab s ` tabs s D \<subseteq> M - F - D" "inj_on (tab s) (tabs s D)"
    "mapped s D \<subseteq> M - F - D - tab s ` tabs s D"
    "\<And>q. q \<in> M - D - tab s ` tabs s D \<Longrightarrow> page_ref_of s q = int (card (users s D q)) + k q"
    "M \<subseteq> {..<unat (npage s)}" "F \<subseteq> M"
  using assms by (auto simp: paging_okx_def pmm_ok_def)

lemma finite_free: "paging_okx k M D s F \<Longrightarrow> finite F"
  using paging_okD(9,10) finite_subset [of F "{..<unat (npage s)}"] by blast

lemma finite_slots: "finite D \<Longrightarrow> finite (slots D)"
  by (simp add: slots_def)

lemma slot_split: "v < user_pages \<Longrightarrow> v div 1024 < 704"
  unfolding user_pages_def by linarith

lemma tabsI: "d \<in> D \<Longrightarrow> v < user_pages \<Longrightarrow> present (frame s d (v div 1024)) \<Longrightarrow>
    (d, v div 1024) \<in> tabs s D"
  by (simp add: tabs_def slot_split)

lemma tab_in:
  assumes "paging_okx k M D s F" and "x \<in> tabs s D"
  shows "tab s x \<in> M" "tab s x \<notin> F" "tab s x \<notin> D" "tab s x < unat (npage s)"
  using paging_okD(5,9) [OF assms(1)] assms(2) by auto

lemma KADDR_tab:
  assumes "paging_okx k M D s F" and "x \<in> tabs s D"
  shows "KADDR s (PTE_ADDR (frame s (fst x) (snd x))) = kret (tab s x)"
  using tab_in(4) [OF assms] by (simp add: KADDR_def tab_def word_le_nat_alt)

lemma get_pte_present:
  assumes ok: "paging_okx k M D s F" and d: "d \<in> D" and v: "vpn la < user_pages"
    and p: "present (frame s d (PDX la))"
  shows "get_pte s d la create = kret (Some (tab s (d, PDX la), PTX la), s)"
    and "pte_read s (tab s (d, PDX la), PTX la) = vpte s d (vpn la)"
proof -
  have "(d, PDX la) \<in> tabs s D" using tabsI [of d D "vpn la"] d v p by (simp add: PDX_vpn)
  from KADDR_tab [OF ok this] p
  show "get_pte s d la create = kret (Some (tab s (d, PDX la), PTX la), s)"
    by (simp add: get_pte_def)
  show "pte_read s (tab s (d, PDX la), PTX la) = vpte s d (vpn la)"
    using p by (simp add: pte_read_def vpte_def PDX_vpn PTX_vpn)
qed

lemma get_pte_absent: "\<not> present (frame s d (PDX la)) \<Longrightarrow> get_pte s d la False = kret (None, s)"
  by (simp add: get_pte_def)

lemma vpte_absent: "\<not> present (frame s d (PDX la)) \<Longrightarrow> vpte s d (vpn la) = 0"
  by (simp add: vpte_def PDX_vpn)

lemma mapped_frame:
  assumes ok: "paging_okx k M D s F" and x: "(d, v) \<in> slots D" and p: "present (vpte s d v)"
  defines "q \<equiv> unat (PPN (vpte s d v))"
  shows "pte2page s (vpte s d v) = kret q" "q \<in> M" "q \<notin> F" "q \<notin> D" "q \<notin> tab s ` tabs s D"
    "page_ref_of s q = int (card (users s D q)) + k q" "(d, v) \<in> users s D q"
proof -
  have u: "(d, v) \<in> users s D q" using x p by (simp add: users_def pmap_def q_def)
  then have "q \<in> mapped s D" by (auto simp: users_def mapped_def)
  then have q: "q \<in> M - F - D - tab s ` tabs s D" using paging_okD(7) [OF ok] by blast
  then show "q \<in> M" "q \<notin> F" "q \<notin> D" "q \<notin> tab s ` tabs s D" by auto
  show "(d, v) \<in> users s D q" by (rule u)
  show "page_ref_of s q = int (card (users s D q)) + k q" using q paging_okD(8) [OF ok, of q] by blast
  have "q < unat (npage s)" using q paging_okD(9) [OF ok] by auto
  then show "pte2page s (vpte s d v) = kret q"
    using p by (simp add: pte2page_def pa2page_def q_def word_le_nat_alt)
qed

section \<open>Writing an entry\<close>

text \<open>Two states of the same directories: entries agree except at one slot.\<close>

definition slot_upd :: "nat set \<Rightarrow> mem \<Rightarrow> nat \<Rightarrow> nat \<Rightarrow> u32 \<Rightarrow> mem \<Rightarrow> bool" where
  "slot_upd D s d v e s' \<longleftrightarrow> (\<forall>d' \<in> D. frame s' d' = frame s d') \<and> npage s' = npage s \<and>
     (\<forall>d' \<in> D. \<forall>v' < user_pages. vpte s' d' v' = (if d' = d \<and> v' = v then e else vpte s d' v')) \<and>
     (\<forall>f. f \<notin> tab s ` tabs s D \<longrightarrow> frame s' f = frame s f)"

lemma slot_upd_tabs:
  assumes "slot_upd D s d v e s'"
  shows "tabs s' D = tabs s D" "x \<in> tabs s D \<Longrightarrow> tab s' x = tab s x" "tab s' ` tabs s D = tab s ` tabs s D"
proof -
  have f: "frame s' d' = frame s d'" if "d' \<in> D" for d' using assms that by (simp add: slot_upd_def)
  then show t: "tabs s' D = tabs s D" by (auto simp: tabs_def)
  show "tab s' x = tab s x" if "x \<in> tabs s D" for x using f that by (auto simp: tabs_def tab_def)
  then show "tab s' ` tabs s D = tab s ` tabs s D" by (intro image_cong) auto
qed

lemma slot_upd_write:
  assumes ok: "paging_okx k M D s F" and d: "d \<in> D" and v: "vpn la < user_pages"
    and p: "present (frame s d (PDX la))"
  shows "slot_upd D s d (vpn la) e (pte_write s (tab s (d, PDX la), PTX la) e)"
proof -
  let ?x = "(d, PDX la)" and ?s = "pte_write s (tab s (d, PDX la), PTX la) e"
  have x: "?x \<in> tabs s D" using tabsI [of d D "vpn la"] d v p by (simp add: PDX_vpn)
  have f: "frame ?s d' = frame s d'" if "d' \<in> D" for d'
    using tab_in(3) [OF ok x] that by (intro pte_write_simps) auto
  have vp: "vpte ?s d' v' = (if d' = d \<and> v' = vpn la then e else vpte s d' v')"
    if d': "d' \<in> D" and v': "v' < user_pages" for d' v'
  proof (cases "present (frame s d' (v' div 1024))")
    case False
    then show ?thesis using f [OF d'] p by (auto simp: vpte_def PDX_vpn)
  next
    case True
    have t: "tab ?s (d', v' div 1024) = tab s (d', v' div 1024)" 
      by (simp only: tab_def [of ?s] tab_def [of s "(d', v' div 1024)"] fst_conv f [OF d'])
    have "tab s (d', v' div 1024) = tab s ?x \<longleftrightarrow> (d', v' div 1024) = ?x"
      using paging_okD(6) [OF ok] tabsI [OF d' v' True] x by (auto dest: inj_onD)
    moreover have "v' div 1024 = vpn la div 1024 \<and> v' mod 1024 = vpn la mod 1024 \<longleftrightarrow> v' = vpn la"
      by (metis div_mult_mod_eq)
    ultimately show ?thesis
      using True unfolding vpte_def f [OF d'] t
      by (auto simp: pte_write_def PDX_vpn PTX_vpn)
  qed
  have "frame ?s g = frame s g" if "g \<notin> tab s ` tabs s D" for g
    using that x by (intro pte_write_simps) auto
  then show ?thesis using f vp by (simp add: slot_upd_def)
qed

lemma slot_upd_pmap:
  assumes "slot_upd D s d v e s'" and "x \<in> slots D"
  shows "pmap s' x = (if x = (d, v) then if present e then Some (unat (PPN e)) else None else pmap s x)"
  using assms by (cases x) (auto simp: slot_upd_def slots_def pmap_def Let_def)

lemma card_users_upd:
  assumes u: "slot_upd D s d v e s'" and fin: "finite D" and x: "(d, v) \<in> slots D"
  shows "int (card (users s' D q)) = int (card (users s D q)) -
    (if pmap s (d, v) = Some q then 1 else 0) + (if pmap s' (d, v) = Some q then 1 else 0)"
proof -
  let ?R = "{y \<in> slots D - {(d, v)}. pmap s y = Some q}"
  have fin': "finite ?R" using finite_slots [OF fin] by simp
  have "users s D q = (if pmap s (d, v) = Some q then insert (d, v) ?R else ?R)"
    using x by (auto simp: users_def)
  moreover have R: "?R = {y \<in> slots D - {(d, v)}. pmap s' y = Some q}"
    by (rule Collect_cong) (use slot_upd_pmap [OF u] in auto)
  have "users s' D q = (if pmap s' (d, v) = Some q then insert (d, v) ?R else ?R)"
    using x unfolding R by (auto simp: users_def)
  ultimately show ?thesis using fin' by simp
qed

lemma users_upd:
  assumes "slot_upd D s d v e s'" and "(d, v) \<in> slots D"
  shows "users s' D q = users s D q - {(d, v)} \<union> (if pmap s' (d, v) = Some q then {(d, v)} else {})"
proof (rule set_eqI)
  fix y
  show "y \<in> users s' D q \<longleftrightarrow>
      y \<in> users s D q - {(d, v)} \<union> (if pmap s' (d, v) = Some q then {(d, v)} else {})"
    using slot_upd_pmap [OF assms(1), of y] assms(2)
    by (cases "y = (d, v)") (auto simp: users_def)
qed

lemma mapped_users: "mapped s D = {q. users s D q \<noteq> {}}"
  by (auto simp: mapped_def users_def)

lemma vpte_cong: "frame s' = frame s \<Longrightarrow> vpte s' = vpte s"
  by (intro ext) (simp add: vpte_def tab_def)

lemma slot_upd_cong:
  "slot_upd D s d v e s' \<Longrightarrow> frame s'' = frame s' \<Longrightarrow> npage s'' = npage s' \<Longrightarrow> slot_upd D s d v e s''"
  by (simp add: slot_upd_def vpte_cong [of s'' s'])

lemma slot_upd_same: "slot_upd D s d v (vpte s d v) s"
  by (simp add: slot_upd_def)

lemma finite_users: "finite D \<Longrightarrow> finite (users s D q)"
  by (simp add: users_def finite_slots)

text \<open>The general step: the entry at a slot changes and the allocator state is adjusted.\<close>

lemma paging_ok_step:
  assumes ok: "paging_okx k M D s F" and u: "slot_upd D s d v e s'"
    and m: "pmm_ok (unat (npage s)) M (mgr s') F'"
    and F': "F' \<inter> D = {}" "F' \<inter> tab s ` tabs s D = {}"
    and mp: "mapped s' D \<subseteq> M - F' - D - tab s ` tabs s D"
    and r: "\<forall>q \<in> M - D - tab s ` tabs s D. page_ref_of s' q = int (card (users s' D q)) + k' q"
  shows "paging_okx k' M D s' F'"
proof -
  have "inj_on (tab s') (tabs s D)"
    using paging_okD(6) [OF ok] slot_upd_tabs(2) [OF u] by (auto simp: inj_on_def)
  moreover have "npage s' = npage s" using u by (simp add: slot_upd_def)
  ultimately show ?thesis
    using paging_okD(2,3,5) [OF ok] m F' mp r unfolding paging_okx_def slot_upd_tabs [OF u]
    by auto
qed

definition same_env :: "mem \<Rightarrow> mem \<Rightarrow> bool" where
  "same_env s s' \<longleftrightarrow> npage s' = npage s \<and> swap_init_ok s' = swap_init_ok s \<and>
     check_mm_struct s' = check_mm_struct s \<and> cr3 s' = cr3 s"

lemma same_env_refl [simp]: "same_env s s"
  by (simp add: same_env_def)

lemma same_env_trans: "same_env s s' \<Longrightarrow> same_env s' s'' \<Longrightarrow> same_env s s''"
  by (simp add: same_env_def)

section \<open>Removing a mapping\<close>

lemma slot_clear_users:
  assumes u: "slot_upd D s d v 0 s'" and x: "(d, v) \<in> slots D" and pm: "pmap s (d, v) = Some q"
  shows "users s' D y = (if y = q then users s D q - {(d, v)} else users s D y)"
    and "mapped s D - mapped s' D = (if users s D q = {(d, v)} then {q} else {})"
    and "mapped s' D \<subseteq> mapped s D"
proof -
  have n: "pmap s' (d, v) = None" using slot_upd_pmap [OF u x] by simp
  have us: "users s' D y = (if y = q then users s D q - {(d, v)} else users s D y)" for y
    using users_upd [OF u x, of y] pm n by (auto simp: users_def)
  show "users s' D y = (if y = q then users s D q - {(d, v)} else users s D y)" by (rule us)
  have "(d, v) \<in> users s D q" using x pm by (simp add: users_def)
  then show "mapped s D - mapped s' D = (if users s D q = {(d, v)} then {q} else {})"
    by (auto simp: mapped_users us)
  show "mapped s' D \<subseteq> mapped s D" by (auto simp: mapped_users us split: if_splits)
qed

lemma slot_clear_ok:
  assumes ok: "paging_okx k M D s F" and u: "slot_upd D s d v 0 s'" and x: "(d, v) \<in> slots D"
    and pm: "pmap s (d, v) = Some q" and kq: "k q = 0"
    and m: "pmm_ok (unat (npage s)) M (mgr s') (F \<union> (mapped s D - mapped s' D))"
    and rf: "\<forall>y. page_ref_of s' y = (if y = q then page_ref_of s q - 1 else page_ref_of s y)"
  shows "paging_okx k M D s' (F \<union> (mapped s D - mapped s' D))"
proof (rule paging_ok_step [OF ok u m])
  note cl = slot_clear_users [OF u x pm]
  have md: "mapped s D \<subseteq> M - F - D - tab s ` tabs s D" by (rule paging_okD(7) [OF ok])
  show "mapped s' D \<subseteq> M - (F \<union> (mapped s D - mapped s' D)) - D - tab s ` tabs s D"
    using md cl(3) by auto
  show "(F \<union> (mapped s D - mapped s' D)) \<inter> D = {}" "(F \<union> (mapped s D - mapped s' D)) \<inter> tab s ` tabs s D = {}"
    using md paging_okD(4,5) [OF ok] by auto
  have xq: "(d, v) \<in> users s D q" using x pm by (simp add: users_def)
  have fin: "finite (users s D q)" using finite_users paging_okD(3) [OF ok] by blast
  have "1 \<le> card (users s D q)" using xq fin by (metis One_nat_def Suc_leI card_gt_0_iff empty_iff)
  then have c: "int (card (users s D q - {(d, v)})) = int (card (users s D q)) - 1"
    using xq fin by (simp add: of_nat_diff)
  show "\<forall>y \<in> M - D - tab s ` tabs s D. page_ref_of s' y = int (card (users s' D y)) + k y"
    using paging_okD(8) [OF ok] rf c kq by (simp add: cl(1))
qed

lemma page_remove_pte_ok:
  assumes ok: "paging_okx k M D s F" and d: "d \<in> D" and v: "vpn la < user_pages"
    and p: "present (frame s d (PDX la))" and k: "\<forall>q. pmap s (d, vpn la) = Some q \<longrightarrow> k q = 0"
  shows "\<exists>s'. page_remove_pte s d la (tab s (d, PDX la), PTX la) = kret s' \<and>
    paging_okx k M D s' (F \<union> (mapped s D - mapped s' D)) \<and> same_env s s' \<and>
    slot_upd D s d (vpn la) (if present (vpte s d (vpn la)) then 0 else vpte s d (vpn la)) s'"
proof (cases "present (vpte s d (vpn la))")
  case False
  have "page_remove_pte s d la (tab s (d, PDX la), PTX la) = kret s"
    using False get_pte_present(2) [OF ok d v p] by (simp add: page_remove_pte_def)
  then show ?thesis using ok False slot_upd_same by auto
next
  case True
  let ?ptr = "(tab s (d, PDX la), PTX la)"
  have x: "(d, vpn la) \<in> slots D" using d v by (simp add: slots_def)
  define q where "q = unat (PPN (vpte s d (vpn la)))"
  note mf = mapped_frame [OF ok x True, folded q_def]
  have pm: "pmap s (d, vpn la) = Some q" using True by (simp add: pmap_def q_def)
  then have kq: "k q = 0" using k by blast
  define r where "r = page_ref_of s q - 1"
  define s1 where "s1 = put_page_ref s q r"
  have fin: "finite (users s D q)" using finite_users paging_okD(3) [OF ok] by blast
  have r0: "r = 0 \<longleftrightarrow> users s D q = {(d, vpn la)}"
    using mf(6,7) fin by (auto simp: r_def kq card_1_singleton_iff)
  have m1: "pmm_ok (unat (npage s)) M (mgr s1) F" using paging_okD(1) [OF ok] by (simp add: s1_def)
  obtain m where m: "(if r = 0 then free_pages s1 q 1 else kret s1) = kret (s1\<lparr>mgr := m\<rparr>)"
      "pmm_ok (unat (npage s)) M m (F \<union> (if r = 0 then {q} else {}))"
      "\<forall>y. page_ref_of (s1\<lparr>mgr := m\<rparr>) y = (if y = q then r else page_ref_of s y)"
    using free_page_ok [OF m1, of q] mf(2,3) m1 that [of "mgr s1"]
    by (cases "r = 0") (auto simp: s1_def)
  define s' where "s' = tlb_invalidate (pte_write (s1\<lparr>mgr := m\<rparr>) ?ptr 0) d la"
  have "page_ref_dec s q = (r, s1)" by (simp add: page_ref_dec_def r_def s1_def Let_def)
  then have "page_remove_pte s d la ?ptr = kret s'"
    using True mf(1) get_pte_present(2) [OF ok d v p] by (simp add: page_remove_pte_def m(1) s'_def)
  moreover have "frame s' = frame (pte_write s ?ptr 0)" by (simp add: s'_def pte_write_def s1_def)
  then have u: "slot_upd D s d (vpn la) 0 s'"
    by (rule slot_upd_cong [OF slot_upd_write [OF ok d v p, of 0]]) (simp add: s'_def s1_def)
  moreover have "same_env s s'" by (simp add: same_env_def s'_def s1_def)
  moreover have "paging_okx k M D s' (F \<union> (mapped s D - mapped s' D))"
    by (rule slot_clear_ok [OF ok u x pm kq])
      (use m(2,3) r0 slot_clear_users(2) [OF u x pm] in \<open>simp_all add: s'_def r_def\<close>)
  ultimately show ?thesis using True by auto
qed

section \<open>Finding or creating an entry\<close>

text \<open>\<open>grown D s s' F F'\<close>: the step from \<open>s\<close> to \<open>s'\<close> may have taken free frames as page tables; no
  translation changed, and neither did the contents of any other frame.\<close>

definition grown :: "nat set \<Rightarrow> mem \<Rightarrow> mem \<Rightarrow> bool" where
  "grown D s s' \<longleftrightarrow> same_env s s' \<and> tabs s D \<subseteq> tabs s' D \<and>
     (\<forall>x \<in> tabs s D. tab s' x = tab s x) \<and>
     (\<forall>d \<in> D. \<forall>v < user_pages. vpte s' d v = vpte s d v) \<and>
     (\<forall>f. f \<notin> D \<union> tab s' ` tabs s' D \<longrightarrow> frame s' f = frame s f)"

lemma grown_refl: "grown D s s"
  by (simp add: grown_def)

lemma grown_pmap: "grown D s s' \<Longrightarrow> x \<in> slots D \<Longrightarrow> pmap s' x = pmap s x"
  by (auto simp: grown_def slots_def pmap_def)

lemma grown_users: "grown D s s' \<Longrightarrow> users s' D q = users s D q"
  using grown_pmap [of D s s'] by (auto simp: users_def)

lemma grown_mapped: "grown D s s' \<Longrightarrow> mapped s' D = mapped s D"
  by (simp add: mapped_users grown_users)

definition new_table :: "mem \<Rightarrow> nat \<Rightarrow> nat \<Rightarrow> nat \<Rightarrow> pmm \<Rightarrow> mem" where
  "new_table s d i t m = s\<lparr>mgr := m, frame := (frame s)(t := (\<lambda>_. 0),
     d := (frame s d)(i := page2pa t OR PTE_U OR PTE_W OR PTE_P))\<rparr>"

lemma new_table_entry:
  assumes "t < 2 ^ 20"
  shows "present (page2pa t OR PTE_U OR PTE_W OR PTE_P)"
    and "unat (PPN (page2pa t OR PTE_U OR PTE_W OR PTE_P)) = t"
    and "unat (PPN (PTE_ADDR (page2pa t OR PTE_U OR PTE_W OR PTE_P))) = t"
proof -
  show "present (page2pa t OR PTE_U OR PTE_W OR PTE_P)" by (simp add: present_or)
  have "(PTE_U OR PTE_W OR PTE_P :: u32) < 0x1000" by (simp add: or_less_page)
  from PPN_entry [OF assms this]
  show "unat (PPN (page2pa t OR PTE_U OR PTE_W OR PTE_P)) = t"
    "unat (PPN (PTE_ADDR (page2pa t OR PTE_U OR PTE_W OR PTE_P))) = t"
    using assms by (simp_all add: unat_of_nat or.assoc)
qed

lemma new_table_grown:
  assumes ok: "paging_ok M D s F" and d: "d \<in> D" and i: "i < 704"
    and a: "\<not> present (frame s d i)" and t: "t \<in> F" "t < 2 ^ 20"
  shows "grown D s (new_table s d i t m)"
    and "tabs (new_table s d i t m) D = insert (d, i) (tabs s D)"
    and "tab (new_table s d i t m) (d, i) = t"
    and "x \<in> tabs s D \<Longrightarrow> tab (new_table s d i t m) x = tab s x"
proof -
  let ?s = "new_table s d i t m"
  note e = new_table_entry [OF t(2)]
  have td: "t \<notin> D" using paging_okD(4) [OF ok] t(1) by blast
  have fD: "frame ?s d' j = (if d' = d \<and> j = i then page2pa t OR PTE_U OR PTE_W OR PTE_P else frame s d' j)"
    if "d' \<in> D" for d' j using that td by (auto simp: new_table_def)
  show tb: "tabs ?s D = insert (d, i) (tabs s D)"
    using d i e(1) a by (auto simp: tabs_def fD)
  show tt: "tab ?s (d, i) = t" using d e(2) by (simp add: tab_def fD)
  show to: "tab ?s x = tab s x" if "x \<in> tabs s D" for x
    using that a by (cases x) (auto simp: tabs_def tab_def fD)
  have ft: "frame ?s (tab s x) = frame s (tab s x)" if "x \<in> tabs s D" for x
  proof -
    have "tab s x \<noteq> t" "tab s x \<noteq> d" using tab_in(2,3) [OF ok that] t(1) d by auto
    then show ?thesis by (simp add: new_table_def)
  qed
  have "vpte ?s d' v = vpte s d' v" if d': "d' \<in> D" and v: "v < user_pages" for d' v
  proof (cases "d' = d \<and> v div 1024 = i")
    case True
    have z: "frame ?s t = (\<lambda>_. 0)" using td d by (auto simp: new_table_def)
    have "frame ?s d i = page2pa t OR PTE_U OR PTE_W OR PTE_P" using d by (simp add: fD)
    then have "vpte ?s d v = frame ?s (tab ?s (d, i)) (v mod 1024)"
      using True e(1) unfolding vpte_def by simp
    then show ?thesis using True a by (simp add: tt z vpte_def)
  next
    case False
    then have f: "frame ?s d' (v div 1024) = frame s d' (v div 1024)" by (auto simp: fD d')
    show ?thesis
    proof (cases "present (frame s d' (v div 1024))")
      case True
      note x = tabsI [OF d' v True]
      show ?thesis unfolding vpte_def f to [OF x] ft [OF x] by simp
    qed (simp add: vpte_def f)
  qed
  moreover have "\<forall>x \<in> tabs s D. tab ?s x = tab s x" using to by blast
  moreover have "frame ?s f = frame s f" if "f \<notin> D \<union> tab ?s ` tabs ?s D" for f
    using that tt d unfolding tb by (auto simp: new_table_def)
  moreover have "tabs s D \<subseteq> tabs ?s D" by (auto simp: tb)
  moreover have "same_env s ?s" by (simp add: same_env_def new_table_def)
  ultimately show "grown D s ?s" by (simp add: grown_def)
qed

lemma new_table_ok:
  assumes ok: "paging_ok M D s F" and d: "d \<in> D" and i: "i < 704"
    and a: "\<not> present (frame s d i)" and t: "t \<in> F" "t < 2 ^ 20"
    and m: "pmm_ok (unat (npage s)) M m (F - {t})"
    and r: "\<forall>q. q \<noteq> t \<longrightarrow> page_ref_of (s\<lparr>mgr := m\<rparr>) q = page_ref_of s q"
  shows "paging_ok M D (new_table s d i t m) (F - {t})"
proof -
  let ?s = "new_table s d i t m"
  note nt = new_table_grown [OF ok d i a t, where m = m]
  have im: "tab ?s ` tabs ?s D = insert t (tab s ` tabs s D)"
    using nt(3,4) by (auto simp: nt(2) image_iff)
  have tn: "t \<notin> tab s ` tabs s D" "t \<notin> D" "t \<in> M" "t \<notin> mapped s D"
    using paging_okD(4,5,7,10) [OF ok] t(1) by auto
  have "inj_on (tab ?s) (tabs ?s D)"
    using paging_okD(6) [OF ok] nt(3,4) tn(1) unfolding nt(2) by (auto simp: inj_on_def image_iff)
  moreover have "page_ref_of ?s q = page_ref_of (s\<lparr>mgr := m\<rparr>) q" for q
    by (simp add: page_ref_of_def new_table_def)
  ultimately show ?thesis
    using paging_okD [OF ok] m tn r unfolding paging_okx_def im grown_users [OF nt(1)] grown_mapped [OF nt(1)]
    by (auto simp: new_table_def)
qed

lemma pte_write_new_table:
  "pte_write ((put_page_ref (s\<lparr>mgr := m\<rparr>) t 1)\<lparr>frame := (frame s)(t := (\<lambda>_. 0))\<rparr>) (d, i)
     (page2pa t OR PTE_U OR PTE_W OR PTE_P) =
   new_table s d i t (mgr (put_page_ref (s\<lparr>mgr := m\<rparr>) t 1))" if "t \<noteq> d"
  using that by (simp add: pte_write_def new_table_def put_page_ref_def)

lemma get_pte_create:
  assumes ok: "paging_ok M D s F" and d: "d \<in> D" and v: "vpn la < user_pages"
    and F: "present (frame s d (PDX la)) \<or> F \<noteq> {}"
  shows "\<exists>s'. get_pte s d la True = kret (Some (tab s' (d, PDX la), PTX la), s') \<and>
    grown D s s' \<and> present (frame s' d (PDX la)) \<and>
    tabs s' D = insert (d, PDX la) (tabs s D) \<and> tab s' ` tabs s' D \<subseteq> tab s ` tabs s D \<union> F \<and>
    paging_ok M D s' (F - tab s' ` tabs s' D)"
proof (cases "present (frame s d (PDX la))")
  case True
  have "(d, PDX la) \<in> tabs s D" using tabsI [of d D "vpn la"] d v True by (simp add: PDX_vpn)
  moreover have "F - tab s ` tabs s D = F" using paging_okD(5) [OF ok] by blast
  ultimately show ?thesis using get_pte_present(1) [OF ok d v True, of True] ok True grown_refl
    by (auto simp: insert_absorb)
next
  case False
  have i: "PDX la < 704" using slot_split [OF v] by (simp add: PDX_vpn)
  obtain t m where a: "alloc_pages s 1 = kret (Some t, s\<lparr>mgr := m\<rparr>)" "t \<in> F"
      "pmm_ok (unat (npage s)) M m (F - {t})" "\<forall>q. page_ref_of (s\<lparr>mgr := m\<rparr>) q = page_ref_of s q"
    using alloc_page_ok [OF paging_okD(1) [OF ok]] F False by blast
  have tn: "t < unat (npage s)" using a(2) paging_okD(9,10) [OF ok] by auto
  then have t20: "t < 2 ^ 20" using paging_okD(2) [OF ok] by simp
  have td: "t \<noteq> d" using paging_okD(4) [OF ok] a(2) d by blast
  define m1 where "m1 = mgr (put_page_ref (s\<lparr>mgr := m\<rparr>) t 1)"
  define s' where "s' = new_table s d (PDX la) t m1"
  note nt = new_table_grown [OF ok d i False a(2) t20, where m = m1, folded s'_def]
  have "page_ref_of (s\<lparr>mgr := m1\<rparr>) q = page_ref_of (put_page_ref (s\<lparr>mgr := m\<rparr>) t 1) q" for q
    by (simp add: m1_def page_ref_of_def)
  then have "\<forall>q. q \<noteq> t \<longrightarrow> page_ref_of (s\<lparr>mgr := m1\<rparr>) q = page_ref_of s q"
    using a(4) by simp
  moreover have "pmm_ok (unat (npage s)) M m1 (F - {t})" using a(3) by (simp add: m1_def)
  ultimately have ok': "paging_ok M D s' (F - {t})"
    unfolding s'_def using new_table_ok [OF ok d i False a(2) t20] by blast
  have k: "page2kva (put_page_ref (s\<lparr>mgr := m\<rparr>) t 1) t = kret t"
    using tn paging_okD(2) [OF ok] by (intro page2kva_ok) auto
  have "tab s ` tabs s D \<inter> F = {}" using paging_okD(5) [OF ok] by blast
  then have F': "F - tab s' ` tabs s' D = F - {t}" using nt(3,4) by (auto simp: nt(2))
  have e: "frame s' d (PDX la) = page2pa t OR PTE_U OR PTE_W OR PTE_P" by (simp add: s'_def new_table_def)
  have "KADDR s' (PTE_ADDR (frame s' d (PDX la))) = kret t"
    using new_table_entry(3) [OF t20] tn
    by (simp add: KADDR_def e word_le_nat_alt s'_def new_table_def)
  then have "get_pte s d la True = kret (Some (t, PTX la), s')"
    using False a(1) k pte_write_new_table [OF td, of s m "PDX la", folded m1_def s'_def]
    by (simp add: get_pte_def page2kva_def Let_def)
  moreover have "tab s' ` tabs s' D \<subseteq> tab s ` tabs s D \<union> F" using nt(3,4) a(2) by (auto simp: nt(2))
  ultimately show ?thesis using nt ok' F' e new_table_entry(1) [OF t20] by auto
qed

section \<open>Inserting a mapping\<close>

lemma put_page_ref_frame:
  "vpte (put_page_ref s p r) = vpte s" "tabs (put_page_ref s p r) = tabs s"
  "tab (put_page_ref s p r) = tab s" "pmap (put_page_ref s p r) = pmap s"
  "users (put_page_ref s p r) = users s" "mapped (put_page_ref s p r) = mapped s"
proof -
  show v: "vpte (put_page_ref s p r) = vpte s" by (rule vpte_cong) simp
  show "tabs (put_page_ref s p r) = tabs s" "tab (put_page_ref s p r) = tab s"
    by (simp_all add: fun_eq_iff tabs_def tab_def)
  show m: "pmap (put_page_ref s p r) = pmap s" by (simp add: fun_eq_iff pmap_def v)
  show "users (put_page_ref s p r) = users s" by (simp add: fun_eq_iff users_def m)
  show "mapped (put_page_ref s p r) = mapped s" by (simp add: fun_eq_iff mapped_def m)
qed

lemma paging_ok_put:
  assumes "paging_okx k M D s F"
  shows "paging_okx (k(p := k p + (r - page_ref_of s p))) M D (put_page_ref s p r) F"
  using assms unfolding paging_okx_def put_page_ref_frame by auto

lemma slot_set_ok:
  assumes ok: "paging_okx k M D s F" and u: "slot_upd D s d v e s'" and x: "(d, v) \<in> slots D"
    and e: "present e" "unat (PPN e) = p" and p: "p \<in> M - F - D - tab s ` tabs s D"
    and k: "k = (\<lambda>q. if q = p \<and> pmap s (d, v) = None then 1 else 0)" and pm: "pmap s (d, v) \<in> {None, Some p}"
    and m: "mgr s' = mgr s"
  shows "paging_ok M D s' F" and "mapped s' D = insert p (mapped s D)"
proof -
  have n: "pmap s' (d, v) = Some p" using slot_upd_pmap [OF u x] e by simp
  have us: "users s' D q = (if q = p then insert (d, v) (users s D p) else users s D q)" for q
    using users_upd [OF u x, of q] pm n by (auto simp: users_def)
  show mp: "mapped s' D = insert p (mapped s D)" by (auto simp: mapped_users us)
  have fin: "finite (users s D p)" using finite_users paging_okD(3) [OF ok] by blast
  have "(d, v) \<in> users s D p \<longleftrightarrow> pmap s (d, v) \<noteq> None" using x pm by (auto simp: users_def)
  then have c: "int (card (users s' D q)) = int (card (users s D q)) + k q" for q
    using fin by (auto simp: us k insert_absorb)
  show "paging_ok M D s' F"
    by (rule paging_ok_step [OF ok u])
      (use paging_okD [OF ok] p mp c m in \<open>auto simp: page_ref_of_def\<close>)
qed

definition inserted :: "nat set \<Rightarrow> mem \<Rightarrow> nat \<Rightarrow> u32 \<Rightarrow> u32 \<Rightarrow> mem \<Rightarrow> bool" where
  "inserted D s d la e s' \<longleftrightarrow> same_env s s' \<and> tabs s' D = insert (d, PDX la) (tabs s D) \<and>
     (\<forall>x \<in> tabs s D. tab s' x = tab s x) \<and>
     (\<forall>d' \<in> D. \<forall>v < user_pages. vpte s' d' v = (if d' = d \<and> v = vpn la then e else vpte s d' v)) \<and>
     (\<forall>f. f \<notin> D \<union> tab s' ` tabs s' D \<longrightarrow> frame s' f = frame s f)"

lemma grown_then_upd:
  assumes g: "grown D s s1" and t: "tabs s1 D = insert (d, PDX la) (tabs s D)"
    and u: "slot_upd D s1 d (vpn la) e s'" and s': "same_env s1 s'"
  shows "inserted D s d la e s'"
  using assms slot_upd_tabs [OF u] same_env_trans [of s s1 s']
  by (auto simp: inserted_def grown_def slot_upd_def)

lemma slot_upd_upd:
  assumes "slot_upd D s d v e s'" and "slot_upd D s' d v e' s''"
  shows "slot_upd D s d v e' s''"
  using assms slot_upd_tabs(1,3) [OF assms(1)] by (auto simp: slot_upd_def)

text \<open>The part of \<^verbatim>\<open>page_insert\<close> after the page table entry is found.\<close>

lemma insert_entry_ok:
  assumes ok: "paging_ok M D s F" and d: "d \<in> D" and v: "vpn la < user_pages"
    and tb: "present (frame s d (PDX la))" and p: "p \<in> M - F - D - tab s ` tabs s D"
  defines "ptr \<equiv> (tab s (d, PDX la), PTX la)" and "s2 \<equiv> put_page_ref s p (page_ref_of s p + 1)"
  shows "\<exists>s3. (if present (pte_read s2 ptr)
        then kbind (pte2page s2 (pte_read s2 ptr)) (\<lambda>q.
          if q = p then kret (snd (page_ref_dec s2 p)) else page_remove_pte s2 d la ptr)
        else kret s2) = kret s3 \<and>
      slot_upd D s d (vpn la) (vpte s3 d (vpn la)) s3 \<and> same_env s s3 \<and>
      pmap s3 (d, vpn la) \<in> {None, Some p} \<and> p \<notin> mapped s D - mapped s3 D \<and>
      paging_okx (\<lambda>q. if q = p \<and> pmap s3 (d, vpn la) = None then 1 else 0) M D s3
        (F \<union> (mapped s D - mapped s3 D))"
proof -
  define k1 where "k1 = (\<lambda>q. if q = p then 1 else 0 :: int)"
  have x: "(d, vpn la) \<in> slots D" using d v by (simp add: slots_def)
  have ok2: "paging_okx k1 M D s2 F"
    using paging_ok_put [OF ok, of p "page_ref_of s p + 1"] by (simp add: s2_def k1_def fun_upd_def)
  have tb2: "present (frame s2 d (PDX la))" and t2: "tab s2 = tab s" using tb by (simp_all add: s2_def put_page_ref_frame)
  have rd: "pte_read s2 ptr = vpte s d (vpn la)"
    using get_pte_present(2) [OF ok2 d v tb2] by (simp add: ptr_def t2 s2_def put_page_ref_frame)
  have u2: "slot_upd D s d (vpn la) (vpte s d (vpn la)) s2"
    by (rule slot_upd_cong [OF slot_upd_same]) (simp_all add: s2_def)
  have e2: "same_env s s2" by (simp add: same_env_def s2_def)
  have pm2: "pmap s2 = pmap s" "mapped s2 = mapped s" "vpte s2 = vpte s" by (simp_all add: s2_def put_page_ref_frame)
  consider (none) "\<not> present (vpte s d (vpn la))"
    | (same) "present (vpte s d (vpn la))" "unat (PPN (vpte s d (vpn la))) = p"
    | (other) "present (vpte s d (vpn la))" "unat (PPN (vpte s d (vpn la))) \<noteq> p" by blast
  then show ?thesis
  proof cases
    case none
    then have "pmap s2 (d, vpn la) = None" by (simp add: pm2 pmap_def)
    with none ok2 u2 e2 pm2 rd show ?thesis by (intro exI [of _ s2]) (auto simp: k1_def)
  next
    case same
    define s3 where "s3 = snd (page_ref_dec s2 p)"
    have s3: "s3 = s2\<lparr>mgr := mgr s3\<rparr>" by (simp add: s3_def page_ref_dec_def Let_def put_page_ref_def)
    have eq: "pmap s3 = pmap s" "mapped s3 = mapped s" "vpte s3 = vpte s"
      by (simp_all add: s3_def page_ref_dec_def Let_def put_page_ref_frame pm2)
    have "paging_okx (\<lambda>_. 0) M D s3 F"
      using paging_ok_put [OF ok2, of p "page_ref_of s2 p - 1"]
      by (simp add: s3_def page_ref_dec_def Let_def k1_def fun_upd_def if_distrib cong: if_cong)
    moreover have "slot_upd D s d (vpn la) (vpte s d (vpn la)) s3"
      by (rule slot_upd_cong [OF u2]) (subst s3, simp)+
    moreover have "same_env s s3" using e2 by (subst s3) (simp add: same_env_def)
    moreover have "pmap s (d, vpn la) = Some p" using same by (simp add: pmap_def)
    moreover have "pte2page s2 (vpte s d (vpn la)) = kret p"
      using mapped_frame(1) [OF ok2 x] same by (simp add: pm2)
    ultimately show ?thesis using same rd by (intro exI [of _ s3]) (simp add: eq s3_def [symmetric])
  next
    case other
    let ?q = "unat (PPN (vpte s d (vpn la)))"
    have pmq: "pmap s2 (d, vpn la) = Some ?q" using other by (simp add: pm2 pmap_def)
    then have kq: "\<forall>q. pmap s2 (d, vpn la) = Some q \<longrightarrow> k1 q = 0" using other by (simp add: k1_def)
    obtain s3 where s3: "page_remove_pte s2 d la ptr = kret s3"
        "paging_okx k1 M D s3 (F \<union> (mapped s2 D - mapped s3 D))" "same_env s2 s3"
        "slot_upd D s2 d (vpn la) 0 s3"
      using page_remove_pte_ok [OF ok2 d v tb2 kq] other by (auto simp: ptr_def t2 pm2)
    have n: "pmap s3 (d, vpn la) = None" "vpte s3 d (vpn la) = 0"
      using slot_upd_pmap [OF s3(4) x] s3(4) d v by (simp_all add: slot_upd_def)
    have "p \<notin> mapped s D - mapped s3 D"
      using slot_clear_users(2) [OF s3(4) x pmq] other by (auto simp: pm2 split: if_splits)
    moreover have "pte2page s2 (vpte s d (vpn la)) = kret ?q"
      using mapped_frame(1) [OF ok2 x] other by (simp add: pm2)
    moreover have "slot_upd D s d (vpn la) 0 s3" by (rule slot_upd_upd [OF u2 s3(4)])
    ultimately show ?thesis using other rd s3 n same_env_trans [OF e2 s3(3)]
      by (intro exI [of _ s3]) (simp add: pm2 k1_def)
  qed
qed

lemma entry_simps:
  assumes "p < 2 ^ 20" and "perm < 0x1000"
  shows "present (page2pa p OR PTE_P OR perm)" and "unat (PPN (page2pa p OR PTE_P OR perm)) = p"
proof -
  show "present (page2pa p OR PTE_P OR perm)" by (simp add: present_or)
  have "(PTE_P OR perm) < 0x1000" using assms(2) by (intro or_less_page) auto
  then show "unat (PPN (page2pa p OR PTE_P OR perm)) = p"
    using PPN_entry [OF assms(1), of "PTE_P OR perm"] assms(1) by (simp add: unat_of_nat or.assoc)
qed

lemma page_insert_ok:
  assumes ok: "paging_ok M D s F" and d: "d \<in> D" and v: "vpn la < user_pages"
    and F: "present (frame s d (PDX la)) \<or> F \<noteq> {}"
    and p: "p \<in> M - F - D - tab s ` tabs s D" and perm: "perm < 0x1000"
  shows "\<exists>s'. page_insert s d p la perm = kret (0, s') \<and>
    inserted D s d la (page2pa p OR PTE_P OR perm) s' \<and>
    paging_ok M D s' ((F - tab s' ` tabs s' D) \<union> (mapped s D - mapped s' D))"
proof -
  let ?e = "page2pa p OR PTE_P OR perm" and ?v = "vpn la"
  have x: "(d, ?v) \<in> slots D" using d v by (simp add: slots_def)
  have "p < unat (npage s)" using p paging_okD(9) [OF ok] by auto
  then have p20: "p < 2 ^ 20" using paging_okD(2) [OF ok] by simp
  obtain s1 where s1: "get_pte s d la True = kret (Some (tab s1 (d, PDX la), PTX la), s1)"
      "grown D s s1" "present (frame s1 d (PDX la))" "tabs s1 D = insert (d, PDX la) (tabs s D)"
      "tab s1 ` tabs s1 D \<subseteq> tab s ` tabs s D \<union> F" "paging_ok M D s1 (F - tab s1 ` tabs s1 D)"
    using get_pte_create [OF ok d v F] by blast
  let ?F = "F - tab s1 ` tabs s1 D" and ?ptr = "(tab s1 (d, PDX la), PTX la)"
  have p1: "p \<in> M - ?F - D - tab s1 ` tabs s1 D" using p s1(5) by blast
  then obtain s3 where s3: "(if present (pte_read (put_page_ref s1 p (page_ref_of s1 p + 1)) ?ptr)
        then kbind (pte2page (put_page_ref s1 p (page_ref_of s1 p + 1))
            (pte_read (put_page_ref s1 p (page_ref_of s1 p + 1)) ?ptr)) (\<lambda>q.
          if q = p then kret (snd (page_ref_dec (put_page_ref s1 p (page_ref_of s1 p + 1)) p))
          else page_remove_pte (put_page_ref s1 p (page_ref_of s1 p + 1)) d la ?ptr)
        else kret (put_page_ref s1 p (page_ref_of s1 p + 1))) = kret s3"
      "slot_upd D s1 d ?v (vpte s3 d ?v) s3" "same_env s1 s3" "pmap s3 (d, ?v) \<in> {None, Some p}"
      "p \<notin> mapped s1 D - mapped s3 D"
      "paging_okx (\<lambda>q. if q = p \<and> pmap s3 (d, ?v) = None then 1 else 0) M D s3
        (?F \<union> (mapped s1 D - mapped s3 D))"
    using insert_entry_ok [OF s1(6) d v s1(3)] by blast
  define s' where "s' = tlb_invalidate (pte_write s3 ?ptr ?e) d la"
  have t3: "tab s3 ` tabs s3 D = tab s1 ` tabs s1 D" and tp: "tab s3 (d, PDX la) = tab s1 (d, PDX la)"
    using slot_upd_tabs [OF s3(2)] s1(4) by auto
  have "present (frame s3 d (PDX la))" using s3(2) s1(3) d by (simp add: slot_upd_def)
  from slot_upd_write [OF s3(6) d v this, of ?e] have u: "slot_upd D s3 d ?v ?e s'"
    by (rule slot_upd_cong) (simp_all add: s'_def tp)
  have p3: "p \<in> M - (?F \<union> (mapped s1 D - mapped s3 D)) - D - tab s3 ` tabs s3 D"
    using p1 s3(5) unfolding t3 by blast
  have set: "paging_ok M D s' (?F \<union> (mapped s1 D - mapped s3 D))" "mapped s' D = insert p (mapped s3 D)"
    using slot_set_ok [OF s3(6) u x entry_simps [OF p20 perm] p3 refl s3(4)] by (simp_all add: s'_def)
  have "same_env s1 s'" using s3(3) by (simp add: same_env_def s'_def)
  with grown_then_upd [OF s1(2,4) slot_upd_upd [OF s3(2) u]] have "inserted D s d la ?e s'" by blast
  moreover have "page_insert s d p la perm = kret (0, s')"
    using s1(1) s3(1) by (simp add: page_insert_def page_ref_inc_def Let_def s'_def)
  moreover have "mapped s D - mapped s' D = mapped s1 D - mapped s3 D"
    using s3(5) set(2) grown_mapped [OF s1(2)] by auto
  moreover have "tab s' ` tabs s' D = tab s1 ` tabs s1 D"
    using slot_upd_tabs [OF slot_upd_upd [OF s3(2) u]] by simp
  ultimately show ?thesis using set(1) by auto
qed

section \<open>Ranges\<close>

definition aligned :: "u32 \<Rightarrow> bool" where
  "aligned a \<longleftrightarrow> a mod PGSIZE = 0"

lemma aligned_vpn: "aligned a \<longleftrightarrow> unat a = vpn a * 4096"
proof -
  have "aligned a \<longleftrightarrow> unat a mod 4096 = 0" by (simp add: aligned_def word_unat_eq_iff unat_mod)
  moreover have "unat a div 4096 * 4096 + unat a mod 4096 = unat a" by (rule div_mult_mod_eq)
  ultimately show ?thesis unfolding vpn_def by linarith
qed

lemma vpn_unat: "unat a = k * 4096 \<Longrightarrow> vpn a = k \<and> aligned a"
  by (simp add: aligned_vpn vpn_def)

lemma aligned_less: "aligned a \<Longrightarrow> aligned b \<Longrightarrow> a < b \<longleftrightarrow> vpn a < vpn b"
  by (simp add: aligned_vpn word_less_nat_alt)

lemma vpn_step:
  assumes "aligned a" and "vpn a < user_pages"
  shows "vpn (a + PGSIZE) = vpn a + 1" "aligned (a + PGSIZE)" "a + PGSIZE \<noteq> 0"
proof -
  have ua: "unat a = vpn a * 4096" using assms(1) by (simp only: aligned_vpn)
  then have "unat a + 4096 < 4294967296" using assms(2) unfolding user_pages_def by linarith
  then have "unat (a + PGSIZE) = unat a + 4096" using unat_add_noov [of a PGSIZE] by simp
  then have u: "unat (a + PGSIZE) = (vpn a + 1) * 4096" using ua by simp
  from vpn_unat [OF u] show "vpn (a + PGSIZE) = vpn a + 1" "aligned (a + PGSIZE)" by auto
  then show "a + PGSIZE \<noteq> 0" by (auto simp: vpn_def)
qed

lemma next_table: "(a::nat) < (a div 1024 + 1) * 1024"
  using dividend_less_times_div [of 1024 a] by (simp add: algebra_simps)

lemma vpn_step_table:
  assumes "aligned a" and "vpn a < user_pages"
  defines "b \<equiv> ROUNDDOWN (a + PTSIZE) PTSIZE"
  shows "vpn b = (vpn a div 1024 + 1) * 1024" "aligned b" "b \<noteq> 0"
proof -
  have ua: "unat a = vpn a * 4096" using assms(1) by (simp only: aligned_vpn)
  then have "unat a + 4194304 < 4294967296" using assms(2) unfolding user_pages_def by linarith
  then have "unat (a + PTSIZE) = unat a + 4194304" using unat_add_noov [of a PTSIZE] by simp
  then have "unat b = (unat a + 4194304) div 4194304 * 4194304"
    by (simp only: b_def unat_ROUNDDOWN unat_numeral minus_mod_eq_div_mult) simp
  also have "(unat a + 4194304) div 4194304 = vpn a div 1024 + 1"
    by (simp add: vpn_def div_mult2_eq [symmetric])
  finally have u: "unat b = ((vpn a div 1024 + 1) * 1024) * 4096" by simp
  from vpn_unat [OF u] show "vpn b = (vpn a div 1024 + 1) * 1024" "aligned b" by auto
  then show "b \<noteq> 0" by (auto simp: vpn_def)
qed

definition unmapped :: "nat set \<Rightarrow> mem \<Rightarrow> nat \<Rightarrow> nat \<Rightarrow> nat \<Rightarrow> mem \<Rightarrow> bool" where
  "unmapped D s d a b s' \<longleftrightarrow> same_env s s' \<and> (\<forall>d' \<in> D. frame s' d' = frame s d') \<and>
     (\<forall>d' \<in> D. \<forall>v < user_pages. vpte s' d' v =
        (if d' = d \<and> a \<le> v \<and> v < b \<and> present (vpte s d' v) then 0 else vpte s d' v)) \<and>
     (\<forall>f. f \<notin> tab s ` tabs s D \<longrightarrow> frame s' f = frame s f)"

lemma frames_tabs:
  assumes "\<forall>d \<in> D. frame s' d = frame s d"
  shows "tabs s' D = tabs s D" "tab s' ` tabs s D = tab s ` tabs s D"
  using assms by (auto simp: tabs_def tab_def image_def)

lemma unmapped_trans:
  assumes "unmapped D s d a b s1" and "unmapped D s1 d b c s2" and "a \<le> b" and "b \<le> c"
  shows "unmapped D s d a c s2"
proof -
  have t: "tab s1 ` tabs s1 D = tab s ` tabs s D"
    using assms(1) frames_tabs [of D s1 s] by (simp add: unmapped_def)
  show ?thesis using assms(1,2) same_env_trans [of s s1 s2] assms(3,4)
    unfolding unmapped_def t by auto
qed

lemma unmapped_vpte:
  "unmapped D s d a b s' \<Longrightarrow> d' \<in> D \<Longrightarrow> v < user_pages \<Longrightarrow> vpte s' d' v =
     (if d' = d \<and> a \<le> v \<and> v < b \<and> present (vpte s d' v) then 0 else vpte s d' v)"
  by (simp add: unmapped_def)

lemma unmapped_mapped:
  assumes "unmapped D s d a b s'"
  shows "mapped s' D \<subseteq> mapped s D"
proof -
  have "pmap s' x = Some q \<Longrightarrow> pmap s x = Some q" if "x \<in> slots D" for x q
    using unmapped_vpte [OF assms, of "fst x" "snd x"] that
    by (auto simp: slots_def pmap_def Let_def split: if_splits)
  then show ?thesis by (auto simp: mapped_def)
qed

lemma unmapped_absent:
  assumes "\<not> present (frame s d (a div 1024))" and "b \<le> (a div 1024 + 1) * 1024"
  shows "unmapped D s d a b s"
proof -
  have "\<not> present (vpte s d v)" if "a \<le> v" "v < b" for v
  proof -
    have "v div 1024 = a div 1024" using that assms(2) by (intro div_nat_eqI) auto
    then show ?thesis using assms(1) by (simp add: vpte_def)
  qed
  then show ?thesis by (auto simp: unmapped_def)
qed

lemma slot_upd_unmapped:
  assumes "slot_upd D s d v (if present (vpte s d v) then 0 else vpte s d v) s'" and "same_env s s'"
  shows "unmapped D s d v (v + 1) s'"
  using assms by (auto simp: slot_upd_def unmapped_def)

text \<open>One round of the loop of \<^verbatim>\<open>unmap_range\<close>.\<close>

lemma unmap_step:
  assumes ok: "paging_ok M D s F" and d: "d \<in> D" and a: "aligned start" and v: "vpn start < user_pages"
  shows "\<exists>start' s'. unmap_loop s d start end = (if start' \<noteq> 0 \<and> start' < end
        then unmap_loop s' d start' end else kret s') \<and>
      aligned start' \<and> start' \<noteq> 0 \<and> vpn start < vpn start' \<and>
      (\<forall>b. vpn start < b \<longrightarrow> b \<le> user_pages \<longrightarrow> unmapped D s d (vpn start) (min b (vpn start')) s') \<and>
      paging_ok M D s' (F \<union> (mapped s D - mapped s' D))"
proof (cases "present (frame s d (PDX start))")
  case False
  let ?b = "ROUNDDOWN (start + PTSIZE) PTSIZE"
  have "unmap_loop s d start end = (if ?b \<noteq> 0 \<and> ?b < end then unmap_loop s d ?b end else kret s)"
    by (subst unmap_loop.simps) (simp add: get_pte_absent [OF False])
  moreover have "vpn start < vpn ?b" unfolding vpn_step_table(1) [OF a v] by (rule next_table)
  moreover have "unmapped D s d (vpn start) (min b (vpn ?b)) s" for b
    using False by (intro unmapped_absent) (simp_all add: PDX_vpn vpn_step_table(1) [OF a v])
  ultimately show ?thesis using vpn_step_table(2,3) [OF a v] ok by (intro exI [of _ ?b] exI [of _ s]) auto
next
  case True
  let ?p = "(tab s (d, PDX start), PTX start)"
  note g = get_pte_present [OF ok d v True]
  obtain s' where s': "(if pte_read s ?p \<noteq> 0 then page_remove_pte s d start ?p else kret s) = kret s'"
      "paging_ok M D s' (F \<union> (mapped s D - mapped s' D))" "same_env s s'"
      "slot_upd D s d (vpn start) (if present (vpte s d (vpn start)) then 0 else vpte s d (vpn start)) s'"
  proof (cases "vpte s d (vpn start) = 0")
    case True
    then show thesis using that [of s] g(2) ok slot_upd_same [of D s d "vpn start"] by simp
  next
    case False
    then show thesis using that g(2) page_remove_pte_ok [OF ok d v True] by auto
  qed
  have "unmap_loop s d start end = (if start + PGSIZE \<noteq> 0 \<and> start + PGSIZE < end
      then unmap_loop s' d (start + PGSIZE) end else kret s')"
    using s'(1) by (subst unmap_loop.simps) (simp add: g(1))
  moreover have "unmapped D s d (vpn start) (min b (vpn (start + PGSIZE))) s'" if "vpn start < b" for b
    using slot_upd_unmapped [OF s'(4,3)] that vpn_step(1) [OF a v] by simp
  ultimately show ?thesis using vpn_step [OF a v] s'(2)
    by (intro exI [of _ "start + PGSIZE"] exI [of _ s']) simp
qed

lemma unmap_loop_ok:
  assumes "paging_ok M D s F" and "d \<in> D" and "aligned start" and "aligned end"
    and "vpn start < vpn end" and "vpn end \<le> user_pages"
  shows "\<exists>s'. unmap_loop s d start end = kret s' \<and> unmapped D s d (vpn start) (vpn end) s' \<and>
    paging_ok M D s' (F \<union> (mapped s D - mapped s' D))"
  using assms
proof (induction "vpn end - vpn start" arbitrary: s F start rule: less_induct)
  case less
  have v: "vpn start < user_pages" using less.prems by simp
  obtain start' s1 where st: "unmap_loop s d start end = (if start' \<noteq> 0 \<and> start' < end
        then unmap_loop s1 d start' end else kret s1)"
      "aligned start'" "start' \<noteq> 0" "vpn start < vpn start'"
      "unmapped D s d (vpn start) (min (vpn end) (vpn start')) s1"
      "paging_ok M D s1 (F \<union> (mapped s D - mapped s1 D))"
    using unmap_step [OF less.prems(1-3) v, of "end"] less.prems(5,6) by blast
  show ?case
  proof (cases "start' < end")
    case False
    then have "\<not> vpn start' < vpn end" using aligned_less st(2) less.prems(4) by blast
    then show ?thesis using st False by (simp add: min_absorb1)
  next
    case True
    then have lt: "vpn start' < vpn end" using aligned_less st(2) less.prems(4) by blast
    then have dec: "vpn end - vpn start' < vpn end - vpn start" using st(4) by simp
    obtain s' where s': "unmap_loop s1 d start' end = kret s'"
        "unmapped D s1 d (vpn start') (vpn end) s'"
        "paging_ok M D s' (F \<union> (mapped s D - mapped s1 D) \<union> (mapped s1 D - mapped s' D))"
      using less.hyps [OF dec st(6) less.prems(2) st(2) less.prems(4) lt less.prems(6)] by blast
    have u1: "unmapped D s d (vpn start) (vpn start') s1" using st(5) lt by (simp add: min_absorb2)
    have "F \<union> (mapped s D - mapped s1 D) \<union> (mapped s1 D - mapped s' D) = F \<union> (mapped s D - mapped s' D)"
      using unmapped_mapped [OF u1] unmapped_mapped [OF s'(2)] by auto
    then show ?thesis
      using st(1,3) True s' unmapped_trans [OF u1 s'(2)] st(4) lt by auto
  qed
qed

section \<open>Copying a range\<close>

lemma paging_ok_alloc:
  assumes ok: "paging_ok M D s F" and m: "pmm_ok (unat (npage s)) M m (F - {q})"
    and r: "\<forall>y. page_ref_of (s\<lparr>mgr := m\<rparr>) y = page_ref_of s y"
  shows "paging_ok M D (s\<lparr>mgr := m\<rparr>) (F - {q})"
proof -
  have v: "vpte (s\<lparr>mgr := m\<rparr>) = vpte s" by (rule vpte_cong) simp
  have "tabs (s\<lparr>mgr := m\<rparr>) = tabs s" "tab (s\<lparr>mgr := m\<rparr>) = tab s"
    "users (s\<lparr>mgr := m\<rparr>) = users s" "mapped (s\<lparr>mgr := m\<rparr>) = mapped s"
    by (simp_all add: fun_eq_iff tabs_def tab_def users_def mapped_def pmap_def v)
  then show ?thesis using paging_okD [OF ok] m r by (auto simp: paging_okx_def)
qed

text \<open>A write to a frame that is neither a directory nor a page table changes no translation.\<close>

lemma data_write:
  fixes c :: "nat \<Rightarrow> u32"
  assumes ok: "paging_okx k M D s F" and q: "q \<notin> D" "q \<notin> tab s ` tabs s D"
  defines "s' \<equiv> s\<lparr>frame := (frame s)(q := c)\<rparr>"
  shows "tabs s' D = tabs s D" "x \<in> tabs s D \<Longrightarrow> tab s' x = tab s x"
    "d \<in> D \<Longrightarrow> v < user_pages \<Longrightarrow> vpte s' d v = vpte s d v" "mapped s' D = mapped s D"
    "paging_okx k M D s' F"
proof -
  have f: "frame s' d = frame s d" if "d \<in> D" for d using q(1) that by (auto simp: s'_def)
  show t: "tabs s' D = tabs s D" using f by (auto simp: tabs_def)
  show tt: "tab s' x = tab s x" if "x \<in> tabs s D" for x using that f by (auto simp: tabs_def tab_def)
  have vp: "vpte s' d v = vpte s d v" if d: "d \<in> D" and v: "v < user_pages" for d v
  proof (cases "present (frame s d (v div 1024))")
    case True
    note x = tabsI [OF d v True]
    have "frame s' (tab s (d, v div 1024)) = frame s (tab s (d, v div 1024))"
      using q(2) x by (auto simp: s'_def)
    then show ?thesis unfolding vpte_def f [OF d] tt [OF x] by simp
  qed (simp add: vpte_def f d)
  then show "d \<in> D \<Longrightarrow> v < user_pages \<Longrightarrow> vpte s' d v = vpte s d v" .
  have us: "users s' D y = users s D y" for y
    using vp by (auto simp: users_def slots_def pmap_def)
  then show mp: "mapped s' D = mapped s D" by (simp add: mapped_users)
  have im: "tab s' ` tabs s D = tab s ` tabs s D" using tt by (intro image_cong) auto
  have "inj_on (tab s') (tabs s D)" using paging_okD(6) [OF ok] tt by (auto simp: inj_on_def)
  then show "paging_okx k M D s' F" using ok
    unfolding paging_okx_def t im us mp by (auto simp: s'_def)
qed

definition copied :: "nat set \<Rightarrow> nat set \<Rightarrow> mem \<Rightarrow> nat \<Rightarrow> nat \<Rightarrow> nat set \<Rightarrow> mem \<Rightarrow> nat set \<Rightarrow> bool" where
  "copied D F s to from P s' F' \<longleftrightarrow> same_env s s' \<and> F' \<subseteq> F \<and>
     (\<forall>x \<in> tabs s D. x \<in> tabs s' D \<and> tab s' x = tab s x) \<and>
     tab s' ` tabs s' D \<subseteq> tab s ` tabs s D \<union> F \<and>
     (\<forall>f. f \<notin> D \<union> F \<union> tab s ` tabs s D \<longrightarrow> frame s' f = frame s f) \<and>
     (\<forall>d \<in> D. \<forall>v < user_pages. \<not> (d = to \<and> v \<in> P \<and> present (vpte s from v)) \<longrightarrow>
        vpte s' d v = vpte s d v) \<and>
     (\<forall>v. v \<in> P \<and> present (vpte s from v) \<longrightarrow>
        (\<exists>q \<in> F - F'. vpte s' to v = page2pa q OR PTE_P OR (vpte s from v AND PTE_USER) \<and>
           q \<notin> tab s' ` tabs s' D \<and> frame s' q = frame s (unat (PPN (vpte s from v)))))"

lemma and_user_less: "e AND PTE_USER < 0x1000"
proof -
  have "e AND PTE_USER \<le> PTE_USER" by (rule word_and_le1)
  also have "(PTE_USER :: u32) < 0x1000" by simp
  finally show ?thesis .
qed

text \<open>A fresh frame is filled with \<open>c\<close> and mapped at a slot that maps nothing yet.\<close>

lemma map_fresh_ok:
  fixes c :: "nat \<Rightarrow> u32"
  assumes ok: "paging_ok M D s F" and d: "d \<in> D" and v: "vpn la < user_pages"
    and tb: "present (frame s d (PDX la))" and n: "\<not> present (vpte s d (vpn la))"
    and q: "q \<in> M - F - D - tab s ` tabs s D" and perm: "perm < 0x1000"
  shows "\<exists>s'. page_insert (s\<lparr>frame := (frame s)(q := c)\<rparr>) d q la perm = kret (0, s') \<and>
    paging_ok M D s' F \<and> same_env s s' \<and> tabs s' D = tabs s D \<and>
    (\<forall>x \<in> tabs s D. tab s' x = tab s x) \<and> frame s' q = c \<and>
    (\<forall>d' \<in> D. \<forall>v < user_pages. vpte s' d' v =
       (if d' = d \<and> v = vpn la then page2pa q OR PTE_P OR perm else vpte s d' v)) \<and>
    (\<forall>f. f \<notin> D \<union> tab s ` tabs s D \<and> f \<noteq> q \<longrightarrow> frame s' f = frame s f)"
proof -
  define s3 where "s3 = s\<lparr>frame := (frame s)(q := c)\<rparr>"
  have "q \<notin> D" "q \<notin> tab s ` tabs s D" using q by auto
  note dw = data_write [OF ok this, where c = c, folded s3_def]
  have im: "tab s3 ` tabs s3 D = tab s ` tabs s D" unfolding dw(1) using dw(2) by (intro image_cong) auto
  have tb3: "present (frame s3 d (PDX la))" using tb q d by (auto simp: s3_def)
  have xt: "(d, PDX la) \<in> tabs s3 D" using tabsI [of d D "vpn la" s3] d v tb3 by (simp add: PDX_vpn)
  obtain s' where s': "page_insert s3 d q la perm = kret (0, s')"
      "inserted D s3 d la (page2pa q OR PTE_P OR perm) s'"
      "paging_ok M D s' ((F - tab s' ` tabs s' D) \<union> (mapped s3 D - mapped s' D))"
    using page_insert_ok [OF dw(5) d v _ _ perm, of q] tb3 q unfolding im by blast
  have t': "tabs s' D = tabs s D" "\<forall>x \<in> tabs s D. tab s' x = tab s x"
    using s'(2) xt dw(1,2) by (auto simp: inserted_def insert_absorb)
  then have im': "tab s' ` tabs s' D = tab s ` tabs s D" by (metis (no_types, lifting) image_cong)
  have vp: "vpte s' d' w = (if d' = d \<and> w = vpn la then page2pa q OR PTE_P OR perm else vpte s d' w)"
    if "d' \<in> D" "w < user_pages" for d' w using s'(2) dw(3) that by (simp add: inserted_def)
  have "mapped s D \<subseteq> mapped s' D"
  proof
    fix y
    assume "y \<in> mapped s D"
    then obtain x where x: "x \<in> slots D" "pmap s x = Some y" by (auto simp: mapped_def)
    then have "x \<noteq> (d, vpn la)" using n by (auto simp: pmap_def)
    then have "pmap s' x = Some y" using x vp by (cases x) (auto simp: slots_def pmap_def)
    then show "y \<in> mapped s' D" using x(1) by (auto simp: mapped_def)
  qed
  moreover have "F \<inter> tab s ` tabs s D = {}" using paging_okD(5) [OF ok] by blast
  ultimately have "(F - tab s' ` tabs s' D) \<union> (mapped s3 D - mapped s' D) = F"
    using dw(4) im' by blast
  moreover have "frame s' f = frame s3 f" if "f \<notin> D \<union> tab s ` tabs s D" for f
    using s'(2) that im' by (simp add: inserted_def)
  then have "frame s' q = c" "\<forall>f. f \<notin> D \<union> tab s ` tabs s D \<and> f \<noteq> q \<longrightarrow> frame s' f = frame s f"
    using q by (auto simp: s3_def)
  moreover have "same_env s s'" using s'(2) by (simp add: inserted_def same_env_def s3_def)
  ultimately show ?thesis using s'(1,3) t' vp unfolding s3_def [symmetric] by auto
qed

lemma copy_page_ok:
  assumes ok: "paging_ok M D s F" and D: "to \<in> D" "from \<in> D" and v: "vpn la < user_pages"
    and tb: "present (frame s from (PDX la))" and e: "present (vpte s from (vpn la))"
    and n: "\<not> present (vpte s to (vpn la))" and c: "2 \<le> card F"
  shows "\<exists>s' F'. copy_page s to la (tab s (from, PDX la), PTX la) = kret (0, s') \<and>
    paging_ok M D s' F' \<and> card F \<le> card F' + 2 \<and> copied D F s to from {vpn la} s' F'"
proof -
  let ?v = "vpn la" and ?e = "vpte s from (vpn la)"
  let ?src = "unat (PPN ?e)"
  have "F \<noteq> {}" using c by auto
  then obtain s1 where s1: "get_pte s to la True = kret (Some (tab s1 (to, PDX la), PTX la), s1)"
      "grown D s s1" "present (frame s1 to (PDX la))" "tabs s1 D = insert (to, PDX la) (tabs s D)"
      "tab s1 ` tabs s1 D \<subseteq> tab s ` tabs s D \<union> F" "paging_ok M D s1 (F - tab s1 ` tabs s1 D)"
    using get_pte_create [OF ok D(1) v] by blast
  let ?T = "tab s1 ` tabs s1 D"
  have st: "\<forall>x \<in> tabs s D. tab s1 x = tab s x" using s1(2) by (simp add: grown_def)
  then have "tab s1 ` tabs s D = tab s ` tabs s D" by (intro image_cong) auto
  then have T: "?T = insert (tab s1 (to, PDX la)) (tab s ` tabs s D)" by (simp add: s1(4))
  have "F \<inter> tab s ` tabs s D = {}" using paging_okD(5) [OF ok] by blast
  then have F1: "F - ?T = F - {tab s1 (to, PDX la)}" unfolding T by blast
  have fin: "finite F" by (rule finite_free [OF ok])
  have c1: "card F \<le> card (F - ?T) + 1" unfolding F1 by (auto simp: card_Diff_singleton_if)
  then have "0 < card (F - ?T)" using c by linarith
  then have "F - ?T \<noteq> {}" by (auto simp: card_gt_0_iff)
  then obtain q m where a: "alloc_pages s1 1 = kret (Some q, s1\<lparr>mgr := m\<rparr>)" "q \<in> F - ?T"
      "pmm_ok (unat (npage s1)) M m (F - ?T - {q})"
      "\<forall>y. page_ref_of (s1\<lparr>mgr := m\<rparr>) y = page_ref_of s1 y"
    using alloc_page_ok [OF paging_okD(1) [OF s1(6)]] by blast
  let ?s2 = "s1\<lparr>mgr := m\<rparr>"
  have v1: "vpte s1 d' w = vpte s d' w" if "d' \<in> D" "w < user_pages" for d' w
    using s1(2) that by (simp add: grown_def)
  have eq2: "vpte ?s2 = vpte s1" "tabs ?s2 = tabs s1" "tab ?s2 = tab s1"
    by (auto simp: fun_eq_iff tabs_def tab_def intro: vpte_cong [THEN fun_cong, THEN fun_cong])
  have x: "(from, ?v) \<in> slots D" using D(2) v by (simp add: slots_def)
  note mf = mapped_frame [OF s1(6) x, unfolded v1 [OF D(2) v], OF e]
  have qn: "q \<in> M - (F - ?T - {q}) - D - tab ?s2 ` tabs ?s2 D" "q < unat (npage s1)"
    using a(2) paging_okD(4,9,10) [OF s1(6)] by (auto simp: eq2)
  have pr: "present (frame ?s2 to (PDX la))" "\<not> present (vpte ?s2 to ?v)"
    using s1(3) n v1 [OF D(1) v] by (simp_all add: eq2)
  obtain s' where s': "page_insert (?s2\<lparr>frame := (frame ?s2)(q := frame ?s2 ?src)\<rparr>) to q la
        (?e AND PTE_USER) = kret (0, s')"
      "paging_ok M D s' (F - ?T - {q})" "same_env ?s2 s'" "tabs s' D = tabs s1 D"
      "\<forall>x \<in> tabs s1 D. tab s' x = tab s1 x" "frame s' q = frame ?s2 ?src"
      "\<forall>d' \<in> D. \<forall>w < user_pages. vpte s' d' w =
        (if d' = to \<and> w = ?v then page2pa q OR PTE_P OR (?e AND PTE_USER) else vpte s1 d' w)"
      "\<forall>f. f \<notin> D \<union> ?T \<and> f \<noteq> q \<longrightarrow> frame s' f = frame ?s2 f"
    using map_fresh_ok [OF paging_ok_alloc [OF s1(6) a(3,4)] D(1) v pr qn(1) and_user_less [of ?e],
        where c = "frame ?s2 ?src"] unfolding eq2 by (elim exE conjE) (rule that; assumption)
  have v': "vpte s' d' w = (if d' = to \<and> w = ?v then page2pa q OR PTE_P OR (?e AND PTE_USER) else vpte s d' w)"
    if "d' \<in> D" "w < user_pages" for d' w using s'(7) v1 that by simp
  have kva: "page2kva ?s2 ?src = kret ?src" "page2kva ?s2 q = kret q"
    using mf(2) paging_okD(2,9) [OF s1(6)] qn(2) by (auto intro!: page2kva_ok)
  have rd: "pte_read s1 (tab s (from, PDX la), PTX la) = ?e"
  proof -
    have y: "(from, PDX la) \<in> tabs s D" using tabsI [of "from" D ?v s] D(2) v tb by (simp add: PDX_vpn)
    then have "(from, PDX la) \<in> tabs s1 D" by (simp add: s1(4))
    then have "present (frame s1 from (PDX la))" by (simp add: tabs_def)
    from get_pte_present(2) [OF s1(6) D(2) v this] v1 [OF D(2) v] y s1(2)
    show ?thesis by (simp add: grown_def)
  qed
  have "copy_page s to la (tab s (from, PDX la), PTX la) = kret (0, s')"
    using s1(1) a(1) mf(1) kva s'(1) by (simp add: copy_page_def Let_def rd)
  moreover have "card F \<le> card (F - ?T - {q}) + 2" using c1 fin a(2) by (simp add: card_Diff_singleton_if)
  moreover have "copied D F s to from {?v} s' (F - ?T - {q})"
  proof -
    have g: "same_env s s1" "\<forall>f. f \<notin> D \<union> ?T \<longrightarrow> frame s1 f = frame s f" using s1(2) by (auto simp: grown_def)
    have "same_env s s'" using g(1) s'(3) by (simp add: same_env_def)
    moreover have "\<forall>x \<in> tabs s D. x \<in> tabs s' D \<and> tab s' x = tab s x" using s'(4,5) st s1(4) by auto
    moreover have "tab s' ` tabs s' D = ?T" unfolding s'(4) using s'(5) by (intro image_cong) auto
    then have "tab s' ` tabs s' D \<subseteq> tab s ` tabs s D \<union> F" using s1(5) by simp
    moreover have "frame s' f = frame s f" if "f \<notin> D \<union> F \<union> tab s ` tabs s D" for f
    proof -
      have "f \<notin> ?T" "f \<noteq> q" using that s1(5) a(2) by blast+
      then show ?thesis using s'(8) g(2) that by simp
    qed
    moreover have "q \<notin> tab s' ` tabs s' D" using qn(1) s'(4,5) unfolding eq2 by auto
    moreover have "frame s' q = frame s ?src" using s'(6) g(2) mf(4,5) by auto
    moreover have "\<exists>p \<in> F - (F - ?T - {q}). vpte s' to w = page2pa p OR PTE_P OR (vpte s from w AND PTE_USER) \<and>
        p \<notin> tab s' ` tabs s' D \<and> frame s' p = frame s (unat (PPN (vpte s from w)))" if "w = ?v" for w
      using calculation(5,6) v' [OF D(1) v] a(2) that by (intro bexI [of _ q]) auto
    moreover have "\<forall>d \<in> D. \<forall>w < user_pages. \<not> (d = to \<and> w \<in> {?v} \<and> present (vpte s from w)) \<longrightarrow>
        vpte s' d w = vpte s d w" using v' e by auto
    ultimately show ?thesis unfolding copied_def by auto
  qed
  ultimately show ?thesis using s'(2) by blast
qed

lemma copied_refl:
  assumes "\<forall>v \<in> P. \<not> present (vpte s from v)"
  shows "copied D F s to from P s F"
  using assms by (auto simp: copied_def)

lemma copied_new:
  assumes "copied D F s to from P s' F'" and "v \<in> P" and "present (vpte s from v)"
  obtains q where "q \<in> F - F'" "vpte s' to v = page2pa q OR PTE_P OR (vpte s from v AND PTE_USER)"
    "q \<notin> tab s' ` tabs s' D" "frame s' q = frame s (unat (PPN (vpte s from v)))"
proof -
  from assms have "\<exists>q \<in> F - F'. vpte s' to v = page2pa q OR PTE_P OR (vpte s from v AND PTE_USER) \<and>
      q \<notin> tab s' ` tabs s' D \<and> frame s' q = frame s (unat (PPN (vpte s from v)))"
    by (simp add: copied_def)
  with that show thesis by blast
qed

lemma copied_trans:
  assumes ok: "paging_ok M D s F" and D: "to \<in> D" "from \<in> D" "to \<noteq> from"
    and one: "copied D F s to from P s1 F1" and two: "copied D F1 s1 to from Q s2 F2"
    and le: "P \<inter> Q = {}" "P \<union> Q \<subseteq> {..<user_pages}"
  shows "copied D F s to from (P \<union> Q) s2 F2"
proof -
  have vf: "vpte s1 from v = vpte s from v" if "v < user_pages" for v
    using one D that by (auto simp: copied_def)
  have fr: "frame s2 f = frame s1 f" if "f \<notin> D \<union> F1 \<union> tab s1 ` tabs s1 D" for f
    using two that by (simp add: copied_def)
  have T1: "tab s1 ` tabs s1 D \<subseteq> tab s ` tabs s D \<union> F" and T2: "tab s2 ` tabs s2 D \<subseteq> tab s1 ` tabs s1 D \<union> F1"
    and F1: "F1 \<subseteq> F" and F2: "F2 \<subseteq> F1" using one two by (auto simp: copied_def)
  have new: "\<exists>q \<in> F - F2. vpte s2 to v = page2pa q OR PTE_P OR (vpte s from v AND PTE_USER) \<and>
      q \<notin> tab s2 ` tabs s2 D \<and> frame s2 q = frame s (unat (PPN (vpte s from v)))"
    if v: "v \<in> P \<union> Q" "present (vpte s from v)" for v
  proof (cases "v \<in> P")
    case True
    then obtain q where q: "q \<in> F - F1" "vpte s1 to v = page2pa q OR PTE_P OR (vpte s from v AND PTE_USER)"
        "q \<notin> tab s1 ` tabs s1 D" "frame s1 q = frame s (unat (PPN (vpte s from v)))"
      using copied_new [OF one True v(2)] by blast
    have "q \<notin> D" using q(1) paging_okD(4) [OF ok] by blast
    then have "frame s2 q = frame s1 q" using q by (intro fr) auto
    moreover have "vpte s2 to v = vpte s1 to v" 
    proof -
      have "v < user_pages" "v \<notin> Q" using True le by auto
      then show ?thesis using two D(1) by (simp add: copied_def)
    qed
    ultimately show ?thesis using q F2 T2 by (intro bexI [of _ q]) auto
  next
    case False
    let ?src = "unat (PPN (vpte s from v))"
    have "v < user_pages" "v \<in> Q" using v le False by auto
    then obtain q where q: "q \<in> F1 - F2" "vpte s2 to v = page2pa q OR PTE_P OR (vpte s from v AND PTE_USER)"
        "q \<notin> tab s2 ` tabs s2 D" "frame s2 q = frame s1 ?src"
      using copied_new [OF two \<open>v \<in> Q\<close>] v(2) unfolding vf [OF \<open>v < user_pages\<close>] by blast
    have "(from, v) \<in> slots D" using D \<open>v < user_pages\<close> by (simp add: slots_def)
    from mapped_frame(2-5) [OF ok this v(2)] have "frame s1 ?src = frame s ?src"
      using one by (simp add: copied_def)
    then show ?thesis using q F1 by auto
  qed
  have fr2: "frame s2 f = frame s f" if "f \<notin> D \<union> F \<union> tab s ` tabs s D" for f
    using fr [of f] one that T1 F1 by (auto simp: copied_def)
  have vp: "vpte s2 d v = vpte s d v"
    if "d \<in> D" "v < user_pages" "\<not> (d = to \<and> v \<in> P \<union> Q \<and> present (vpte s from v))" for d v
  proof -
    have "vpte s2 d v = vpte s1 d v" using two that vf [of v] le by (auto simp: copied_def)
    moreover have "vpte s1 d v = vpte s d v" using one that le by (auto simp: copied_def)
    ultimately show ?thesis by simp
  qed
  show ?thesis unfolding copied_def
  proof (intro conjI)
    show "same_env s s2" using one two by (auto simp: copied_def intro: same_env_trans)
    show "\<forall>x \<in> tabs s D. x \<in> tabs s2 D \<and> tab s2 x = tab s x" using one two by (simp add: copied_def)
    show "F2 \<subseteq> F" using F1 F2 by (rule order_trans [rotated])
    show "tab s2 ` tabs s2 D \<subseteq> tab s ` tabs s D \<union> F"
      by (rule order_trans [OF T2]) (use T1 F1 in auto)
  qed (use new fr2 vp in blast)+
qed

text \<open>One round of the loop of \<^verbatim>\<open>copy_range\<close>.\<close>

lemma copy_step:
  assumes ok: "paging_ok M D s F" and D: "to \<in> D" "from \<in> D" and a: "aligned start"
    and v: "vpn start < b" "b \<le> user_pages" and n: "\<not> present (vpte s to (vpn start))" and c: "2 \<le> card F"
  shows "\<exists>start' s' F'. copy_loop s to from start end = (if start' \<noteq> 0 \<and> start' < end
        then copy_loop s' to from start' end else kret (0, s')) \<and>
      aligned start' \<and> start' \<noteq> 0 \<and> vpn start < vpn start' \<and>
      copied D F s to from {vpn start..<min b (vpn start')} s' F' \<and>
      paging_ok M D s' F' \<and> card F \<le> card F' + 2"
proof (cases "present (frame s from (PDX start))")
  case False
  let ?b = "ROUNDDOWN (start + PTSIZE) PTSIZE"
  have u: "vpn start < user_pages" using v by simp
  have "copy_loop s to from start end = (if ?b \<noteq> 0 \<and> ?b < end then copy_loop s to from ?b end else kret (0, s))"
    by (subst copy_loop.simps) (simp add: get_pte_absent [OF False])
  moreover have "vpn start < vpn ?b" unfolding vpn_step_table(1) [OF a u] by (rule next_table)
  moreover have "\<not> present (vpte s from w)" if "vpn start \<le> w" "w < vpn ?b" for w
  proof -
    have "w div 1024 = vpn start div 1024"
      using that unfolding vpn_step_table(1) [OF a u] by (intro div_nat_eqI) auto
    then show ?thesis using False by (simp add: vpte_def PDX_vpn)
  qed
  then have "copied D F s to from {vpn start..<min b (vpn ?b)} s F" by (intro copied_refl) auto
  ultimately show ?thesis using vpn_step_table(2,3) [OF a u] ok
    by (intro exI [of _ ?b] exI [of _ s] exI [of _ F]) auto
next
  case True
  let ?p = "(tab s (from, PDX start), PTX start)"
  have u: "vpn start < user_pages" using v by simp
  note g = get_pte_present [OF ok D(2) u True]
  obtain s' F' where s': "(if present (pte_read s ?p) then copy_page s to start ?p else kret (0, s)) = kret (0, s')"
      "copied D F s to from {vpn start} s' F'" "paging_ok M D s' F'" "card F \<le> card F' + 2"
  proof (cases "present (vpte s from (vpn start))")
    case True
    then show thesis using that g(2) copy_page_ok [OF ok D u \<open>present (frame s from (PDX start))\<close> True n c]
      by auto
  next
    case False
    then have "copied D F s to from {vpn start} s F"
      by (intro copied_refl) auto
    then show thesis using that [of s F] g(2) ok False by auto
  qed
  have "copy_loop s to from start end = (if start + PGSIZE \<noteq> 0 \<and> start + PGSIZE < end
      then copy_loop s' to from (start + PGSIZE) end else kret (0, s'))"
    using s'(1) by (subst copy_loop.simps) (simp add: g(1))
  moreover have "{vpn start..<min b (vpn (start + PGSIZE))} = {vpn start}" using v vpn_step(1) [OF a u] by auto
  ultimately show ?thesis using vpn_step [OF a u] s'
    by (intro exI [of _ "start + PGSIZE"] exI [of _ s'] exI [of _ F']) auto
qed

lemma copy_loop_ok:
  assumes "paging_ok M D s F" and "to \<in> D" "from \<in> D" "to \<noteq> from" and "aligned start" and "aligned end"
    and "vpn start < vpn end" and "vpn end \<le> user_pages"
    and "\<forall>v. vpn start \<le> v \<and> v < vpn end \<longrightarrow> \<not> present (vpte s to v)"
    and "2 * (vpn end - vpn start) \<le> card F"
  shows "\<exists>s' F'. copy_loop s to from start end = kret (0, s') \<and>
    copied D F s to from {vpn start..<vpn end} s' F' \<and> paging_ok M D s' F' \<and>
    card F \<le> card F' + 2 * (vpn end - vpn start)"
  using assms
proof (induction "vpn end - vpn start" arbitrary: s F start rule: less_induct)
  case less
  have n: "\<not> present (vpte s to (vpn start))" and c: "2 \<le> card F" using less.prems by auto
  obtain start' s1 F1 where st: "copy_loop s to from start end = (if start' \<noteq> 0 \<and> start' < end
        then copy_loop s1 to from start' end else kret (0, s1))"
      "aligned start'" "start' \<noteq> 0" "vpn start < vpn start'"
      "copied D F s to from {vpn start..<min (vpn end) (vpn start')} s1 F1"
      "paging_ok M D s1 F1" "card F \<le> card F1 + 2"
    using copy_step [OF less.prems(1-3,5,7,8) n c, of "end"] by blast
  show ?case
  proof (cases "start' < end")
    case False
    then have "\<not> vpn start' < vpn end" using aligned_less st(2) less.prems(6) by blast
    moreover have "card F \<le> card F1 + 2 * (vpn end - vpn start)" using st(7) less.prems(7) by linarith
    ultimately show ?thesis using st False by (auto simp: min_absorb1)
  next
    case True
    then have lt: "vpn start' < vpn end" using aligned_less st(2) less.prems(6) by blast
    then have dec: "vpn end - vpn start' < vpn end - vpn start" using st(4) by simp
    have one: "copied D F s to from {vpn start..<vpn start'} s1 F1" using st(5) lt by (simp add: min_absorb2)
    have n1: "\<forall>v. vpn start' \<le> v \<and> v < vpn end \<longrightarrow> \<not> present (vpte s1 to v)"
    proof (intro allI impI)
      fix v
      assume v: "vpn start' \<le> v \<and> v < vpn end"
      then have "vpte s1 to v = vpte s to v" using one less.prems(2,8) by (auto simp: copied_def)
      then show "\<not> present (vpte s1 to v)" using v st(4) less.prems(9) by simp
    qed
    have "2 * (vpn end - vpn start') \<le> card F1" using st(4,7) less.prems(10) lt by linarith
    then obtain s' F' where s': "copy_loop s1 to from start' end = kret (0, s')"
        "copied D F1 s1 to from {vpn start'..<vpn end} s' F'" "paging_ok M D s' F'"
        "card F1 \<le> card F' + 2 * (vpn end - vpn start')"
      using less.hyps [OF dec st(6) less.prems(2-4) st(2) less.prems(6) lt less.prems(8) n1] by blast
    have "{vpn start..<vpn start'} \<union> {vpn start'..<vpn end} = {vpn start..<vpn end}" using st(4) lt by auto
    moreover have "{vpn start..<vpn end} \<subseteq> {..<user_pages}" using less.prems(8) by auto
    ultimately have "copied D F s to from {vpn start..<vpn end} s' F'"
      using copied_trans [OF less.prems(1-4) one s'(2)] by auto
    moreover have "card F \<le> card F' + 2 * (vpn end - vpn start)" using st(4,7) s'(4) lt by linarith
    ultimately show ?thesis using st(1,3) True s'(1,3) by auto
  qed
qed

section \<open>Releasing page tables\<close>

definition exited :: "nat set \<Rightarrow> mem \<Rightarrow> nat \<Rightarrow> nat \<Rightarrow> nat \<Rightarrow> mem \<Rightarrow> bool" where
  "exited D s d a b s' \<longleftrightarrow> same_env s s' \<and>
     (\<forall>d' \<in> D. \<forall>i < 704. frame s' d' i =
        (if d' = d \<and> a \<le> i \<and> i < b \<and> present (frame s d' i) then 0 else frame s d' i)) \<and>
     (\<forall>f. f \<notin> D \<longrightarrow> frame s' f = frame s f)"

text \<open>The page tables with an index from \<open>a\<close> up to \<open>b\<close>; \<open>idle\<close> says that they map nothing.\<close>

definition tables :: "mem \<Rightarrow> nat set \<Rightarrow> nat \<Rightarrow> nat \<Rightarrow> nat \<Rightarrow> (nat \<times> nat) set" where
  "tables s D d a b = tabs s D \<inter> {d} \<times> {a..<b}"

definition idle :: "mem \<Rightarrow> nat \<Rightarrow> nat \<Rightarrow> nat \<Rightarrow> bool" where
  "idle s d a b \<longleftrightarrow> (\<forall>v < user_pages. a \<le> v div 1024 \<and> v div 1024 < b \<longrightarrow> \<not> present (vpte s d v))"

lemma exited_tabs:
  assumes "exited D s d a b s'"
  shows "tabs s' D = tabs s D - tables s D d a b" "x \<in> tabs s' D \<Longrightarrow> tab s' x = tab s x"
proof -
  have f: "frame s' d' i = (if d' = d \<and> a \<le> i \<and> i < b \<and> present (frame s d' i) then 0 else frame s d' i)"
    if "d' \<in> D" "i < 704" for d' i using assms that by (simp add: exited_def)
  show "tabs s' D = tabs s D - tables s D d a b"
    by (auto simp: tabs_def tables_def f split: if_splits)
  show "x \<in> tabs s' D \<Longrightarrow> tab s' x = tab s x"
    using f [of "fst x" "snd x"] by (auto simp: tabs_def tab_def split: if_splits)
qed

lemma exited_vpte:
  assumes ok: "paging_ok M D s F" and ex: "exited D s d a b s'" and d': "d' \<in> D" and v: "v < user_pages"
  shows "vpte s' d' v = (if d' = d \<and> a \<le> v div 1024 \<and> v div 1024 < b then 0 else vpte s d' v)"
proof -
  have f: "frame s' d' (v div 1024) = (if d' = d \<and> a \<le> v div 1024 \<and> v div 1024 < b \<and>
      present (frame s d' (v div 1024)) then 0 else frame s d' (v div 1024))"
    using ex d' slot_split [OF v] by (simp add: exited_def)
  show ?thesis
  proof (cases "present (frame s' d' (v div 1024))")
    case False
    then show ?thesis using f by (auto simp: vpte_def split: if_splits)
  next
    case True
    then have same: "frame s' d' (v div 1024) = frame s d' (v div 1024)"
      "\<not> (d' = d \<and> a \<le> v div 1024 \<and> v div 1024 < b)" using f by (auto split: if_splits)
    then have p: "present (frame s d' (v div 1024))" using True by simp
    have "tab s (d', v div 1024) \<notin> D" using tab_in(3) [OF ok tabsI [OF d' v p]] .
    then have "frame s' (tab s (d', v div 1024)) = frame s (tab s (d', v div 1024))"
      using ex by (simp add: exited_def)
    moreover have "tab s' (d', v div 1024) = tab s (d', v div 1024)" by (simp add: tab_def same(1))
    ultimately show ?thesis using True p same(2) unfolding vpte_def by auto
  qed
qed

lemma exited_ok:
  assumes ok: "paging_ok M D s F" and ex: "exited D s d a b s'" and id: "idle s d a b"
    and m: "pmm_ok (unat (npage s)) M (mgr s') (F \<union> tab s ` tables s D d a b)"
    and r: "\<forall>q. page_ref_of s' q = (if q \<in> tab s ` tables s D d a b then 0 else page_ref_of s q)"
  shows "paging_ok M D s' (F \<union> tab s ` tables s D d a b)"
proof -
  note tb = exited_tabs [OF ex]
  have inj: "inj_on (tab s) (tabs s D)" by (rule paging_okD(6) [OF ok])
  have pm: "pmap s' x = pmap s x" if "x \<in> slots D" for x
    using that exited_vpte [OF ok ex, of "fst x" "snd x"] id
    by (auto simp: slots_def pmap_def idle_def)
  have us: "users s' D q = users s D q" for q using pm by (auto simp: users_def)
  have mp: "mapped s' D = mapped s D" by (simp add: mapped_users us)
  have im: "tab s' ` tabs s' D = tab s ` (tabs s D - tables s D d a b)"
    using tb(2) unfolding tb(1) by (intro image_cong) auto
  also have "\<dots> = tab s ` tabs s D - tab s ` tables s D d a b"
    by (rule inj_on_image_set_diff [OF inj]) (auto simp: tables_def)
  finally have im': "tab s' ` tabs s' D = tab s ` tabs s D - tab s ` tables s D d a b" .
  have sub: "tab s ` tables s D d a b \<subseteq> tab s ` tabs s D" by (auto simp: tables_def)
  have "inj_on (tab s') (tabs s' D)" using inj tb by (auto simp: inj_on_def)
  moreover have "page_ref_of s' q = int (card (users s' D q)) + 0"
    if "q \<in> M - D - tab s' ` tabs s' D" for q
  proof (cases "q \<in> tab s ` tables s D d a b")
    case True
    then have "q \<notin> mapped s D" using paging_okD(7) [OF ok] sub by blast
    then show ?thesis using True r by (simp add: mapped_users us)
  next
    case False
    then show ?thesis using that r paging_okD(8) [OF ok, of q] by (auto simp: us im')
  qed
  moreover have "npage s' = npage s" using ex by (simp add: exited_def same_env_def)
  moreover have "D \<inter> (F \<union> tab s ` tables s D d a b) = {}"
    "tab s ` tabs s D - tab s ` tables s D d a b \<subseteq> M - (F \<union> tab s ` tables s D d a b) - D"
    "mapped s D \<subseteq> M - (F \<union> tab s ` tables s D d a b) - D - (tab s ` tabs s D - tab s ` tables s D d a b)"
    using paging_okD(4,5,7) [OF ok] sub by fast+
  ultimately show ?thesis using paging_okD(2,3) [OF ok] m unfolding paging_okx_def im' mp by simp
qed

lemma exited_trans:
  assumes "exited D s d a b s1" and "exited D s1 d b c s2" and "a \<le> b" and "b \<le> c"
  shows "exited D s d a c s2"
  using assms same_env_trans [of s s1 s2] by (auto simp: exited_def)

lemma PDX_table:
  assumes "unat a = i * 4194304" and "i < 704"
  shows "PDX a = i" "unat (a + PTSIZE) = (i + 1) * 4194304" "a + PTSIZE \<noteq> 0"
proof -
  show "PDX a = i" by (simp add: PDX_vpn vpn_def assms(1) div_mult2_eq [symmetric])
  have "unat a + 4194304 < 4294967296" using assms by simp
  then show u: "unat (a + PTSIZE) = (i + 1) * 4194304"
    using unat_add_noov [of a PTSIZE] assms(1) by simp
  then show "a + PTSIZE \<noteq> 0" by (metis mult_eq_0_iff unat_0 add_is_0 zero_neq_one zero_neq_numeral)
qed

lemma exit_step:
  assumes ok: "paging_ok M D s F" and d: "d \<in> D" and i: "unat start = i * 4194304" "i < 704"
    and id: "idle s d i (i + 1)"
  shows "\<exists>s'. exit_loop s d start end = (if start + PTSIZE < end
        then exit_loop s' d (start + PTSIZE) end else kret s') \<and>
    exited D s d i (i + 1) s' \<and> paging_ok M D s' (F \<union> tab s ` tables s D d i (i + 1))"
proof (cases "present (frame s d i)")
  case False
  then have "tables s D d i (i + 1) = {}" by (auto simp: tables_def tabs_def)
  moreover have "exited D s d i (i + 1) s" using False by (auto simp: exited_def less_Suc_eq_le)
  moreover have "exit_loop s d start end = (if start + PTSIZE < end
      then exit_loop s d (start + PTSIZE) end else kret s)"
    using False PDX_table [OF i] by (subst exit_loop.simps) (simp add: Let_def)
  ultimately show ?thesis using ok by auto
next
  case True
  have x: "(d, i) \<in> tabs s D" using True d i by (simp add: tabs_def)
  let ?t = "tab s (d, i)"
  have tb: "tables s D d i (i + 1) = {(d, i)}" using x by (auto simp: tables_def)
  have "pde2page s (frame s d i) = kret ?t"
    using tab_in(4) [OF ok x] by (simp add: pde2page_def pa2page_def tab_def word_le_nat_alt)
  moreover obtain m where m: "free_pages s ?t 1 = kret (s\<lparr>mgr := m\<rparr>)"
      "pmm_ok (unat (npage s)) M m (insert ?t F)"
      "\<forall>q. page_ref_of (s\<lparr>mgr := m\<rparr>) q = (if q = ?t then 0 else page_ref_of s q)"
    using free_page_ok [OF paging_okD(1) [OF ok], of ?t] tab_in [OF ok x] by auto
  define s' where "s' = pte_write (s\<lparr>mgr := m\<rparr>) (d, i) 0"
  ultimately have "exit_loop s d start end = (if start + PTSIZE < end
      then exit_loop s' d (start + PTSIZE) end else kret s')"
    using True PDX_table [OF i] m(1) by (subst exit_loop.simps) (simp add: Let_def s'_def)
  moreover have ex: "exited D s d i (i + 1) s'"
    using True d by (auto simp: exited_def s'_def pte_write_def same_env_def less_Suc_eq_le)
  moreover have "paging_ok M D s' (F \<union> tab s ` tables s D d i (i + 1))"
    by (rule exited_ok [OF ok ex id]) (use m tb in \<open>simp_all add: s'_def\<close>)
  ultimately show ?thesis by blast
qed

lemma exit_loop_ok:
  assumes "paging_ok M D s F" and "d \<in> D" and "unat start = i * 4194304"
    and "unat end = e * 4096" and "i * 1024 < e" and "e \<le> user_pages" and "idle s d i ((e + 1023) div 1024)"
  shows "\<exists>s'. exit_loop s d start end = kret s' \<and> exited D s d i ((e + 1023) div 1024) s' \<and>
    paging_ok M D s' (F \<union> tab s ` tables s D d i ((e + 1023) div 1024))"
  using assms
proof (induction "e - i * 1024" arbitrary: s F start i rule: less_induct)
  case less
  let ?b = "(e + 1023) div 1024"
  have i704: "i < 704" using less.prems(5,6) by (simp add: user_pages_def)
  have ib: "i + 1 \<le> ?b" using less.prems(5) by (simp add: Suc_le_eq less_eq_div_iff_mult_less_eq)
  have "idle s d i (i + 1)" using less.prems(7) ib by (auto simp: idle_def)
  then obtain s1 where s1: "exit_loop s d start end = (if start + PTSIZE < end
        then exit_loop s1 d (start + PTSIZE) end else kret s1)"
      "exited D s d i (i + 1) s1" "paging_ok M D s1 (F \<union> tab s ` tables s D d i (i + 1))"
    using exit_step [OF less.prems(1-3) i704] by blast
  note nx = PDX_table(2) [OF less.prems(3) i704]
  have lt: "start + PTSIZE < end \<longleftrightarrow> (i + 1) * 1024 < e"
    unfolding word_less_nat_alt nx less.prems(4) by linarith
  show ?case
  proof (cases "(i + 1) * 1024 < e")
    case False
    then have "?b = i + 1" using less.prems(5) by (intro div_nat_eqI) auto
    then show ?thesis using s1 False lt by simp
  next
    case True
    have id1: "idle s1 d (i + 1) ?b"
      using less.prems(7) exited_vpte [OF less.prems(1) s1(2) less.prems(2)] by (auto simp: idle_def)
    have "e - (i + 1) * 1024 < e - i * 1024" using less.prems(5) by simp
    from less.hyps [OF this s1(3) less.prems(2) nx less.prems(4) True less.prems(6) id1]
    obtain s' where s': "exit_loop s1 d (start + PTSIZE) end = kret s'" "exited D s1 d (i + 1) ?b s'"
        "paging_ok M D s' (F \<union> tab s ` tables s D d i (i + 1) \<union> tab s1 ` tables s1 D d (i + 1) ?b)"
      by blast
    have "tables s1 D d (i + 1) ?b = tables s D d (i + 1) ?b"
      unfolding tables_def exited_tabs(1) [OF s1(2), unfolded tables_def] by auto
    moreover have "tab s1 x = tab s x" if "x \<in> tables s1 D d (i + 1) ?b" for x
      using that exited_tabs(2) [OF s1(2)] by (auto simp: tables_def)
    ultimately have "tab s1 ` tables s1 D d (i + 1) ?b = tab s ` tables s D d (i + 1) ?b"
      by (intro image_cong) auto
    moreover have "tables s D d i ?b = tables s D d i (i + 1) \<union> tables s D d (i + 1) ?b"
      using ib by (auto simp: tables_def)
    ultimately have "F \<union> tab s ` tables s D d i (i + 1) \<union> tab s1 ` tables s1 D d (i + 1) ?b =
        F \<union> tab s ` tables s D d i ?b" by auto
    then show ?thesis using s1(1) s' True lt exited_trans [OF s1(2) s'(2)] ib by auto
  qed
qed

section \<open>Properties\<close>

lemma user_range:
  assumes "start mod PGSIZE = 0" "end mod PGSIZE = 0" "USER_ACCESS start end"
  shows "aligned start" "aligned end" "vpn start < vpn end" "vpn end \<le> user_pages"
proof -
  show a: "aligned start" "aligned end" using assms by (simp_all add: aligned_def)
  show "vpn start < vpn end" using assms(3) aligned_less [OF a] by (simp add: USER_ACCESS_def)
  have "unat end \<le> 2952790016" using assms(3) by (simp add: USER_ACCESS_def word_le_nat_alt)
  then have "unat end div 4096 \<le> 2952790016 div 4096" by (rule div_le_mono)
  then show "vpn end \<le> user_pages" by (simp add: vpn_def user_pages_def)
qed

lemma exit_range_ok:
  assumes "paging_ok M D s F" and "d \<in> D"
    and "start mod PGSIZE = 0" "end mod PGSIZE = 0" "USER_ACCESS start end"
    and "idle s d (vpn start div 1024) ((vpn end + 1023) div 1024)"
  shows "\<exists>s'. exit_range s d start end = kret s' \<and>
    exited D s d (vpn start div 1024) ((vpn end + 1023) div 1024) s' \<and>
    paging_ok M D s' (F \<union> tab s ` tables s D d (vpn start div 1024) ((vpn end + 1023) div 1024))"
proof -
  note r = user_range [OF assms(3-5)]
  let ?i = "vpn start div 1024" and ?b = "(vpn end + 1023) div 1024"
  have "unat (ROUNDDOWN start PTSIZE) = unat start div 4194304 * 4194304"
    by (simp only: unat_ROUNDDOWN unat_numeral minus_mod_eq_div_mult) simp
  then have i: "unat (ROUNDDOWN start PTSIZE) = ?i * 4194304" by (simp add: vpn_def div_mult2_eq [symmetric])
  have "?i * 1024 \<le> vpn start" by simp
  then have lt: "?i * 1024 < vpn end" using r(3) by linarith
  have e: "unat end = vpn end * 4096" using r(2) by (simp add: aligned_vpn)
  have "exit_range s d start end = exit_loop s d (ROUNDDOWN start PTSIZE) end"
    using assms(3-5) by (simp add: exit_range_def)
  then show ?thesis using exit_loop_ok [OF assms(1,2) i e lt r(4) assms(6)] by simp
qed

text \<open>States for the witnesses: two empty directories in frames 10 and 11, and one with a page mapped
  at address 0x200000 of the first.\<close>

definition two_dirs :: "pmm \<Rightarrow> mem" where
  "two_dirs m = \<lparr>mgr = m, npage = 100, frame = (\<lambda>_ _. 0), cr3 = 10, tlb = [],
     pra_list = \<lparr>lnext = (\<lambda>_. Head), lprev = (\<lambda>_. Head)\<rparr>, pra_vaddr = (\<lambda>_. 0),
     swap_init_ok = False, check_mm_struct = None, max_swap_offset = 1024,
     swap_dev = (\<lambda>_ _. 0), ide_err = (\<lambda>_. 0)\<rparr>"

lemma two_dirs_vpte [simp]: "vpte (two_dirs m) d v = 0"
  by (simp add: vpte_def two_dirs_def)

lemma init_pages_ref:
  "init_pages k p pg = kret pg' \<Longrightarrow> \<forall>i. page_ref (pg i) = 0 \<Longrightarrow> page_ref (pg' i) = 0"
  by (induction k arbitrary: p pg) (auto simp: Let_def set_page_ref_def)

lemma two_dirs_ok: "\<exists>m. paging_ok (block (2, 6)) {10, 11} (two_dirs m) (block (2, 6))"
proof -
  obtain m where m: "default_init_memmap (default_init raw_pmm) 2 6 = kret m"
      "pmm_ok 100 (block (2, 6)) m (block (2, 6))" using booted by blast
  have "page_ref (pages m i) = 0" for i
    using m(1) init_pages_ref [of 6 2 "pages raw_pmm"]
    by (auto simp: default_init_memmap_def kbind_eq_kret Let_def raw_pmm_def)
  moreover have "tabs (two_dirs m) {10, 11} = {}" by (auto simp: tabs_def two_dirs_def)
  moreover have "users (two_dirs m) {10, 11} q = {}" for q
    by (auto simp: users_def pmap_def vpte_def two_dirs_def)
  ultimately have "paging_ok (block (2, 6)) {10, 11} (two_dirs m) (block (2, 6))"
    using m(2) by (auto simp: paging_okx_def mapped_users page_ref_of_def two_dirs_def block_def)
  then show ?thesis by blast
qed

lemma one_page_ok:
  "\<exists>s F. paging_ok (block (2, 6)) {10, 11} s F \<and> 4 \<le> card F \<and> \<not> swap_init_ok s \<and>
     present (vpte s 10 0x200) \<and> (\<forall>v < user_pages. vpte s 11 v = 0 \<and>
       (v \<noteq> 0x200 \<longrightarrow> vpte s 10 v = 0)) \<and> tabs s {10, 11} = {(10, 0)}"
proof -
  obtain m where ok: "paging_ok (block (2, 6)) {10, 11} (two_dirs m) (block (2, 6))"
    using two_dirs_ok by blast
  have "block (2, 6) \<noteq> {}" by (simp add: block_def)
  then obtain p m1 where p: "p \<in> block (2, 6)"
      "pmm_ok 100 (block (2, 6)) m1 (block (2, 6) - {p})"
      "\<forall>q. page_ref_of (two_dirs m\<lparr>mgr := m1\<rparr>) q = page_ref_of (two_dirs m) q"
    using alloc_page_ok [OF paging_okD(1) [OF ok]] by (auto simp: two_dirs_def)
  have "two_dirs m\<lparr>mgr := m1\<rparr> = two_dirs m1" by (simp add: two_dirs_def)
  then have ok1: "paging_ok (block (2, 6)) {10, 11} (two_dirs m1) (block (2, 6) - {p})"
    using paging_ok_alloc [OF ok _ p(3)] p(2) by (simp add: two_dirs_def)
  have v: "vpn 0x200000 = 0x200" by (simp add: vpn_def)
  have t: "tabs (two_dirs m1) {10, 11} = {}" by (auto simp: tabs_def two_dirs_def)
  have "p \<notin> {10, 11}" using p(1) by (auto simp: block_def)
  then have "p \<in> block (2, 6) - (block (2, 6) - {p}) - {10, 11} - tab (two_dirs m1) ` tabs (two_dirs m1) {10, 11}"
    using p(1) by (simp add: t)
  moreover have c: "card (block (2, 6)) = 6" by (simp add: block_def)
  then have c5: "card (block (2, 6) - {p}) = 5" using p(1) by simp
  then have "block (2, 6) - {p} \<noteq> {}" by force
  ultimately obtain s' where s': "inserted {10, 11} (two_dirs m1) 10 0x200000 (page2pa p OR PTE_P OR 7) s'"
      "paging_ok (block (2, 6)) {10, 11} s' ((block (2, 6) - {p} - tab s' ` tabs s' {10, 11}) \<union>
        (mapped (two_dirs m1) {10, 11} - mapped s' {10, 11}))"
    using page_insert_ok [OF ok1, of 10 "0x200000" p 7] v by (auto simp: user_pages_def)
  have mp: "mapped (two_dirs m1) {10, 11} = {}" by (auto simp: mapped_def pmap_def vpte_def two_dirs_def)
  have "PDX 0x200000 = 0" by (simp add: PDX_vpn v)
  then have ts: "tabs s' {10, 11} = {(10, 0)}" using s'(1) t by (simp add: inserted_def)
  then have "4 \<le> card (block (2, 6) - {p} - tab s' ` tabs s' {10, 11})"
    using c5 by (auto simp: card_Diff_singleton_if)
  moreover have "present (vpte s' 10 0x200)" "\<forall>v < user_pages. vpte s' 11 v = 0 \<and> (v \<noteq> 0x200 \<longrightarrow> vpte s' 10 v = 0)"
    using s'(1) v by (simp_all add: inserted_def user_pages_def present_or)
  moreover have "\<not> swap_init_ok s'" using s'(1) by (simp add: inserted_def same_env_def two_dirs_def)
  ultimately show ?thesis using s'(2) mp ts
    by (intro exI [of _ s'] exI [of _ "block (2, 6) - {p} - tab s' ` tabs s' {10, 11}"]) simp
qed


lemma entry_user:
  assumes "present e"
  shows "(page2pa q OR PTE_P OR (e AND PTE_USER)) AND PTE_USER = e AND PTE_USER"
proof (rule bit_eqI)
  fix n
  have m: "(PTE_USER :: u32) = mask 3" by (simp add: mask_eq_exp_minus_1)
  have "bit (PTE_USER :: u32) n \<longleftrightarrow> n < 3" unfolding m by (auto simp: bit_mask_iff)
  moreover have "\<not> bit (page2pa q) n" if "n < 12" using that by (simp add: page2pa_def bit_push_bit_iff)
  moreover have "bit e 0" using assms by (simp add: present_bit)
  ultimately show "bit ((page2pa q OR PTE_P OR (e AND PTE_USER)) AND PTE_USER) n = bit (e AND PTE_USER) n"
    by (auto simp: bit_simps)
qed


text \<open>C3. \<^verbatim>\<open>page_insert\<close> maps a page and nothing else.  When the page table exists or a page is free
  it returns 0; the address then translates to
  the page with the permissions asked for, as \<^verbatim>\<open>get_page\<close> confirms; every other translation of every
  address space is as before; the frames that become free are exactly those that lost their last
  mapping, and the only frame taken is the page table, if one was missing.  When a table is missing and
  no page is free, the outcome depends on swapping: as long as it is not initialised, \<^verbatim>\<open>page_insert\<close> returns
  \<^verbatim>\<open>-E_NO_MEM\<close> and changes nothing; in the running kernel, where swapping is on and \<^verbatim>\<open>check_mm_struct\<close> is
  NULL, it dereferences that null pointer.\<close>

theorem page_insert_correct:
  assumes "paging_ok M D s F" and "d \<in> D" and "vpn la < user_pages"
    and "p \<in> M - F - D - tab s ` tabs s D" and "perm < 0x1000"
    and "swap_init_ok s \<and> F = {} \<longrightarrow> check_mm_struct s = None"
  shows "if present (frame s d (PDX la)) \<or> F \<noteq> {}
    then \<exists>s' q. page_insert s d p la perm = kret (0, s') \<and> get_page s' d la = kret (Some p, Some q) \<and>
      vpte s' d (vpn la) = page2pa p OR PTE_P OR perm \<and>
      (\<forall>d' \<in> D. \<forall>v < user_pages. (d', v) \<noteq> (d, vpn la) \<longrightarrow> vpte s' d' v = vpte s d' v) \<and>
      tabs s' D = insert (d, PDX la) (tabs s D) \<and>
      paging_ok M D s' ((F - tab s' ` tabs s' D) \<union> (mapped s D - mapped s' D))
    else page_insert s d p la perm = (if swap_init_ok s then null_deref else kret (- E_NO_MEM, s))"
proof (cases "present (frame s d (PDX la)) \<or> F \<noteq> {}")
  case True
  obtain s' where s': "page_insert s d p la perm = kret (0, s')"
      "inserted D s d la (page2pa p OR PTE_P OR perm) s'"
      "paging_ok M D s' ((F - tab s' ` tabs s' D) \<union> (mapped s D - mapped s' D))"
    using page_insert_ok [OF assms(1-3) True assms(4,5)] by blast
  have "p < unat (npage s)" using assms(4) paging_okD(9) [OF assms(1)] by auto
  then have "p < 2 ^ 20" using paging_okD(2) [OF assms(1)] by simp
  note e = entry_simps [OF this assms(5)]
  have v: "vpte s' d (vpn la) = page2pa p OR PTE_P OR perm" using s'(2) assms(2,3) by (simp add: inserted_def)
  have "(d, PDX la) \<in> tabs s' D" using s'(2) by (simp add: inserted_def)
  then have "present (frame s' d (PDX la))" by (simp add: tabs_def)
  note g = get_pte_present [OF s'(3) assms(2,3) this]
  have x: "(d, vpn la) \<in> slots D" using assms(2,3) by (simp add: slots_def)
  have "get_page s' d la = kret (Some p, Some (tab s' (d, PDX la), PTX la))"
    using mapped_frame(1) [OF s'(3) x] e by (simp add: get_page_def g v)
  then show ?thesis using True s' v by (auto simp: inserted_def)
next
  case False
  then have e: "pmm_ok (unat (npage s)) M (mgr s) {}" using paging_okD(1) [OF assms(1)] by simp
  have "alloc_pages s 1 = (if swap_init_ok s then null_deref else kret (None, s))"
    using alloc_exhausted [OF e] assms(6) False by blast
  then show ?thesis using False by (simp add: page_insert_def get_pte_def null_deref_def)
qed

theorem page_insert_correct_witness:
  "\<exists>s p s' q. page_insert s 11 p 0x300000 7 = kret (0, s') \<and>
     get_page s' 11 0x300000 = kret (Some p, Some q) \<and> present (vpte s' 10 0x200)"
proof -
  obtain s F where s: "paging_ok (block (2, 6)) {10, 11} s F" "4 \<le> card F" "\<not> swap_init_ok s"
      "present (vpte s 10 0x200)" using one_page_ok by blast
  then have "F \<noteq> {}" by auto
  let ?p = "unat (PPN (vpte s 10 0x200))"
  have p: "?p \<in> block (2, 6) - F - {10, 11} - tab s ` tabs s {10, 11}"
    using mapped_frame [OF s(1) _ s(4)] by (simp add: slots_def user_pages_def)
  have v: "vpn 0x300000 = 0x300" by (simp add: vpn_def)
  obtain s' q where s': "page_insert s 11 ?p 0x300000 7 = kret (0, s')"
      "get_page s' 11 0x300000 = kret (Some ?p, Some q)"
      "\<forall>d' \<in> {10, 11}. \<forall>w < user_pages. (d', w) \<noteq> (11, 0x300) \<longrightarrow> vpte s' d' w = vpte s d' w"
    using page_insert_correct [OF s(1) _ _ p, of 11 "0x300000" 7, unfolded v] \<open>F \<noteq> {}\<close>
    by (auto simp: user_pages_def)
  have "vpte s' 10 0x200 = vpte s 10 0x200" using s'(3) by (simp add: user_pages_def)
  then have "present (vpte s' 10 0x200)" using s(4) by simp
  then show ?thesis using s'(1,2) by blast
qed

text \<open>C29. \<^verbatim>\<open>unmap_range\<close> on a page-aligned user range returns, whatever page tables are missing; after
  it no page of the range is mapped, all other translations and all page tables are as before, and the
  frames that become free are exactly those that lost their last mapping.\<close>

theorem unmap_range_correct:
  assumes "paging_ok M D s F" and "d \<in> D"
    and "start mod PGSIZE = 0" "end mod PGSIZE = 0" "USER_ACCESS start end"
  shows "\<exists>s'. unmap_range s d start end = kret s' \<and>
    paging_ok M D s' (F \<union> (mapped s D - mapped s' D)) \<and> tabs s' D = tabs s D \<and>
    (\<forall>d' \<in> D. \<forall>v < user_pages. vpte s' d' v =
       (if d' = d \<and> vpn start \<le> v \<and> v < vpn end \<and> present (vpte s d' v) then 0 else vpte s d' v))"
proof -
  note r = user_range [OF assms(3-5)]
  obtain s' where s': "unmap_loop s d start end = kret s'" "unmapped D s d (vpn start) (vpn end) s'"
      "paging_ok M D s' (F \<union> (mapped s D - mapped s' D))"
    using unmap_loop_ok [OF assms(1,2) r] by blast
  moreover have "tabs s' D = tabs s D" using s'(2) frames_tabs(1) [of D s' s] by (simp add: unmapped_def)
  moreover have "unmap_range s d start end = kret s'" using assms(3-5) s'(1) by (simp add: unmap_range_def)
  ultimately show ?thesis using unmapped_vpte [OF s'(2)] by auto
qed

theorem unmap_range_correct_witness:
  "\<exists>s s'. present (vpte s 10 0x200) \<and> unmap_range s 10 0x200000 0x800000 = kret s' \<and> vpte s' 10 0x200 = 0"
proof -
  obtain s F where s: "paging_ok (block (2, 6)) {10, 11} s F" "present (vpte s 10 0x200)"
    using one_page_ok by blast
  have "vpn 0x200000 = 0x200" "vpn 0x800000 = 0x800" by (simp_all add: vpn_def)
  then obtain s' where "unmap_range s 10 0x200000 0x800000 = kret s'" "vpte s' 10 0x200 = 0"
    using unmap_range_correct [OF s(1), of 10 "0x200000" "0x800000"] s(2)
    by (auto simp: USER_ACCESS_def user_pages_def)
  then show ?thesis using s(2) by blast
qed

text \<open>C19. \<^verbatim>\<open>copy_range\<close> gives the child a private copy: with two free pages per page of the range and
  nothing mapped in the target range it returns 0; every present page of the parent is mapped in the
  child with the same user permissions to a frame that was free, whose contents equal the parent's
  page; the parent and every other translation are unchanged.\<close>

theorem copy_range_correct:
  assumes "paging_ok M D s F" and "to \<in> D" "from \<in> D" "to \<noteq> from"
    and "start mod PGSIZE = 0" "end mod PGSIZE = 0" "USER_ACCESS start end"
    and "\<forall>v. vpn start \<le> v \<and> v < vpn end \<longrightarrow> \<not> present (vpte s to v)"
    and "2 * (vpn end - vpn start) \<le> card F"
  shows "\<exists>s' F'. copy_range s to from start end share = kret (0, s') \<and> paging_ok M D s' F' \<and>
    (\<forall>v. vpn start \<le> v \<and> v < vpn end \<and> present (vpte s from v) \<longrightarrow>
       (\<exists>q \<in> F - F'. pmap s' (to, v) = Some q \<and> vpte s' to v AND PTE_USER = vpte s from v AND PTE_USER \<and>
          frame s' q = frame s (unat (PPN (vpte s from v))))) \<and>
    (\<forall>d \<in> D. \<forall>v < user_pages.
       \<not> (d = to \<and> vpn start \<le> v \<and> v < vpn end \<and> present (vpte s from v)) \<longrightarrow> vpte s' d v = vpte s d v)"
proof -
  note r = user_range [OF assms(5-7)]
  obtain s' F' where s': "copy_loop s to from start end = kret (0, s')"
      "copied D F s to from {vpn start..<vpn end} s' F'" "paging_ok M D s' F'"
    using copy_loop_ok [OF assms(1-4) r assms(8,9)] by blast
  have "\<exists>q \<in> F - F'. pmap s' (to, v) = Some q \<and> vpte s' to v AND PTE_USER = vpte s from v AND PTE_USER \<and>
      frame s' q = frame s (unat (PPN (vpte s from v)))"
    if v: "vpn start \<le> v" "v < vpn end" "present (vpte s from v)" for v
  proof -
    obtain q where q: "q \<in> F - F'" "vpte s' to v = page2pa q OR PTE_P OR (vpte s from v AND PTE_USER)"
        "frame s' q = frame s (unat (PPN (vpte s from v)))"
      by (rule copied_new [OF s'(2) _ v(3)]) (use v in auto)
    have "q < unat (npage s)" using q(1) paging_okD(9,10) [OF assms(1)] by auto
    then have q20: "q < 2 ^ 20" using paging_okD(2) [OF assms(1)] by simp
    note e = entry_simps [OF q20 and_user_less [of "vpte s from v"]]
    have "pmap s' (to, v) = Some q" using e by (simp add: pmap_def q(2))
    moreover have "vpte s' to v AND PTE_USER = vpte s from v AND PTE_USER"
      unfolding q(2) by (rule entry_user [OF v(3)])
    ultimately show ?thesis using q by blast
  qed
  moreover have "copy_range s to from start end share = kret (0, s')"
    using assms(5-7) s'(1) by (simp add: copy_range_def)
  ultimately show ?thesis using s'(2,3) by (auto simp: copied_def)
qed


theorem copy_range_correct_witness:
  "\<exists>s s' q. present (vpte s 10 0x200) \<and> copy_range s 11 10 0x200000 0x201000 False = kret (0, s') \<and>
     pmap s' (11, 0x200) = Some q \<and> frame s' q = frame s (unat (PPN (vpte s 10 0x200)))"
proof -
  obtain s F where s: "paging_ok (block (2, 6)) {10, 11} s F" "4 \<le> card F"
      "present (vpte s 10 0x200)" "\<forall>v < user_pages. vpte s 11 v = 0"
    using one_page_ok by blast
  have v: "vpn 0x200000 = 0x200" "vpn 0x201000 = 0x201" by (simp_all add: vpn_def)
  have n: "\<forall>v. vpn 0x200000 \<le> v \<and> v < vpn 0x201000 \<longrightarrow> \<not> present (vpte s 11 v)"
    using s(4) by (simp add: v user_pages_def)
  have a: "(0x200000 :: u32) mod PGSIZE = 0" "(0x201000 :: u32) mod PGSIZE = 0"
    "USER_ACCESS 0x200000 0x201000" by (simp_all add: USER_ACCESS_def)
  obtain s' F' where s': "copy_range s 11 10 0x200000 0x201000 False = kret (0, s')"
      "\<forall>v. 0x200 \<le> v \<and> v < 0x201 \<and> present (vpte s 10 v) \<longrightarrow>
       (\<exists>q \<in> F - F'. pmap s' (11, v) = Some q \<and> vpte s' 11 v AND PTE_USER = vpte s 10 v AND PTE_USER \<and>
          frame s' q = frame s (unat (PPN (vpte s 10 v))))"
    using copy_range_correct [OF s(1) _ _ _ a n, of 10 False] s(2) unfolding v by auto
  have "(0x200 :: nat) \<le> 0x200 \<and> (0x200 :: nat) < 0x201 \<and> present (vpte s 10 0x200)" using s(3) by simp
  then show ?thesis using s' s(3) by blast
qed

text \<open>C30. \<^verbatim>\<open>exit_range\<close> releases page tables without leaking: on a user range whose page tables map
  nothing any more it returns, the tables that overlap the range are removed from the directory, exactly
  their frames become free, and no other translation changes.\<close>

theorem exit_range_correct:
  assumes "paging_ok M D s F" and "d \<in> D"
    and "start mod PGSIZE = 0" "end mod PGSIZE = 0" "USER_ACCESS start end"
    and "idle s d (vpn start div 1024) ((vpn end + 1023) div 1024)"
  shows "\<exists>s'. exit_range s d start end = kret s' \<and>
    paging_ok M D s' (F \<union> tab s ` tables s D d (vpn start div 1024) ((vpn end + 1023) div 1024)) \<and>
    tabs s' D = tabs s D - tables s D d (vpn start div 1024) ((vpn end + 1023) div 1024) \<and>
    (\<forall>d' \<in> D. \<forall>v < user_pages. present (vpte s d' v) \<longrightarrow> vpte s' d' v = vpte s d' v)"
proof -
  let ?i = "vpn start div 1024" and ?b = "(vpn end + 1023) div 1024"
  obtain s' where s': "exit_range s d start end = kret s'" "exited D s d ?i ?b s'"
      "paging_ok M D s' (F \<union> tab s ` tables s D d ?i ?b)"
    using exit_range_ok [OF assms] by blast
  moreover have "vpte s' d' v = vpte s d' v" if "d' \<in> D" "v < user_pages" "present (vpte s d' v)" for d' v
    using exited_vpte [OF assms(1) s'(2) that(1,2)] assms(6) that(2,3) by (auto simp: idle_def)
  ultimately show ?thesis using exited_tabs(1) [OF s'(2)] by blast
qed

theorem exit_range_correct_witness:
  "\<exists>s s'. tabs s {10, 11} = {(10, 0)} \<and> exit_range s 10 0x200000 0x400000 = kret s' \<and> tabs s' {10, 11} = {}"
proof -
  obtain s F where s: "paging_ok (block (2, 6)) {10, 11} s F" "tabs s {10, 11} = {(10, 0)}"
      "\<forall>v < user_pages. vpte s 11 v = 0 \<and> (v \<noteq> 0x200 \<longrightarrow> vpte s 10 v = 0)"
    using one_page_ok by blast
  have v: "vpn 0x200000 = 0x200" "vpn 0x400000 = 0x400" by (simp_all add: vpn_def)
  obtain s1 where s1: "unmapped {10, 11} s 10 0x200 0x400 s1"
      "paging_ok (block (2, 6)) {10, 11} s1 (F \<union> (mapped s {10, 11} - mapped s1 {10, 11}))"
    using unmap_loop_ok [OF s(1), of 10 "0x200000" "0x400000"]
    by (auto simp: v aligned_def user_pages_def)
  have "\<not> present (vpte s1 10 w)" if "w < user_pages" for w
    using unmapped_vpte [OF s1(1), of 10 w] s(3) that by (cases "w = 0x200") auto
  then have "idle s1 10 (vpn 0x200000 div 1024) ((vpn 0x400000 + 1023) div 1024)" by (simp add: idle_def)
  moreover have t1: "tabs s1 {10, 11} = {(10, 0)}"
    using s1(1) s(2) frames_tabs(1) [of "{10, 11}" s1 s] by (simp add: unmapped_def)
  moreover have "tables s1 {10, 11} 10 0 1 = {(10, 0)}" using t1 by (auto simp: tables_def)
  ultimately show ?thesis using exit_range_correct [OF s1(2), of 10 "0x200000" "0x400000"]
    by (auto simp: v USER_ACCESS_def)
qed

end
