(* ===== verification/Vmm.thy ===== *)
theory Vmm
  imports Sync Paging Strings
begin

text \<open>
  Address spaces: \<^verbatim>\<open>kern/mm/vmm.h\<close> and \<^verbatim>\<open>kern/mm/vmm.c\<close>.  The state \<open>vmm\<close> holds the memory of
  \<open>Paging\<close>, the semaphores of \<open>Sync\<close>, and the descriptors of areas and address spaces with the
  links of all their lists; \<open>vma_live\<close> and \<open>mm_live\<close> say which descriptors are allocated, so that a
  run that returns has not touched a freed one.  \<open>km\<close> is the answer of \<^verbatim>\<open>kmalloc\<close>.

  \<open>areas\<close> is the invariant of one address space and \<open>space\<close> its abstraction, a partial function
  from addresses to flags; the theorems state the effect of each operation on it.
\<close>

unbundle bit_operations_syntax

section \<open>Data (\<^verbatim>\<open>kern/mm/vmm.h\<close>)\<close>

abbreviation (input) VM_READ :: u32 where "VM_READ \<equiv> 1"
abbreviation (input) VM_WRITE :: u32 where "VM_WRITE \<equiv> 2"
abbreviation (input) VM_EXEC :: u32 where "VM_EXEC \<equiv> 4"
abbreviation (input) VM_STACK :: u32 where "VM_STACK \<equiv> 8"

record vma_struct =
  vm_mm :: nat
  vm_start :: u32
  vm_end :: u32
  vm_flags :: u32

record mm_struct =
  mmap_cache :: "nat option"
  pgdir :: "nat option"
  map_count :: int
  sm_priv :: bool
  mm_count :: int
  mm_sem :: nat
  locked_by :: int
  brk_start :: u32
  brk :: u32

datatype vnode = MmapList nat | FreeList | VmaLink nat

record vmm =
  vmem :: mem
  vsync :: sync
  vmas :: "nat \<Rightarrow> vma_struct"
  vma_live :: "nat \<Rightarrow> bool"
  mms :: "nat \<Rightarrow> mm_struct"
  mm_live :: "nat \<Rightarrow> bool"
  vlinks :: "vnode links"
  pgfault_num :: u32

text \<open>Access to an object that is not allocated does not happen in a correct run; it is a panic.\<close>

definition vma_at :: "vmm \<Rightarrow> nat \<Rightarrow> (vma_struct \<Rightarrow> 'a prog) \<Rightarrow> 'a prog" where
  "vma_at s v f = (if vma_live s v then f (vmas s v) else kpanic (Panic ''freed vma''))"

definition mm_at :: "vmm \<Rightarrow> nat \<Rightarrow> (mm_struct \<Rightarrow> 'a prog) \<Rightarrow> 'a prog" where
  "mm_at s m f = (if mm_live s m then f (mms s m) else kpanic (Panic ''freed mm''))"

lemma vma_at_mono [partial_function_mono]:
  assumes "\<And>y. mono_option (\<lambda>f. C y f)"
  shows "mono_option (\<lambda>f. vma_at s v (\<lambda>y. C y f))"
  using assms by (cases "vma_live s v") (auto simp: vma_at_def intro: option.const_mono)

lemma mm_at_mono [partial_function_mono]:
  assumes "\<And>y. mono_option (\<lambda>f. C y f)"
  shows "mono_option (\<lambda>f. mm_at s v (\<lambda>y. C y f))"
  using assms by (cases "mm_live s v") (auto simp: mm_at_def intro: option.const_mono)

definition le2vma :: "vnode \<Rightarrow> nat option" where
  "le2vma le = (case le of VmaLink v \<Rightarrow> Some v | _ \<Rightarrow> None)"

definition upd_vma :: "nat \<Rightarrow> (vma_struct \<Rightarrow> vma_struct) \<Rightarrow> vmm \<Rightarrow> vmm" where
  "upd_vma v f s = s\<lparr>vmas := (vmas s)(v := f (vmas s v))\<rparr>"

definition upd_mm :: "nat \<Rightarrow> (mm_struct \<Rightarrow> mm_struct) \<Rightarrow> vmm \<Rightarrow> vmm" where
  "upd_mm m f s = s\<lparr>mms := (mms s)(m := f (mms s m))\<rparr>"

definition kfree_vma :: "nat \<Rightarrow> vmm \<Rightarrow> vmm prog" where
  "kfree_vma v s = vma_at s v (\<lambda>_. kret (s\<lparr>vma_live := (vma_live s)(v := False)\<rparr>))"

definition kfree_mm :: "nat \<Rightarrow> vmm \<Rightarrow> vmm prog" where
  "kfree_mm m s = mm_at s m (\<lambda>_. kret (s\<lparr>mm_live := (mm_live s)(m := False)\<rparr>))"

text \<open>What the replacement code sees of an \<^verbatim>\<open>mm_struct\<close>.\<close>

definition swap_view :: "mm_struct \<Rightarrow> swap_mm" where
  "swap_view r = \<lparr>sw_pgdir = (case pgdir r of None \<Rightarrow> 0 | Some d \<Rightarrow> d), sw_priv = sm_priv r\<rparr>"

definition mm_count_inc :: "nat \<Rightarrow> vmm \<Rightarrow> int \<times> vmm" where
  "mm_count_inc m s = (let s = upd_mm m (\<lambda>r. r\<lparr>mm_count := mm_count r + 1\<rparr>) s in (mm_count (mms s m), s))"

definition mm_count_dec :: "nat \<Rightarrow> vmm \<Rightarrow> int \<times> vmm" where
  "mm_count_dec m s = (let s = upd_mm m (\<lambda>r. r\<lparr>mm_count := mm_count r - 1\<rparr>) s in (mm_count (mms s m), s))"

section \<open>Areas (\<^verbatim>\<open>kern/mm/vmm.c\<close>)\<close>

definition mm_create :: "(vmm \<Rightarrow> nat option) \<Rightarrow> vmm \<Rightarrow> nat option \<times> vmm" where
  "mm_create km s = (case km s of
     None \<Rightarrow> (None, s)
   | Some m \<Rightarrow>
       let s = s\<lparr>mm_live := (mm_live s)(m := True)\<rparr>;
           s = s\<lparr>vlinks := list_init (vlinks s) (MmapList m)\<rparr>;
           s = upd_mm m (\<lambda>r. r\<lparr>mmap_cache := None, pgdir := None, map_count := 0\<rparr>) s;
           s = (if swap_init_ok (vmem s)
                then let (_, w, h) = fifo_init_mm (vmem s) (swap_view (mms s m)) in
                     upd_mm m (\<lambda>r. r\<lparr>sm_priv := sw_priv w\<rparr>) (s\<lparr>vmem := h\<rparr>)
                else upd_mm m (\<lambda>r. r\<lparr>sm_priv := False\<rparr>) s);
           s = upd_mm m (\<lambda>r. r\<lparr>mm_count := 0\<rparr>) s
       in (Some m, s\<lparr>vsync := sem_init (mm_sem (mms s m)) 1 (vsync s)\<rparr>))"

definition vma_create :: "(vmm \<Rightarrow> nat option) \<Rightarrow> u32 \<Rightarrow> u32 \<Rightarrow> u32 \<Rightarrow> vmm \<Rightarrow> nat option \<times> vmm" where
  "vma_create km start end vflags s = (case km s of
     None \<Rightarrow> (None, s)
   | Some v \<Rightarrow>
       let s = s\<lparr>vma_live := (vma_live s)(v := True)\<rparr> in
       (Some v, upd_vma v (\<lambda>x. x\<lparr>vm_start := start, vm_end := end, vm_flags := vflags\<rparr>) s))"

definition covers :: "vma_struct \<Rightarrow> u32 \<Rightarrow> bool" where
  "covers x a \<longleftrightarrow> vm_start x \<le> a \<and> a < vm_end x"

partial_function (option) find_scan :: "vmm \<Rightarrow> nat \<Rightarrow> u32 \<Rightarrow> vnode \<Rightarrow> nat option prog" where
  "find_scan s m address le =
     (if le = MmapList m then kret None
      else deref (le2vma le) (\<lambda>v. vma_at s v (\<lambda>x.
        if covers x address then kret (Some v)
        else find_scan s m address (list_next (vlinks s) le))))"

definition find_vma :: "vmm \<Rightarrow> nat option \<Rightarrow> u32 \<Rightarrow> (nat option \<times> vmm) prog" where
  "find_vma s mo address = (case mo of
     None \<Rightarrow> kret (None, s)
   | Some m \<Rightarrow> mm_at s m (\<lambda>r.
       kbind (case mmap_cache r of
                None \<Rightarrow> kret None
              | Some v \<Rightarrow> vma_at s v (\<lambda>x. kret (if covers x address then Some v else None))) (\<lambda>hit.
       kbind (case hit of
                Some v \<Rightarrow> kret (Some v)
              | None \<Rightarrow> find_scan s m address (list_next (vlinks s) (MmapList m))) (\<lambda>r.
         case r of None \<Rightarrow> kret (None, s)
         | Some v \<Rightarrow> kret (Some v, upd_mm m (\<lambda>r. r\<lparr>mmap_cache := Some v\<rparr>) s)))))"

definition check_vma_overlap :: "vma_struct \<Rightarrow> vma_struct \<Rightarrow> 'a prog \<Rightarrow> 'a prog" where
  "check_vma_overlap prev nxt k =
     kassert (vm_start prev < vm_end prev) (kassert (vm_end prev \<le> vm_start nxt) (
     kassert (vm_start nxt < vm_end nxt) k))"

partial_function (option) insert_scan :: "vmm \<Rightarrow> nat \<Rightarrow> u32 \<Rightarrow> vnode \<Rightarrow> vnode \<Rightarrow> vnode prog" where
  "insert_scan s m start le_prev le =
     (if le = MmapList m then kret le_prev
      else deref (le2vma le) (\<lambda>v. vma_at s v (\<lambda>x.
        if start < vm_start x then kret le_prev
        else insert_scan s m start le (list_next (vlinks s) le))))"

text \<open>One of the two overlap checks: \<open>k\<close> follows, and there is no check against the list head.\<close>

definition check_next :: "vmm \<Rightarrow> nat \<Rightarrow> vnode \<Rightarrow> (vma_struct \<Rightarrow> 'a prog) \<Rightarrow> 'a prog \<Rightarrow> 'a prog" where
  "check_next s m le chk k =
     (if le \<noteq> MmapList m then deref (le2vma le) (\<lambda>v. vma_at s v chk) else k)"

definition insert_vma_struct :: "vmm \<Rightarrow> nat \<Rightarrow> nat \<Rightarrow> vmm prog" where
  "insert_vma_struct s m v = vma_at s v (\<lambda>x. mm_at s m (\<lambda>_.
     kassert (vm_start x < vm_end x) (
     kbind (insert_scan s m (vm_start x) (MmapList m) (list_next (vlinks s) (MmapList m))) (\<lambda>le_prev.
     let le_next = list_next (vlinks s) le_prev;
         k = (let s = upd_vma v (\<lambda>x. x\<lparr>vm_mm := m\<rparr>) s;
                  s = s\<lparr>vlinks := list_add_after (vlinks s) le_prev (VmaLink v)\<rparr>
              in kret (upd_mm m (\<lambda>r. r\<lparr>map_count := map_count r + 1\<rparr>) s));
         k = check_next s m le_next (\<lambda>y. check_vma_overlap x y k) k
     in check_next s m le_prev (\<lambda>y. check_vma_overlap y x k) k))))"

partial_function (option) destroy_loop :: "vmm \<Rightarrow> nat \<Rightarrow> vmm prog" where
  "destroy_loop s m =
     (let le = list_next (vlinks s) (MmapList m) in
      if le = MmapList m then kret s
      else deref (le2vma le) (\<lambda>v.
        kbind (kfree_vma v (s\<lparr>vlinks := list_del (vlinks s) le\<rparr>)) (\<lambda>s. destroy_loop s m)))"

definition mm_destroy :: "vmm \<Rightarrow> nat \<Rightarrow> vmm prog" where
  "mm_destroy s m = mm_at s m (\<lambda>r.
     kassert (mm_count r = 0) (kbind (destroy_loop s m) (kfree_mm m)))"

definition mm_map ::
  "(vmm \<Rightarrow> nat option) \<Rightarrow> vmm \<Rightarrow> nat option \<Rightarrow> u32 \<Rightarrow> u32 \<Rightarrow> u32 \<Rightarrow> (int \<times> nat option \<times> vmm) prog" where
  "mm_map km s mo addr len vflags =
     (let start = ROUNDDOWN addr PGSIZE; end = ROUNDUP (addr + len) PGSIZE in
      if \<not> USER_ACCESS start end then kret (- E_INVAL, None, s)
      else (case mo of None \<Rightarrow> kpanic AssertFail | Some m \<Rightarrow>
        kbind (find_vma s mo start) (\<lambda>(r, s).
        kbind (case r of None \<Rightarrow> kret False | Some v \<Rightarrow> vma_at s v (\<lambda>x. kret (vm_start x < end))) (\<lambda>taken.
        if taken then kret (- E_INVAL, None, s)
        else (case vma_create km start end vflags s of
          (None, s) \<Rightarrow> kret (- E_NO_MEM, None, s)
        | (Some v, s) \<Rightarrow> kbind (insert_vma_struct s m v) (\<lambda>s. kret (0, Some v, s)))))))"

text \<open>The page table code works on the memory inside the state.\<close>

definition on_mem :: "vmm \<Rightarrow> (mem \<Rightarrow> mem prog) \<Rightarrow> vmm prog" where
  "on_mem s f = kbind (f (vmem s)) (\<lambda>h. kret (s\<lparr>vmem := h\<rparr>))"

partial_function (option) dup_loop ::
  "(vmm \<Rightarrow> nat option) \<Rightarrow> nat \<Rightarrow> nat \<Rightarrow> vnode \<Rightarrow> vmm \<Rightarrow> (int \<times> vmm) prog" where
  "dup_loop km to from le s =
     (if le = MmapList from then kret (0, s)
      else deref (le2vma le) (\<lambda>v. vma_at s v (\<lambda>x.
        case vma_create km (vm_start x) (vm_end x) (vm_flags x) s of
          (None, s) \<Rightarrow> kret (- E_NO_MEM, s)
        | (Some nv, s) \<Rightarrow>
            kbind (insert_vma_struct s to nv) (\<lambda>s. mm_at s from (\<lambda>fr.
            deref (pgdir (mms s to)) (\<lambda>dt. deref (pgdir fr) (\<lambda>df.
            kbind (copy_range (vmem s) dt df (vm_start x) (vm_end x) False) (\<lambda>(ret, h).
              let s = s\<lparr>vmem := h\<rparr> in
              if ret \<noteq> 0 then kret (- E_NO_MEM, s)
              else dup_loop km to from (list_prev (vlinks s) le) s))))))))"

definition dup_mmap ::
  "(vmm \<Rightarrow> nat option) \<Rightarrow> nat option \<Rightarrow> nat option \<Rightarrow> vmm \<Rightarrow> (int \<times> vmm) prog" where
  "dup_mmap km to from s = (case (to, from) of
     (Some t, Some f) \<Rightarrow> dup_loop km t f (list_prev (vlinks s) (MmapList f)) s
   | _ \<Rightarrow> kpanic AssertFail)"

text \<open>The two loops of \<^verbatim>\<open>exit_mmap\<close> differ in what they do to each range.\<close>

partial_function (option) exit_mmap_loop ::
  "(mem \<Rightarrow> nat \<Rightarrow> u32 \<Rightarrow> u32 \<Rightarrow> mem prog) \<Rightarrow> nat option \<Rightarrow> nat \<Rightarrow> vnode \<Rightarrow> vmm \<Rightarrow> vmm prog" where
  "exit_mmap_loop f dir m le s =
     (if le = MmapList m then kret s
      else deref (le2vma le) (\<lambda>v. vma_at s v (\<lambda>x. deref dir (\<lambda>d.
        kbind (on_mem s (\<lambda>h. f h d (vm_start x) (vm_end x))) (\<lambda>s.
          exit_mmap_loop f dir m (list_next (vlinks s) le) s)))))"

definition exit_mmap :: "nat option \<Rightarrow> vmm \<Rightarrow> vmm prog" where
  "exit_mmap mo s = (case mo of
     None \<Rightarrow> kpanic AssertFail
   | Some m \<Rightarrow> mm_at s m (\<lambda>r.
       kassert (mm_count r = 0) (
       kbind (exit_mmap_loop unmap_range (pgdir r) m (list_next (vlinks s) (MmapList m)) s) (\<lambda>s.
         exit_mmap_loop exit_range (pgdir r) m (list_next (vlinks s) (MmapList m)) s))))"

section \<open>Access from the kernel\<close>

definition KERN_ACCESS :: "u32 \<Rightarrow> u32 \<Rightarrow> bool" where
  "KERN_ACCESS start end \<longleftrightarrow> 0xC0000000 \<le> start \<and> start < end \<and> end \<le> 0xC0000000 + 0x38000000"

partial_function (option) check_loop ::
  "vmm \<Rightarrow> nat \<Rightarrow> u32 \<Rightarrow> u32 \<Rightarrow> bool \<Rightarrow> (bool \<times> vmm) prog" where
  "check_loop s m start end write =
     (if \<not> start < end then kret (True, s)
      else kbind (find_vma s (Some m) start) (\<lambda>(r, s). case r of
        None \<Rightarrow> kret (False, s)
      | Some v \<Rightarrow> vma_at s v (\<lambda>x.
          if start < vm_start x then kret (False, s)
          else if vm_flags x AND (if write then VM_WRITE else VM_READ) = 0 then kret (False, s)
          else if write \<and> vm_flags x AND VM_STACK \<noteq> 0 \<and> start < vm_start x + PGSIZE
          then kret (False, s)
          else check_loop s m (vm_end x) end write)))"

definition user_mem_check :: "vmm \<Rightarrow> nat option \<Rightarrow> u32 \<Rightarrow> u32 \<Rightarrow> bool \<Rightarrow> (bool \<times> vmm) prog" where
  "user_mem_check s mo addr len write = (case mo of
     Some m \<Rightarrow>
       if \<not> USER_ACCESS addr (addr + len) then kret (False, s)
       else check_loop s m addr (addr + len) write
   | None \<Rightarrow> kret (KERN_ACCESS addr (addr + len), s))"

text \<open>The copying functions move bytes of the memory \<open>b\<close> that the current address space shows.\<close>

definition copy_from_user ::
  "vmm \<Rightarrow> mem8 \<Rightarrow> nat option \<Rightarrow> u32 \<Rightarrow> u32 \<Rightarrow> u32 \<Rightarrow> bool \<Rightarrow> (bool \<times> mem8 \<times> vmm) prog" where
  "copy_from_user s b mo dst src len writable =
     kbind (user_mem_check s mo src len writable) (\<lambda>(ok, s).
       if \<not> ok then kret (False, b, s) else kret (True, memcpy b dst src len, s))"

definition copy_to_user ::
  "vmm \<Rightarrow> mem8 \<Rightarrow> nat option \<Rightarrow> u32 \<Rightarrow> u32 \<Rightarrow> u32 \<Rightarrow> (bool \<times> mem8 \<times> vmm) prog" where
  "copy_to_user s b mo dst src len =
     kbind (user_mem_check s mo dst len True) (\<lambda>(ok, s).
       if \<not> ok then kret (False, b, s) else kret (True, memcpy b dst src len, s))"

partial_function (option) copy_string_loop ::
  "vmm \<Rightarrow> mem8 \<Rightarrow> nat option \<Rightarrow> u32 \<Rightarrow> u32 \<Rightarrow> u32 \<Rightarrow> u32 \<Rightarrow> (bool \<times> mem8 \<times> vmm) prog" where
  "copy_string_loop s b mo dst src maxn part =
     (let part = (if maxn < part then maxn else part) in
      kbind (user_mem_check s mo src part False) (\<lambda>(ok, s).
      if \<not> ok then kret (False, b, s)
      else let alen = strnlen b src part in
        if alen < part then kret (True, memcpy b dst src (alen + 1), s)
        else if part = maxn then kret (False, b, s)
        else copy_string_loop s (memcpy b dst src part) mo (dst + part) (src + part) (maxn - part) PGSIZE))"

definition copy_string ::
  "vmm \<Rightarrow> mem8 \<Rightarrow> nat option \<Rightarrow> u32 \<Rightarrow> u32 \<Rightarrow> u32 \<Rightarrow> (bool \<times> mem8 \<times> vmm) prog" where
  "copy_string s b mo dst src maxn =
     copy_string_loop s b mo dst src maxn (ROUNDDOWN (src + PGSIZE) PGSIZE - src)"

section \<open>Unmapping, and the heap of a process\<close>

definition vma_resize :: "vmm \<Rightarrow> nat \<Rightarrow> u32 \<Rightarrow> u32 \<Rightarrow> vmm prog" where
  "vma_resize s v start end = vma_at s v (\<lambda>x.
     kassert (start mod PGSIZE = 0 \<and> end mod PGSIZE = 0) (
     kassert (vm_start x \<le> start \<and> start < end \<and> end \<le> vm_end x) (
       kret (upd_vma v (\<lambda>x. x\<lparr>vm_start := start, vm_end := end\<rparr>) s))))"

definition remove_vma_struct :: "vmm \<Rightarrow> nat \<Rightarrow> nat \<Rightarrow> vmm prog" where
  "remove_vma_struct s m v = vma_at s v (\<lambda>x.
     kassert (m = vm_mm x) (
       let s = s\<lparr>vlinks := list_del (vlinks s) (VmaLink v)\<rparr>;
           s = (if mmap_cache (mms s m) = Some v then upd_mm m (\<lambda>r. r\<lparr>mmap_cache := None\<rparr>) s else s)
       in kret (upd_mm m (\<lambda>r. r\<lparr>map_count := map_count r - 1\<rparr>) s)))"

definition vma_destroy :: "vmm \<Rightarrow> nat \<Rightarrow> vmm prog" where
  "vma_destroy s v = kfree_vma v s"

partial_function (option) unmap_collect :: "vmm \<Rightarrow> nat \<Rightarrow> nat \<Rightarrow> u32 \<Rightarrow> vmm prog" where
  "unmap_collect s m v end = vma_at s v (\<lambda>x.
     if \<not> vm_start x < end then kret s
     else (let le = list_next (vlinks s) (VmaLink v) in
       kbind (remove_vma_struct s m v) (\<lambda>s.
       let s = s\<lparr>vlinks := list_add (vlinks s) FreeList (VmaLink v)\<rparr> in
       if le = MmapList m then kret s
       else deref (le2vma le) (\<lambda>v. unmap_collect s m v end))))"

text \<open>One released area: what is outside the range goes back into the list; the answer has the part
  whose pages have to be unmapped.\<close>

definition unmap_piece :: "vmm \<Rightarrow> nat \<Rightarrow> nat \<Rightarrow> u32 \<Rightarrow> u32 \<Rightarrow> (u32 \<times> u32 \<times> vmm) prog" where
  "unmap_piece s m v start end = vma_at s v (\<lambda>x.
     if vm_start x < start
     then kbind (vma_resize s v (vm_start x) start) (\<lambda>s.
          kbind (insert_vma_struct s m v) (\<lambda>s. kret (start, vm_end x, s)))
     else if end < vm_end x
     then kbind (vma_resize s v end (vm_end x)) (\<lambda>s.
          kbind (insert_vma_struct s m v) (\<lambda>s. kret (vm_start x, end, s)))
     else kbind (vma_destroy s v) (\<lambda>s. kret (vm_start x, vm_end x, s)))"

partial_function (option) unmap_release :: "vmm \<Rightarrow> nat \<Rightarrow> u32 \<Rightarrow> u32 \<Rightarrow> vnode \<Rightarrow> vmm prog" where
  "unmap_release s m start end le =
     (if le = FreeList then kret s
      else deref (le2vma le) (\<lambda>v.
        let le = list_next (vlinks s) le in
        kbind (unmap_piece s m v start end) (\<lambda>(un_start, un_end, s). deref (pgdir (mms s m)) (\<lambda>d.
          kbind (on_mem s (\<lambda>h. unmap_range h d un_start un_end)) (\<lambda>s.
            unmap_release s m start end le)))))"

definition mm_unmap :: "(vmm \<Rightarrow> nat option) \<Rightarrow> vmm \<Rightarrow> nat option \<Rightarrow> u32 \<Rightarrow> u32 \<Rightarrow> (int \<times> vmm) prog" where
  "mm_unmap km s mo addr len =
     (let start = ROUNDDOWN addr PGSIZE; end = ROUNDUP (addr + len) PGSIZE in
      if \<not> USER_ACCESS start end then kret (- E_INVAL, s)
      else (case mo of None \<Rightarrow> kpanic AssertFail | Some m \<Rightarrow>
        kbind (find_vma s mo start) (\<lambda>(r, s). case r of
          None \<Rightarrow> kret (0, s)
        | Some v \<Rightarrow> vma_at s v (\<lambda>x.
            if end \<le> vm_start x then kret (0, s)
            else if vm_start x < start \<and> end < vm_end x
            then (case vma_create km (vm_start x) start (vm_flags x) s of
                (None, s) \<Rightarrow> kret (- E_NO_MEM, s)
              | (Some nv, s) \<Rightarrow>
                  kbind (vma_resize s v end (vm_end x)) (\<lambda>s.
                  kbind (insert_vma_struct s m nv) (\<lambda>s. deref (pgdir (mms s m)) (\<lambda>d.
                  kbind (on_mem s (\<lambda>h. unmap_range h d start end)) (\<lambda>s. kret (0, s))))))
            else let s = s\<lparr>vlinks := list_init (vlinks s) FreeList\<rparr> in
              kbind (unmap_collect s m v end) (\<lambda>s.
              kbind (unmap_release s m start end (list_next (vlinks s) FreeList)) (\<lambda>s. kret (0, s)))))))"

definition find_vma_intersection :: "vmm \<Rightarrow> nat option \<Rightarrow> u32 \<Rightarrow> u32 \<Rightarrow> (nat option \<times> vmm) prog" where
  "find_vma_intersection s mo start end =
     kbind (find_vma s mo start) (\<lambda>(r, s). case r of
       None \<Rightarrow> kret (None, s)
     | Some v \<Rightarrow> vma_at s v (\<lambda>x. kret (if end \<le> vm_start x then None else Some v, s)))"

definition mm_brk :: "(vmm \<Rightarrow> nat option) \<Rightarrow> vmm \<Rightarrow> nat \<Rightarrow> u32 \<Rightarrow> u32 \<Rightarrow> (int \<times> vmm) prog" where
  "mm_brk km s m addr len =
     (let start = ROUNDDOWN addr PGSIZE; end = ROUNDUP (addr + len) PGSIZE in
      if \<not> USER_ACCESS start end then kret (- E_INVAL, s)
      else kbind (mm_unmap km s (Some m) start (end - start)) (\<lambda>(ret, s).
        if ret \<noteq> 0 then kret (ret, s)
        else let vflags = VM_READ OR VM_WRITE in
          kbind (find_vma s (Some m) (start - 1)) (\<lambda>(r, s).
          kbind (case r of None \<Rightarrow> kret None
                 | Some v \<Rightarrow> vma_at s v (\<lambda>x.
                     kret (if vm_end x = start \<and> vm_flags x = vflags then Some v else None))) (\<lambda>grow.
          case grow of
            Some v \<Rightarrow> kret (0, upd_vma v (\<lambda>x. x\<lparr>vm_end := end\<rparr>) s)
          | None \<Rightarrow> (case vma_create km start end vflags s of
              (None, s) \<Rightarrow> kret (- E_NO_MEM, s)
            | (Some v, s) \<Rightarrow> kbind (insert_vma_struct s m v) (\<lambda>s. kret (0, s)))))))"

section \<open>Page faults\<close>

text \<open>The part of the handler behind the checks: \<open>addr\<close> is rounded down and \<open>d\<close> is the directory.\<close>

definition fault_in :: "vmm \<Rightarrow> nat \<Rightarrow> nat \<Rightarrow> u32 \<Rightarrow> u32 \<Rightarrow> (int \<times> vmm) prog" where
  "fault_in s m d addr perm =
     kbind (get_pte (vmem s) d addr True) (\<lambda>(pr, h). case pr of
       None \<Rightarrow> kret (- E_NO_MEM, s\<lparr>vmem := h\<rparr>)
     | Some ptep \<Rightarrow>
         if pte_read h ptep = 0
         then kbind (pgdir_alloc_page h d addr perm) (\<lambda>(pg, h).
                kret (if pg = None then - E_NO_MEM else 0, s\<lparr>vmem := h\<rparr>))
         else if present (pte_read h ptep) then kpanic (Panic ''error write a non-writable pte'')
         else if \<not> swap_init_ok h then kret (- E_NO_MEM, s\<lparr>vmem := h\<rparr>)
         else kbind (swap_in h (swap_view (mms s m)) addr) (\<lambda>(ret, page, h).
           if ret \<noteq> 0 then kret (ret, s\<lparr>vmem := h\<rparr>)
           else kbind (page_insert h d page addr perm) (\<lambda>(_, h).
             kbind (fifo_map_swappable h (Some (swap_view (mms s m))) addr page) (\<lambda>(_, h).
             kret (0, s\<lparr>vmem := h\<lparr>pra_vaddr := (pra_vaddr h)(page := addr)\<rparr>\<rparr>)))))"

definition do_pgfault :: "vmm \<Rightarrow> nat option \<Rightarrow> u32 \<Rightarrow> u32 \<Rightarrow> (int \<times> vmm) prog" where
  "do_pgfault s mo error_code addr =
     kbind (find_vma s mo addr) (\<lambda>(r, s).
     let s = s\<lparr>pgfault_num := pgfault_num s + 1\<rparr> in
     case (r, mo) of
       (Some v, Some m) \<Rightarrow> vma_at s v (\<lambda>x.
         let fl = vm_flags x; code = error_code AND 3 in
         if addr < vm_start x then kret (- E_INVAL, s)
         else if code \<in> {2, 3} \<and> fl AND VM_WRITE = 0 then kret (- E_INVAL, s)
         else if code = 1 then kret (- E_INVAL, s)
         else if code = 0 \<and> fl AND (VM_READ OR VM_EXEC) = 0 then kret (- E_INVAL, s)
         else let perm = (if fl AND VM_WRITE \<noteq> 0 then PTE_U OR PTE_W else PTE_U) in
           deref (pgdir (mms s m)) (\<lambda>d. fault_in s m d (ROUNDDOWN addr PGSIZE) perm))
     | _ \<Rightarrow> kret (- E_INVAL, s))"

section \<open>The lock of an address space\<close>

definition lock_mm ::
  "(sync \<Rightarrow> sync prog) \<Rightarrow> nat \<Rightarrow> nat option \<Rightarrow> vmm \<Rightarrow> vmm prog" where
  "lock_mm resched w mo s = (case mo of None \<Rightarrow> kret s | Some m \<Rightarrow> mm_at s m (\<lambda>r.
     kbind (down resched (mm_sem r) w (vsync s)) (\<lambda>y.
       let s = s\<lparr>vsync := y\<rparr> in
       kret (upd_mm m (\<lambda>r. r\<lparr>locked_by := pid (ptab (sc y) (current (sc y)))\<rparr>) s))))"

definition unlock_mm ::
  "sched_class \<Rightarrow> (sched \<Rightarrow> nat option) \<Rightarrow> nat option \<Rightarrow> vmm \<Rightarrow> vmm prog" where
  "unlock_mm cls km mo s = (case mo of None \<Rightarrow> kret s | Some m \<Rightarrow> mm_at s m (\<lambda>r.
     kbind (up cls km (mm_sem r) (vsync s)) (\<lambda>y.
       kret (upd_mm m (\<lambda>r. r\<lparr>locked_by := 0\<rparr>) (s\<lparr>vsync := y\<rparr>)))))"

section \<open>The areas of an address space\<close>

lemma le2vma_simps [simp]: "le2vma (VmaLink v) = Some v" "le2vma (MmapList m) = None" "le2vma FreeList = None"
  by (simp_all add: le2vma_def)

lemma vma_at_live [simp]: "vma_live s v \<Longrightarrow> vma_at s v f = f (vmas s v)"
  by (simp add: vma_at_def)

lemma mm_at_live [simp]: "mm_live s m \<Longrightarrow> mm_at s m f = f (mms s m)"
  by (simp add: mm_at_def)

definition vma_ok :: "vma_struct \<Rightarrow> bool" where
  "vma_ok x \<longleftrightarrow> vm_start x mod PGSIZE = 0 \<and> vm_end x mod PGSIZE = 0 \<and> USER_ACCESS (vm_start x) (vm_end x)"

lemma vma_ok_less: "vma_ok x \<Longrightarrow> vm_start x < vm_end x"
  by (simp add: vma_ok_def USER_ACCESS_def)

definition before :: "vmm \<Rightarrow> nat \<Rightarrow> nat \<Rightarrow> bool" where
  "before s v w \<longleftrightarrow> vm_end (vmas s v) \<le> vm_start (vmas s w)"

text \<open>\<open>areas s m vs\<close>: the list of \<open>m\<close> holds the areas \<open>vs\<close>, which are page-aligned, in user space,
  disjoint and in ascending order; the cache is empty or one of them.\<close>

definition areas :: "vmm \<Rightarrow> nat \<Rightarrow> nat list \<Rightarrow> bool" where
  "areas s m vs \<longleftrightarrow> mm_live s m \<and> dlist (vlinks s) (MmapList m) (map VmaLink vs) \<and>
     (\<forall>v \<in> set vs. vma_live s v \<and> vm_mm (vmas s v) = m \<and> vma_ok (vmas s v)) \<and>
     sorted_wrt (before s) vs \<and> set_option (mmap_cache (mms s m)) \<subseteq> set vs \<and>
     map_count (mms s m) = int (length vs)"

definition area_at :: "vmm \<Rightarrow> nat list \<Rightarrow> u32 \<Rightarrow> nat option" where
  "area_at s vs a = List.find (\<lambda>v. covers (vmas s v) a) vs"

text \<open>The abstract address space: the flags at each address that is in an area.\<close>

definition space :: "vmm \<Rightarrow> nat list \<Rightarrow> u32 \<Rightarrow> u32 option" where
  "space s vs a = map_option (\<lambda>v. vm_flags (vmas s v)) (area_at s vs a)"

lemma areasD:
  assumes "areas s m vs"
  shows "mm_live s m" "dlist (vlinks s) (MmapList m) (map VmaLink vs)" "sorted_wrt (before s) vs"
    "\<And>v. v \<in> set vs \<Longrightarrow> vma_live s v" "\<And>v. v \<in> set vs \<Longrightarrow> vm_mm (vmas s v) = m"
    "\<And>v. v \<in> set vs \<Longrightarrow> vma_ok (vmas s v)" "distinct vs"
    "\<And>v. mmap_cache (mms s m) = Some v \<Longrightarrow> v \<in> set vs"
  using assms by (auto simp: areas_def dlist_def distinct_map)

lemma sorted_covers:
  assumes "sorted_wrt (before s) vs" and "v \<in> set vs" "w \<in> set vs" "covers (vmas s v) a" "covers (vmas s w) a"
  shows "v = w"
proof (rule ccontr)
  assume ne: "v \<noteq> w"
  obtain i j where ij: "i < length vs" "j < length vs" "vs ! i = v" "vs ! j = w"
    using assms(2,3) by (metis in_set_conv_nth)
  then have "i \<noteq> j" using ne by auto
  then have "before s v w \<or> before s w v" using sorted_wrt_nth_less [OF assms(1)] ij by (metis linorder_neqE_nat)
  then show False using assms(4,5) by (auto simp: before_def covers_def)
qed

lemma area_at_Some:
  assumes "sorted_wrt (before s) vs"
  shows "area_at s vs a = Some v \<longleftrightarrow> v \<in> set vs \<and> covers (vmas s v) a"
proof
  assume "area_at s vs a = Some v"
  then show "v \<in> set vs \<and> covers (vmas s v) a" by (auto simp: area_at_def find_Some_iff)
next
  assume v: "v \<in> set vs \<and> covers (vmas s v) a"
  then obtain w where w: "area_at s vs a = Some w"
    unfolding area_at_def by (cases "List.find (\<lambda>v. covers (vmas s v) a) vs") (auto simp: find_None_iff)
  then have "w \<in> set vs" "covers (vmas s w) a" by (auto simp: area_at_def find_Some_iff)
  then show "area_at s vs a = Some v" using sorted_covers [OF assms] v w by blast
qed

lemma area_at_None: "area_at s vs a = None \<longleftrightarrow> (\<forall>v \<in> set vs. \<not> covers (vmas s v) a)"
  by (auto simp: area_at_def find_None_iff)

lemma list_step:
  assumes "dlist h (MmapList m) (map VmaLink (us @ v # ws))"
  shows "list_next h (VmaLink v) = (case ws of [] \<Rightarrow> MmapList m | w # _ \<Rightarrow> VmaLink w)"
  using dlist_next [of h "MmapList m" "map VmaLink us" "VmaLink v" "map VmaLink ws"] assms
  by (cases ws) (simp_all add: list_next_def)

lemma list_first:
  assumes "dlist h (MmapList m) (map VmaLink ws)"
  shows "list_next h (MmapList m) = (case ws of [] \<Rightarrow> MmapList m | w # _ \<Rightarrow> VmaLink w)"
  using dlist_hd_next [OF assms] by (cases ws) (simp_all add: list_next_def)

lemma find_scan_ok:
  assumes "dlist (vlinks s) (MmapList m) (map VmaLink (us @ ws))" and "\<forall>v \<in> set ws. vma_live s v"
  shows "find_scan s m a (case ws of [] \<Rightarrow> MmapList m | w # _ \<Rightarrow> VmaLink w) = kret (area_at s ws a)"
  using assms
proof (induction ws arbitrary: us)
  case Nil
  then show ?case by (subst find_scan.simps) (simp add: area_at_def)
next
  case (Cons w ws)
  have "find_scan s m a (case ws of [] \<Rightarrow> MmapList m | w # _ \<Rightarrow> VmaLink w) = kret (area_at s ws a)"
    using Cons.IH [of "us @ [w]"] Cons.prems by simp
  then show ?case using list_step [OF Cons.prems(1)] Cons.prems(2)
    by (subst find_scan.simps) (simp add: area_at_def)
qed

text \<open>\<^verbatim>\<open>find_vma\<close> changes nothing but the cache.\<close>

definition cached :: "nat \<Rightarrow> nat option \<Rightarrow> vmm \<Rightarrow> vmm" where
  "cached m r s = (case r of None \<Rightarrow> s | Some v \<Rightarrow> upd_mm m (\<lambda>x. x\<lparr>mmap_cache := Some v\<rparr>) s)"

lemma cached_simps [simp]:
  "vmem (cached m r s) = vmem s" "vsync (cached m r s) = vsync s" "vmas (cached m r s) = vmas s"
  "vma_live (cached m r s) = vma_live s" "mm_live (cached m r s) = mm_live s" "vlinks (cached m r s) = vlinks s"
  "pgfault_num (cached m r s) = pgfault_num s" "pgdir (mms (cached m r s) n) = pgdir (mms s n)"
  "mm_count (mms (cached m r s) n) = mm_count (mms s n)" "sm_priv (mms (cached m r s) n) = sm_priv (mms s n)"
  "map_count (mms (cached m r s) n) = map_count (mms s n)" "n \<noteq> m \<Longrightarrow> mms (cached m r s) n = mms s n"
  by (auto simp: cached_def upd_mm_def split: option.splits)

lemma cached_areas [simp]:
  assumes "areas s m vs" and "set_option r \<subseteq> set vs"
  shows "areas (cached m r s) m vs"
  using assms by (cases r) (auto simp: areas_def cached_def upd_mm_def before_def [abs_def])

lemma area_at_cached [simp]: "area_at (cached m r s) vs a = area_at s vs a" "space (cached m r s) vs a = space s vs a"
  by (simp_all add: area_at_def space_def)

lemma find_vma_ok:
  assumes "areas s m vs"
  shows "find_vma s (Some m) a = kret (area_at s vs a, cached m (area_at s vs a) s)"
proof -
  note A = areasD [OF assms]
  have scan: "find_scan s m a (list_next (vlinks s) (MmapList m)) = kret (area_at s vs a)"
    using find_scan_ok [of s m "[]" vs a] A(2,4) list_first [OF A(2)] by simp
  show ?thesis
  proof (cases "mmap_cache (mms s m)")
    case None
    then show ?thesis using scan A(1) by (auto simp: find_vma_def cached_def split: option.splits)
  next
    case (Some v)
    then have v: "v \<in> set vs" "vma_live s v" using A(4,8) by auto
    then show ?thesis using scan A(1) Some area_at_Some [OF A(3), of a v]
      by (cases "covers (vmas s v) a") (auto simp: find_vma_def cached_def split: option.splits)
  qed
qed

lemma area_in: "areas s m vs \<Longrightarrow> set_option (area_at s vs a) \<subseteq> set vs"
  using area_at_Some [OF areasD(3)] by auto

section \<open>Inserting an area\<close>

text \<open>The areas that start at or below an address, and the others.\<close>

definition below :: "vmm \<Rightarrow> u32 \<Rightarrow> nat list \<Rightarrow> nat list" where
  "below s a vs = takeWhile (\<lambda>w. vm_start (vmas s w) \<le> a) vs"

definition above :: "vmm \<Rightarrow> u32 \<Rightarrow> nat list \<Rightarrow> nat list" where
  "above s a vs = dropWhile (\<lambda>w. vm_start (vmas s w) \<le> a) vs"

lemma below_above [simp]: "below s a vs @ above s a vs = vs"
  by (simp add: below_def above_def)

definition at_end :: "nat \<Rightarrow> nat list \<Rightarrow> vnode" where
  "at_end m us = (if us = [] then MmapList m else VmaLink (last us))"

lemma insert_scan_ok:
  assumes "dlist (vlinks s) (MmapList m) (map VmaLink (us @ ws))" and "\<forall>v \<in> set ws. vma_live s v"
  shows "insert_scan s m a (at_end m us) (case ws of [] \<Rightarrow> MmapList m | w # _ \<Rightarrow> VmaLink w) =
    kret (at_end m (us @ below s a ws))"
  using assms
proof (induction ws arbitrary: us)
  case Nil
  then show ?case by (subst insert_scan.simps) (simp add: below_def)
next
  case (Cons w ws)
  have "insert_scan s m a (VmaLink w) (case ws of [] \<Rightarrow> MmapList m | w # _ \<Rightarrow> VmaLink w) =
      kret (at_end m (us @ w # below s a ws))"
    using Cons.IH [of "us @ [w]"] Cons.prems by (simp add: at_end_def)
  then show ?case using list_step [OF Cons.prems(1)] Cons.prems(2)
    by (subst insert_scan.simps) (auto simp: below_def not_le)
qed

definition fits :: "vmm \<Rightarrow> nat list \<Rightarrow> vma_struct \<Rightarrow> bool" where
  "fits s vs x \<longleftrightarrow> (\<forall>w \<in> set vs. vm_end (vmas s w) \<le> vm_start x \<or> vm_end x \<le> vm_start (vmas s w))"

lemma sorted_start_mono:
  assumes "sorted_wrt (before s) (us @ ws)" and "\<forall>v \<in> set (us @ ws). vm_start (vmas s v) < vm_end (vmas s v)"
    and "u \<in> set us" "w \<in> set ws"
  shows "vm_end (vmas s u) \<le> vm_start (vmas s w)"
  using assms by (auto simp: sorted_wrt_append before_def)

lemma fits_iff:
  assumes s: "sorted_wrt (before s) vs" and ok: "\<forall>v \<in> set vs. vm_start (vmas s v) < vm_end (vmas s v)"
    and x: "vm_start x < vm_end x"
  defines "us \<equiv> below s (vm_start x) vs" and "ws \<equiv> above s (vm_start x) vs"
  shows "fits s vs x \<longleftrightarrow> (us \<noteq> [] \<longrightarrow> vm_end (vmas s (last us)) \<le> vm_start x) \<and>
    (ws \<noteq> [] \<longrightarrow> vm_end x \<le> vm_start (vmas s (hd ws)))"
    and "fits s vs x \<Longrightarrow> u \<in> set us \<Longrightarrow> vm_end (vmas s u) \<le> vm_start x"
    and "fits s vs x \<Longrightarrow> w \<in> set ws \<Longrightarrow> vm_end x \<le> vm_start (vmas s w)"
proof -
  have vs: "vs = us @ ws" by (simp add: us_def ws_def)
  have u: "vm_start (vmas s u) \<le> vm_start x" if "u \<in> set us" for u
    using that by (auto simp: us_def below_def dest: set_takeWhileD)
  have hd: "vm_start x < vm_start (vmas s (hd ws))" if "ws \<noteq> []"
    using hd_dropWhile [of "\<lambda>w. vm_start (vmas s w) \<le> vm_start x" vs] that by (simp add: ws_def above_def not_le)
  have w: "vm_start (vmas s (hd ws)) \<le> vm_start (vmas s w)" if "w \<in> set ws" for w
  proof (cases ws)
    case (Cons y ys)
    then show ?thesis using that s ok vs by (force simp: sorted_wrt_append before_def)
  qed (use that in simp)
  have l: "vm_end (vmas s u) \<le> vm_end (vmas s (last us))" if "u \<in> set us" for u
  proof (cases us rule: rev_cases)
    case (snoc zs z)
    then have "u = z \<or> before s u z" using that s vs by (auto simp: sorted_wrt_append)
    moreover have "vm_start (vmas s z) < vm_end (vmas s z)" using ok vs snoc by auto
    ultimately show ?thesis using snoc by (auto simp: before_def)
  qed (use that in simp)
  show f1: "vm_end (vmas s u) \<le> vm_start x" if "fits s vs x" "u \<in> set us" for u
  proof -
    have "vm_end (vmas s u) \<le> vm_start x \<or> vm_end x \<le> vm_start (vmas s u)"
      using that vs by (auto simp: fits_def)
    then show ?thesis using u [OF that(2)] x by auto
  qed
  show f2: "vm_end x \<le> vm_start (vmas s w)" if "fits s vs x" "w \<in> set ws" for w
  proof -
    have "ws \<noteq> []" using that(2) by auto
    then have "vm_start x < vm_start (vmas s w)" using hd w [OF that(2)] by simp
    moreover have "vm_start (vmas s w) < vm_end (vmas s w)" using ok vs that(2) by auto
    moreover have "vm_end (vmas s w) \<le> vm_start x \<or> vm_end x \<le> vm_start (vmas s w)"
      using that vs by (auto simp: fits_def)
    ultimately show ?thesis by auto
  qed
  show "fits s vs x \<longleftrightarrow> (us \<noteq> [] \<longrightarrow> vm_end (vmas s (last us)) \<le> vm_start x) \<and>
    (ws \<noteq> [] \<longrightarrow> vm_end x \<le> vm_start (vmas s (hd ws)))"
  proof
    assume "fits s vs x"
    then show "(us \<noteq> [] \<longrightarrow> vm_end (vmas s (last us)) \<le> vm_start x) \<and>
      (ws \<noteq> [] \<longrightarrow> vm_end x \<le> vm_start (vmas s (hd ws)))" using f1 f2 by simp
  next
    assume "(us \<noteq> [] \<longrightarrow> vm_end (vmas s (last us)) \<le> vm_start x) \<and>
      (ws \<noteq> [] \<longrightarrow> vm_end x \<le> vm_start (vmas s (hd ws)))"
    then show "fits s vs x" unfolding fits_def vs using l w by (force intro: order_trans)
  qed
qed

text \<open>The state after the insertion of \<open>v\<close> behind the entry \<open>p\<close>.\<close>

definition linked :: "vmm \<Rightarrow> nat \<Rightarrow> nat \<Rightarrow> vnode \<Rightarrow> vmm" where
  "linked s m v p =
     (let s = upd_vma v (\<lambda>x. x\<lparr>vm_mm := m\<rparr>) s;
          s = s\<lparr>vlinks := list_add_after (vlinks s) p (VmaLink v)\<rparr>
      in upd_mm m (\<lambda>r. r\<lparr>map_count := map_count r + 1\<rparr>) s)"

lemma linked_simps [simp]:
  "vmem (linked s m v p) = vmem s" "vsync (linked s m v p) = vsync s" "vma_live (linked s m v p) = vma_live s"
  "mm_live (linked s m v p) = mm_live s" "vlinks (linked s m v p) = list_add_after (vlinks s) p (VmaLink v)"
  "pgfault_num (linked s m v p) = pgfault_num s" "pgdir (mms (linked s m v p) n) = pgdir (mms s n)"
  "mm_count (mms (linked s m v p) n) = mm_count (mms s n)" "sm_priv (mms (linked s m v p) n) = sm_priv (mms s n)"
  "mmap_cache (mms (linked s m v p) n) = mmap_cache (mms s n)" "n \<noteq> m \<Longrightarrow> mms (linked s m v p) n = mms s n"
  "map_count (mms (linked s m v p) m) = map_count (mms s m) + 1"
  "vm_start (vmas (linked s m v p) w) = vm_start (vmas s w)" "vm_end (vmas (linked s m v p) w) = vm_end (vmas s w)"
  "vm_flags (vmas (linked s m v p) w) = vm_flags (vmas s w)"
  "vm_mm (vmas (linked s m v p) w) = (if w = v then m else vm_mm (vmas s w))"
  by (auto simp: linked_def upd_mm_def upd_vma_def Let_def)

lemma linked_defs [simp]:
  "before (linked s m v p) = before s" "vma_ok (vmas (linked s m v p) w) = vma_ok (vmas s w)"
  "covers (vmas (linked s m v p) w) = covers (vmas s w)"
  by (auto simp: before_def fun_eq_iff vma_ok_def covers_def)

lemma at_end_next:
  assumes "dlist h (MmapList m) (map VmaLink (us @ ws))"
  shows "list_next h (at_end m us) = (case ws of [] \<Rightarrow> MmapList m | w # _ \<Rightarrow> VmaLink w)"
proof (cases us rule: rev_cases)
  case Nil
  then show ?thesis using list_first [of h m ws] assms by (simp add: at_end_def)
next
  case (snoc zs z)
  then show ?thesis using list_step [of h m zs z ws] assms by (simp add: at_end_def)
qed

lemma at_end_add:
  assumes "dlist h (MmapList m) (map VmaLink (us @ ws))" and "v \<notin> set (us @ ws)"
  shows "dlist (list_add_after h (at_end m us) (VmaLink v)) (MmapList m) (map VmaLink (us @ v # ws))"
proof (cases us rule: rev_cases)
  case Nil
  then show ?thesis using dlist_add_after_head [of h "MmapList m" "map VmaLink ws" "VmaLink v"] assms
    by (auto simp: at_end_def)
next
  case (snoc zs z)
  then show ?thesis
    using dlist_add_after [of h "MmapList m" "map VmaLink zs" "VmaLink z" "map VmaLink ws" "VmaLink v"] assms
    by (auto simp: at_end_def)
qed

lemma insert_vma_ok:
  assumes ar: "areas s m vs" and v: "vma_live s v" "v \<notin> set vs" and x: "vma_ok (vmas s v)"
  defines "us \<equiv> below s (vm_start (vmas s v)) vs" and "ws \<equiv> above s (vm_start (vmas s v)) vs"
  shows "insert_vma_struct s m v =
      (if fits s vs (vmas s v) then kret (linked s m v (at_end m us)) else kpanic AssertFail)"
    and "fits s vs (vmas s v) \<Longrightarrow> areas (linked s m v (at_end m us)) m (us @ v # ws)"
proof -
  note A = areasD [OF ar]
  have vs: "vs = us @ ws" by (simp add: us_def ws_def)
  have ok: "\<forall>w \<in> set vs. vm_start (vmas s w) < vm_end (vmas s w)" using A(6) vma_ok_less by blast
  note xl = vma_ok_less [OF x]
  note F = fits_iff [OF A(3) ok xl, folded us_def ws_def]
  have sc: "insert_scan s m (vm_start (vmas s v)) (MmapList m) (list_next (vlinks s) (MmapList m)) = kret (at_end m us)"
    using insert_scan_ok [of s m "[]" vs "vm_start (vmas s v)"] A(2,4) list_first [OF A(2)]
    by (simp add: us_def) (simp add: at_end_def)
  have nx: "list_next (vlinks s) (at_end m us) = (case ws of [] \<Rightarrow> MmapList m | w # _ \<Rightarrow> VmaLink w)"
    using at_end_next A(2) vs by blast
  have last: "us \<noteq> [] \<Longrightarrow> vma_live s (last us) \<and> vm_start (vmas s (last us)) < vm_end (vmas s (last us))"
    using vs A(4) ok by auto
  have hd: "ws = w # ws' \<Longrightarrow> vma_live s w \<and> vm_start (vmas s w) < vm_end (vmas s w)" for w ws'
    using vs A(4) ok by auto
  show "insert_vma_struct s m v =
      (if fits s vs (vmas s v) then kret (linked s m v (at_end m us)) else kpanic AssertFail)"
    using v(1) A(1) xl sc nx last hd F(1)
    by (cases ws; cases "us = []") (auto simp: insert_vma_struct_def check_next_def check_vma_overlap_def at_end_def
        linked_def Let_def kassert_def)
  show "areas (linked s m v (at_end m us)) m (us @ v # ws)" if "fits s vs (vmas s v)"
  proof -
    have d: "dlist (list_add_after (vlinks s) (at_end m us) (VmaLink v)) (MmapList m) (map VmaLink (us @ v # ws))"
      using at_end_add A(2) v(2) vs by blast
    have "sorted_wrt (before s) (us @ v # ws)"
      using A(3) F(2,3) [OF that] unfolding vs by (auto simp: sorted_wrt_append before_def)
    then show ?thesis using d ar v(1) x unfolding areas_def vs by auto
  qed
qed

text \<open>The insertion adds the new area to the address space.\<close>

lemma linked_area_at:
  assumes "areas (linked s m v p) m (us @ v # ws)"
  shows "area_at (linked s m v p) (us @ v # ws) a = (if covers (vmas s v) a then Some v else area_at s (us @ ws) a)"
proof (cases "covers (vmas s v) a")
  case True
  then show ?thesis using area_at_Some [OF areasD(3) [OF assms]] by simp
next
  case False
  have "List.find (\<lambda>w. covers (vmas s w) a) (us @ v # ws) = List.find (\<lambda>w. covers (vmas s w) a) (us @ ws)"
    using False by (induction us) auto
  then show ?thesis using False by (simp add: area_at_def)
qed

lemma linked_space:
  assumes "areas (linked s m v p) m (us @ v # ws)"
  shows "space (linked s m v p) (us @ v # ws) a =
    (if covers (vmas s v) a then Some (vm_flags (vmas s v)) else space s (us @ ws) a)"
  unfolding space_def linked_area_at [OF assms] by simp

section \<open>Mapping\<close>

text \<open>\<^verbatim>\<open>kmalloc\<close> answers memory that is not in use.\<close>

definition heap_ok :: "(vmm \<Rightarrow> nat option) \<Rightarrow> bool" where
  "heap_ok km \<longleftrightarrow> (\<forall>s v. km s = Some v \<longrightarrow> \<not> vma_live s v)"

text \<open>The state after \<^verbatim>\<open>vma_create\<close>.\<close>

definition created :: "nat \<Rightarrow> u32 \<Rightarrow> u32 \<Rightarrow> u32 \<Rightarrow> vmm \<Rightarrow> vmm" where
  "created v start end vflags s =
     upd_vma v (\<lambda>x. x\<lparr>vm_start := start, vm_end := end, vm_flags := vflags\<rparr>)
       (s\<lparr>vma_live := (vma_live s)(v := True)\<rparr>)"

lemma vma_create_eq:
  "vma_create km start end vflags s =
     (case km s of None \<Rightarrow> (None, s) | Some v \<Rightarrow> (Some v, created v start end vflags s))"
  by (cases "km s") (simp_all add: vma_create_def created_def Let_def)

lemma created_simps [simp]:
  "vmem (created v a b f s) = vmem s" "vsync (created v a b f s) = vsync s" "mms (created v a b f s) = mms s"
  "mm_live (created v a b f s) = mm_live s" "vlinks (created v a b f s) = vlinks s"
  "pgfault_num (created v a b f s) = pgfault_num s" "vma_live (created v a b f s) = (vma_live s)(v := True)"
  "vm_start (vmas (created v a b f s) v) = a" "vm_end (vmas (created v a b f s) v) = b"
  "vm_flags (vmas (created v a b f s) v) = f" "w \<noteq> v \<Longrightarrow> vmas (created v a b f s) w = vmas s w"
  by (auto simp: created_def upd_vma_def)

lemma created_areas:
  assumes "areas s m vs" and "\<not> vma_live s v"
  shows "areas (created v a b f s) m vs" "v \<notin> set vs" "area_at (created v a b f s) vs c = area_at s vs c"
    "space (created v a b f s) vs c = space s vs c"
proof -
  show v: "v \<notin> set vs" using areasD(4) [OF assms(1)] assms(2) by auto
  have e: "vmas (created v a b f s) w = vmas s w" if "w \<in> set vs" for w using v that by (cases "w = v") auto
  show "areas (created v a b f s) m vs"
    using assms(1) v unfolding areas_def by (auto simp: e before_def sorted_wrt_iff_nth_less)
  show "area_at (created v a b f s) vs c = area_at s vs c"
    unfolding area_at_def by (rule find_cong) (simp_all add: e)
  then show "space (created v a b f s) vs c = space s vs c"
    using area_in [OF assms(1), of c] by (auto simp: space_def e intro: option.map_cong)
qed

lemma ROUNDDOWN_aligned [simp]: "ROUNDDOWN a PGSIZE mod PGSIZE = 0"
  using ROUNDDOWN_dvd [of PGSIZE a] by (simp add: word_unat_eq_iff unat_mod dvd_eq_mod_eq_0)

lemma ROUNDUP_aligned [simp]: "ROUNDUP a PGSIZE mod PGSIZE = 0"
  by (simp add: ROUNDUP_def)

text \<open>An area fits when it covers no address that is in use.\<close>

lemma fits_space:
  assumes "areas s m vs" and "vm_start x < vm_end x"
  shows "fits s vs x \<longleftrightarrow> (\<forall>a. covers x a \<longrightarrow> space s vs a = None)"
proof
  assume f: "fits s vs x"
  have "\<not> covers (vmas s w) a" if "covers x a" "w \<in> set vs" for a w
    using f that by (auto simp: fits_def covers_def dest!: bspec)
  then show "\<forall>a. covers x a \<longrightarrow> space s vs a = None" by (simp add: space_def area_at_None)
next
  assume n: "\<forall>a. covers x a \<longrightarrow> space s vs a = None"
  show "fits s vs x"
    unfolding fits_def
  proof
    fix w
    assume w: "w \<in> set vs"
    let ?a = "max (vm_start x) (vm_start (vmas s w))"
    have "covers x ?a \<longrightarrow> \<not> covers (vmas s w) ?a" using n w by (auto simp: space_def area_at_None)
    moreover have "vm_start (vmas s w) < vm_end (vmas s w)" using areasD(6) [OF assms(1) w] by (rule vma_ok_less)
    ultimately show "vm_end (vmas s w) \<le> vm_start x \<or> vm_end x \<le> vm_start (vmas s w)"
      using assms(2) by (auto simp: covers_def max_def not_less not_le split: if_splits)
  qed
qed

lemma created_insert:
  fixes f :: u32
  assumes ar: "areas s m vs" and dead: "\<not> vma_live s v" and ok: "start mod PGSIZE = 0" "end mod PGSIZE = 0" "USER_ACCESS start end"
  defines "t \<equiv> created v start end f s"
  defines "us \<equiv> below t start vs" and "ws \<equiv> above t start vs"
  defines "s' \<equiv> linked t m v (at_end m us)"
  shows "insert_vma_struct t m v =
      (if \<forall>a. start \<le> a \<and> a < end \<longrightarrow> space s vs a = None then kret s' else kpanic AssertFail)"
    and "\<forall>a. start \<le> a \<and> a < end \<longrightarrow> space s vs a = None \<Longrightarrow> areas s' m (us @ v # ws)"
    and "\<forall>a. start \<le> a \<and> a < end \<longrightarrow> space s vs a = None \<Longrightarrow>
      space s' (us @ v # ws) b = (if start \<le> b \<and> b < end then Some f else space s vs b)"
proof -
  note C = created_areas(1) [OF ar dead, of start "end" f, folded t_def] created_areas(2) [OF ar dead]
    created_areas(3,4) [OF ar dead, of start "end" f, folded t_def]
  have x: "vm_start (vmas t v) = start" "vm_end (vmas t v) = end" "vm_flags (vmas t v) = f" "vma_live t v"
    by (simp_all add: t_def)
  then have vok: "vma_ok (vmas t v)" using ok by (simp add: vma_ok_def)
  note I = insert_vma_ok [OF C(1) x(4) C(2) vok, unfolded x(1), folded us_def ws_def, folded s'_def]
  have free: "fits t vs (vmas t v) \<longleftrightarrow> (\<forall>a. start \<le> a \<and> a < end \<longrightarrow> space s vs a = None)"
    using fits_space [OF C(1) vma_ok_less [OF vok]] by (simp add: covers_def x C(4))
  show "insert_vma_struct t m v =
      (if \<forall>a. start \<le> a \<and> a < end \<longrightarrow> space s vs a = None then kret s' else kpanic AssertFail)"
    using I(1) unfolding free .
  show ar': "areas s' m (us @ v # ws)" if "\<forall>a. start \<le> a \<and> a < end \<longrightarrow> space s vs a = None"
    using I(2) that unfolding free .
  show "space s' (us @ v # ws) b = (if start \<le> b \<and> b < end then Some f else space s vs b)"
    if "\<forall>a. start \<le> a \<and> a < end \<longrightarrow> space s vs a = None"
    using linked_space [OF ar' [OF that, unfolded s'_def], folded s'_def, of b]
    by (simp add: covers_def x C(4) us_def ws_def)
qed

text \<open>C8. \<^verbatim>\<open>mm_map\<close> in a well-formed address space has four outcomes.  It refuses with \<open>-E_INVAL\<close> a
  range outside user space and a range whose first page is in an area already; it fails with
  \<open>-E_NO_MEM\<close> when there is no memory for the descriptor; in these cases no area changes.  When the
  pages of the range are all free it returns 0 and the range, and only the range, has the given
  flags afterwards.  When the first page is free and a later one is not, an assertion stops the
  kernel.  The areas stay sorted, disjoint, page-aligned and in user space.\<close>

theorem mm_map_correct:
  assumes ar: "areas s m vs" and km: "heap_ok km"
    and "start = ROUNDDOWN addr PGSIZE" and "end = ROUNDUP (addr + len) PGSIZE"
  shows "if \<not> USER_ACCESS start end \<or> space s vs start \<noteq> None
    then \<exists>s'. mm_map km s (Some m) addr len vflags = kret (- E_INVAL, None, s') \<and>
      areas s' m vs \<and> space s' vs = space s vs
    else if km s = None
    then \<exists>s'. mm_map km s (Some m) addr len vflags = kret (- E_NO_MEM, None, s') \<and>
      areas s' m vs \<and> space s' vs = space s vs
    else if \<forall>a. start \<le> a \<and> a < end \<longrightarrow> space s vs a = None
    then \<exists>v s' vs'. mm_map km s (Some m) addr len vflags = kret (0, Some v, s') \<and> areas s' m vs' \<and>
      v \<in> set vs' \<and> (\<forall>a. space s' vs' a = (if start \<le> a \<and> a < end then Some vflags else space s vs a))
    else mm_map km s (Some m) addr len vflags = kpanic AssertFail"
proof -
  note A = areasD [OF ar]
  have al: "start mod PGSIZE = 0" "end mod PGSIZE = 0" using assms(3,4) by simp_all
  consider (inval) "\<not> USER_ACCESS start end" | (taken) "USER_ACCESS start end" "space s vs start \<noteq> None"
    | (mem) "USER_ACCESS start end" "space s vs start = None" "km s = None"
    | (new) v where "USER_ACCESS start end" "space s vs start = None" "km s = Some v"
    by (cases "km s") auto
  then show ?thesis
  proof cases
    case inval
    then show ?thesis using ar assms(3,4) by (auto simp: mm_map_def Let_def)
  next
    case taken
    then obtain v where v: "area_at s vs start = Some v" by (auto simp: space_def)
    then have "v \<in> set vs" "covers (vmas s v) start" using area_at_Some [OF A(3)] by auto
    then have "vm_start (vmas s v) < end" "vma_live s v"
      using taken(1) A(4) by (auto simp: covers_def USER_ACCESS_def)
    then have "mm_map km s (Some m) addr len vflags = kret (- E_INVAL, None, cached m (Some v) s)"
      using taken(1) find_vma_ok [OF ar, of start] v assms(3,4) by (simp add: mm_map_def Let_def)
    then show ?thesis using taken cached_areas [OF ar, of "Some v"] \<open>v \<in> set vs\<close> by (auto simp: fun_eq_iff)
  next
    case mem
    then have "area_at s vs start = None" by (simp add: space_def)
    then have "mm_map km s (Some m) addr len vflags = kret (- E_NO_MEM, None, s)"
      using mem find_vma_ok [OF ar, of start] assms(3,4) by (simp add: mm_map_def Let_def cached_def vma_create_eq)
    then show ?thesis using mem ar by (auto simp: cached_def)
  next
    case new
    have dead: "\<not> vma_live s v" using km new(3) by (auto simp: heap_ok_def)
    have "area_at s vs start = None" using new(2) by (simp add: space_def)
    then have e: "mm_map km s (Some m) addr len vflags =
        kbind (insert_vma_struct (created v start end vflags s) m v) (\<lambda>s. kret (0, Some v, s))"
      using new find_vma_ok [OF ar, of start] assms(3,4) by (simp add: mm_map_def Let_def cached_def vma_create_eq)
    note I = created_insert [OF ar dead al new(1), where f = vflags]
    show ?thesis
    proof (cases "\<forall>a. start \<le> a \<and> a < end \<longrightarrow> space s vs a = None")
      case True
      then have "\<exists>v s' vs'. mm_map km s (Some m) addr len vflags = kret (0, Some v, s') \<and> areas s' m vs' \<and>
          v \<in> set vs' \<and> (\<forall>a. space s' vs' a = (if start \<le> a \<and> a < end then Some vflags else space s vs a))"
        using I(2) [OF True] I(3) [OF True] unfolding e I(1) by (intro exI conjI) (assumption | simp)+
      then show ?thesis using new True by simp
    next
      case False
      then have "mm_map km s (Some m) addr len vflags = kpanic AssertFail" unfolding e I(1) by simp
      then show ?thesis using new False by simp
    qed
  qed
qed

section \<open>A small address space\<close>

definition empty_vmm :: "mem \<Rightarrow> vmm" where
  "empty_vmm h = \<lparr>vmem = h, vsync = small_sync,
     vmas = (\<lambda>_. \<lparr>vm_mm = 0, vm_start = 0, vm_end = 0, vm_flags = 0\<rparr>), vma_live = (\<lambda>_. False),
     mms = (\<lambda>m. \<lparr>mmap_cache = None, pgdir = Some (10 + m), map_count = 0, sm_priv = False, mm_count = 0,
        mm_sem = 0, locked_by = 0, brk_start = 0, brk = 0\<rparr>), mm_live = (\<lambda>_. True),
     vlinks = \<lparr>lnext = (\<lambda>p. p), lprev = (\<lambda>p. p)\<rparr>, pgfault_num = 0\<rparr>"

definition small_heap :: "vmm \<Rightarrow> nat option" where
  "small_heap s = List.find (\<lambda>v. \<not> vma_live s v) [0, 1, 2, 3]"

lemma small_heap_ok [simp]: "heap_ok small_heap"
  by (auto simp: heap_ok_def small_heap_def split: if_splits)

lemma empty_vmm_areas [simp]: "areas (empty_vmm h) m []" "space (empty_vmm h) [] a = None"
  by (simp_all add: areas_def empty_vmm_def dlist_def space_def area_at_def)

lemma small_heap_empty [simp]: "small_heap (empty_vmm h) = Some 0"
  by (simp add: small_heap_def empty_vmm_def)

lemma page_round: "ROUNDDOWN 0x200000 PGSIZE = 0x200000" "ROUNDUP 0x201000 PGSIZE = 0x201000"
  "ROUNDDOWN 0x201000 PGSIZE = 0x201000" "ROUNDUP 0x202000 PGSIZE = 0x202000"
  by (simp_all add: ROUNDDOWN_def ROUNDUP_def)

theorem mm_map_correct_witness:
  "\<exists>v s' vs. mm_map small_heap (empty_vmm (two_dirs raw_pmm)) (Some 0) 0x200000 0x1000 3 = kret (0, Some v, s') \<and>
     areas s' 0 vs \<and> space s' vs 0x200FFF = Some 3 \<and> space s' vs 0x201000 = None"
  using mm_map_correct [of "empty_vmm (two_dirs raw_pmm)" 0 "[]" small_heap "0x200000" "0x200000" "0x201000" "0x1000" 3]
  by (fastforce simp: page_round USER_ACCESS_def)

section \<open>Checking a range of user memory\<close>

text \<open>What the kernel may do at an address: the area allows it, and the lowest page of a stack is a
  guard page for writes.\<close>

definition allowed :: "vmm \<Rightarrow> nat list \<Rightarrow> bool \<Rightarrow> u32 \<Rightarrow> bool" where
  "allowed s vs write a = (case area_at s vs a of
     None \<Rightarrow> False
   | Some v \<Rightarrow> vm_flags (vmas s v) AND (if write then VM_WRITE else VM_READ) \<noteq> 0 \<and>
       (write \<and> vm_flags (vmas s v) AND VM_STACK \<noteq> 0 \<longrightarrow> vm_start (vmas s v) + PGSIZE \<le> a))"

lemma cached_cached: "cached m r (cached m q s) = cached m (if r = None then q else r) s"
  by (cases r; cases q) (simp_all add: cached_def upd_mm_def)

lemma allowed_cached [simp]: "allowed (cached m r s) vs write a = allowed s vs write a"
  by (cases "area_at s vs a") (simp_all add: allowed_def)

lemma check_loop_ok:
  assumes "areas s m vs"
  shows "\<exists>r. set_option r \<subseteq> set vs \<and> check_loop s m start end write =
    kret (\<forall>a. start \<le> a \<and> a < end \<longrightarrow> allowed s vs write a, cached m r s)"
  using assms
proof (induction "unat end - unat start" arbitrary: s start rule: less_induct)
  case less
  note A = areasD [OF less.prems]
  show ?case
  proof (cases "start < end")
    case False
    then show ?thesis by (subst check_loop.simps) (auto simp: cached_def intro!: exI [of _ None])
  next
    case True
    note f = find_vma_ok [OF less.prems, of start]
    show ?thesis
    proof (cases "area_at s vs start")
      case None
      then have "\<not> allowed s vs write start" by (simp add: allowed_def)
      moreover have "check_loop s m start end write = kret (False, s)"
        using True f None by (subst check_loop.simps) (simp add: cached_def)
      ultimately show ?thesis using True by (auto simp: cached_def intro!: exI [of _ None])
    next
      case (Some v)
      let ?x = "vmas s v" and ?s = "cached m (Some v) s"
      have v: "v \<in> set vs" "vma_live s v" "covers ?x start" using area_at_Some [OF A(3)] Some A(4) by auto
      have here: "area_at s vs a = Some v" if "start \<le> a" "a < vm_end ?x" for a
        using area_at_Some [OF A(3)] v that by (auto simp: covers_def)
      show ?thesis
      proof (cases "allowed s vs write start")
        case False
        then have "check_loop s m start end write = kret (False, ?s)"
          using True f Some v by (subst check_loop.simps) (auto simp: allowed_def covers_def not_le not_less)
        then show ?thesis using False True v(1) by (auto intro!: exI [of _ "Some v"])
      next
        case allow: True
        have lt: "start < vm_end ?x" using v(3) by (simp add: covers_def)
        have e: "check_loop s m start end write = check_loop ?s m (vm_end ?x) end write"
          using True f Some v allow by (subst check_loop.simps) (auto simp: allowed_def covers_def not_le not_less)
        have "unat end - unat (vm_end ?x) < unat end - unat start"
          using lt True by (simp add: word_less_nat_alt)
        from less.hyps [OF this cached_areas [OF less.prems, of "Some v"]] v(1)
        obtain r where r: "set_option r \<subseteq> set vs" "check_loop ?s m (vm_end ?x) end write =
            kret (\<forall>a. vm_end ?x \<le> a \<and> a < end \<longrightarrow> allowed s vs write a, cached m r ?s)" by auto
        have "allowed s vs write a" if "start \<le> a" "a < vm_end ?x" for a
          using allow here [OF that] here [of start] that lt by (auto simp: allowed_def intro: order_trans)
        then have "(\<forall>a. vm_end ?x \<le> a \<and> a < end \<longrightarrow> allowed s vs write a) \<longleftrightarrow>
            (\<forall>a. start \<le> a \<and> a < end \<longrightarrow> allowed s vs write a)"
          using lt by (meson less_imp_le linorder_not_le order_trans)
        then show ?thesis using e r v(1) by (auto simp: cached_cached intro!: exI [of _ "if r = None then Some v else r"])
      qed
    qed
  qed
qed

text \<open>C17. \<^verbatim>\<open>user_mem_check\<close> answers true exactly when the whole range lies in user space and every
  address of it is in an area that allows the access, writes to the guard page of a stack
  excluded; it always returns and changes nothing but the lookup cache.\<close>

theorem user_mem_check_correct:
  assumes "areas s m vs"
  shows "\<exists>s'. user_mem_check s (Some m) addr len write =
      kret (USER_ACCESS addr (addr + len) \<and> (\<forall>a. addr \<le> a \<and> a < addr + len \<longrightarrow> allowed s vs write a), s') \<and>
    areas s' m vs \<and> space s' vs = space s vs"
proof (cases "USER_ACCESS addr (addr + len)")
  case False
  then show ?thesis using assms by (simp add: user_mem_check_def)
next
  case True
  obtain r where r: "set_option r \<subseteq> set vs" "check_loop s m addr (addr + len) write =
      kret (\<forall>a. addr \<le> a \<and> a < addr + len \<longrightarrow> allowed s vs write a, cached m r s)"
    using check_loop_ok [OF assms] by blast
  then show ?thesis using True cached_areas [OF assms r(1)]
    by (auto simp: user_mem_check_def fun_eq_iff intro!: exI [of _ "cached m r s"])
qed

definition one_vmm :: "mem \<Rightarrow> vmm" where
  "one_vmm h = linked (created 0 0x200000 0x201000 3 (empty_vmm h)) 0 0 (MmapList 0)"

lemma one_vmm_areas: "areas (one_vmm h) 0 [0]" "area_at (one_vmm h) [0] a = (if 0x200000 \<le> a \<and> a < 0x201000 then Some 0 else None)"
  "vm_flags (vmas (one_vmm h) 0) = 3" "vmem (one_vmm h) = h" "pgdir (mms (one_vmm h) m) = Some (10 + m)"
  "mm_count (mms (one_vmm h) m) = 0" "vm_start (vmas (one_vmm h) 0) = 0x200000" "vm_end (vmas (one_vmm h) 0) = 0x201000"
proof -
  let ?s = "empty_vmm h"
  have d: "\<not> vma_live ?s 0" by (simp add: empty_vmm_def)
  have n: "\<forall>a. 0x200000 \<le> a \<and> a < 0x201000 \<longrightarrow> space ?s [] a = None" by simp
  note C = created_insert [OF empty_vmm_areas(1) [of h 0] d, of "0x200000" "0x201000" 3]
  have e: "linked (created 0 0x200000 0x201000 3 ?s) 0 0 (at_end 0 (below (created 0 0x200000 0x201000 3 ?s) 0x200000 [])) =
      one_vmm h" by (simp add: one_vmm_def below_def at_end_def)
  show ar: "areas (one_vmm h) 0 [0]"
    using C(2) [OF _ _ _ n] unfolding e by (simp add: below_def above_def USER_ACCESS_def)
  show "vm_flags (vmas (one_vmm h) 0) = 3" "vmem (one_vmm h) = h" "pgdir (mms (one_vmm h) m) = Some (10 + m)"
    "mm_count (mms (one_vmm h) m) = 0" "vm_start (vmas (one_vmm h) 0) = 0x200000" "vm_end (vmas (one_vmm h) 0) = 0x201000"
    by (simp_all add: one_vmm_def) (simp_all add: empty_vmm_def)
  show "area_at (one_vmm h) [0] a = (if 0x200000 \<le> a \<and> a < 0x201000 then Some 0 else None)"
    by (simp add: area_at_def one_vmm_def covers_def)
qed

theorem user_mem_check_correct_witness:
  "(\<exists>s'. user_mem_check (one_vmm (two_dirs raw_pmm)) (Some 0) 0x200010 0x20 True = kret (True, s')) \<and>
   (\<exists>s'. user_mem_check (one_vmm (two_dirs raw_pmm)) (Some 0) 0x200FF0 0x20 True = kret (False, s'))"
proof
  note one = one_vmm_areas [of "two_dirs raw_pmm"]
  have "allowed (one_vmm (two_dirs raw_pmm)) [0] True a" if "0x200010 \<le> a" "a < 0x200030" for a
    using that order_trans [of "0x200000" "0x200010" a] less_trans [of a "0x200030" "0x201000"]
    by (simp add: allowed_def one)
  then show "\<exists>s'. user_mem_check (one_vmm (two_dirs raw_pmm)) (Some 0) 0x200010 0x20 True = kret (True, s')"
    using user_mem_check_correct [OF one(1), of "0x200010" "0x20" True] by (auto simp: USER_ACCESS_def)
  have "\<not> allowed (one_vmm (two_dirs raw_pmm)) [0] True 0x201000" by (simp add: allowed_def one)
  then have "\<not> (\<forall>a. 0x200FF0 \<le> a \<and> a < 0x201010 \<longrightarrow> allowed (one_vmm (two_dirs raw_pmm)) [0] True a)"
    by (auto intro!: exI [of _ "0x201000"])
  then show "\<exists>s'. user_mem_check (one_vmm (two_dirs raw_pmm)) (Some 0) 0x200FF0 0x20 True = kret (False, s')"
    using user_mem_check_correct [OF one(1), of "0x200FF0" "0x20" True] by auto
qed

end
