(* ===== verification/Vmm_Proof.thy ===== *)
theory Vmm_Proof
  imports Vmm
begin

text \<open>
  The operations of \<^verbatim>\<open>kern/mm/vmm.c\<close> that change page tables: \<^verbatim>\<open>mm_unmap\<close>, \<^verbatim>\<open>exit_mmap\<close>,
  \<^verbatim>\<open>dup_mmap\<close> and \<^verbatim>\<open>do_pgfault\<close>, proved by composing the lemmas on areas of \<open>Vmm\<close> with those on
  page tables of \<open>Paging\<close>.
\<close>

unbundle bit_operations_syntax

section \<open>Unmapping\<close>

text \<open>The entries of \<open>d\<close> for the pages in \<open>P\<close> are gone, all others are as before.\<close>

definition cleared :: "nat set \<Rightarrow> mem \<Rightarrow> nat \<Rightarrow> nat set \<Rightarrow> mem \<Rightarrow> bool" where
  "cleared D h d P h' \<longleftrightarrow> same_env h h' \<and> (\<forall>d' \<in> D. frame h' d' = frame h d') \<and>
     (\<forall>d' \<in> D. \<forall>q < user_pages. vpte h' d' q =
        (if d' = d \<and> q \<in> P \<and> present (vpte h d' q) then 0 else vpte h d' q))"

lemma cleared_refl: "cleared D h d {} h"
  by (simp add: cleared_def)

lemma cleared_trans: "cleared D h d P h1 \<Longrightarrow> cleared D h1 d Q h2 \<Longrightarrow> cleared D h d (P \<union> Q) h2"
  using same_env_trans [of h h1 h2] unfolding cleared_def by auto

lemma cleared_vpte:
  "cleared D h d P h' \<Longrightarrow> d' \<in> D \<Longrightarrow> q < user_pages \<Longrightarrow> vpte h' d' q =
     (if d' = d \<and> q \<in> P \<and> present (vpte h d' q) then 0 else vpte h d' q)"
  by (simp add: cleared_def)

lemma cleared_mapped: "cleared D h d P h' \<Longrightarrow> mapped h' D \<subseteq> mapped h D"
proof -
  assume c: "cleared D h d P h'"
  have "pmap h' x = Some q \<Longrightarrow> pmap h x = Some q" if "x \<in> slots D" for x q
    using cleared_vpte [OF c, of "fst x" "snd x"] that by (auto simp: slots_def pmap_def Let_def split: if_splits)
  then show ?thesis by (auto simp: mapped_def)
qed

lemma unmap_range_ok:
  assumes "paging_ok M D h F" and "d \<in> D" and "start mod PGSIZE = 0" "end mod PGSIZE = 0" "USER_ACCESS start end"
  shows "\<exists>h'. unmap_range h d start end = kret h' \<and> cleared D h d {vpn start..<vpn end} h' \<and>
    paging_ok M D h' (F \<union> (mapped h D - mapped h' D))"
proof -
  obtain h' where h': "unmap_loop h d start end = kret h'" "unmapped D h d (vpn start) (vpn end) h'"
      "paging_ok M D h' (F \<union> (mapped h D - mapped h' D))"
    using unmap_loop_ok [OF assms(1,2) user_range [OF assms(3-5)]] by blast
  moreover have "unmap_range h d start end = kret h'" using assms(3-5) h'(1) by (simp add: unmap_range_def)
  moreover have "cleared D h d {vpn start..<vpn end} h'" using h'(2) by (auto simp: unmapped_def cleared_def)
  ultimately show ?thesis by blast
qed

lemma areas_cong:
  assumes "areas s m vs" and "mm_live s' m = mm_live s m" and "mms s' m = mms s m"
    and "dlist (vlinks s') (MmapList m) (map VmaLink vs)"
    and "\<forall>v \<in> set vs. vma_live s' v = vma_live s v \<and> vmas s' v = vmas s v"
  shows "areas s' m vs" "area_at s' vs a = area_at s vs a" "space s' vs a = space s vs a"
proof -
  have "sorted_wrt (before s') vs = sorted_wrt (before s) vs"
    using assms(5) by (auto simp: before_def sorted_wrt_iff_nth_less)
  then show "areas s' m vs" using assms unfolding areas_def by auto
  show at: "area_at s' vs a = area_at s vs a" unfolding area_at_def by (rule find_cong) (use assms(5) in auto)
  then show "space s' vs a = space s vs a"
    using area_in [OF assms(1), of a] assms(5) by (auto simp: space_def intro: option.map_cong)
qed

text \<open>What the operations on one address space leave alone.\<close>

definition kept :: "vmm \<Rightarrow> vmm \<Rightarrow> bool" where
  "kept s s' \<longleftrightarrow> vsync s' = vsync s \<and> mm_live s' = mm_live s \<and> pgfault_num s' = pgfault_num s \<and>
     (\<forall>n. pgdir (mms s' n) = pgdir (mms s n) \<and> mm_count (mms s' n) = mm_count (mms s n))"

lemma kept_refl [simp]: "kept s s"
  by (simp add: kept_def)

lemma kept_trans [trans]: "kept s s' \<Longrightarrow> kept s' s'' \<Longrightarrow> kept s s''"
  by (simp add: kept_def)

lemma kept_cached [simp]: "kept s (cached m r s)"
  by (simp add: kept_def)

lemma kept_linked [simp]: "kept s (linked s m v p)"
  by (simp add: kept_def)

lemma kept_created [simp]: "kept s (created v a b f s)"
  by (simp add: kept_def)

text \<open>Removing an area from the list.\<close>

definition unlinked :: "vmm \<Rightarrow> nat \<Rightarrow> nat \<Rightarrow> vmm" where
  "unlinked s m v =
     (let s = s\<lparr>vlinks := list_del (vlinks s) (VmaLink v)\<rparr>;
          s = (if mmap_cache (mms s m) = Some v then upd_mm m (\<lambda>r. r\<lparr>mmap_cache := None\<rparr>) s else s)
      in upd_mm m (\<lambda>r. r\<lparr>map_count := map_count r - 1\<rparr>) s)"

lemma unlinked_simps [simp]:
  "vmem (unlinked s m v) = vmem s" "vmas (unlinked s m v) = vmas s" "vma_live (unlinked s m v) = vma_live s"
  "vlinks (unlinked s m v) = list_del (vlinks s) (VmaLink v)" "kept s (unlinked s m v)"
  by (auto simp: unlinked_def upd_mm_def Let_def kept_def)

lemma remove_ok:
  assumes ar: "areas s m (us @ v # ws)"
  shows "remove_vma_struct s m v = kret (unlinked s m v)" "areas (unlinked s m v) m (us @ ws)"
proof -
  note A = areasD [OF ar]
  show "remove_vma_struct s m v = kret (unlinked s m v)"
    using A(4,5) [of v] by (simp add: remove_vma_struct_def unlinked_def Let_def)
  have d: "dlist (list_del (vlinks s) (VmaLink v)) (MmapList m) (map VmaLink (us @ ws))"
    using dlist_del [of "vlinks s" "MmapList m" "map VmaLink us" "VmaLink v" "map VmaLink ws"] A(2) by simp
  have b: "before (unlinked s m v) = before s" by (simp add: before_def fun_eq_iff)
  have "mm_live (unlinked s m v) m" using A(1) by (simp add: unlinked_def upd_mm_def Let_def)
  moreover have "set_option (mmap_cache (mms (unlinked s m v) m)) \<subseteq> set (us @ ws)"
    using A(8) A(7) by (cases "mmap_cache (mms s m)") (auto simp: unlinked_def upd_mm_def Let_def)
  moreover have "map_count (mms (unlinked s m v) m) = int (length (us @ ws))"
    using ar by (auto simp: areas_def unlinked_def upd_mm_def Let_def)
  ultimately show "areas (unlinked s m v) m (us @ ws)"
    using d A(3-6) unfolding areas_def b by (simp add: sorted_wrt_append)
qed

text \<open>One round of the collecting loop moves an area to the list of areas to release.\<close>

definition taken :: "vmm \<Rightarrow> nat \<Rightarrow> nat \<Rightarrow> vmm" where
  "taken s m v = (let s = unlinked s m v in s\<lparr>vlinks := list_add (vlinks s) FreeList (VmaLink v)\<rparr>)"

lemma taken_simps [simp]:
  "vmem (taken s m v) = vmem s" "vmas (taken s m v) = vmas s" "vma_live (taken s m v) = vma_live s" "kept s (taken s m v)"
  by (auto simp: taken_def Let_def kept_def unlinked_def upd_mm_def)

lemma taken_ok:
  assumes ar: "areas s m (us @ v # ws)" and fl: "dlist (vlinks s) FreeList (map VmaLink fs)"
  shows "areas (taken s m v) m (us @ ws)" "dlist (vlinks (taken s m v)) FreeList (map VmaLink (v # fs))"
proof -
  note A = areasD [OF ar]
  let ?h = "list_del (vlinks s) (VmaLink v)"
  have R: "areas (unlinked s m v) m (us @ ws)" by (rule remove_ok(2) [OF ar])
  then have d: "dlist ?h (MmapList m) (map VmaLink (us @ ws))" using areasD(2) [OF R] by simp
  have f: "dlist ?h FreeList (map VmaLink fs)"
    by (rule dlist_del_frame [OF fl A(2)]) auto
  have "set (FreeList # map VmaLink fs) \<inter> set (MmapList m # map VmaLink (us @ v # ws)) = {}"
    by (rule dlist_disjoint [OF fl A(2)]) auto
  then have "VmaLink v \<notin> set (map VmaLink fs)" by auto
  then show "dlist (vlinks (taken s m v)) FreeList (map VmaLink (v # fs))"
    using dlist_add_after_head [OF f, of "VmaLink v"] by (auto simp: taken_def Let_def list_add_def)
  have "dlist (list_add_after ?h FreeList (VmaLink v)) (MmapList m) (map VmaLink (us @ ws))"
    by (rule dlist_add_after_frame [OF d f]) (use A(7) in auto)
  then show "areas (taken s m v) m (us @ ws)"
    using R by (intro areas_cong(1) [OF R]) (auto simp: taken_def Let_def list_add_def unlinked_def upd_mm_def)
qed

lemma collect_ok:
  assumes "areas s m (us @ v # ws)" and "dlist (vlinks s) FreeList (map VmaLink fs)"
  shows "\<exists>s'. unmap_collect s m v end = kret s' \<and>
    areas s' m (us @ dropWhile (\<lambda>w. vm_start (vmas s w) < end) (v # ws)) \<and>
    dlist (vlinks s') FreeList (map VmaLink (rev (takeWhile (\<lambda>w. vm_start (vmas s w) < end) (v # ws)) @ fs)) \<and>
    vmem s' = vmem s \<and> vmas s' = vmas s \<and> vma_live s' = vma_live s \<and> kept s s'"
  using assms
proof (induction ws arbitrary: s v fs)
  case (Nil s v fs)
  note A = areasD [OF Nil.prems(1)] and T = taken_ok [OF Nil.prems] and R = remove_ok(1) [OF Nil.prems(1)]
  have "unmap_collect s m v end = kret (if vm_start (vmas s v) < end then taken s m v else s)"
    using A(4) R list_step [OF A(2)] by (subst unmap_collect.simps) (simp add: taken_def Let_def)
  then show ?case using T Nil.prems by simp
next
  case (Cons w ws s v fs)
  note A = areasD [OF Cons.prems(1)] and T = taken_ok [OF Cons.prems] and R = remove_ok(1) [OF Cons.prems(1)]
  have e: "unmap_collect s m v end = (if vm_start (vmas s v) < end then unmap_collect (taken s m v) m w end else kret s)"
    using A(4) R list_step [OF A(2)] by (subst unmap_collect.simps) (simp add: taken_def Let_def)
  show ?case
  proof (cases "vm_start (vmas s v) < end")
    case True
    have "kept s s' " if "kept (taken s m v) s'" for s' using kept_trans [OF taken_simps(4) that] .
    then show ?thesis using Cons.IH [OF T] True e by auto
  next
    case False
    then show ?thesis using e Cons.prems by simp
  qed
qed

text \<open>Changing the bounds of an area that is in no list.\<close>

definition resized :: "nat \<Rightarrow> u32 \<Rightarrow> u32 \<Rightarrow> vmm \<Rightarrow> vmm" where
  "resized v a b s = upd_vma v (\<lambda>x. x\<lparr>vm_start := a, vm_end := b\<rparr>) s"

lemma resized_simps [simp]:
  "vmem (resized v a b s) = vmem s" "vma_live (resized v a b s) = vma_live s" "vlinks (resized v a b s) = vlinks s"
  "mms (resized v a b s) = mms s" "mm_live (resized v a b s) = mm_live s"
  "kept s (resized v a b s)" "vm_start (vmas (resized v a b s) v) = a" "vm_end (vmas (resized v a b s) v) = b"
  "vm_flags (vmas (resized v a b s) w) = vm_flags (vmas s w)" "w \<noteq> v \<Longrightarrow> vmas (resized v a b s) w = vmas s w"
  by (auto simp: resized_def upd_vma_def kept_def)

lemma resized_areas:
  assumes "areas s m us" and "v \<notin> set us"
  shows "areas (resized v a b s) m us" "space (resized v a b s) us c = space s us c"
proof -
  have u: "\<forall>w \<in> set us. vma_live (resized v a b s) w = vma_live s w \<and> vmas (resized v a b s) w = vmas s w"
    using assms(2) by (auto intro!: resized_simps)
  note C = areas_cong [OF assms(1) _ _ _ u]
  show "areas (resized v a b s) m us" by (rule C(1)) (simp_all add: areasD(2) [OF assms(1)])
  show "space (resized v a b s) us c = space s us c" by (rule C(3)) (simp_all add: areasD(2) [OF assms(1)])
qed

lemma insert_free:
  assumes ar: "areas s m us" and v: "vma_live s v" "v \<notin> set us" "vma_ok (vmas s v)"
    and free: "\<forall>c. covers (vmas s v) c \<longrightarrow> space s us c = None"
  shows "\<exists>s' us'. insert_vma_struct s m v = kret s' \<and> areas s' m us' \<and> set us' = insert v (set us) \<and>
    (\<forall>c. space s' us' c = (if covers (vmas s v) c then Some (vm_flags (vmas s v)) else space s us c)) \<and>
    vmem s' = vmem s \<and> kept s s' \<and> vma_live s' = vma_live s \<and> (\<forall>w. w \<noteq> v \<longrightarrow> vmas s' w = vmas s w) \<and>
    (\<forall>w. w \<notin> insert v (set us) \<longrightarrow> lnext (vlinks s') (VmaLink w) = lnext (vlinks s) (VmaLink w)) \<and>
    (\<forall>n ys. n \<noteq> m \<and> areas s n ys \<and> v \<notin> set ys \<longrightarrow> areas s' n ys \<and> (\<forall>c. space s' ys c = space s ys c))"
proof -
  let ?us = "below s (vm_start (vmas s v)) us" and ?ws = "above s (vm_start (vmas s v)) us"
  let ?p = "at_end m ?us"
  let ?s' = "linked s m v ?p"
  note I = insert_vma_ok [OF ar v]
  have "fits s us (vmas s v)"
    using fits_space [OF ar vma_ok_less [OF v(3)]] free by simp
  then have e: "insert_vma_struct s m v = kret ?s'" and ar': "areas ?s' m (?us @ v # ?ws)" using I by simp_all
  have sp: "space ?s' (?us @ v # ?ws) c = (if covers (vmas s v) c then Some (vm_flags (vmas s v)) else space s us c)" for c
    using linked_space [OF ar', of c] by simp
  have st: "set (?us @ v # ?ws) = insert v (set us)"
    using below_above [of s "vm_start (vmas s v)" us] by (metis Un_insert_right list.simps(15) set_append)
  have vm: "vmas ?s' w = vmas s w" if "w \<noteq> v" for w
    using that by (simp add: linked_def upd_vma_def upd_mm_def Let_def)
  have "last ?us \<in> set us" if "?us \<noteq> []"
    using last_in_set [OF that] by (auto simp: below_def dest: set_takeWhileD)
  then have "?p \<in> set (MmapList m # map VmaLink us)" by (auto simp: at_end_def)
  then have ln: "lnext (vlinks ?s') (VmaLink w) = lnext (vlinks s) (VmaLink w)" if "w \<notin> insert v (set us)" for w
    using that by (auto simp: list_add_after_def list_add_between_def Let_def)
  have other: "areas ?s' n ys \<and> (\<forall>c. space ?s' ys c = space s ys c)" if n: "n \<noteq> m" "areas s n ys" "v \<notin> set ys" for n ys
  proof -
    have p: "?p \<in> set (MmapList m # map VmaLink us)" by fact
    have "dlist (vlinks ?s') (MmapList n) (map VmaLink ys)"
      unfolding linked_simps(5) by (rule dlist_add_after_frame [OF areasD(2) [OF n(2)] areasD(2) [OF ar] _ p]) (use n in auto)
    moreover have "\<forall>w \<in> set ys. vma_live ?s' w = vma_live s w \<and> vmas ?s' w = vmas s w"
    proof
      fix w
      assume "w \<in> set ys"
      then have "w \<noteq> v" using n(3) by auto
      then show "vma_live ?s' w = vma_live s w \<and> vmas ?s' w = vmas s w" using vm by simp
    qed
    ultimately show ?thesis using areas_cong [OF n(2), of ?s'] n(1) by simp
  qed
  have o: "\<forall>n ys. n \<noteq> m \<and> areas s n ys \<and> v \<notin> set ys \<longrightarrow> areas ?s' n ys \<and> (\<forall>c. space ?s' ys c = space s ys c)"
    using other by blast
  show ?thesis
    by (intro exI [of _ ?s'] exI [of _ "?us @ v # ?ws"] conjI o) (use e ar' sp st vm ln in simp_all)
qed

lemma resized_insert:
  assumes ar: "areas s m us" and v: "vma_live s v" "v \<notin> set us" and ok: "a mod PGSIZE = 0" "b mod PGSIZE = 0" "USER_ACCESS a b"
    and free: "\<forall>c. a \<le> c \<and> c < b \<longrightarrow> space s us c = None"
  shows "\<exists>s' us'. insert_vma_struct (resized v a b s) m v = kret s' \<and> areas s' m us' \<and> set us' = insert v (set us) \<and>
    (\<forall>c. space s' us' c = (if a \<le> c \<and> c < b then Some (vm_flags (vmas s v)) else space s us c)) \<and>
    vmem s' = vmem s \<and> kept s s' \<and> vma_live s' = vma_live s \<and> (\<forall>w. w \<noteq> v \<longrightarrow> vmas s' w = vmas s w) \<and>
    (\<forall>w. w \<notin> insert v (set us) \<longrightarrow> lnext (vlinks s') (VmaLink w) = lnext (vlinks s) (VmaLink w))"
proof -
  let ?s = "resized v a b s"
  note R = resized_areas [OF ar v(2), of a b]
  have vl: "vma_live ?s v" "vma_ok (vmas ?s v)" using v ok by (simp_all add: vma_ok_def)
  have cov: "covers (vmas ?s v) c \<longleftrightarrow> a \<le> c \<and> c < b" for c by (simp add: covers_def)
  obtain s' us' where s': "insert_vma_struct ?s m v = kret s'" "areas s' m us'" "set us' = insert v (set us)"
      "\<forall>c. space s' us' c = (if a \<le> c \<and> c < b then Some (vm_flags (vmas ?s v)) else space ?s us c)"
      "vmem s' = vmem ?s" "kept ?s s'" "vma_live s' = vma_live ?s" "\<forall>w. w \<noteq> v \<longrightarrow> vmas s' w = vmas ?s w"
      "\<forall>w. w \<notin> insert v (set us) \<longrightarrow> lnext (vlinks s') (VmaLink w) = lnext (vlinks ?s) (VmaLink w)"
    using insert_free [OF R(1) vl(1) v(2) vl(2)] free unfolding cov R(2) by blast
  have "kept s s'" using kept_trans [OF resized_simps(6) s'(6)] .
  then show ?thesis using s' R(2) by (intro exI [of _ s'] exI [of _ us']) simp
qed

text \<open>Shrinking an area from below inside the list.\<close>

lemma shrunk_areas:
  assumes ar: "areas s m (us @ v # ws)" and a: "vm_start (vmas s v) \<le> a" "a < vm_end (vmas s v)" "a mod PGSIZE = 0"
  shows "areas (resized v a (vm_end (vmas s v)) s) m (us @ v # ws)"
    "space (resized v a (vm_end (vmas s v)) s) (us @ v # ws) c =
       (if covers (vmas s v) c \<and> c < a then None else space s (us @ v # ws) c)"
proof -
  note A = areasD [OF ar]
  let ?s = "resized v a (vm_end (vmas s v)) s" and ?vs = "us @ v # ws"
  have o: "vmas ?s w = vmas s w" if "w \<in> set us \<union> set ws" for w
    using A(7) that by (intro resized_simps(10)) auto
  have ok: "vma_ok (vmas ?s v)"
    using A(6) [of v] a by (auto simp: vma_ok_def USER_ACCESS_def)
  have mm: "vm_mm (vmas ?s w) = vm_mm (vmas s w)" for w by (simp add: resized_def upd_vma_def)
  have "before ?s x y" if "before s x y" for x y
    using that a(1) by (cases "x = v"; cases "y = v") (auto simp: before_def intro: order_trans)
  then have "sorted_wrt (before ?s) ?vs" using A(3) sorted_wrt_mono_rel [of ?vs "before s" "before ?s"] by blast
  moreover have "vma_ok (vmas ?s w)" if "w \<in> set ?vs" for w using o ok A(6) that by auto
  ultimately show ar': "areas ?s m ?vs" using ar unfolding areas_def by (auto simp: mm)
  have "area_at ?s ?vs c = (if covers (vmas s v) c \<and> c < a then None else area_at s ?vs c)"
  proof (cases "covers (vmas s v) c")
    case True
    then have "\<not> covers (vmas s w) c" if "w \<in> set us \<union> set ws" for w
      using sorted_covers [OF A(3), of v w] A(7) that by auto
    then have "area_at ?s ?vs c = None" if "c < a" using o that by (auto simp: area_at_None covers_def)
    moreover have "area_at ?s ?vs c = Some v" if "\<not> c < a"
      using True that by (subst area_at_Some [OF areasD(3) [OF ar']]) (simp add: covers_def)
    moreover have "area_at s ?vs c = Some v" using True by (subst area_at_Some [OF A(3)]) simp
    ultimately show ?thesis using True by auto
  next
    case False
    then have "\<not> covers (vmas ?s v) c" using a(1) by (auto simp: covers_def)
    then have "area_at ?s ?vs c = area_at s ?vs c"
      unfolding area_at_def using False o by (intro find_cong) auto
    then show ?thesis using False by simp
  qed
  then show "space ?s ?vs c = (if covers (vmas s v) c \<and> c < a then None else space s ?vs c)"
    by (auto simp: space_def option.map_comp o_def intro: option.map_cong)
qed

lemma max_min_range:
  fixes a b start "end" :: u32
  assumes "a mod PGSIZE = 0" "b mod PGSIZE = 0" "USER_ACCESS a b"
    "start mod PGSIZE = 0" "end mod PGSIZE = 0" "USER_ACCESS start end" "a < end" "start < b"
  shows "max start a mod PGSIZE = 0" "min end b mod PGSIZE = 0" "USER_ACCESS (max start a) (min end b)"
  using assms by (auto simp: max_def min_def USER_ACCESS_def)

lemma piece_ok:
  assumes ar: "areas s m us" and v: "vma_live s v" "v \<notin> set us" and x: "vma_ok (vmas s v)"
    and r: "start mod PGSIZE = 0" "end mod PGSIZE = 0" "USER_ACCESS start end"
    and o: "vm_start (vmas s v) < end" "start < vm_end (vmas s v)"
      "\<not> (vm_start (vmas s v) < start \<and> end < vm_end (vmas s v))"
    and free: "\<forall>c. covers (vmas s v) c \<longrightarrow> space s us c = None"
  shows "\<exists>s' us'. unmap_piece s m v start end =
      kret (max start (vm_start (vmas s v)), min end (vm_end (vmas s v)), s') \<and> areas s' m us' \<and>
    set us' \<subseteq> insert v (set us) \<and>
    (\<forall>c. space s' us' c = (if covers (vmas s v) c \<and> \<not> (start \<le> c \<and> c < end)
       then Some (vm_flags (vmas s v)) else space s us c)) \<and>
    vmem s' = vmem s \<and> kept s s' \<and> (\<forall>w. w \<noteq> v \<longrightarrow> vma_live s' w = vma_live s w \<and> vmas s' w = vmas s w) \<and>
    (\<forall>w. w \<notin> insert v (set us) \<longrightarrow> lnext (vlinks s') (VmaLink w) = lnext (vlinks s) (VmaLink w))"
proof -
  let ?a = "vm_start (vmas s v)" and ?b = "vm_end (vmas s v)"
  have xa: "?a mod PGSIZE = 0" "?b mod PGSIZE = 0" "USER_ACCESS ?a ?b" using x by (auto simp: vma_ok_def)
  have keep: ?thesis if p: "unmap_piece s m v start end =
        kbind (insert_vma_struct (resized v c1 c2 s) m v) (\<lambda>s. kret (max start ?a, min end ?b, s))"
      and c: "c1 mod PGSIZE = 0" "c2 mod PGSIZE = 0" "USER_ACCESS c1 c2"
      and eq: "\<And>c. c1 \<le> c \<and> c < c2 \<longleftrightarrow> covers (vmas s v) c \<and> \<not> (start \<le> c \<and> c < end)" for c1 c2
  proof -
    have "\<forall>c. c1 \<le> c \<and> c < c2 \<longrightarrow> space s us c = None" using free unfolding eq by blast
    then obtain s' us' where "insert_vma_struct (resized v c1 c2 s) m v = kret s'" "areas s' m us'"
        "set us' = insert v (set us)" "vmem s' = vmem s" "kept s s'" "vma_live s' = vma_live s"
        "\<forall>w. w \<noteq> v \<longrightarrow> vmas s' w = vmas s w"
        "\<forall>w. w \<notin> insert v (set us) \<longrightarrow> lnext (vlinks s') (VmaLink w) = lnext (vlinks s) (VmaLink w)"
        "\<forall>c. space s' us' c = (if c1 \<le> c \<and> c < c2 then Some (vm_flags (vmas s v)) else space s us c)"
      using resized_insert [OF ar v c] by blast
    then show ?thesis using p unfolding eq by (intro exI [of _ s'] exI [of _ us']) simp
  qed
  consider (low) "?a < start" "?b \<le> end" | (high) "start \<le> ?a" "end < ?b" | (all) "start \<le> ?a" "?b \<le> end"
    using o(3) by force
  then show ?thesis
  proof cases
    case low
    have "vma_resize s v ?a start = kret (resized v ?a start s)"
      using v low o xa r by (simp add: vma_resize_def resized_def)
    then have "unmap_piece s m v start end =
        kbind (insert_vma_struct (resized v ?a start s) m v) (\<lambda>s. kret (max start ?a, min end ?b, s))"
      using v low by (auto simp: unmap_piece_def max_def min_def)
    moreover have "USER_ACCESS ?a start" using low xa(3) r(3) by (auto simp: USER_ACCESS_def)
    ultimately show ?thesis by (rule keep [OF _ xa(1) r(1)]) (use low o in \<open>auto simp: covers_def\<close>)
  next
    case high
    have "vma_resize s v end ?b = kret (resized v end ?b s)"
      using v high o xa r by (simp add: vma_resize_def resized_def)
    then have "unmap_piece s m v start end =
        kbind (insert_vma_struct (resized v end ?b s) m v) (\<lambda>s. kret (max start ?a, min end ?b, s))"
      using v high by (auto simp: unmap_piece_def max_def min_def)
    moreover have "USER_ACCESS end ?b" using high xa(3) r(3) by (auto simp: USER_ACCESS_def)
    ultimately show ?thesis by (rule keep [OF _ r(2) xa(2)]) (use high o in \<open>auto simp: covers_def\<close>)
  next
    case all
    let ?s = "s\<lparr>vma_live := (vma_live s)(v := False)\<rparr>"
    have p: "unmap_piece s m v start end = kret (max start ?a, min end ?b, ?s)"
      using v all by (auto simp: unmap_piece_def vma_destroy_def kfree_vma_def max_def min_def)
    have u: "\<forall>w \<in> set us. vma_live ?s w = vma_live s w \<and> vmas ?s w = vmas s w" using v(2) by auto
    note C = areas_cong [OF ar _ _ _ u]
    have ar': "areas ?s m us" by (rule C(1)) (simp_all add: areasD(2) [OF ar])
    have sp: "space ?s us c = space s us c" for c by (rule C(3)) (simp_all add: areasD(2) [OF ar])
    have "\<not> (covers (vmas s v) c \<and> \<not> (start \<le> c \<and> c < end))" for c
      using all by (auto simp: covers_def)
    then have "\<forall>c. space ?s us c = (if covers (vmas s v) c \<and> \<not> (start \<le> c \<and> c < end)
        then Some (vm_flags (vmas s v)) else space s us c)" by (simp only: sp if_False) simp
    then show ?thesis using p ar' by (intro exI [of _ ?s] exI [of _ us] conjI) (auto simp: kept_def)
  qed
qed

text \<open>The chain of areas that the releasing loop follows; only its forward links matter.\<close>

fun chain :: "vnode links \<Rightarrow> vnode \<Rightarrow> nat list \<Rightarrow> bool" where
  "chain h le [] \<longleftrightarrow> le = FreeList"
| "chain h le (v # rs) \<longleftrightarrow> le = VmaLink v \<and> chain h (lnext h (VmaLink v)) rs"

lemma chain_cong: "\<forall>v \<in> set rs. lnext h' (VmaLink v) = lnext h (VmaLink v) \<Longrightarrow> chain h' le rs = chain h le rs"
  by (induction rs arbitrary: le) auto

lemma chain_path: "lpath h p (map VmaLink rs) FreeList \<Longrightarrow> chain h (lnext h p) rs"
  by (induction rs arbitrary: p) auto

text \<open>The areas \<open>rs\<close> wait to be released from the range: they are allocated, in no list, disjoint, and
  each overlaps the range without reaching out of it on both sides.\<close>

definition pending :: "vmm \<Rightarrow> nat list \<Rightarrow> nat list \<Rightarrow> u32 \<Rightarrow> u32 \<Rightarrow> bool" where
  "pending s us rs start end \<longleftrightarrow> distinct rs \<and> set rs \<inter> set us = {} \<and>
     (\<forall>v \<in> set rs. vma_live s v \<and> vma_ok (vmas s v) \<and> vm_start (vmas s v) < end \<and> start < vm_end (vmas s v) \<and>
        \<not> (vm_start (vmas s v) < start \<and> end < vm_end (vmas s v)) \<and>
        (\<forall>c. covers (vmas s v) c \<longrightarrow> space s us c = None)) \<and>
     (\<forall>v \<in> set rs. \<forall>w \<in> set rs. v \<noteq> w \<longrightarrow> (\<forall>c. \<not> (covers (vmas s v) c \<and> covers (vmas s w) c)))"

definition pieces :: "vmm \<Rightarrow> nat list \<Rightarrow> u32 \<Rightarrow> u32 \<Rightarrow> nat set" where
  "pieces s rs start end =
     (\<Union>v \<in> set rs. {vpn (max start (vm_start (vmas s v)))..<vpn (min end (vm_end (vmas s v)))})"

lemma release_ok:
  assumes "areas s m us" and "chain (vlinks s) le rs" and "pending s us rs start end"
    and r: "start mod PGSIZE = 0" "end mod PGSIZE = 0" "USER_ACCESS start end"
    and "paging_ok M D (vmem s) F" and "pgdir (mms s m) = Some d" and d: "d \<in> D"
  shows "\<exists>s' us'. unmap_release s m start end le = kret s' \<and> areas s' m us' \<and>
    (\<forall>c. space s' us' c = (if space s rs c \<noteq> None \<and> \<not> (start \<le> c \<and> c < end) then space s rs c else space s us c)) \<and>
    cleared D (vmem s) d (pieces s rs start end) (vmem s') \<and>
    paging_ok M D (vmem s') (F \<union> (mapped (vmem s) D - mapped (vmem s') D)) \<and> kept s s'"
  using assms(1-3,7,8)
proof (induction rs arbitrary: s us le F)
  case Nil
  then show ?case
    by (subst unmap_release.simps) (auto simp: space_def area_at_def pieces_def cleared_refl)
next
  case (Cons v rs)
  note P = Cons.prems(3) [unfolded pending_def]
  let ?x = "vmas s v" and ?le = "list_next (vlinks s) (VmaLink v)"
  let ?a = "max start (vm_start ?x)" and ?b = "min end (vm_end ?x)"
  have v: "vma_live s v" "v \<notin> set us" "vma_ok ?x" "vm_start ?x < end" "start < vm_end ?x"
      "\<not> (vm_start ?x < start \<and> end < vm_end ?x)" "\<forall>c. covers ?x c \<longrightarrow> space s us c = None"
    using P by auto
  obtain s1 us1 where s1: "unmap_piece s m v start end = kret (?a, ?b, s1)" "areas s1 m us1"
      "set us1 \<subseteq> insert v (set us)"
      "\<forall>c. space s1 us1 c = (if covers ?x c \<and> \<not> (start \<le> c \<and> c < end) then Some (vm_flags ?x) else space s us c)"
      "vmem s1 = vmem s" "kept s s1" "\<forall>w. w \<noteq> v \<longrightarrow> vma_live s1 w = vma_live s w \<and> vmas s1 w = vmas s w"
      "\<forall>w. w \<notin> insert v (set us) \<longrightarrow> lnext (vlinks s1) (VmaLink w) = lnext (vlinks s) (VmaLink w)"
    using piece_ok [OF Cons.prems(1) v(1,2,3) r v(4-7)] by blast
  have xa: "vm_start ?x mod PGSIZE = 0" "vm_end ?x mod PGSIZE = 0" "USER_ACCESS (vm_start ?x) (vm_end ?x)"
    using v(3) by (auto simp: vma_ok_def)
  obtain h where h: "unmap_range (vmem s) d ?a ?b = kret h" "cleared D (vmem s) d {vpn ?a..<vpn ?b} h"
      "paging_ok M D h (F \<union> (mapped (vmem s) D - mapped h D))"
    using unmap_range_ok [OF Cons.prems(4) d max_min_range [OF xa r v(4,5)]] by blast
  let ?s2 = "s1\<lparr>vmem := h\<rparr>"
  have k2: "kept s ?s2" "pgdir (mms ?s2 m) = Some d" using s1(6) Cons.prems(5) by (auto simp: kept_def)
  have rs: "\<forall>w \<in> set rs. w \<noteq> v \<and> w \<notin> set us" using P by auto
  have e: "unmap_release s m start end le = unmap_release ?s2 m start end ?le"
    using Cons.prems(2) s1(1,5) h(1) k2(2) by (subst unmap_release.simps) (simp add: on_mem_def)
  have ar2: "areas ?s2 m us1" using s1(2) by (auto simp: areas_def before_def [abs_def])
  have sp2: "space ?s2 us1 c = space s1 us1 c" for c by (simp add: space_def area_at_def)
  have ch2: "chain (vlinks ?s2) ?le rs"
    using Cons.prems(2) chain_cong [of rs "vlinks s1" "vlinks s"] s1(8) rs by (auto simp: list_next_def)
  have vm2: "\<forall>w \<in> set rs. vma_live ?s2 w = vma_live s w \<and> vmas ?s2 w = vmas s w" using s1(7) rs by auto
  have dj: "\<not> covers ?x c" if "w \<in> set rs" "covers (vmas s w) c" for w c
    using P that rs by (auto dest!: bspec [of _ _ v])
  have pe2: "pending ?s2 us1 rs start end"
  proof -
    have "space ?s2 us1 c = None" if "w \<in> set rs" "covers (vmas s w) c" for w c
      using P s1(4) that dj [OF that] by (auto simp: sp2)
    moreover have "set rs \<inter> set us1 = {}" using s1(3) rs by auto
    ultimately show ?thesis using P vm2 unfolding pending_def by auto
  qed
  have ok2: "paging_ok M D (vmem ?s2) (F \<union> (mapped (vmem s) D - mapped h D))" using h(3) by simp
  obtain s' us' where s': "unmap_release ?s2 m start end ?le = kret s'" "areas s' m us'"
      "\<forall>c. space s' us' c = (if space ?s2 rs c \<noteq> None \<and> \<not> (start \<le> c \<and> c < end) then space ?s2 rs c else space ?s2 us1 c)"
      "cleared D (vmem ?s2) d (pieces ?s2 rs start end) (vmem s')"
      "paging_ok M D (vmem s') (F \<union> (mapped (vmem s) D - mapped h D) \<union> (mapped (vmem ?s2) D - mapped (vmem s') D))" "kept ?s2 s'"
    using Cons.IH [OF ar2 ch2 pe2 ok2 k2(2)] by blast
  have m2: "vmem ?s2 = h" by simp
  note s' = s' [unfolded m2]
  have at: "area_at ?s2 rs c = area_at s rs c" for c
    unfolding area_at_def by (rule find_cong) (use vm2 in auto)
  have sp: "space ?s2 rs c = space s rs c" for c
    unfolding space_def at
    by (rule option.map_cong0) (use vm2 in \<open>auto simp: area_at_def find_Some_iff\<close>)
  have "pieces ?s2 rs start end = pieces s rs start end" using vm2 by (simp add: pieces_def)
  then have "cleared D (vmem s) d (pieces s (v # rs) start end) (vmem s')"
    using cleared_trans [OF h(2) s'(4)] by (simp add: pieces_def)
  moreover have "F \<union> (mapped (vmem s) D - mapped h D) \<union> (mapped h D - mapped (vmem s') D) =
      F \<union> (mapped (vmem s) D - mapped (vmem s') D)"
    using cleared_mapped [OF h(2)] cleared_mapped [OF s'(4)] by auto
  moreover have "space s' us' c = (if space s (v # rs) c \<noteq> None \<and> \<not> (start \<le> c \<and> c < end)
      then space s (v # rs) c else space s us c)" for c
  proof (cases "covers ?x c")
    case True
    then have "space s rs c = None" using dj by (auto simp: space_def area_at_None)
    moreover have "space s (v # rs) c = Some (vm_flags ?x)" using True by (simp add: space_def area_at_def)
    ultimately show ?thesis using True s'(3) s1(4) sp sp2 by simp
  next
    case False
    then have "space s (v # rs) c = space s rs c" by (simp add: space_def area_at_def)
    then show ?thesis using False s'(3) s1(4) sp sp2 by simp
  qed
  ultimately show ?case using e s'(1,2,5) kept_trans [OF k2(1) s'(6)] by auto
qed

text \<open>The address of a page, and the pages of an aligned range.\<close>

definition page_addr :: "nat \<Rightarrow> u32" where
  "page_addr q = of_nat (q * 4096)"

lemma page_addr_le:
  assumes "a mod PGSIZE = 0" and "q < user_pages"
  shows "a \<le> page_addr q \<longleftrightarrow> vpn a \<le> q" "page_addr q < a \<longleftrightarrow> q < vpn a"
proof -
  have "unat a = vpn a * 4096" using assms(1) aligned_vpn [of a] by (simp add: aligned_def)
  moreover have "q * 4096 < 4294967296" using assms(2) unfolding user_pages_def by linarith
  then have "unat (page_addr q) = q * 4096" by (simp only: page_addr_def unat_nat)
  ultimately show "a \<le> page_addr q \<longleftrightarrow> vpn a \<le> q" "page_addr q < a \<longleftrightarrow> q < vpn a"
    by (simp_all add: word_le_nat_alt word_less_nat_alt)
qed

text \<open>The pages of a range that are in some area.\<close>

definition pages_in :: "vmm \<Rightarrow> nat list \<Rightarrow> u32 \<Rightarrow> u32 \<Rightarrow> nat set" where
  "pages_in s vs start end = {q \<in> {vpn start..<vpn end}. space s vs (page_addr q) \<noteq> None}"

lemma cleared_cong: "cleared D h d P h' \<Longrightarrow> \<forall>q < user_pages. q \<in> P \<longleftrightarrow> q \<in> Q \<Longrightarrow> cleared D h d Q h'"
  by (auto simp: cleared_def)

lemma pieces_pages:
  assumes ok: "\<forall>v \<in> set vs. vma_ok (vmas s v)" and r: "start mod PGSIZE = 0" "end mod PGSIZE = 0"
    and ts: "set ts \<subseteq> set vs" "\<forall>v \<in> set vs - set ts. vm_end (vmas s v) \<le> start \<or> end \<le> vm_start (vmas s v)"
    and q: "q < user_pages"
  shows "q \<in> pieces s ts start end \<longleftrightarrow> q \<in> pages_in s vs start end"
proof -
  let ?c = "page_addr q"
  have one: "q \<in> {vpn (max start (vm_start (vmas s v)))..<vpn (min end (vm_end (vmas s v)))} \<longleftrightarrow>
      start \<le> ?c \<and> ?c < end \<and> covers (vmas s v) ?c" if "v \<in> set vs" for v
  proof -
    have x: "vm_start (vmas s v) mod PGSIZE = 0" "vm_end (vmas s v) mod PGSIZE = 0"
      using ok that by (auto simp: vma_ok_def)
    have "max start (vm_start (vmas s v)) mod PGSIZE = 0" "min end (vm_end (vmas s v)) mod PGSIZE = 0"
      using x r by (simp_all add: max_def min_def)
    from page_addr_le(1) [OF this(1) q] page_addr_le(2) [OF this(2) q]
    show ?thesis by (auto simp: covers_def)
  qed
  have tv: "v \<in> set ts" if "v \<in> set vs" "covers (vmas s v) ?c" "start \<le> ?c" "?c < end" for v
  proof (rule ccontr)
    assume "v \<notin> set ts"
    then have "vm_end (vmas s v) \<le> start \<or> end \<le> vm_start (vmas s v)" using ts(2) that(1) by blast
    then show False using that by (auto simp: covers_def)
  qed
  have "q \<in> pieces s ts start end \<longleftrightarrow> start \<le> ?c \<and> ?c < end \<and> (\<exists>v \<in> set ts. covers (vmas s v) ?c)"
    using one ts(1) unfolding pieces_def by blast
  also have "\<dots> \<longleftrightarrow> start \<le> ?c \<and> ?c < end \<and> (\<exists>v \<in> set vs. covers (vmas s v) ?c)"
    using ts(1) tv by blast
  also have "\<dots> \<longleftrightarrow> q \<in> pages_in s vs start end"
  proof -
    have "start \<le> ?c \<and> ?c < end \<longleftrightarrow> q \<in> {vpn start..<vpn end}"
      using page_addr_le(1) [OF r(1) q] page_addr_le(2) [OF r(2) q] by simp
    moreover have "(\<exists>v \<in> set vs. covers (vmas s v) ?c) \<longleftrightarrow> space s vs ?c \<noteq> None"
      by (simp add: space_def area_at_None [symmetric] del: not_None_eq) (metis area_at_None)
    ultimately show ?thesis unfolding pages_in_def by blast
  qed
  finally show ?thesis .
qed

text \<open>What \<^verbatim>\<open>mm_unmap\<close> promises when the first page of the range is in an area.\<close>

definition unmapped_areas :: "nat set \<Rightarrow> nat set \<Rightarrow> nat set \<Rightarrow> vmm \<Rightarrow> nat \<Rightarrow> nat list \<Rightarrow> nat \<Rightarrow> u32 \<Rightarrow> u32 \<Rightarrow> vmm \<Rightarrow> bool" where
  "unmapped_areas M D F s m vs d start end s' \<longleftrightarrow> (\<exists>vs'. areas s' m vs' \<and>
     (\<forall>c. space s' vs' c = (if start \<le> c \<and> c < end then None else space s vs c))) \<and>
     cleared D (vmem s) d (pages_in s vs start end) (vmem s') \<and>
     paging_ok M D (vmem s') (F \<union> (mapped (vmem s) D - mapped (vmem s') D)) \<and> kept s s'"

lemma unmap_inside_ok:
  assumes ar: "areas s m vs" and v: "v \<in> set vs" and dead: "\<not> vma_live s nv"
    and r: "start mod PGSIZE = 0" "end mod PGSIZE = 0" "USER_ACCESS start end"
    and i: "vm_start (vmas s v) < start" "end < vm_end (vmas s v)"
    and pg: "paging_ok M D (vmem s) F" "pgdir (mms s m) = Some d" "d \<in> D"
  defines "t \<equiv> created nv (vm_start (vmas s v)) start (vm_flags (vmas s v)) s"
  shows "\<exists>s2 s'. vma_resize t v end (vm_end (vmas s v)) = kret s2 \<and>
    kbind (insert_vma_struct s2 m nv) (\<lambda>s. deref (pgdir (mms s m)) (\<lambda>d.
      kbind (on_mem s (\<lambda>h. unmap_range h d start end)) (\<lambda>s. kret (0 :: int, s)))) = kret (0, s') \<and>
    unmapped_areas M D F s m vs d start end s'"
proof -
  note A = areasD [OF ar]
  let ?x = "vmas s v"
  have nv: "nv \<noteq> v" "nv \<notin> set vs" using dead A(4) v by auto
  have xa: "vm_start ?x mod PGSIZE = 0" "vm_end ?x mod PGSIZE = 0" "USER_ACCESS (vm_start ?x) (vm_end ?x)"
    using A(6) [OF v] by (auto simp: vma_ok_def)
  obtain us ws where vs: "vs = us @ v # ws" using v by (meson split_list)
  have T: "areas t m vs" "\<And>c. space t vs c = space s vs c" "vmas t v = ?x" "vma_live t v" "vma_live t nv"
    using created_areas [OF ar dead] nv A(4) v by (simp_all add: t_def)
  let ?s2 = "resized v end (vm_end ?x) t"
  have "start < end" using r(3) by (simp add: USER_ACCESS_def)
  then have le: "vm_start (vmas t v) \<le> end" "end < vm_end (vmas t v)" using i T(3) by auto
  have s2: "vma_resize t v end (vm_end ?x) = kret ?s2"
    using T(3,4) le r(2) xa(2) by (simp add: vma_resize_def resized_def)
  note S = shrunk_areas [OF T(1) [unfolded vs] le r(2), folded vs, unfolded T(3)]
  have nx: "vmas ?s2 nv = vmas t nv" using nv by (intro resized_simps(10)) simp
  have nxs: "vm_start (vmas ?s2 nv) = vm_start ?x" "vm_end (vmas ?s2 nv) = start" "vm_flags (vmas ?s2 nv) = vm_flags ?x"
    unfolding nx by (simp_all add: t_def)
  have cov: "covers (vmas ?s2 nv) c \<longleftrightarrow> vm_start ?x \<le> c \<and> c < start" for c
    by (simp only: covers_def nxs)
  have here: "space s vs c = Some (vm_flags ?x)" if "covers ?x c" for c
    using area_at_Some [OF A(3), of c v] v that by (simp add: space_def)
  have ok: "vma_ok (vmas ?s2 nv)" using xa(1,3) r i(1) by (simp only: vma_ok_def nxs) (auto simp: USER_ACCESS_def)
  have free: "\<forall>c. covers (vmas ?s2 nv) c \<longrightarrow> space ?s2 vs c = None"
    using i \<open>start < end\<close> unfolding cov S(2) by (auto simp: covers_def)
  have live: "vma_live ?s2 nv" using T(5) by simp
  obtain s3 vs3 where s3: "insert_vma_struct ?s2 m nv = kret s3" "areas s3 m vs3"
      "\<forall>c. space s3 vs3 c = (if covers (vmas ?s2 nv) c then Some (vm_flags (vmas ?s2 nv)) else space ?s2 vs c)"
      "vmem s3 = vmem ?s2" "kept ?s2 s3"
    using insert_free [OF S(1) live nv(2) ok free] by blast
  have sp: "space s3 vs3 c = (if start \<le> c \<and> c < end then None else space s vs c)" for c
  proof (cases "covers ?x c")
    case True
    then show ?thesis using s3(3) i here [OF True] unfolding cov S(2) T(2) nxs(3) by (auto simp: covers_def)
  next
    case False
    moreover have "start < vm_end ?x" using i(2) \<open>start < end\<close> by simp
    ultimately have "\<not> (vm_start ?x \<le> c \<and> c < start)" "\<not> (start \<le> c \<and> c < end)"
      using i by (auto simp: covers_def)
    then show ?thesis using s3(3) False unfolding cov S(2) T(2) nxs(3) by auto
  qed
  have "kept s t" by (simp add: t_def)
  then have k: "kept s s3" using kept_trans [OF resized_simps(6) s3(5)] kept_trans by blast
  have m3: "vmem s3 = vmem s" "pgdir (mms s3 m) = Some d" using s3(4) k pg(2) by (simp_all add: t_def kept_def)
  obtain h where h: "unmap_range (vmem s) d start end = kret h" "cleared D (vmem s) d {vpn start..<vpn end} h"
      "paging_ok M D h (F \<union> (mapped (vmem s) D - mapped h D))"
    using unmap_range_ok [OF pg(1,3) r] by blast
  have "\<forall>q < user_pages. q \<in> {vpn start..<vpn end} \<longleftrightarrow> q \<in> pages_in s vs start end"
  proof (intro allI impI)
    fix q
    assume q: "q < user_pages"
    have "q \<in> {vpn start..<vpn end} \<Longrightarrow> covers ?x (page_addr q)"
      using page_addr_le(1) [OF r(1) q] page_addr_le(2) [OF r(2) q] i by (auto simp: covers_def)
    then show "q \<in> {vpn start..<vpn end} \<longleftrightarrow> q \<in> pages_in s vs start end"
      using here by (auto simp: pages_in_def)
  qed
  then have "cleared D (vmem s) d (pages_in s vs start end) h" by (rule cleared_cong [OF h(2)])
  moreover have "areas (s3\<lparr>vmem := h\<rparr>) m vs3" "space (s3\<lparr>vmem := h\<rparr>) vs3 c = space s3 vs3 c" for c
    using s3(2) by (auto simp: areas_def before_def [abs_def] space_def area_at_def)
  ultimately have "unmapped_areas M D F s m vs d start end (s3\<lparr>vmem := h\<rparr>)"
    using sp h(3) k unfolding unmapped_areas_def by (auto simp: kept_def)
  moreover have "on_mem s3 (\<lambda>h. unmap_range h d start end) = kret (s3\<lparr>vmem := h\<rparr>)"
    using m3 h(1) by (simp add: on_mem_def)
  ultimately show ?thesis using s2 s3(1) m3(2) by auto
qed

lemma area_at_append:
  "area_at s (xs @ ys) c = (case area_at s xs c of None \<Rightarrow> area_at s ys c | Some v \<Rightarrow> Some v)"
  by (induction xs) (auto simp: area_at_def)

lemma area_at_eq:
  assumes "v \<in> set xs" "covers (vmas s v) c" "\<forall>w \<in> set xs. covers (vmas s w) c \<longrightarrow> w = v"
  shows "area_at s xs c = Some v"
proof (cases "area_at s xs c")
  case None
  then show ?thesis using assms(1,2) area_at_None [of s xs c] by blast
next
  case (Some w)
  then have "w \<in> set xs" "covers (vmas s w) c" by (auto simp: area_at_def find_Some_iff)
  then show ?thesis using assms(3) Some by blast
qed

text \<open>The areas that start below the end of the range, in a sorted list.\<close>

lemma sorted_split:
  assumes s: "sorted_wrt (before s) (v # ws)" and ok: "\<forall>w \<in> set (v # ws). vm_start (vmas s w) < vm_end (vmas s w)"
    and v: "start < vm_end (vmas s v)"
  shows "w \<in> set (takeWhile (\<lambda>w. vm_start (vmas s w) < end) (v # ws)) \<Longrightarrow>
      vm_start (vmas s w) < end \<and> start < vm_end (vmas s w) \<and> (w = v \<or> start < vm_start (vmas s w))"
    and "w \<in> set (dropWhile (\<lambda>w. vm_start (vmas s w) < end) (v # ws)) \<Longrightarrow> end \<le> vm_start (vmas s w)"
proof -
  let ?P = "\<lambda>w. vm_start (vmas s w) < end"
  show "vm_start (vmas s w) < end \<and> start < vm_end (vmas s w) \<and> (w = v \<or> start < vm_start (vmas s w))"
    if w: "w \<in> set (takeWhile ?P (v # ws))"
  proof -
    have wP: "?P w" "w = v \<or> w \<in> set ws" using set_takeWhileD [OF w] by auto
    have "w = v \<or> vm_end (vmas s v) \<le> vm_start (vmas s w)" using wP(2) s by (auto simp: before_def)
    moreover have "vm_start (vmas s w) < vm_end (vmas s w)" using wP(2) ok by auto
    ultimately show ?thesis using wP(1) v by auto
  qed
  show "end \<le> vm_start (vmas s w)" if w: "w \<in> set (dropWhile ?P (v # ws))"
  proof (cases "dropWhile ?P (v # ws)")
    case (Cons y ys)
    then have y: "\<not> ?P y" using hd_dropWhile [of ?P "v # ws"] by (metis list.distinct(1) list.sel(1))
    have "sorted_wrt (before s) (takeWhile ?P (v # ws) @ y # ys)" using s Cons by (metis takeWhile_dropWhile_id)
    then have "w = y \<or> before s y w" using w Cons by (auto simp: sorted_wrt_append)
    moreover have "y \<in> set (v # ws)" using set_dropWhileD [of y ?P "v # ws"] Cons by auto
    then have "vm_start (vmas s y) < vm_end (vmas s y)" using ok by blast
    ultimately show ?thesis using y by (auto simp: before_def not_less)
  qed (use w in simp)
qed

lemma unmap_list_ok:
  assumes ar: "areas s m vs" and v: "area_at s vs start = Some v"
    and r: "start mod PGSIZE = 0" "end mod PGSIZE = 0" "USER_ACCESS start end"
    and i: "\<not> (vm_start (vmas s v) < start \<and> end < vm_end (vmas s v))"
    and pg: "paging_ok M D (vmem s) F" "pgdir (mms s m) = Some d" "d \<in> D"
  shows "\<exists>s1 s'. unmap_collect (s\<lparr>vlinks := list_init (vlinks s) FreeList\<rparr>) m v end = kret s1 \<and>
    unmap_release s1 m start end (list_next (vlinks s1) FreeList) = kret s' \<and>
    unmapped_areas M D F s m vs d start end s'"
proof -
  note A = areasD [OF ar]
  have vc: "v \<in> set vs" "covers (vmas s v) start" using area_at_Some [OF A(3)] v by auto
  obtain us ws where vs: "vs = us @ v # ws" using vc(1) by (meson split_list)
  let ?s0 = "s\<lparr>vlinks := list_init (vlinks s) FreeList\<rparr>"
  let ?P = "\<lambda>w. vm_start (vmas s w) < end"
  define ts where "ts = takeWhile ?P (v # ws)"
  define rs where "rs = dropWhile ?P (v # ws)"
  have vs': "vs = us @ ts @ rs" by (simp add: vs ts_def rs_def)
  have d0: "dlist (vlinks ?s0) (MmapList m) (map VmaLink vs)"
    using dlist_init_other [OF A(2), of FreeList] by auto
  have ar0: "areas ?s0 m (us @ v # ws)" using areas_cong(1) [OF ar, of ?s0] d0 unfolding vs by simp
  have f0: "dlist (vlinks ?s0) FreeList (map VmaLink [])" using dlist_init [of "vlinks s" FreeList] by simp
  have "\<exists>s1. unmap_collect ?s0 m v end = kret s1 \<and> areas s1 m (us @ rs) \<and>
      dlist (vlinks s1) FreeList (map VmaLink (rev ts)) \<and> vmem s1 = vmem s \<and> vmas s1 = vmas s \<and>
      vma_live s1 = vma_live s \<and> kept s s1"
    using collect_ok [OF ar0 f0, of "end"] unfolding ts_def rs_def by (simp add: kept_def)
  then obtain s1 where s1: "unmap_collect ?s0 m v end = kret s1" "areas s1 m (us @ rs)"
      "dlist (vlinks s1) FreeList (map VmaLink (rev ts))" "vmem s1 = vmem s" "vmas s1 = vmas s"
      "vma_live s1 = vma_live s" "kept s s1" by blast
  have vt: "v \<in> set ts" using r(3) vc(2) by (auto simp: ts_def covers_def USER_ACCESS_def)
  have lo: "vm_end (vmas s w) \<le> start" if "w \<in> set us" for w
    using A(3) that vc(2) unfolding vs by (auto simp: sorted_wrt_append before_def covers_def intro: order_trans)
  have sw: "sorted_wrt (before s) (v # ws)" "\<forall>w \<in> set (v # ws). vm_start (vmas s w) < vm_end (vmas s w)"
      "start < vm_end (vmas s v)"
    using A(3) vc(2) vma_ok_less [OF A(6)] unfolding vs by (auto simp: sorted_wrt_append covers_def)
  note S = sorted_split [OF sw, of _ "end", folded ts_def rs_def]
  have hi: "end \<le> vm_start (vmas s w)" if "w \<in> set rs" for w using S(2) that by blast
  have ts: "vm_start (vmas s w) < end \<and> start < vm_end (vmas s w) \<and>
      \<not> (vm_start (vmas s w) < start \<and> end < vm_end (vmas s w))" if "w \<in> set ts" for w
    using S(1) [OF that] i by auto
  have sp1: "space s1 us' c = space s us' c" for us' c by (simp add: space_def area_at_def s1(5))
  have dj: "w = w'" if "w \<in> set vs" "w' \<in> set vs" "covers (vmas s w) c" "covers (vmas s w') c" for w w' c
    using sorted_covers [OF A(3)] that by blast
  have pe: "pending s1 (us @ rs) (rev ts) start end"
  proof -
    have "space s (us @ rs) c = None" if "w \<in> set ts" "covers (vmas s w) c" for w c
      using dj [of w _ c] that A(7) unfolding vs' by (auto simp: space_def area_at_None)
    moreover have "distinct ts" "set ts \<inter> set (us @ rs) = {}" using A(7) unfolding vs' by auto
    moreover have "vma_live s w \<and> vma_ok (vmas s w)" if "w \<in> set ts" for w using A(4,6) that vs' by auto
    moreover have "\<not> (covers (vmas s w) c \<and> covers (vmas s w') c)" if "w \<in> set ts" "w' \<in> set ts" "w \<noteq> w'" for w w' c
      using dj [of w w' c] that vs' by auto
    ultimately show ?thesis using ts unfolding pending_def by (simp add: s1(5,6) sp1)
  qed
  have ch: "chain (vlinks s1) (list_next (vlinks s1) FreeList) (rev ts)"
    using s1(3) chain_path [of "vlinks s1" FreeList "rev ts"] by (simp add: dlist_def list_next_def)
  have pg1: "paging_ok M D (vmem s1) F" "pgdir (mms s1 m) = Some d" using pg s1(4,7) by (simp_all add: kept_def)
  obtain s' us' where s': "unmap_release s1 m start end (list_next (vlinks s1) FreeList) = kret s'" "areas s' m us'"
      "\<forall>c. space s' us' c = (if space s1 (rev ts) c \<noteq> None \<and> \<not> (start \<le> c \<and> c < end)
         then space s1 (rev ts) c else space s1 (us @ rs) c)"
      "cleared D (vmem s1) d (pieces s1 (rev ts) start end) (vmem s')"
      "paging_ok M D (vmem s') (F \<union> (mapped (vmem s1) D - mapped (vmem s') D))" "kept s1 s'"
    using release_ok [OF s1(2) ch pe r pg1 pg(3)] by blast
  have sp: "space s' us' c = (if start \<le> c \<and> c < end then None else space s vs c)" for c
  proof (cases "\<exists>w \<in> set ts. covers (vmas s w) c")
    case True
    then obtain w where w: "w \<in> set ts" "covers (vmas s w) c" by blast
    have "area_at s (rev ts) c = Some w" "area_at s vs c = Some w"
      using w dj vs' by (auto intro!: area_at_eq)
    then have "space s (rev ts) c = space s vs c" "space s vs c \<noteq> None" by (simp_all add: space_def)
    moreover have "space s (us @ rs) c = None" using dj [of w _ c] w A(7) vs' by (auto simp: space_def area_at_None)
    ultimately show ?thesis using s'(3) sp1 by simp
  next
    case False
    then have "space s (rev ts) c = None" by (simp add: space_def area_at_None)
    moreover have "area_at s ts c = None" using False by (simp add: area_at_None)
    then have "space s (us @ rs) c = space s vs c" 
      by (cases "area_at s us c") (simp_all add: space_def vs' area_at_append)
    moreover have "space s (us @ rs) c = None" if "start \<le> c" "c < end"
      using lo hi that by (fastforce simp: space_def area_at_None covers_def)
    ultimately show ?thesis using s'(3) sp1 by auto
  qed
  have "\<forall>q < user_pages. q \<in> pieces s1 (rev ts) start end \<longleftrightarrow> q \<in> pages_in s vs start end"
  proof (intro allI impI)
    fix q
    assume q: "q < user_pages"
    have "pieces s1 (rev ts) start end = pieces s ts start end" by (simp add: pieces_def s1(5))
    then show "q \<in> pieces s1 (rev ts) start end \<longleftrightarrow> q \<in> pages_in s vs start end"
      using pieces_pages [of vs s start "end" ts q] A(6) r(1,2) lo hi q vs' by auto
  qed
  then have "cleared D (vmem s) d (pages_in s vs start end) (vmem s')"
    using cleared_cong [OF s'(4)] s1(4) by simp
  then have "unmapped_areas M D F s m vs d start end s'"
    using s'(2,5) sp kept_trans [OF s1(7) s'(6)] s1(4) unfolding unmapped_areas_def by auto
  then show ?thesis using s1(1) s'(1) by blast
qed

text \<open>C1. \<^verbatim>\<open>mm_unmap\<close> on a user range whose first page is in an area returns 0 and removes exactly the
  range from the address space, splitting and trimming areas as needed; the page table entries of
  the removed pages are cleared, all other translations are unchanged, the frames that become free are
  those that lost their last mapping, and the areas stay well formed.  When the first page is in no
  area it returns 0 and does nothing, even if later pages of the range are in areas.\<close>

theorem mm_unmap_correct:
  assumes ar: "areas s m vs" and km: "heap_ok km" "\<forall>t. vma_live t = vma_live s \<longrightarrow> km t \<noteq> None"
    and r: "start = ROUNDDOWN addr PGSIZE" "end = ROUNDUP (addr + len) PGSIZE" "USER_ACCESS start end"
    and pg: "paging_ok M D (vmem s) F" "pgdir (mms s m) = Some d" "d \<in> D"
  shows "if space s vs start = None then mm_unmap km s (Some m) addr len = kret (0, s)
    else \<exists>s' vs'. mm_unmap km s (Some m) addr len = kret (0, s') \<and> areas s' m vs' \<and>
      (\<forall>a. space s' vs' a = (if start \<le> a \<and> a < end then None else space s vs a)) \<and>
      (\<forall>d' \<in> D. \<forall>q < user_pages. vpte (vmem s') d' q =
         (if d' = d \<and> q \<in> pages_in s vs start end \<and> present (vpte (vmem s) d' q) then 0 else vpte (vmem s) d' q)) \<and>
      paging_ok M D (vmem s') (F \<union> (mapped (vmem s) D - mapped (vmem s') D))"
proof (cases "area_at s vs start")
  case None
  then have "mm_unmap km s (Some m) addr len = kret (0, s)"
    using find_vma_ok [OF ar, of start] r by (simp add: mm_unmap_def Let_def cached_def)
  then show ?thesis using None by (simp add: space_def)
next
  case (Some v)
  let ?s = "cached m (Some v) s" and ?x = "vmas s v"
  note A = areasD [OF ar]
  have v: "v \<in> set vs" "covers ?x start" "vma_live s v" using area_at_Some [OF A(3)] Some A(4) by auto
  have al: "start mod PGSIZE = 0" "end mod PGSIZE = 0" using r by simp_all
  have C: "areas ?s m vs" "area_at ?s vs start = Some v" "pgdir (mms ?s m) = Some d" "paging_ok M D (vmem ?s) F"
    using cached_areas [OF ar, of "Some v"] v(1) Some pg by simp_all
  have "vm_start ?x < end" using v(2) r(3) by (auto simp: covers_def USER_ACCESS_def)
  then have lt: "\<not> end \<le> vm_start ?x" by simp
  note f = find_vma_ok [OF ar, of start, unfolded Some]
  have "\<exists>s'. mm_unmap km s (Some m) addr len = kret (0, s') \<and> unmapped_areas M D F ?s m vs d start end s'"
  proof (cases "vm_start ?x < start \<and> end < vm_end ?x")
    case True
    obtain nv where nv: "km ?s = Some nv" using km(2) [rule_format, of ?s] by auto
    then have dead: "\<not> vma_live ?s nv" using km(1) unfolding heap_ok_def by blast
    have x: "vm_start (vmas ?s v) < start" "end < vm_end (vmas ?s v)" using True by simp_all
    from unmap_inside_ok [OF C(1) v(1) dead al r(3) x C(4,3) pg(3)] obtain s2 s' where
      "vma_resize (created nv (vm_start ?x) start (vm_flags ?x) ?s) v end (vm_end ?x) = kret s2"
      "kbind (insert_vma_struct s2 m nv) (\<lambda>s. deref (pgdir (mms s m)) (\<lambda>d.
        kbind (on_mem s (\<lambda>h. unmap_range h d start end)) (\<lambda>s. kret (0, s)))) = kret (0 :: int, s')"
      "unmapped_areas M D F ?s m vs d start end s'" by auto
    then show ?thesis using lt f r v(3) nv True by (auto simp: mm_unmap_def Let_def vma_create_eq)
  next
    case False
    let ?t = "?s\<lparr>vlinks := list_init (vlinks ?s) FreeList\<rparr>"
    have x: "\<not> (vm_start (vmas ?s v) < start \<and> end < vm_end (vmas ?s v))" using False by simp
    from unmap_list_ok [OF C(1,2) al r(3) x C(4,3) pg(3)] obtain s1 s' where
      "unmap_collect ?t m v end = kret s1"
      "unmap_release s1 m start end (list_next (vlinks s1) FreeList) = kret s'"
      "unmapped_areas M D F ?s m vs d start end s'" by blast
    then show ?thesis using lt f r v(3) False by (auto simp: mm_unmap_def Let_def)
  qed
  then obtain s' vs' where s': "mm_unmap km s (Some m) addr len = kret (0, s')" "areas s' m vs'"
      "\<forall>a. space s' vs' a = (if start \<le> a \<and> a < end then None else space s vs a)"
      "cleared D (vmem s) d (pages_in ?s vs start end) (vmem s')"
      "paging_ok M D (vmem s') (F \<union> (mapped (vmem s) D - mapped (vmem s') D))"
    unfolding unmapped_areas_def by auto
  have pi: "pages_in ?s vs start end = pages_in s vs start end" by (simp add: pages_in_def)
  have "space s vs start \<noteq> None" using Some by (simp add: space_def)
  then show ?thesis using s'(1-3,5) cleared_vpte [OF s'(4) [unfolded pi]] by auto
qed

theorem mm_unmap_correct_witness:
  "\<exists>s s' vs. mm_unmap small_heap s (Some 0) 0x200000 0x1000 = kret (0, s') \<and> areas s' 0 vs \<and>
     present (vpte (vmem s) 10 0x200) \<and> vpte (vmem s') 10 0x200 = 0 \<and> space s' vs 0x200000 = None"
proof -
  obtain h F where h: "paging_ok (block (2, 6)) {10, 11} h F" "present (vpte h 10 0x200)"
    using one_page_ok by blast
  note one = one_vmm_areas [of h]
  have a: "page_addr 0x200 = 0x200000" by (simp add: page_addr_def)
  have sp: "space (one_vmm h) [0] 0x200000 \<noteq> None" by (simp add: space_def one)
  have v: "vpn 0x200000 = 0x200" "vpn 0x201000 = 0x201" by (simp_all add: vpn_def)
  have q: "0x200 \<in> pages_in (one_vmm h) [0] 0x200000 0x201000" using sp by (simp add: pages_in_def v a)
  have "vma_live (one_vmm h) 1 = False" by (simp add: one_vmm_def) (simp add: empty_vmm_def)
  then have km: "\<forall>t. vma_live t = vma_live (one_vmm h) \<longrightarrow> small_heap t \<noteq> None" by (simp add: small_heap_def)
  obtain s' vs where "mm_unmap small_heap (one_vmm h) (Some 0) 0x200000 0x1000 = kret (0, s')" "areas s' 0 vs"
      "space s' vs 0x200000 = None" "vpte (vmem s') 10 0x200 = 0"
    using mm_unmap_correct [OF one(1) small_heap_ok km, of "0x200000" "0x200000" "0x201000" "0x1000"
        "block (2, 6)" "{10, 11}" F 10] h sp q one
    by (auto simp: page_round USER_ACCESS_def user_pages_def)
  then show ?thesis using h(2) one(4) by metis
qed

section \<open>Leaving an address space\<close>

lemma mem_areas:
  assumes "areas s m vs"
  shows "areas (s\<lparr>vmem := h\<rparr>) m vs" "area_at (s\<lparr>vmem := h\<rparr>) vs c = area_at s vs c" "space (s\<lparr>vmem := h\<rparr>) vs c = space s vs c"
  using assms by (auto simp: areas_def before_def [abs_def] space_def area_at_def)

text \<open>The pages of areas, and the page tables that they touch.\<close>

definition area_pages :: "vmm \<Rightarrow> nat list \<Rightarrow> nat set" where
  "area_pages s vs = (\<Union>v \<in> set vs. {vpn (vm_start (vmas s v))..<vpn (vm_end (vmas s v))})"

definition area_tables :: "vmm \<Rightarrow> nat list \<Rightarrow> nat set" where
  "area_tables s vs =
     (\<Union>v \<in> set vs. {vpn (vm_start (vmas s v)) div 1024..<(vpn (vm_end (vmas s v)) + 1023) div 1024})"

lemma exit_unmap_ok:
  assumes "areas s m (us @ ws)" and "paging_ok M D (vmem s) F" and d: "d \<in> D"
  shows "\<exists>h. exit_mmap_loop unmap_range (Some d) m (case ws of [] \<Rightarrow> MmapList m | w # _ \<Rightarrow> VmaLink w) s =
      kret (s\<lparr>vmem := h\<rparr>) \<and> cleared D (vmem s) d (area_pages s ws) h \<and>
    paging_ok M D h (F \<union> (mapped (vmem s) D - mapped h D))"
  using assms(1,2)
proof (induction ws arbitrary: s us F)
  case Nil
  then show ?case
    by (subst exit_mmap_loop.simps) (auto simp: area_pages_def cleared_refl intro!: exI [of _ "vmem s"])
next
  case (Cons w ws)
  note A = areasD [OF Cons.prems(1)]
  have x: "vm_start (vmas s w) mod PGSIZE = 0" "vm_end (vmas s w) mod PGSIZE = 0"
      "USER_ACCESS (vm_start (vmas s w)) (vm_end (vmas s w))" "vma_live s w"
    using A(4,6) [of w] by (auto simp: vma_ok_def)
  obtain h1 where h1: "unmap_range (vmem s) d (vm_start (vmas s w)) (vm_end (vmas s w)) = kret h1"
      "cleared D (vmem s) d {vpn (vm_start (vmas s w))..<vpn (vm_end (vmas s w))} h1"
      "paging_ok M D h1 (F \<union> (mapped (vmem s) D - mapped h1 D))"
    using unmap_range_ok [OF Cons.prems(2) d x(1-3)] by blast
  let ?s = "s\<lparr>vmem := h1\<rparr>"
  have ar: "areas ?s m ((us @ [w]) @ ws)" using mem_areas(1) [OF Cons.prems(1)] by simp
  have ok: "paging_ok M D (vmem ?s) (F \<union> (mapped (vmem s) D - mapped h1 D))" using h1(3) by simp
  obtain h where h: "exit_mmap_loop unmap_range (Some d) m (case ws of [] \<Rightarrow> MmapList m | w # _ \<Rightarrow> VmaLink w) ?s =
      kret (?s\<lparr>vmem := h\<rparr>)" "cleared D (vmem ?s) d (area_pages ?s ws) h"
      "paging_ok M D h (F \<union> (mapped (vmem s) D - mapped h1 D) \<union> (mapped (vmem ?s) D - mapped h D))"
    using Cons.IH [OF ar ok] by blast
  have m1: "vmem ?s = h1" "area_pages ?s ws = area_pages s ws" by (simp_all add: area_pages_def)
  note h = h [unfolded m1]
  have "cleared D (vmem s) d (area_pages s (w # ws)) h"
    using cleared_trans [OF h1(2) h(2)] by (simp add: area_pages_def)
  moreover have "F \<union> (mapped (vmem s) D - mapped h1 D) \<union> (mapped h1 D - mapped h D) = F \<union> (mapped (vmem s) D - mapped h D)"
    using cleared_mapped [OF h1(2)] cleared_mapped [OF h(2)] by auto
  moreover have "exit_mmap_loop unmap_range (Some d) m (VmaLink w) s = kret (s\<lparr>vmem := h\<rparr>)"
    using h(1) h1(1) x(4) list_step [OF A(2)] by (subst exit_mmap_loop.simps) (simp add: on_mem_def)
  ultimately show ?case using h(3) by auto
qed

text \<open>The user part of a directory without the tables in \<open>I\<close>.\<close>

definition pruned :: "nat set \<Rightarrow> mem \<Rightarrow> nat \<Rightarrow> nat set \<Rightarrow> mem \<Rightarrow> bool" where
  "pruned D h d I h' \<longleftrightarrow> same_env h h' \<and>
     (\<forall>d' \<in> D. \<forall>q < user_pages. vpte h' d' q = (if d' = d \<and> q div 1024 \<in> I then 0 else vpte h d' q)) \<and>
     tabs h' D = tabs h D - {d} \<times> I \<and> (\<forall>x \<in> tabs h' D. tab h' x = tab h x)"

lemma pruned_refl: "pruned D h d {} h"
  by (simp add: pruned_def)

lemma pruned_trans: "pruned D h d I h1 \<Longrightarrow> pruned D h1 d J h2 \<Longrightarrow> pruned D h d (I \<union> J) h2"
  using same_env_trans [of h h1 h2] unfolding pruned_def by auto

lemma exited_pruned:
  assumes "paging_ok M D h F" and "exited D h d a b h'"
  shows "pruned D h d {a..<b} h'"
proof -
  have "same_env h h'" using assms(2) by (simp add: exited_def)
  moreover have "tabs h' D = tabs h D - {d} \<times> {a..<b}"
    unfolding exited_tabs(1) [OF assms(2)] by (auto simp: tables_def)
  ultimately show ?thesis
    using exited_tabs(2) [OF assms(2)] exited_vpte [OF assms] by (simp add: pruned_def)
qed

lemma exit_tables_ok:
  assumes "areas s m (us @ ws)" and "paging_ok M D (vmem s) F" and d: "d \<in> D"
    and "\<forall>q < user_pages. \<not> present (vpte (vmem s) d q)"
  shows "\<exists>h. exit_mmap_loop exit_range (Some d) m (case ws of [] \<Rightarrow> MmapList m | w # _ \<Rightarrow> VmaLink w) s =
      kret (s\<lparr>vmem := h\<rparr>) \<and> pruned D (vmem s) d (area_tables s ws) h \<and>
    paging_ok M D h (F \<union> tab (vmem s) ` (tabs (vmem s) D - tabs h D))"
  using assms(1,2,4)
proof (induction ws arbitrary: s us F)
  case Nil
  then show ?case
    by (subst exit_mmap_loop.simps) (auto simp: area_tables_def pruned_refl intro!: exI [of _ "vmem s"])
next
  case (Cons w ws)
  note A = areasD [OF Cons.prems(1)]
  let ?i = "vpn (vm_start (vmas s w)) div 1024" and ?b = "(vpn (vm_end (vmas s w)) + 1023) div 1024"
  have x: "vm_start (vmas s w) mod PGSIZE = 0" "vm_end (vmas s w) mod PGSIZE = 0"
      "USER_ACCESS (vm_start (vmas s w)) (vm_end (vmas s w))" "vma_live s w"
    using A(4,6) [of w] by (auto simp: vma_ok_def)
  have "idle (vmem s) d ?i ?b" using Cons.prems(3) by (simp add: idle_def)
  then obtain h1 where h1: "exit_range (vmem s) d (vm_start (vmas s w)) (vm_end (vmas s w)) = kret h1"
      "exited D (vmem s) d ?i ?b h1" "paging_ok M D h1 (F \<union> tab (vmem s) ` tables (vmem s) D d ?i ?b)"
    using exit_range_ok [OF Cons.prems(2) d x(1-3)] by blast
  note p1 = exited_pruned [OF Cons.prems(2) h1(2)]
  let ?s = "s\<lparr>vmem := h1\<rparr>"
  have t1: "tables (vmem s) D d ?i ?b = tabs (vmem s) D - tabs h1 D"
    using p1 by (auto simp: pruned_def tables_def)
  have ar: "areas ?s m ((us @ [w]) @ ws)" using mem_areas(1) [OF Cons.prems(1)] by simp
  have ok: "paging_ok M D (vmem ?s) (F \<union> tab (vmem s) ` (tabs (vmem s) D - tabs h1 D))" using h1(3) t1 by simp
  have id: "\<forall>q < user_pages. \<not> present (vpte (vmem ?s) d q)"
    using Cons.prems(3) p1 d by (simp add: pruned_def)
  obtain h where h: "exit_mmap_loop exit_range (Some d) m (case ws of [] \<Rightarrow> MmapList m | w # _ \<Rightarrow> VmaLink w) ?s =
      kret (?s\<lparr>vmem := h\<rparr>)" "pruned D (vmem ?s) d (area_tables ?s ws) h"
      "paging_ok M D h (F \<union> tab (vmem s) ` (tabs (vmem s) D - tabs h1 D) \<union> tab (vmem ?s) ` (tabs (vmem ?s) D - tabs h D))"
    using Cons.IH [OF ar ok id] by blast
  have m1: "vmem ?s = h1" "area_tables ?s ws = area_tables s ws" by (simp_all add: area_tables_def)
  note h = h [unfolded m1]
  have "pruned D (vmem s) d (area_tables s (w # ws)) h"
    using pruned_trans [OF p1 h(2)] by (simp add: area_tables_def)
  moreover have "tab h1 ` (tabs h1 D - tabs h D) = tab (vmem s) ` (tabs h1 D - tabs h D)"
    using p1 by (intro image_cong) (auto simp: pruned_def)
  then have "tab (vmem s) ` (tabs (vmem s) D - tabs h1 D) \<union> tab h1 ` (tabs h1 D - tabs h D) =
      tab (vmem s) ` (tabs (vmem s) D - tabs h D)"
    using p1 h(2) unfolding pruned_def by (simp flip: image_Un) (rule arg_cong [where f = "image _"], auto)
  then have "paging_ok M D h (F \<union> tab (vmem s) ` (tabs (vmem s) D - tabs h D))" using h(3) by (simp add: Un_assoc)
  moreover have "exit_mmap_loop exit_range (Some d) m (VmaLink w) s = kret (s\<lparr>vmem := h\<rparr>)"
    using h(1) h1(1) x(4) list_step [OF A(2)] by (subst exit_mmap_loop.simps) (simp add: on_mem_def)
  ultimately show ?case by auto
qed

lemma area_pages_space:
  assumes "areas s m vs" and "q < user_pages"
  shows "q \<in> area_pages s vs \<longleftrightarrow> space s vs (page_addr q) \<noteq> None"
proof -
  have "q \<in> {vpn (vm_start (vmas s v))..<vpn (vm_end (vmas s v))} \<longleftrightarrow> covers (vmas s v) (page_addr q)"
    if "v \<in> set vs" for v
    using areasD(6) [OF assms(1) that] page_addr_le [OF _ assms(2)] by (auto simp: vma_ok_def covers_def)
  then have "q \<in> area_pages s vs \<longleftrightarrow> (\<exists>v \<in> set vs. covers (vmas s v) (page_addr q))"
    by (auto simp: area_pages_def)
  also have "\<dots> \<longleftrightarrow> area_at s vs (page_addr q) \<noteq> None" unfolding area_at_None by blast
  finally show ?thesis by (simp add: space_def)
qed

text \<open>C18. \<^verbatim>\<open>exit_mmap\<close> empties an address space: when every mapped user page is in some area, it returns
  with no user page mapped in the directory; the page tables under the areas are gone; the
  translations of all other address spaces are as before; and the frames that are free afterwards are
  those free before, the frames that lost their last mapping, and the released page tables.\<close>

theorem exit_mmap_correct:
  assumes ar: "areas s m vs" and c: "mm_count (mms s m) = 0"
    and pg: "paging_ok M D (vmem s) F" "pgdir (mms s m) = Some d" "d \<in> D"
    and inside: "\<forall>q < user_pages. present (vpte (vmem s) d q) \<longrightarrow> space s vs (page_addr q) \<noteq> None"
  shows "\<exists>h. exit_mmap (Some m) s = kret (s\<lparr>vmem := h\<rparr>) \<and>
    (\<forall>q < user_pages. \<not> present (vpte h d q)) \<and>
    (\<forall>d' \<in> D - {d}. \<forall>q < user_pages. vpte h d' q = vpte (vmem s) d' q) \<and>
    tabs h D = tabs (vmem s) D - {d} \<times> area_tables s vs \<and>
    paging_ok M D h (F \<union> (mapped (vmem s) D - mapped h D) \<union> tab (vmem s) ` (tabs (vmem s) D - tabs h D))"
proof -
  note A = areasD [OF ar]
  let ?le = "case vs of [] \<Rightarrow> MmapList m | w # _ \<Rightarrow> VmaLink w"
  obtain h1 where h1: "exit_mmap_loop unmap_range (Some d) m ?le s = kret (s\<lparr>vmem := h1\<rparr>)"
      "cleared D (vmem s) d (area_pages s vs) h1" "paging_ok M D h1 (F \<union> (mapped (vmem s) D - mapped h1 D))"
    using exit_unmap_ok [of s m "[]" vs M D F d] ar pg by auto
  let ?s = "s\<lparr>vmem := h1\<rparr>"
  have gone: "\<not> present (vpte h1 d q)" if "q < user_pages" for q
    using cleared_vpte [OF h1(2) pg(3) that] area_pages_space [OF ar that] inside that by auto
  have ar1: "areas ?s m ([] @ vs)" and ok1: "paging_ok M D (vmem ?s) (F \<union> (mapped (vmem s) D - mapped h1 D))"
    and id1: "\<forall>q < user_pages. \<not> present (vpte (vmem ?s) d q)"
    using mem_areas(1) [OF ar] h1(3) gone by simp_all
  obtain h where h: "exit_mmap_loop exit_range (Some d) m ?le ?s = kret (?s\<lparr>vmem := h\<rparr>)"
      "pruned D h1 d (area_tables s vs) h"
      "paging_ok M D h (F \<union> (mapped (vmem s) D - mapped h1 D) \<union> tab h1 ` (tabs h1 D - tabs h D))"
    using exit_tables_ok [OF ar1 ok1 pg(3) id1] by (auto simp: area_tables_def)
  have t1: "tabs h1 D = tabs (vmem s) D" and tt: "tab h1 x = tab (vmem s) x" if "x \<in> tabs h1 D" for x
    using h1(2) that by (auto simp: cleared_def tabs_def tab_def)
  have t1: "tabs h1 D = tabs (vmem s) D" using h1(2) by (auto simp: cleared_def tabs_def)
  have im: "tab h1 ` (tabs h1 D - tabs h D) = tab (vmem s) ` (tabs (vmem s) D - tabs h D)"
    unfolding t1 [symmetric] using tt by (intro image_cong) auto
  have "pmap h x = pmap h1 x" if x: "x \<in> slots D" for x
  proof -
    have e: "vpte h (fst x) (snd x) = (if fst x = d \<and> snd x div 1024 \<in> area_tables s vs then 0 else vpte h1 (fst x) (snd x))"
      using h(2) x by (auto simp: pruned_def slots_def)
    have "fst x = d \<Longrightarrow> \<not> present (vpte h1 (fst x) (snd x))" using gone x by (auto simp: slots_def)
    then show ?thesis using e by (cases "fst x = d \<and> snd x div 1024 \<in> area_tables s vs") (auto simp: pmap_def present_def)
  qed
  then have mp: "mapped h D = mapped h1 D" by (auto simp: mapped_def)
  have "\<not> present (vpte h d q)" if "q < user_pages" for q
    using h(2) pg(3) gone [OF that] that by (simp add: pruned_def)
  moreover have "vpte h d' q = vpte (vmem s) d' q" if "d' \<in> D - {d}" "q < user_pages" for d' q
    using h(2) cleared_vpte [OF h1(2), of d' q] that by (simp add: pruned_def)
  moreover have "exit_mmap (Some m) s = kret (s\<lparr>vmem := h\<rparr>)"
    using A(1) c pg(2) h1(1) h(1) list_first [OF A(2)] by (simp add: exit_mmap_def)
  moreover have "tabs h D = tabs (vmem s) D - {d} \<times> area_tables s vs" using h(2) t1 by (simp add: pruned_def)
  ultimately show ?thesis using h(3) im mp by auto
qed

theorem exit_mmap_correct_witness:
  "\<exists>s h. present (vpte (vmem s) 10 0x200) \<and> exit_mmap (Some 0) s = kret (s\<lparr>vmem := h\<rparr>) \<and>
     \<not> present (vpte h 10 0x200) \<and> tabs (vmem s) {10, 11} = {(10, 0)} \<and> tabs h {10, 11} = {}"
proof -
  obtain h F where h: "paging_ok (block (2, 6)) {10, 11} h F" "present (vpte h 10 0x200)"
      "\<forall>v < user_pages. vpte h 11 v = 0 \<and> (v \<noteq> 0x200 \<longrightarrow> vpte h 10 v = 0)" "tabs h {10, 11} = {(10, 0)}"
    using one_page_ok by blast
  note one = one_vmm_areas [of h]
  have a: "page_addr 0x200 = 0x200000" by (simp add: page_addr_def)
  have i: "\<forall>q < user_pages. present (vpte (vmem (one_vmm h)) 10 q) \<longrightarrow> space (one_vmm h) [0] (page_addr q) \<noteq> None"
  proof (intro allI impI)
    fix q
    assume "q < user_pages" "present (vpte (vmem (one_vmm h)) 10 q)"
    then have "q = 0x200" using h(3) one(4) by (cases "q = 0x200") (auto simp: present_def)
    then show "space (one_vmm h) [0] (page_addr q) \<noteq> None" using a by (simp add: space_def one)
  qed
  have v: "vpn 0x200000 = 0x200" "vpn 0x201000 = 0x201" by (simp_all add: vpn_def)
  have t: "area_tables (one_vmm h) [0] = {0}" by (auto simp: area_tables_def one v)
  obtain h' where "exit_mmap (Some 0) (one_vmm h) = kret ((one_vmm h)\<lparr>vmem := h'\<rparr>)"
      "\<not> present (vpte h' 10 0x200)" "tabs h' {10, 11} = {(10, 0)} - {10} \<times> {0}"
    using exit_mmap_correct [OF one(1), of "block (2, 6)" "{10, 11}" F 10] h one i t
    by (auto simp: user_pages_def)
  then show ?thesis using h(2,4) one(4) by (intro exI [of _ "one_vmm h"] exI [of _ h']) simp
qed

section \<open>Duplicating an address space\<close>

lemma list_back:
  assumes "dlist h (MmapList m) (map VmaLink (us @ v # ws))"
  shows "list_prev h (VmaLink v) = at_end m us"
proof -
  have "lpath h (MmapList m) (map VmaLink us) (VmaLink v)" using assms by (simp add: dlist_def)
  from lpath_last [OF this] show ?thesis by (auto simp: list_prev_def at_end_def last_map)
qed

lemma list_last:
  assumes "dlist h (MmapList m) (map VmaLink us)"
  shows "list_prev h (MmapList m) = at_end m us"
  using dlist_hd_prev [OF assms] by (auto simp: list_prev_def at_end_def last_map)

text \<open>\<open>heap_left km s n\<close>: there is memory for \<open>n\<close> more descriptors.\<close>

definition heap_left :: "(vmm \<Rightarrow> nat option) \<Rightarrow> vmm \<Rightarrow> nat \<Rightarrow> bool" where
  "heap_left km s n \<longleftrightarrow> finite {v. vma_live s v} \<and>
     (\<forall>t. finite {v. vma_live t v} \<and> card {v. vma_live t v} < card {v. vma_live s v} + n \<longrightarrow> km t \<noteq> None)"

lemma heap_left_Suc:
  assumes "heap_left km s (Suc n)" and "km s = Some v" and "heap_ok km" and "vma_live s' = (vma_live s)(v := True)"
  shows "heap_left km s' n"
proof -
  have "\<not> vma_live s v" using assms(2,3) unfolding heap_ok_def by blast
  moreover have "{w. vma_live s' w} = insert v {w. vma_live s w}" using assms(4) by auto
  ultimately show ?thesis using assms(1) by (auto simp: heap_left_def)
qed

definition area_size :: "vmm \<Rightarrow> nat list \<Rightarrow> nat" where
  "area_size s vs = (\<Sum>v\<leftarrow>vs. vpn (vm_end (vmas s v)) - vpn (vm_start (vmas s v)))"

lemma area_vpn:
  assumes "vma_ok x"
  shows "vpn (vm_start x) < vpn (vm_end x)" "vpn (vm_end x) \<le> user_pages"
  using assms user_range [of "vm_start x" "vm_end x"] by (auto simp: vma_ok_def)

lemma areas_cover_pages:
  assumes ar: "areas s m (us @ w # zs)"
  shows "{vpn (vm_start (vmas s w))..<vpn (vm_end (vmas s w))} \<inter> area_pages s us = {}"
    "{vpn (vm_start (vmas s w))..<vpn (vm_end (vmas s w))} \<subseteq> {..<user_pages}" "area_pages s us \<subseteq> {..<user_pages}"
proof -
  note A = areasD [OF ar]
  show "{vpn (vm_start (vmas s w))..<vpn (vm_end (vmas s w))} \<subseteq> {..<user_pages}" "area_pages s us \<subseteq> {..<user_pages}"
    using area_vpn(2) [OF A(6)] by (fastforce simp: area_pages_def)+
  have "vpn (vm_end (vmas s v)) \<le> vpn (vm_start (vmas s w))" if "v \<in> set us" for v
  proof -
    have "vm_end (vmas s v) \<le> vm_start (vmas s w)" using A(3) that by (auto simp: sorted_wrt_append before_def)
    then show ?thesis by (simp add: vpn_def word_le_nat_alt div_le_mono)
  qed
  then show "{vpn (vm_start (vmas s w))..<vpn (vm_end (vmas s w))} \<inter> area_pages s us = {}"
    by (fastforce simp: area_pages_def)
qed

text \<open>One round: the area is created and inserted, then its pages are copied.\<close>

lemma dup_step:
  assumes af: "areas s f (ws @ w # zs)" and at: "areas s t us" and ne: "t \<noteq> f"
    and dir: "pgdir (mms s t) = Some dt" "pgdir (mms s f) = Some df" "dt \<in> D" "df \<in> D" "dt \<noteq> df"
    and km: "heap_ok km" "km s = Some nv"
    and pg: "paging_ok M D (vmem s) F"
    and new: "\<forall>q \<in> {vpn (vm_start (vmas s w))..<vpn (vm_end (vmas s w))}. \<not> present (vpte (vmem s) dt q)"
    and room: "2 * (vpn (vm_end (vmas s w)) - vpn (vm_start (vmas s w))) \<le> card F"
    and sp: "\<forall>c. space s us c = space s zs c"
  shows "\<exists>s' us' F'. dup_loop km t f (VmaLink w) s = dup_loop km t f (at_end f ws) s' \<and>
    areas s' f (ws @ w # zs) \<and> areas s' t us' \<and> (\<forall>c. space s' us' c = space s' (w # zs) c) \<and>
    (\<forall>v \<in> set (ws @ w # zs). vmas s' v = vmas s v) \<and> vma_live s' = (vma_live s)(nv := True) \<and> kept s s' \<and>
    copied D F (vmem s) dt df {vpn (vm_start (vmas s w))..<vpn (vm_end (vmas s w))} (vmem s') F' \<and>
    paging_ok M D (vmem s') F' \<and> card F \<le> card F' + 2 * (vpn (vm_end (vmas s w)) - vpn (vm_start (vmas s w)))"
proof -
  let ?x = "vmas s w" and ?vs = "ws @ w # zs"
  note A = areasD [OF af]
  have x: "vma_live s w" "vma_ok ?x" using A(4,6) by auto
  have xr: "vm_start ?x mod PGSIZE = 0" "vm_end ?x mod PGSIZE = 0" "USER_ACCESS (vm_start ?x) (vm_end ?x)"
    using x(2) by (auto simp: vma_ok_def)
  have dead: "\<not> vma_live s nv" using km unfolding heap_ok_def by blast
  let ?s1 = "created nv (vm_start ?x) (vm_end ?x) (vm_flags ?x) s"
  note C = created_areas(1,2,4) [OF af dead] and Ct = created_areas(1,2,4) [OF at dead]
  have nw: "w \<noteq> nv" "\<forall>v \<in> set ?vs. v \<noteq> nv" using C(2) by auto
  have cov: "covers (vmas ?s1 nv) c \<longleftrightarrow> covers ?x c" for c by (simp add: covers_def)
  have free: "\<forall>c. covers (vmas ?s1 nv) c \<longrightarrow> space ?s1 us c = None"
  proof (intro allI impI)
    fix c
    assume "covers (vmas ?s1 nv) c"
    then have "covers ?x c" by (simp add: cov)
    then have "\<not> covers (vmas s v) c" if "v \<in> set zs" for v
      using sorted_covers [OF A(3), of w v c] A(7) that by auto
    then show "space ?s1 us c = None" using sp Ct(3) by (simp add: space_def area_at_None)
  qed
  have nl: "vma_live ?s1 nv" "vma_ok (vmas ?s1 nv)" using x(2) by (simp_all add: vma_ok_def)
  obtain s2 us2 where s2: "insert_vma_struct ?s1 t nv = kret s2" "areas s2 t us2"
      "\<forall>c. space s2 us2 c = (if covers (vmas ?s1 nv) c then Some (vm_flags (vmas ?s1 nv)) else space ?s1 us c)"
      "vmem s2 = vmem ?s1" "kept ?s1 s2" "vma_live s2 = vma_live ?s1" "\<forall>v. v \<noteq> nv \<longrightarrow> vmas s2 v = vmas ?s1 v"
      "\<forall>n ys. n \<noteq> t \<and> areas ?s1 n ys \<and> nv \<notin> set ys \<longrightarrow> areas s2 n ys \<and> (\<forall>c. space s2 ys c = space ?s1 ys c)"
    using insert_free [OF Ct(1) nl(1) Ct(2) nl(2) free] by blast
  have a2: "areas s2 f ?vs" using s2(8) C(1,2) ne [symmetric] by blast
  have k2: "kept s s2" using kept_trans [OF kept_created s2(5)] .
  then have p2: "vmem s2 = vmem s" "pgdir (mms s2 t) = Some dt" "pgdir (mms s2 f) = Some df"
    using s2(4) dir by (simp_all add: kept_def)
  have v2: "vmas s2 v = vmas s v" if "v \<in> set ?vs" for v
  proof -
    have "v \<noteq> nv" using nw(2) that by blast
    then show ?thesis using s2(7) by simp
  qed
  obtain h F' where h: "copy_loop (vmem s) dt df (vm_start ?x) (vm_end ?x) = kret (0, h)"
      "copied D F (vmem s) dt df {vpn (vm_start ?x)..<vpn (vm_end ?x)} h F'" "paging_ok M D h F'"
      "card F \<le> card F' + 2 * (vpn (vm_end ?x) - vpn (vm_start ?x))"
    using copy_loop_ok [OF pg dir(3-5) user_range [OF xr] _ room] new by auto
  let ?s3 = "s2\<lparr>vmem := h\<rparr>"
  have "copy_range (vmem s2) dt df (vm_start ?x) (vm_end ?x) False = kret (0, h)"
    using xr h(1) p2(1) by (simp add: copy_range_def)
  then have e: "dup_loop km t f (VmaLink w) s = dup_loop km t f (at_end f ws) ?s3"
    using x(1) km(2) s2(1) areasD(1) [OF a2] p2 list_back [OF areasD(2) [OF a2]]
    by (subst dup_loop.simps) (simp add: vma_create_eq)
  have "space ?s3 us2 c = space ?s3 (w # zs) c" for c
  proof -
    have "area_at s2 (w # zs) c = area_at s (w # zs) c"
      unfolding area_at_def by (rule find_cong) (use v2 in auto)
    then have "space s2 (w # zs) c = space s (w # zs) c"
      unfolding space_def by (auto simp: area_at_def find_Some_iff v2 intro!: option.map_cong0)
    also have "\<dots> = (if covers ?x c then Some (vm_flags ?x) else space s zs c)"
      by (simp add: space_def area_at_def)
    also have "\<dots> = space s2 us2 c" using s2(3) sp Ct(3) by (simp add: cov)
    finally show ?thesis by (simp add: space_def area_at_def)
  qed
  then show ?thesis using e h mem_areas(1) [OF a2] mem_areas(1) [OF s2(2)] v2 s2(6) k2
    by (intro exI [of _ ?s3] exI [of _ us2] exI [of _ F']) (simp add: kept_def)
qed

lemma area_cong:
  assumes "\<forall>v \<in> set vs. vmas s' v = vmas s v"
  shows "area_pages s' vs = area_pages s vs" "area_size s' vs = area_size s vs" "space s' vs c = space s vs c"
proof -
  show "area_pages s' vs = area_pages s vs" "area_size s' vs = area_size s vs"
    using assms by (auto simp: area_pages_def area_size_def intro!: arg_cong [where f = sum_list])
  have "area_at s' vs c = area_at s vs c" unfolding area_at_def by (rule find_cong) (use assms in auto)
  then show "space s' vs c = space s vs c"
    unfolding space_def using assms by (auto simp: area_at_def find_Some_iff intro!: option.map_cong0)
qed

lemma dup_loop_ok:
  assumes "areas s f (ws @ zs)" and "areas s t us" and ne: "t \<noteq> f"
    and "pgdir (mms s t) = Some dt" "pgdir (mms s f) = Some df" and dd: "dt \<in> D" "df \<in> D" "dt \<noteq> df"
    and km: "heap_ok km" and "heap_left km s (length ws)" and "paging_ok M D (vmem s) F"
    and "\<forall>q \<in> area_pages s ws. \<not> present (vpte (vmem s) dt q)" and "2 * area_size s ws \<le> card F"
    and "\<forall>c. space s us c = space s zs c"
  shows "\<exists>s' us' F'. dup_loop km t f (at_end f ws) s = kret (0, s') \<and> areas s' f (ws @ zs) \<and> areas s' t us' \<and>
    (\<forall>c. space s' us' c = space s (ws @ zs) c) \<and> copied D F (vmem s) dt df (area_pages s ws) (vmem s') F' \<and>
    paging_ok M D (vmem s') F' \<and> kept s s'"
  using assms(1,2,4,5,10-14)
proof (induction ws arbitrary: s us zs F rule: rev_induct)
  case Nil
  then show ?case
    by (subst dup_loop.simps) (auto simp: at_end_def area_pages_def intro!: copied_refl)
next
  case (snoc w ws)
  let ?P = "{vpn (vm_start (vmas s w))..<vpn (vm_end (vmas s w))}"
  let ?n = "vpn (vm_end (vmas s w)) - vpn (vm_start (vmas s w))"
  have af: "areas s f (ws @ w # zs)" using snoc.prems(1) by simp
  have "km s \<noteq> None" using snoc.prems(5) by (simp add: heap_left_def)
  then obtain nv where nv: "km s = Some nv" by auto
  have new: "\<forall>q \<in> ?P. \<not> present (vpte (vmem s) dt q)" using snoc.prems(7) by (simp add: area_pages_def)
  have sz: "area_size s (ws @ [w]) = area_size s ws + ?n" by (simp add: area_size_def)
  then have room: "2 * ?n \<le> card F" using snoc.prems(8) by simp
  obtain s1 us1 F1 where s1: "dup_loop km t f (VmaLink w) s = dup_loop km t f (at_end f ws) s1"
      "areas s1 f (ws @ w # zs)" "areas s1 t us1" "\<forall>c. space s1 us1 c = space s1 (w # zs) c"
      "\<forall>v \<in> set (ws @ w # zs). vmas s1 v = vmas s v" "vma_live s1 = (vma_live s)(nv := True)" "kept s s1"
      "copied D F (vmem s) dt df ?P (vmem s1) F1" "paging_ok M D (vmem s1) F1" "card F \<le> card F1 + 2 * ?n"
    using dup_step [OF af snoc.prems(2) ne snoc.prems(3,4) dd km nv snoc.prems(6) new room snoc.prems(9)]
    by (elim exE conjE) (rule that; assumption)
  have dir1: "pgdir (mms s1 t) = Some dt" "pgdir (mms s1 f) = Some df"
    using s1(7) snoc.prems(3,4) by (simp_all add: kept_def)
  have left: "heap_left km s1 (length ws)"
    using heap_left_Suc [OF _ nv km s1(6)] snoc.prems(5) by simp
  have vm1: "\<forall>v \<in> set ws. vmas s1 v = vmas s v" using s1(5) by simp
  note c1 = area_cong [OF vm1] and dj = areas_cover_pages [OF af]
  have new1: "\<forall>q \<in> area_pages s1 ws. \<not> present (vpte (vmem s1) dt q)"
  proof
    fix q
    assume "q \<in> area_pages s1 ws"
    then have q: "q \<in> area_pages s ws" by (simp add: c1)
    then have "q \<notin> ?P" "q < user_pages" using dj by auto
    then have "vpte (vmem s1) dt q = vpte (vmem s) dt q" using s1(8) dd(1) by (auto simp: copied_def)
    moreover have "q \<in> area_pages s (ws @ [w])" using q by (simp add: area_pages_def)
    ultimately show "\<not> present (vpte (vmem s1) dt q)" using snoc.prems(7) by simp
  qed
  have room1: "2 * area_size s1 ws \<le> card F1" using snoc.prems(8) sz s1(10) by (simp add: c1)
  obtain s' us' F' where s': "dup_loop km t f (at_end f ws) s1 = kret (0, s')" "areas s' f (ws @ w # zs)" "areas s' t us'"
      "\<forall>c. space s' us' c = space s1 (ws @ w # zs) c"
      "copied D F1 (vmem s1) dt df (area_pages s1 ws) (vmem s') F'" "paging_ok M D (vmem s') F'" "kept s1 s'"
    using snoc.IH [OF s1(2,3) dir1 left s1(9) new1 room1 s1(4)] by (elim exE conjE) (rule that; assumption)
  have "copied D F (vmem s) dt df (?P \<union> area_pages s ws) (vmem s') F'"
    by (rule copied_trans [OF snoc.prems(6) dd s1(8) s'(5) [unfolded c1(1)]]) (use dj in auto)
  moreover have "?P \<union> area_pages s ws = area_pages s (ws @ [w])" by (auto simp: area_pages_def)
  moreover have "space s1 (ws @ w # zs) c = space s (ws @ w # zs) c" for c using area_cong(3) [OF s1(5)] .
  moreover have "at_end f (ws @ [w]) = VmaLink w" by (simp add: at_end_def)
  ultimately show ?case using s1(1) s' kept_trans [OF s1(7) s'(7)] by auto
qed

text \<open>C14. \<^verbatim>\<open>dup_mmap\<close> makes an independent copy of an address space.  Given memory for the descriptors and
  two free frames per page, an empty target and no page mapped in the target under the areas of the
  source, it returns 0; the target then has the same areas with the same flags; every page mapped in
  an area of the source is mapped in the target, with the same user permissions, to a frame that was
  free, with the same contents; and the source and all other translations are unchanged.\<close>

theorem dup_mmap_correct:
  assumes af: "areas s f vs" and at: "areas s t []" and ne: "t \<noteq> f"
    and dir: "pgdir (mms s t) = Some dt" "pgdir (mms s f) = Some df" "dt \<in> D" "df \<in> D" "dt \<noteq> df"
    and km: "heap_ok km" "heap_left km s (length vs)" and pg: "paging_ok M D (vmem s) F"
    and new: "\<forall>q \<in> area_pages s vs. \<not> present (vpte (vmem s) dt q)" and room: "2 * area_size s vs \<le> card F"
  shows "\<exists>s' us F'. dup_mmap km (Some t) (Some f) s = kret (0, s') \<and> areas s' f vs \<and> areas s' t us \<and>
    (\<forall>c. space s' us c = space s vs c) \<and> paging_ok M D (vmem s') F' \<and>
    (\<forall>q \<in> area_pages s vs. present (vpte (vmem s) df q) \<longrightarrow>
       (\<exists>p \<in> F - F'. pmap (vmem s') (dt, q) = Some p \<and>
          vpte (vmem s') dt q AND PTE_USER = vpte (vmem s) df q AND PTE_USER \<and>
          frame (vmem s') p = frame (vmem s) (unat (PPN (vpte (vmem s) df q))))) \<and>
    (\<forall>d \<in> D. \<forall>q < user_pages. \<not> (d = dt \<and> q \<in> area_pages s vs \<and> present (vpte (vmem s) df q)) \<longrightarrow>
       vpte (vmem s') d q = vpte (vmem s) d q)"
proof -
  obtain s' us F' where s': "dup_loop km t f (at_end f vs) s = kret (0, s')" "areas s' f vs" "areas s' t us"
      "\<forall>c. space s' us c = space s vs c" "copied D F (vmem s) dt df (area_pages s vs) (vmem s') F'"
      "paging_ok M D (vmem s') F'"
    using dup_loop_ok [of s f vs "[]" t "[]" dt df D km M F] assms by auto
  have "dup_mmap km (Some t) (Some f) s = kret (0, s')"
    using s'(1) list_last [OF areasD(2) [OF af]] by (simp add: dup_mmap_def)
  moreover have "\<exists>p \<in> F - F'. pmap (vmem s') (dt, q) = Some p \<and>
      vpte (vmem s') dt q AND PTE_USER = vpte (vmem s) df q AND PTE_USER \<and>
      frame (vmem s') p = frame (vmem s) (unat (PPN (vpte (vmem s) df q)))"
    if q: "q \<in> area_pages s vs" "present (vpte (vmem s) df q)" for q
  proof -
    obtain p where p: "p \<in> F - F'" "vpte (vmem s') dt q = page2pa p OR PTE_P OR (vpte (vmem s) df q AND PTE_USER)"
        "frame (vmem s') p = frame (vmem s) (unat (PPN (vpte (vmem s) df q)))"
      by (rule copied_new [OF s'(5) q])
    have "p < unat (npage (vmem s))" using p(1) paging_okD(9,10) [OF pg] by auto
    then have p20: "p < 2 ^ 20" using paging_okD(2) [OF pg] by simp
    have "pmap (vmem s') (dt, q) = Some p"
      using entry_simps [OF p20 and_user_less [of "vpte (vmem s) df q"]] by (simp add: pmap_def p(2))
    moreover have "vpte (vmem s') dt q AND PTE_USER = vpte (vmem s) df q AND PTE_USER"
      unfolding p(2) by (rule entry_user [OF q(2)])
    ultimately show ?thesis using p by blast
  qed
  ultimately show ?thesis using s'(2-6) by (auto simp: copied_def)
qed

lemma one_vmm_other: "areas (one_vmm h) 1 []"
  by (simp add: areas_def one_vmm_def dlist_def list_add_after_def list_add_between_def Let_def)
    (simp add: empty_vmm_def)

lemma one_vmm_heap: "heap_left small_heap (one_vmm h) 1"
proof -
  have l: "{v. vma_live (one_vmm h) v} = {0}" by (auto simp: one_vmm_def) (simp_all add: empty_vmm_def)
  have "small_heap t \<noteq> None" if "finite {v. vma_live t v}" "card {v. vma_live t v} < 2" for t
  proof
    assume "small_heap t = None"
    then have "{0, 1, 2, 3} \<subseteq> {v. vma_live t v}" by (auto simp: small_heap_def split: if_splits)
    from card_mono [OF that(1) this] show False using that(2) by simp
  qed
  then show ?thesis by (simp add: heap_left_def l)
qed

theorem dup_mmap_correct_witness:
  "\<exists>s s' us p. dup_mmap small_heap (Some 1) (Some 0) s = kret (0, s') \<and> areas s' 1 us \<and>
     space s' us 0x200000 = Some 3 \<and> pmap (vmem s') (11, 0x200) = Some p \<and>
     frame (vmem s') p = frame (vmem s) (unat (PPN (vpte (vmem s) 10 0x200)))"
proof -
  obtain h F where h: "paging_ok (block (2, 6)) {10, 11} h F" "4 \<le> card F" "present (vpte h 10 0x200)"
      "\<forall>v < user_pages. vpte h 11 v = 0"
    using one_page_ok by blast
  note one = one_vmm_areas [of h]
  have v: "vpn 0x200000 = 0x200" "vpn 0x201000 = 0x201" by (simp_all add: vpn_def)
  have ap: "area_pages (one_vmm h) [0] = {0x200}" by (auto simp: area_pages_def one v)
  have as: "area_size (one_vmm h) [0] = 1" by (simp add: area_size_def one v)
  have sp: "space (one_vmm h) [0] 0x200000 = Some 3" by (simp add: space_def one)
  have new: "\<forall>q \<in> area_pages (one_vmm h) [0]. \<not> present (vpte (vmem (one_vmm h)) 11 q)"
    using h(4) by (simp add: ap one user_pages_def present_def)
  have dir: "pgdir (mms (one_vmm h) 1) = Some 11" "pgdir (mms (one_vmm h) 0) = Some 10" by (simp_all add: one)
  have hl: "heap_left small_heap (one_vmm h) (length [0])" using one_vmm_heap by simp
  have pg: "paging_ok (block (2, 6)) {10, 11} (vmem (one_vmm h)) F" using h(1) one(4) by simp
  have room: "2 * area_size (one_vmm h) [0] \<le> card F" using h(2) as by simp
  obtain s' us F' where s': "dup_mmap small_heap (Some 1) (Some 0) (one_vmm h) = kret (0, s')" "areas s' 1 us"
      "\<forall>c. space s' us c = space (one_vmm h) [0] c"
      "\<forall>q \<in> {0x200}. present (vpte h 10 q) \<longrightarrow> (\<exists>p \<in> F - F'. pmap (vmem s') (11, q) = Some p \<and>
         vpte (vmem s') 11 q AND PTE_USER = vpte h 10 q AND PTE_USER \<and>
         frame (vmem s') p = frame h (unat (PPN (vpte h 10 q))))"
    using dup_mmap_correct [OF one(1) one_vmm_other _ dir _ _ _ small_heap_ok hl pg new room, unfolded ap one(4)]
    by auto
  then obtain p where "pmap (vmem s') (11, 0x200) = Some p" "frame (vmem s') p = frame h (unat (PPN (vpte h 10 0x200)))"
    using h(3) by auto
  then show ?thesis using s'(1-3) sp one(4)
    by (intro exI [of _ "one_vmm h"] exI [of _ s'] exI [of _ us] exI [of _ p]) simp
qed

section \<open>Page faults\<close>

text \<open>Which accesses an area allows, by the error code of the fault (bit 0: the page was present, bit 1:
  a write), and the permissions that the new entry gets.\<close>

definition fault_allowed :: "u32 \<Rightarrow> u32 \<Rightarrow> bool" where
  "fault_allowed code fl = (if code AND 3 = 1 then False
     else if code AND 3 = 0 then fl AND (VM_READ OR VM_EXEC) \<noteq> 0 else fl AND VM_WRITE \<noteq> 0)"

definition fault_perm :: "u32 \<Rightarrow> u32" where
  "fault_perm fl = (if fl AND VM_WRITE \<noteq> 0 then PTE_U OR PTE_W else PTE_U)"

lemma and3_cases: "(c :: u32) AND 3 \<in> {0, 1, 2, 3}"
proof -
  have "c AND 3 \<le> 3" by (rule word_and_le1)
  then have "unat (c AND 3) \<le> 3" by (simp add: word_le_nat_alt)
  then have "unat (c AND 3) = 0 \<or> unat (c AND 3) = 1 \<or> unat (c AND 3) = 2 \<or> unat (c AND 3) = 3" by linarith
  then show ?thesis by (auto simp: unat_eq_nat)
qed

lemma do_pgfault_eq:
  fixes addr :: u32
  assumes ar: "areas s m vs" and d: "pgdir (mms s m) = Some d"
  defines "t \<equiv> cached m (area_at s vs addr) s\<lparr>pgfault_num := pgfault_num s + 1\<rparr>"
  shows "do_pgfault s (Some m) code addr = (case space s vs addr of
     None \<Rightarrow> kret (- E_INVAL, t)
   | Some fl \<Rightarrow> if fault_allowed code fl then fault_in t m d (ROUNDDOWN addr PGSIZE) (fault_perm fl)
       else kret (- E_INVAL, t))"
proof (cases "area_at s vs addr")
  case None
  then show ?thesis using find_vma_ok [OF ar, of addr]
    by (simp add: do_pgfault_def space_def t_def Let_def)
next
  case (Some v)
  have v: "v \<in> set vs" "vma_live s v" "\<not> addr < vm_start (vmas s v)"
    using area_at_Some [OF areasD(3) [OF ar]] areasD(4) [OF ar] Some by (auto simp: covers_def)
  have dt: "pgdir (mms t m) = Some d" "vmas t = vmas s" "vma_live t = vma_live s" using d by (simp_all add: t_def)
  note c = and3_cases [of code]
  have "do_pgfault s (Some m) code addr =
      (let fl = vm_flags (vmas s v); code = code AND 3 in
       if addr < vm_start (vmas s v) then kret (- E_INVAL, t)
       else if code \<in> {2, 3} \<and> fl AND VM_WRITE = 0 then kret (- E_INVAL, t)
       else if code = 1 then kret (- E_INVAL, t)
       else if code = 0 \<and> fl AND (VM_READ OR VM_EXEC) = 0 then kret (- E_INVAL, t)
       else let perm = (if fl AND VM_WRITE \<noteq> 0 then PTE_U OR PTE_W else PTE_U) in
         deref (pgdir (mms t m)) (\<lambda>d. fault_in t m d (ROUNDDOWN addr PGSIZE) perm))"
  proof -
    have "vma_at t v g = g (vmas s v)" for g :: "vma_struct \<Rightarrow> (int \<times> vmm) prog" using v(2) dt by simp
    then show ?thesis
      using find_vma_ok [OF ar, of addr, unfolded Some] unfolding do_pgfault_def Some t_def by (simp add: Let_def)
  qed
  then show ?thesis using Some v(3) dt(1) c by (auto simp: space_def fault_allowed_def fault_perm_def Let_def)
qed

lemma new_table_room:
  assumes ok: "paging_ok M D h F" and c: "2 \<le> card F" and g: "grown D h h1"
    and t: "tabs h1 D = insert x (tabs h D)" "x \<in> tabs h1 D"
  shows "F - tab h1 ` tabs h1 D \<noteq> {}"
proof -
  have "tab h1 y = tab h y" if "y \<in> tabs h D" for y using g that by (simp add: grown_def)
  then have "F \<inter> tab h1 ` tabs h1 D \<subseteq> {tab h1 x}" using paging_okD(5) [OF ok] t by auto
  then have "F - {tab h1 x} \<subseteq> F - tab h1 ` tabs h1 D" by blast
  moreover have "F - {tab h1 x} \<noteq> {}"
  proof
    assume "F - {tab h1 x} = {}"
    then have "F \<subseteq> {tab h1 x}" by blast
    from card_mono [OF _ this] show False using c by simp
  qed
  ultimately show ?thesis by blast
qed

text \<open>The slot of an address points to a new page; nothing else changed.\<close>

definition paged_in :: "nat set \<Rightarrow> nat set \<Rightarrow> nat set \<Rightarrow> mem \<Rightarrow> nat \<Rightarrow> u32 \<Rightarrow> u32 \<Rightarrow> nat \<Rightarrow> mem \<Rightarrow> bool" where
  "paged_in M D F h d la perm p h' \<longleftrightarrow> p \<in> F \<and> pmap h' (d, vpn la) = Some p \<and>
     vpte h' d (vpn la) = page2pa p OR PTE_P OR perm \<and>
     (\<forall>d' \<in> D. \<forall>q < user_pages. (d', q) \<noteq> (d, vpn la) \<longrightarrow> vpte h' d' q = vpte h d' q) \<and>
     (\<exists>F'. paging_ok M D h' F')"

text \<open>Inserting a page just allocated, whose contents may have been written meanwhile.\<close>

lemma insert_new_page:
  assumes ok: "paging_ok M D h F" and ok1: "paging_ok M D h1 (F1 - {p})" and d: "d \<in> D" and v: "vpn la < user_pages"
    and pr: "present (frame h1 d (PDX la))" and p: "p \<in> F1" "F1 \<subseteq> F" "p \<notin> tab h1 ` tabs h1 D"
    and e: "\<forall>d' \<in> D. \<forall>q < user_pages. vpte h1 d' q = vpte h d' q" and perm: "perm < 0x1000"
  shows "\<exists>h2. page_insert h1 d p la perm = kret (0, h2) \<and> paged_in M D F h d la perm p h2 \<and> same_env h1 h2 \<and>
    (\<forall>f. f \<notin> D \<union> tab h2 ` tabs h2 D \<longrightarrow> frame h2 f = frame h1 f) \<and> p \<notin> D \<union> tab h2 ` tabs h2 D"
proof -
  have pM: "p \<in> M" "p \<notin> D" using p(1,2) paging_okD(4,10) [OF ok] by auto
  then have pp: "p \<in> M - (F1 - {p}) - D - tab h1 ` tabs h1 D" using p(3) by auto
  obtain h2 where h2: "page_insert h1 d p la perm = kret (0, h2)" "inserted D h1 d la (page2pa p OR PTE_P OR perm) h2"
      "paging_ok M D h2 ((F1 - {p} - tab h2 ` tabs h2 D) \<union> (mapped h1 D - mapped h2 D))"
    using page_insert_ok [OF ok1 d v _ pp perm] pr by blast
  have p20: "p < 2 ^ 20" using pM(1) paging_okD(2,9) [OF ok] by auto
  have vp: "vpte h2 d (vpn la) = page2pa p OR PTE_P OR perm" using h2(2) d v by (simp add: inserted_def)
  have pm: "pmap h2 (d, vpn la) = Some p" using entry_simps [OF p20 perm] by (simp add: pmap_def vp)
  then have "p \<in> mapped h2 D" using d v by (auto simp: mapped_def slots_def)
  then have "p \<notin> tab h2 ` tabs h2 D" using paging_okD(7) [OF h2(3)] by blast
  moreover have "paged_in M D F h d la perm p h2"
    using p(1,2) pm vp h2(2,3) e by (auto simp: paged_in_def inserted_def)
  ultimately show ?thesis using h2(1,2) pM(2) by (auto simp: inserted_def)
qed

lemma fault_zero:
  assumes ok: "paging_ok M D (vmem s) F" and d: "d \<in> D" and v: "vpn la < user_pages" and c: "2 \<le> card F"
    and e: "vpte (vmem s) d (vpn la) = 0" and perm: "perm < 0x1000" and ch: "check_mm_struct (vmem s) = None"
  shows "\<exists>p h'. fault_in s m d la perm = kret (0, s\<lparr>vmem := h'\<rparr>) \<and> paged_in M D F (vmem s) d la perm p h'"
proof -
  have "F \<noteq> {}" using c by auto
  then obtain h1 where h1: "get_pte (vmem s) d la True = kret (Some (tab h1 (d, PDX la), PTX la), h1)"
      "grown D (vmem s) h1" "present (frame h1 d (PDX la))" "tabs h1 D = insert (d, PDX la) (tabs (vmem s) D)"
      "paging_ok M D h1 (F - tab h1 ` tabs h1 D)"
    using get_pte_create [OF ok d v] by blast
  have "pte_read h1 (tab h1 (d, PDX la), PTX la) = vpte h1 d (vpn la)" by (rule get_pte_present(2) [OF h1(5) d v h1(3)])
  also have "\<dots> = 0" using h1(2) d v e by (simp add: grown_def)
  finally have z: "pte_read h1 (tab h1 (d, PDX la), PTX la) = 0" .
  let ?F = "F - tab h1 ` tabs h1 D"
  have "?F \<noteq> {}" using new_table_room [OF ok c h1(2,4)] h1(4) by simp
  then obtain p m1 where p: "alloc_pages h1 1 = kret (Some p, h1\<lparr>mgr := m1\<rparr>)" "p \<in> ?F"
      "pmm_ok (unat (npage h1)) M m1 (?F - {p})" "\<forall>q. page_ref_of (h1\<lparr>mgr := m1\<rparr>) q = page_ref_of h1 q"
    using alloc_page_ok [OF paging_okD(1) [OF h1(5)]] by blast
  let ?h = "h1\<lparr>mgr := m1\<rparr>"
  have ok2: "paging_ok M D ?h (?F - {p})" by (rule paging_ok_alloc [OF h1(5) p(3,4)])
  have same: "tabs ?h D = tabs h1 D" "tab ?h = tab h1" "vpte ?h = vpte h1"
    by (auto simp: tabs_def tab_def fun_eq_iff vpte_def)
  have np: "p \<notin> tab ?h ` tabs ?h D" using p(2) by (simp add: same)
  have eq: "\<forall>d' \<in> D. \<forall>q < user_pages. vpte ?h d' q = vpte (vmem s) d' q" using h1(2) by (simp add: same grown_def)
  have pr: "present (frame ?h d (PDX la))" using h1(3) by simp
  obtain h2 where h2: "page_insert ?h d p la perm = kret (0, h2)" "paged_in M D F (vmem s) d la perm p h2" "same_env ?h h2"
    using insert_new_page [OF ok ok2 d v pr p(2) _ np eq perm] by blast
  have "check_mm_struct h2 = None" using h2(3) h1(2) ch by (simp add: same_env_def grown_def)
  then have "pgdir_alloc_page h1 d la perm = kret (Some p, h2)" using p(1) h2(1) by (simp add: pgdir_alloc_page_def)
  then show ?thesis using h1(1) z h2(2) by (auto simp: fault_in_def)
qed

lemma fault_swap:
  assumes ok: "paging_ok M D (vmem s) F" and d: "d \<in> D" and v: "vpn la < user_pages" and F: "F \<noteq> {}"
    and e: "e = vpte (vmem s) d (vpn la)" "e \<noteq> 0" "\<not> present e"
    and sw: "swap_init_ok (vmem s)" "0 < drop_bit 8 e" "drop_bit 8 e < max_swap_offset (vmem s)"
      "ide_err (vmem s) (drop_bit 8 e) = 0"
    and mm: "pgdir (mms s m) = Some d" "sm_priv (mms s m)" and perm: "perm < 0x1000"
  shows "\<exists>p h'. fault_in s m d la perm = kret (0, s\<lparr>vmem := h'\<rparr>) \<and> paged_in M D F (vmem s) d la perm p h' \<and>
    frame h' p = swap_dev (vmem s) (drop_bit 8 e)"
proof -
  let ?h = "vmem s" and ?ptr = "(tab (vmem s) (d, PDX la), PTX la)"
  have pr: "present (frame ?h d (PDX la))" using e vpte_absent by blast
  note g = get_pte_present [OF ok d v pr]
  obtain p m1 where p: "alloc_pages ?h 1 = kret (Some p, ?h\<lparr>mgr := m1\<rparr>)" "p \<in> F"
      "pmm_ok (unat (npage ?h)) M m1 (F - {p})" "\<forall>q. page_ref_of (?h\<lparr>mgr := m1\<rparr>) q = page_ref_of ?h q"
    using alloc_page_ok [OF paging_okD(1) [OF ok] F] by blast
  let ?h1 = "?h\<lparr>mgr := m1\<rparr>"
  have ok1: "paging_ok M D ?h1 (F - {p})" by (rule paging_ok_alloc [OF ok p(3,4)])
  have same: "tabs ?h1 D = tabs ?h D" "tab ?h1 = tab ?h" "vpte ?h1 = vpte ?h"
    by (auto simp: tabs_def tab_def fun_eq_iff vpte_def)
  have pD: "p \<notin> D" "p \<notin> tab ?h1 ` tabs ?h1 D" "p < unat (npage ?h)"
    using p(2) paging_okD(4,5,9,10) [OF ok] by (auto simp: same)
  define h2 where "h2 = ?h1\<lparr>frame := (frame ?h1)(p := swap_dev ?h (drop_bit 8 e))\<rparr>"
  note W = data_write [OF ok1 pD(1,2), where c = "swap_dev ?h (drop_bit 8 e)", folded h2_def]
  have "(d, PDX la) \<in> tabs ?h D" using tabsI [of d D "vpn la"] d v pr by (simp add: PDX_vpn)
  from KADDR_tab [OF ok this] have "get_pte0 ?h1 d la = kret (Some ?ptr)"
    using pr by (simp add: get_pte0_def KADDR_def Let_def)
  moreover have "pte_read ?h1 ?ptr = e" using g(2) e(1) by simp
  moreover have "page2kva ?h1 p = kret p"
    using pD(3) PPN_page2pa [of p] paging_okD(2) [OF ok] by (simp add: page2kva_def KADDR_def word_le_nat_alt)
  ultimately have si: "swap_in ?h (swap_view (mms s m)) la = kret (0, p, h2)"
    using p(1) mm sw by (simp add: swap_in_def swap_view_def swapfs_read_def swap_offset_def Let_def h2_def)
  have "p \<notin> tab h2 ` tabs h2 D" using pD(2) W(1,2) by force
  moreover have "\<forall>d' \<in> D. \<forall>q < user_pages. vpte h2 d' q = vpte ?h d' q" using W(3) by (simp add: same)
  moreover have "present (frame h2 d (PDX la))" using pr pD(1) d by (auto simp: h2_def)
  ultimately obtain h3 where h3: "page_insert h2 d p la perm = kret (0, h3)" "paged_in M D F ?h d la perm p h3"
      "\<forall>f. f \<notin> D \<union> tab h3 ` tabs h3 D \<longrightarrow> frame h3 f = frame h2 f" "p \<notin> D \<union> tab h3 ` tabs h3 D"
    using insert_new_page [OF ok W(5) d v _ p(2) order_refl _ _ perm] by blast
  let ?h4 = "h3\<lparr>pra_list := list_add (pra_list h3) Head (Link p)\<rparr>"
  let ?h5 = "?h4\<lparr>pra_vaddr := (pra_vaddr ?h4)(p := la)\<rparr>"
  have "paged_in M D F ?h d la perm p ?h5"
  proof -
    have "vpte ?h5 = vpte h3" by (rule vpte_cong) simp
    moreover from this have "pmap ?h5 = pmap h3" "mapped ?h5 = mapped h3" "users ?h5 = users h3" "tabs ?h5 = tabs h3"
        "tab ?h5 = tab h3" "page_ref_of ?h5 = page_ref_of h3"
      by (simp_all add: fun_eq_iff pmap_def mapped_def users_def tabs_def tab_def page_ref_of_def)
    ultimately show ?thesis using h3(2) by (simp add: paged_in_def paging_okx_def)
  qed
  moreover have "frame ?h5 p = swap_dev ?h (drop_bit 8 e)" using h3(3,4) by (simp add: h2_def)
  moreover have "fault_in s m d la perm = kret (0, s\<lparr>vmem := ?h5\<rparr>)"
    using g(1) [of True] g(2) e sw(1) si h3(1) mm by (simp add: fault_in_def fifo_map_swappable_def swap_view_def)
  ultimately show ?thesis by blast
qed

lemma fault_perm_less: "fault_perm fl < 0x1000"
  by (simp add: fault_perm_def)

lemma vpn_ROUNDDOWN: "vpn (ROUNDDOWN a PGSIZE) = vpn a"
  by (simp add: vpn_def unat_ROUNDDOWN minus_mod_eq_div_mult)

lemma space_user:
  assumes "areas s m vs" and "space s vs a \<noteq> None"
  shows "vpn a < user_pages"
proof -
  obtain v where v: "v \<in> set vs" "covers (vmas s v) a"
    using assms(2) area_at_Some [OF areasD(3) [OF assms(1)]] by (auto simp: space_def)
  then have "unat a < 2952790016"
    using areasD(6) [OF assms(1) v(1)] by (auto simp: vma_ok_def USER_ACCESS_def covers_def word_less_nat_alt word_le_nat_alt)
  then show ?thesis by (simp add: vpn_def user_pages_def less_mult_imp_div_less)
qed

text \<open>C2. \<^verbatim>\<open>do_pgfault\<close> on a well-formed address space.  A fault outside every area, or for an access that
  the area does not allow, is refused with \<open>-E_INVAL\<close> and leaves memory alone.  Otherwise, with two
  free frames: an address never touched gets a free frame, mapped with the permissions of the area; an
  address whose page was swapped out gets a free frame with the contents of the swap slot; a slot that
  is mapped already stops the kernel; and all other translations are unchanged.\<close>

theorem do_pgfault_correct:
  assumes ar: "areas s m vs" and ok: "paging_ok M D (vmem s) F" "2 \<le> card F"
    and mm: "pgdir (mms s m) = Some d" "d \<in> D" "sm_priv (mms s m)"
    and ch: "check_mm_struct (vmem s) = None" and e: "e = vpte (vmem s) d (vpn addr)"
    and sw: "e \<noteq> 0 \<and> \<not> present e \<longrightarrow> swap_init_ok (vmem s) \<and> 0 < drop_bit 8 e \<and>
      drop_bit 8 e < max_swap_offset (vmem s) \<and> ide_err (vmem s) (drop_bit 8 e) = 0"
  shows "case space s vs addr of
     None \<Rightarrow> \<exists>s'. do_pgfault s (Some m) code addr = kret (- E_INVAL, s') \<and> areas s' m vs \<and> vmem s' = vmem s
   | Some fl \<Rightarrow>
       if \<not> fault_allowed code fl
       then \<exists>s'. do_pgfault s (Some m) code addr = kret (- E_INVAL, s') \<and> areas s' m vs \<and> vmem s' = vmem s
       else if present e then do_pgfault s (Some m) code addr = kpanic (Panic ''error write a non-writable pte'')
       else \<exists>s' p. do_pgfault s (Some m) code addr = kret (0, s') \<and> areas s' m vs \<and> p \<in> F \<and>
         vpte (vmem s') d (vpn addr) = page2pa p OR PTE_P OR fault_perm fl \<and>
         pmap (vmem s') (d, vpn addr) = Some p \<and>
         (e \<noteq> 0 \<longrightarrow> frame (vmem s') p = swap_dev (vmem s) (drop_bit 8 e)) \<and>
         (\<forall>d' \<in> D. \<forall>q < user_pages. (d', q) \<noteq> (d, vpn addr) \<longrightarrow> vpte (vmem s') d' q = vpte (vmem s) d' q) \<and>
         (\<exists>F'. paging_ok M D (vmem s') F')"
proof -
  let ?t = "cached m (area_at s vs addr) s\<lparr>pgfault_num := pgfault_num s + 1\<rparr>" and ?la = "ROUNDDOWN addr PGSIZE"
  have t: "areas ?t m vs" "vmem ?t = vmem s" "pgdir (mms ?t m) = Some d" "sm_priv (mms ?t m)"
    using cached_areas [OF ar area_in [OF ar]] mm by (auto simp: areas_def before_def [abs_def])
  have mt: "areas (?t\<lparr>vmem := h\<rparr>) m vs" for h by (rule mem_areas(1) [OF t(1)])
  note E = do_pgfault_eq [OF ar mm(1), of code addr]
  show ?thesis
  proof (cases "space s vs addr")
    case None
    then show ?thesis using E t(1,2) by auto
  next
    case (Some fl)
    then have v: "vpn ?la < user_pages" using space_user [OF ar, of addr] by (simp add: vpn_ROUNDDOWN)
    have fn: "F \<noteq> {}" using ok(2) by auto
    note okt = ok(1) [folded t(2)] and et = e [folded t(2) vpn_ROUNDDOWN [of addr]]
    have ft: "do_pgfault s (Some m) code addr = fault_in ?t m d ?la (fault_perm fl)" if "fault_allowed code fl"
      using E Some that by simp
    have zero: "\<exists>p h'. fault_in ?t m d ?la (fault_perm fl) = kret (0, ?t\<lparr>vmem := h'\<rparr>) \<and>
        paged_in M D F (vmem s) d ?la (fault_perm fl) p h'" if "e = 0"
      using fault_zero [OF okt mm(2) v ok(2) _ fault_perm_less, of m fl] et that ch t(2) by auto
    have swap: "\<exists>p h'. fault_in ?t m d ?la (fault_perm fl) = kret (0, ?t\<lparr>vmem := h'\<rparr>) \<and>
        paged_in M D F (vmem s) d ?la (fault_perm fl) p h' \<and> frame h' p = swap_dev (vmem s) (drop_bit 8 e)"
      if "e \<noteq> 0" "\<not> present e"
      using fault_swap [OF okt mm(2) v fn et that, of m "fault_perm fl"] sw that t fault_perm_less by auto
    have pan: "fault_in ?t m d ?la (fault_perm fl) = kpanic (Panic ''error write a non-writable pte'')" if "present e"
    proof -
      have "e \<noteq> 0" using that by auto
      then have pr: "present (frame (vmem ?t) d (PDX ?la))" using et vpte_absent [of "vmem ?t" d ?la] by blast
      show ?thesis using \<open>e \<noteq> 0\<close> get_pte_present [OF okt mm(2) v pr] that et by (simp add: fault_in_def)
    qed
    show ?thesis
    proof (cases "fault_allowed code fl \<and> \<not> present e")
      case False
      then show ?thesis using E Some t(1,2) ft pan by auto
    next
      case True
      then obtain p h' where p: "fault_in ?t m d ?la (fault_perm fl) = kret (0, ?t\<lparr>vmem := h'\<rparr>)"
          "paged_in M D F (vmem s) d ?la (fault_perm fl) p h'" "e \<noteq> 0 \<longrightarrow> frame h' p = swap_dev (vmem s) (drop_bit 8 e)"
        using zero swap by (cases "e = 0") auto
      then have "do_pgfault s (Some m) code addr = kret (0, ?t\<lparr>vmem := h'\<rparr>) \<and> areas (?t\<lparr>vmem := h'\<rparr>) m vs \<and> p \<in> F \<and>
         vpte (vmem (?t\<lparr>vmem := h'\<rparr>)) d (vpn addr) = page2pa p OR PTE_P OR fault_perm fl \<and>
         pmap (vmem (?t\<lparr>vmem := h'\<rparr>)) (d, vpn addr) = Some p \<and>
         (e \<noteq> 0 \<longrightarrow> frame (vmem (?t\<lparr>vmem := h'\<rparr>)) p = swap_dev (vmem s) (drop_bit 8 e)) \<and>
         (\<forall>d' \<in> D. \<forall>q < user_pages. (d', q) \<noteq> (d, vpn addr) \<longrightarrow> vpte (vmem (?t\<lparr>vmem := h'\<rparr>)) d' q = vpte (vmem s) d' q) \<and>
         (\<exists>F'. paging_ok M D (vmem (?t\<lparr>vmem := h'\<rparr>)) F')"
        using ft True mt [of h'] by (auto simp: paged_in_def vpn_ROUNDDOWN)
      then show ?thesis using True Some by auto
    qed
  qed
qed

theorem do_pgfault_correct_witness:
  "\<exists>s s' p vs. do_pgfault s (Some 0) 2 0x200010 = kret (0, s') \<and> areas s' 0 vs \<and>
     pmap (vmem s) (10, 0x200) = None \<and> pmap (vmem s') (10, 0x200) = Some p"
proof -
  obtain mg where ok: "paging_ok (block (2, 6)) {10, 11} (two_dirs mg) (block (2, 6))" using two_dirs_ok by blast
  let ?s = "upd_mm 0 (\<lambda>r. r\<lparr>sm_priv := True\<rparr>) (one_vmm (two_dirs mg))"
  note one = one_vmm_areas [of "two_dirs mg"]
  have ar: "areas ?s 0 [0]" using one(1) by (auto simp: areas_def upd_mm_def before_def [abs_def])
  have sp: "space ?s [0] 0x200010 = Some 3"
    using one(2) [of "0x200010"] one(3) by (simp add: space_def area_at_def upd_mm_def)
  have v: "vpn 0x200010 = 0x200" by (simp add: vpn_def)
  have m: "vmem ?s = two_dirs mg" "pgdir (mms ?s 0) = Some 10" "sm_priv (mms ?s 0)"
    using one by (simp_all add: upd_mm_def)
  have c: "card (block (2, 6)) = 6" by (simp add: block_def)
  have al: "fault_allowed 2 3" by code_simp
  obtain s' p where "do_pgfault ?s (Some 0) 2 0x200010 = kret (0, s')" "areas s' 0 [0]"
      "pmap (vmem s') (10, 0x200) = Some p"
    using do_pgfault_correct [OF ar, of "block (2, 6)" "{10, 11}" "block (2, 6)" 10 0 "0x200010" 2] ok m c sp v al
    by (auto simp: two_dirs_def [of mg, THEN arg_cong [where f = check_mm_struct]])
  moreover have "pmap (vmem ?s) (10, 0x200) = None" by (simp add: m pmap_def)
  ultimately show ?thesis by blast
qed

section \<open>Destroying an address space, and growing the heap\<close>

lemma destroy_loop_ok:
  assumes "dlist (vlinks s) (MmapList m) (map VmaLink vs)" and "\<forall>v \<in> set vs. vma_live s v" and "distinct vs"
  shows "\<exists>s'. destroy_loop s m = kret s' \<and> mm_live s' = mm_live s \<and> mms s' = mms s \<and> vmem s' = vmem s \<and>
    (\<forall>v. vma_live s' v \<longleftrightarrow> vma_live s v \<and> v \<notin> set vs) \<and> dlist (vlinks s') (MmapList m) []"
  using assms
proof (induction vs arbitrary: s)
  case Nil
  then show ?case using list_first [OF Nil(1)] by (subst destroy_loop.simps) simp
next
  case (Cons v vs)
  let ?s = "s\<lparr>vlinks := list_del (vlinks s) (VmaLink v), vma_live := (vma_live s)(v := False)\<rparr>"
  have d: "dlist (vlinks ?s) (MmapList m) (map VmaLink vs)"
    using dlist_del [of "vlinks s" "MmapList m" "[]" "VmaLink v" "map VmaLink vs"] Cons.prems(1) by simp
  have "destroy_loop s m = destroy_loop ?s m"
    using list_first [OF Cons.prems(1)] Cons.prems(2) by (subst destroy_loop.simps) (simp add: kfree_vma_def Let_def)
  moreover have "\<forall>w \<in> set vs. vma_live ?s w" "distinct vs" "v \<notin> set vs" using Cons.prems(2,3) by auto
  moreover from this obtain s' where "destroy_loop ?s m = kret s'" "mm_live s' = mm_live s" "mms s' = mms s" "vmem s' = vmem s"
    "\<forall>w. vma_live s' w \<longleftrightarrow> vma_live ?s w \<and> w \<notin> set vs" "dlist (vlinks s') (MmapList m) []"
    using Cons.IH [OF d] by auto
  ultimately show ?case by (intro exI [of _ s']) auto
qed

text \<open>\<^verbatim>\<open>mm_destroy\<close> frees every descriptor of the address space once, and no other.\<close>

lemma mm_destroy_ok:
  assumes "areas s m vs" and "mm_count (mms s m) = 0"
  shows "\<exists>s'. mm_destroy s m = kret s' \<and> mm_live s' = (mm_live s)(m := False) \<and>
    (\<forall>v. vma_live s' v \<longleftrightarrow> vma_live s v \<and> v \<notin> set vs) \<and> vmem s' = vmem s"
  using destroy_loop_ok [OF areasD(2) [OF assms(1)]] areasD(1,4,7) [OF assms(1)] assms(2)
  by (auto simp: mm_destroy_def kfree_mm_def)

lemma ROUNDDOWN_same: "a mod PGSIZE = 0 \<Longrightarrow> ROUNDDOWN a PGSIZE = a"
  by (simp add: ROUNDDOWN_def)

lemma ROUNDUP_same:
  assumes "a mod PGSIZE = 0" and "a \<le> 0xB0000000"
  shows "ROUNDUP a PGSIZE = a"
proof -
  have a: "unat a \<le> 2952790016" using assms(2) by (simp add: word_le_nat_alt)
  have "unat a mod 4096 = 0" using assms(1) by (simp add: word_unat_eq_iff unat_mod)
  then have "(4095 + unat a) div 4096 * 4096 = unat a" by (auto simp: mod_eq_0_iff_dvd elim!: dvdE)
  then have "unat (ROUNDUP a PGSIZE) = unat a" using unat_ROUNDUP [of PGSIZE a] a by simp
  then show ?thesis by (simp add: word_unat_eq_iff)
qed

text \<open>\<^verbatim>\<open>mm_brk\<close> relies on \<^verbatim>\<open>mm_unmap\<close> to make room, but \<^verbatim>\<open>mm_unmap\<close> does nothing when the first page is
  free; growing the area below then makes it overlap an area further up.\<close>

lemma mm_brk_overlaps:
  assumes ar: "areas s m vs" and r: "start = ROUNDDOWN addr PGSIZE" "end = ROUNDUP (addr + len) PGSIZE" "USER_ACCESS start end"
    and free: "space s vs start = None" and v: "area_at s vs (start - 1) = Some v" "vm_end (vmas s v) = start" "vm_flags (vmas s v) = 3"
    and w: "w \<in> set vs" "start < vm_start (vmas s w)" "vm_start (vmas s w) < end"
  shows "\<exists>s' a. mm_brk km s m addr len = kret (0, s') \<and> v \<noteq> w \<and> w \<in> set vs \<and>
    covers (vmas s' v) a \<and> covers (vmas s' w) a"
proof -
  note A = areasD [OF ar]
  let ?s = "cached m (Some v) s"
  have al: "start mod PGSIZE = 0" "end mod PGSIZE = 0" "end \<le> 0xB0000000" using r by (simp_all add: USER_ACCESS_def)
  have "area_at s vs start = None" using free by (simp add: space_def)
  then have un: "mm_unmap km s (Some m) start (end - start) = kret (0, s)"
    using find_vma_ok [OF ar, of start] r(3) ROUNDDOWN_same [OF al(1)] ROUNDUP_same [OF al(2,3)]
    by (simp add: mm_unmap_def Let_def cached_def)
  have vv: "v \<in> set vs" "vma_live s v" "vm_start (vmas s v) \<le> start - 1"
    using v(1) area_at_Some [OF A(3)] A(4) by (auto simp: covers_def)
  have "mm_brk km s m addr len = kret (0, upd_vma v (\<lambda>x. x\<lparr>vm_end := end\<rparr>) ?s)"
    using un r find_vma_ok [OF ar, of "start - 1"] v vv(2) by (simp add: mm_brk_def Let_def)
  moreover have ne: "v \<noteq> w" using v(2) w(2) vma_ok_less [OF A(6) [OF w(1)]] by auto
  moreover have "vm_start (vmas s v) \<le> vm_start (vmas s w)"
    using vma_ok_less [OF A(6) [OF vv(1)]] v(2) w(2) by simp
  ultimately show ?thesis using w vma_ok_less [OF A(6) [OF w(1)]]
    by (intro exI [of _ "upd_vma v (\<lambda>x. x\<lparr>vm_end := end\<rparr>) ?s"] exI [of _ "vm_start (vmas s w)"])
      (simp add: covers_def upd_vma_def)
qed

end
