(* ===== verification/Spec2Isabelle.thy ===== *)
theory Spec2Isabelle
  imports Ptable Sfs_File Vmm_Proof
begin

text \<open>
  Verification library for HardCore, a teaching kernel for 32-bit x86 in the ucore family.

  \<^bold>\<open>How code is modelled.\<close>  Every C function is a function on an explicit state (theory
  \<open>Prelude\<close>).  A call returns a value of type \<open>'a prog\<close>: \<open>kret x\<close> for a normal return,
  \<open>kpanic p\<close> for a failed \<^verbatim>\<open>assert\<close>, a \<^verbatim>\<open>panic\<close> or an access through a null pointer, and \<open>None\<close>
  when the code does not return.  Structures are records with the fields of the source, 32-bit
  integers are words, and negative \<^verbatim>\<open>E_...\<close> results are integers.  Loops that are not bounded by
  their data are partial functions into the option type; the lemmas named \<open>..._ok\<close> show that
  they return.  No fuel is used.  The intrusive lists of \<^verbatim>\<open>libs/list.h\<close> are next/prev maps over a
  type of list nodes (theory \<open>Clist\<close>), and \<open>dlist h a xs\<close> says that the ring of \<open>a\<close> holds
  exactly \<open>xs\<close>.  Memory that \<^verbatim>\<open>kmalloc\<close> answers is a parameter where the size classes do not
  matter: it answers memory that is not in use, or NULL.  In the scheduler \<open>km_fresh\<close> says just that, and
  \<^verbatim>\<open>schedule\<close>, \<^verbatim>\<open>wakeup_proc\<close> and \<^verbatim>\<open>up\<close> are shown to dereference a null pointer in exactly the case that they
  need a queue node and get none; ticks of the timers and the waking of a whole queue are shown under \<open>km_ok\<close>, which
  says that there is memory.

  \<^bold>\<open>Physical memory\<close> (\<^verbatim>\<open>kern/mm\<close>).  \<open>Pages\<close> has the page descriptors, \<open>Pmm_Manager\<close> the interface
  of a page manager as a locale, and \<open>Default_Pmm\<close> the free list manager of \<^verbatim>\<open>default_pmm.c\<close> with first,
  best and worst fit: initialisation, allocation, freeing with merging, and that every run of calls
  hands out disjoint blocks.  \<open>Swap\<close> has the replacement policies of \<^verbatim>\<open>swap_fifo.c\<close>, swapping
  out and in (\<^verbatim>\<open>swap.c\<close>, \<^verbatim>\<open>swapfs.c\<close>) and the allocator front end of \<^verbatim>\<open>pmm.c\<close>, which evicts when memory is
  short.  \<open>Paging\<close> has the two-level page tables of \<^verbatim>\<open>pmm.c\<close>; its abstraction maps a directory and a page
  number to a page, and inserting, copying, unmapping and tearing down ranges are shown against
  it together with the reference counts.

  \<^bold>\<open>Virtual memory\<close> (\<^verbatim>\<open>kern/mm/vmm.c\<close>).  \<open>Vmm\<close> models every operation on memory areas; the
  abstraction \<open>space\<close> maps addresses to flags.  \<open>Vmm\<close> and \<open>Vmm_Proof\<close> show mapping, unmapping,
  access checks, duplication, exit and page faults against it.

  \<^bold>\<open>Scheduling\<close> (\<^verbatim>\<open>kern/schedule\<close>).  \<open>Rbtree\<close> and \<open>Rbtree_Proof\<close> have the red-black tree of \<^verbatim>\<open>libs\<close>
  with insertion, deletion, traversal and the bound on the length of a search in every tree these operations build; \<open>Proc\<close> the process descriptor; \<open>Runqueue\<close> the
  stride and CFS run queues on the tree, behind a locale that \<open>Sched\<close> uses for \<^verbatim>\<open>schedule\<close>, \<^verbatim>\<open>wakeup_proc\<close>
  and the kernel timers.

  \<^bold>\<open>Synchronisation\<close> (\<^verbatim>\<open>kern/sync\<close>).  \<open>Sync\<close> has wait queues, semaphores and monitors on top of the
  scheduler; the step relation \<open>sync_step\<close> interleaves the halves of \<^verbatim>\<open>down\<close> of several processes on any number of semaphores
  with waiting on and waking the other queues, and \<open>sync_ok\<close> is the invariant that gives mutual exclusion.  The semaphores
  are initialised at the start of a run; a process uses a semaphore as a lock, so \<^verbatim>\<open>up\<close> is called for a holder.

  \<^bold>\<open>Process table\<close> (\<^verbatim>\<open>kern/process/proc.c\<close>).  \<open>Ptable\<close> has the list of all processes, the hash lists by
  process number, the pointers between parents, children and siblings, \<^verbatim>\<open>get_pid\<close>, the parts of \<^verbatim>\<open>do_fork\<close>,
  \<^verbatim>\<open>do_exit\<close> and \<^verbatim>\<open>do_wait\<close> that change them, and \<^verbatim>\<open>do_kill\<close>.  The invariant \<open>table_ok\<close> ties all of them to one
  list of processes, and the step relation \<open>pstep\<close> keeps it; \<^verbatim>\<open>get_pid\<close> returns with a fresh number; and a
  process that had to sleep in \<^verbatim>\<open>do_wait\<close> does not get the exit code of its child.

  \<^bold>\<open>File system\<close> (\<^verbatim>\<open>kern/fs\<close>).  \<open>Bitmap\<close> has the free map; \<open>Disk\<close> the transfer buffers and the disk
  device down to the sector loops of the driver.  \<open>Sfs\<close> has the simple file system's block transfers
  (\<^verbatim>\<open>sfs_io.c\<close>) and its operations on the blocks and the contents of a file (\<^verbatim>\<open>sfs_inode.c\<close>), with the structures on disk as
  byte encodings.  \<open>Sfs_Map\<close> has the invariants of a file system and of the block map of a file and shows
  that allocating, freeing and loading blocks keep them; \<open>Sfs_File\<close> shows reading and writing through \<^verbatim>\<open>sfs_io\<close>
  against the contents of the file as a list of bytes.

  \<^bold>\<open>Library code\<close> (\<^verbatim>\<open>libs\<close>).  \<open>Strings\<close> has \<^verbatim>\<open>string.c\<close> with the assembly versions, \<^verbatim>\<open>hash.c\<close> and
  \<^verbatim>\<open>rand.c\<close>.

  \<^bold>\<open>Not modelled.\<close>  Boot code, interrupt and trap entry, the console, the interrupt controller,
  the clock and the debugger are register and port accesses.  The self tests (\<^verbatim>\<open>check_...\<close>) and
  the user programs are tests.  \<^verbatim>\<open>tools/\<close> holds programs of the build machine.  \<^verbatim>\<open>kmalloc.c\<close> is a parameter
  as said above, and \<^verbatim>\<open>buddy.c\<close> is a page manager the kernel does not select.  The descriptor table of a process
  (\<^verbatim>\<open>file.c\<close>), the virtual file system with its tables of function pointers, path resolution, and the
  directories, the loading of inodes and the mounting of the simple file system are left out, as are the parts of \<^verbatim>\<open>do_fork\<close>,
  \<^verbatim>\<open>do_clone\<close>, \<^verbatim>\<open>do_exit\<close> and \<^verbatim>\<open>do_execve\<close> that combine memory, files and the process table, whose models have
  separate states.
\<close>

end
